(* ===== verification/Prelude.thy ===== *)
theory Prelude
  imports Main "HOL-Library.Word" "HOL-Library.Multiset"
begin

text \<open>
  Shared vocabulary of the development: the machine types of
  \<^verbatim>\<open>include/core/primitives.h\<close>, the C++ failures a function can end in, the
  result type that makes them values, and generic lemmas on lists, words and bytes.

  \<^item> A function that may throw returns \<open>exn + 'a\<close>: \<open>Inl e\<close> is the thrown exception,
    \<open>Inr x\<close> the returned value. A violated \<^verbatim>\<open>assert\<close> is \<open>Inl Assert_failed\<close> and an
    access outside a buffer is \<open>Inl Undefined_behaviour\<close>, so that nothing about them is
    hidden in an unspecified HOL value.
  \<^item> \<open>bind_result\<close> sequences two such computations.
\<close>

unbundle bit_operations_syntax

section \<open>Machine types\<close>

type_synonym byte = "8 word"
type_synonym uint16 = "16 word"
type_synonym uint32 = "32 word"
type_synonym uint64 = "64 word"

section \<open>Failures and results\<close>

datatype exn =
    Out_of_range
  | Invalid_argument
  | Overflow_error
  | Underflow_error
  | Runtime_error
  | Length_error
  | Block_error
  | Ascee_error nat
  | Assert_failed
  | Undefined_behaviour

type_synonym 'a result = "exn + 'a"

definition bind_result :: "'a result \<Rightarrow> ('a \<Rightarrow> 'b result) \<Rightarrow> 'b result" where
  "bind_result r f = (case r of Inl e \<Rightarrow> Inl e | Inr x \<Rightarrow> f x)"

lemma bind_result_simps [simp]:
  "bind_result (Inl e) f = Inl e"
  "bind_result (Inr x) f = f x"
  by (simp_all add: bind_result_def)

lemma bind_result_Inr_iff:
  "bind_result r f = Inr y \<longleftrightarrow> (\<exists>x. r = Inr x \<and> f x = Inr y)"
  by (cases r) auto

lemma bind_result_Inl_iff:
  "bind_result r f = Inl e \<longleftrightarrow> r = Inl e \<or> (\<exists>x. r = Inr x \<and> f x = Inl e)"
  by (cases r) auto

lemma bind_result_cong [fundef_cong]:
  "r = r' \<Longrightarrow> (\<And>x. r' = Inr x \<Longrightarrow> f x = g x) \<Longrightarrow> bind_result r f = bind_result r' g"
  by (cases r') auto

lemma bind_result_assoc:
  "bind_result (bind_result r f) g = bind_result r (\<lambda>x. bind_result (f x) g)"
  by (cases r) auto

text \<open>\<open>require P e\<close> is the guard \<^verbatim>\<open>if (!P) throw e\<close>.\<close>

definition require :: "bool \<Rightarrow> exn \<Rightarrow> unit result" where
  "require P e = (if P then Inr () else Inl e)"

lemma require_simps [simp]:
  "require True e = Inr ()"
  "require False e = Inl e"
  by (simp_all add: require_def)

lemma require_Inr_iff [simp]: "require P e = Inr u \<longleftrightarrow> P"
  by (simp add: require_def)

lemma require_Inl_iff [simp]: "require P e = Inl e' \<longleftrightarrow> \<not> P \<and> e' = e"
  by (auto simp: require_def)

definition is_ok :: "'a result \<Rightarrow> bool" where
  "is_ok r = (case r of Inl _ \<Rightarrow> False | Inr _ \<Rightarrow> True)"

lemma is_ok_simps [simp]: "is_ok (Inr x)" "\<not> is_ok (Inl e)"
  by (simp_all add: is_ok_def)

section \<open>Big-endian values of byte strings\<close>

fun be_value :: "byte list \<Rightarrow> nat" where
  "be_value [] = 0"
| "be_value (b # bs) = unat b * 256 ^ length bs + be_value bs"

lemma be_value_append:
  "be_value (xs @ ys) = be_value xs * 256 ^ length ys + be_value ys"
  by (induction xs) (simp_all add: power_add algebra_simps)

lemma unat_byte_lt: "unat (b :: byte) < 256"
proof -
  have "unat b < 2 ^ LENGTH(8)" by (rule unsigned_less)
  then show ?thesis by simp
qed

lemma unat_byte_le: "unat (b :: byte) \<le> 255"
  using unat_byte_lt [of b] by simp

lemma be_value_lt: "be_value bs < 256 ^ length bs"
proof (induction bs)
  case Nil
  then show ?case by simp
next
  case (Cons b bs)
  have "unat b * 256 ^ length bs + be_value bs < unat b * 256 ^ length bs + 256 ^ length bs"
    using Cons.IH by simp
  also have "\<dots> = (unat b + 1) * 256 ^ length bs" by (simp add: algebra_simps)
  also have "\<dots> \<le> 256 * 256 ^ length bs"
    by (rule mult_right_mono) (use unat_byte_lt [of b] in auto)
  finally show ?case by simp
qed

lemma be_value_inject:
  "length xs = length ys \<Longrightarrow> be_value xs = be_value ys \<Longrightarrow> xs = ys"
proof (induction xs ys rule: list_induct2)
  case Nil
  then show ?case by simp
next
  case (Cons x xs y ys)
  have lt: "be_value xs < 256 ^ length ys" "be_value ys < 256 ^ length ys"
    using be_value_lt [of xs] be_value_lt [of ys] Cons.hyps by simp_all
  have eq: "unat x * 256 ^ length ys + be_value xs = unat y * 256 ^ length ys + be_value ys"
    using Cons.prems Cons.hyps by simp
  have "(unat x * 256 ^ length ys + be_value xs) div 256 ^ length ys = unat x"
    using lt by simp
  moreover have "(unat y * 256 ^ length ys + be_value ys) div 256 ^ length ys = unat y"
    using lt by simp
  ultimately have "unat x = unat y" using eq by simp
  then show ?case using eq Cons.IH by (simp add: word_unat_eq_iff)
qed

section \<open>Lists\<close>

lemma take_Suc_drop_nth:
  "p + i < length xs \<Longrightarrow> take (Suc i) (drop p xs) = take i (drop p xs) @ [xs ! (p + i)]"
  by (subst take_Suc_conv_app_nth) (simp_all add: add.commute)

text \<open>Overwriting a run of a buffer, the effect of \<^verbatim>\<open>memcpy(buf + off, data, length data)\<close>.\<close>

definition overwrite :: "nat \<Rightarrow> 'a list \<Rightarrow> 'a list \<Rightarrow> 'a list" where
  "overwrite off new buf = take off buf @ new @ drop (off + length new) buf"

lemma length_overwrite [simp]:
  "off + length new \<le> length buf \<Longrightarrow> length (overwrite off new buf) = length buf"
  by (simp add: overwrite_def)

lemma nth_overwrite:
  assumes "off + length new \<le> length buf" and "k < length buf"
  shows "overwrite off new buf ! k =
    (if off \<le> k \<and> k < off + length new then new ! (k - off) else buf ! k)"
  using assms by (auto simp: overwrite_def nth_append)

lemma overwrite_self_slice:
  assumes "off + length new \<le> length buf"
  shows "take (length new) (drop off (overwrite off new buf)) = new"
  using assms by (simp add: overwrite_def)

lemma overwrite_nil [simp]: "overwrite off [] buf = buf"
  by (simp add: overwrite_def)

lemma overwrite_disjoint_commute:
  assumes "o1 + length n1 \<le> length buf" "o2 + length n2 \<le> length buf"
    and "o1 + length n1 \<le> o2 \<or> o2 + length n2 \<le> o1"
  shows "overwrite o1 n1 (overwrite o2 n2 buf) = overwrite o2 n2 (overwrite o1 n1 buf)"
  using assms by (intro nth_equalityI) (auto simp: nth_overwrite)

text \<open>A run of a buffer, the bytes \<^verbatim>\<open>memcpy(dst, buf + off, n)\<close> reads.\<close>

definition slice_of :: "nat \<Rightarrow> nat \<Rightarrow> 'a list \<Rightarrow> 'a list" where
  "slice_of off n buf = take n (drop off buf)"

lemma length_slice_of [simp]: "off + n \<le> length buf \<Longrightarrow> length (slice_of off n buf) = n"
  by (simp add: slice_of_def)

lemma nth_slice_of:
  "off + n \<le> length buf \<Longrightarrow> k < n \<Longrightarrow> slice_of off n buf ! k = buf ! (off + k)"
  by (simp add: slice_of_def)

lemma slice_overwrite_same:
  "off + length new \<le> length buf \<Longrightarrow> slice_of off (length new) (overwrite off new buf) = new"
  by (simp add: slice_of_def overwrite_self_slice)

lemma slice_overwrite_disjoint:
  assumes "o1 + length new \<le> length buf" "o2 + n \<le> length buf"
    and "o1 + length new \<le> o2 \<or> o2 + n \<le> o1"
  shows "slice_of o2 n (overwrite o1 new buf) = slice_of o2 n buf"
  using assms by (intro nth_equalityI) (auto simp: nth_slice_of nth_overwrite)

end
