(* ===== verification/Prefix_Trie.thy ===== *)
theory Prefix_Trie
  imports Prelude
begin

text \<open>
  The prefix codes of \<^verbatim>\<open>src/util/PrefixTrie.hpp\<close>, for any unsigned type \<open>'a word\<close>
  whose width is a multiple of eight (the code uses \<^verbatim>\<open>uint32_t\<close> and \<^verbatim>\<open>uint64_t\<close>).
  The class template's three arrays are the fields of \<open>ptrie\<close>; \<^verbatim>\<open>height\<close> is their length.
  A \<^verbatim>\<open>const byte*\<close> is a buffer and a position in it, and a read past the buffer is
  \<open>Undefined_behaviour\<close>. An output parameter (\<^verbatim>\<open>len\<close>, \<^verbatim>\<open>reader\<close>) is part of the result.

  The proofs work on natural numbers: \<open>tb t i\<close> is the first code of level \<open>i\<close> that is not a
  code word, \<open>ts t i\<close> the number of code words up to level \<open>i\<close>, and \<open>wf_trie\<close> collects what
  the constructor establishes about them.
\<close>

section \<open>The class\<close>

record 'w ptrie =
  pt_boundary :: "'w list"
  pt_sum :: "'w list"
  pt_trie :: "'w list"

definition height :: "'w ptrie \<Rightarrow> nat" where
  "height t = length (pt_trie t)"

definition sizeof_word :: "'a::len word itself \<Rightarrow> nat" where
  "sizeof_word _ = LENGTH('a) div 8"

text \<open>\<^verbatim>\<open>(sizeof(T) - i - 1) * 8\<close>\<close>

definition byte_shift :: "'a::len word itself \<Rightarrow> nat \<Rightarrow> nat" where
  "byte_shift T i = (sizeof_word T - i - 1) * 8"

fun trie_sum :: "'a::len word list \<Rightarrow> nat \<Rightarrow> 'a word" where
  "trie_sum ts 0 = ts ! 0"
| "trie_sum ts (Suc i) = trie_sum ts i + ts ! Suc i - push_bit 8 (ts ! i)"

text \<open>The constructor; a boundary smaller than the one before it is a malformed trie.\<close>

definition PrefixTrie :: "'a::len word list \<Rightarrow> 'a word ptrie result" where
  "PrefixTrie xs =
    (let n = length xs;
         ts = map (\<lambda>i. xs ! i AND drop_bit (byte_shift TYPE('a word) i) (NOT 0)) [0..<n];
         bs = map (\<lambda>i. push_bit (byte_shift TYPE('a word) i) (xs ! i)) [0..<n]
     in if \<forall>i \<in> {1..<n}. bs ! (i - 1) \<le> bs ! i
        then Inr \<lparr>pt_boundary = bs, pt_sum = map (trie_sum ts) [0..<n], pt_trie = ts\<rparr>
        else Inl Invalid_argument)"

section \<open>Reading codes\<close>

text \<open>The loop both \<^verbatim>\<open>readPrefixCode\<close> overloads on byte pointers run from \<open>binary[i]\<close> on.\<close>

function readPrefixCode_loop ::
  "'a::len word ptrie \<Rightarrow> byte list \<Rightarrow> nat \<Rightarrow> nat \<Rightarrow> nat \<Rightarrow> 'a word \<Rightarrow> ('a word \<times> nat) result" where
  "readPrefixCode_loop t buf p m i code =
    (if i < m then
       (if p + i < length buf then
          (let code' = code OR push_bit (byte_shift TYPE('a word) i) (ucast (buf ! (p + i)))
           in if code' < pt_boundary t ! i then Inr (code', i + 1)
              else readPrefixCode_loop t buf p m (i + 1) code')
        else Inl Undefined_behaviour)
     else Inl Out_of_range)"
  by pat_completeness auto
termination
  by (relation "measure (\<lambda>(t, buf, p, m, i, code). m - i)") auto

declare readPrefixCode_loop.simps [simp del]

text \<open>\<^verbatim>\<open>readPrefixCode(const byte* binary, int32_t* len, int maxLength)\<close>\<close>

definition readPrefixCode_ptr ::
  "'a::len word ptrie \<Rightarrow> byte list \<Rightarrow> nat \<Rightarrow> int \<Rightarrow> ('a word \<times> nat) result" where
  "readPrefixCode_ptr t buf p maxLength =
    readPrefixCode_loop t buf p
      (nat (if maxLength > int (height t) then int (height t) else maxLength)) 0 0"

text \<open>\<^verbatim>\<open>readPrefixCode(const byte** reader, const byte* end)\<close>: the code and the moved reader.\<close>

definition readPrefixCode_reader ::
  "'a::len word ptrie \<Rightarrow> byte list \<Rightarrow> nat \<Rightarrow> nat option \<Rightarrow> ('a word \<times> nat) result" where
  "readPrefixCode_reader t buf reader end =
    (let end' = (case end of Some e \<Rightarrow> min e (reader + height t) | None \<Rightarrow> reader + height t)
     in bind_result (readPrefixCode_loop t buf reader (end' - reader) 0 0)
          (\<lambda>(code, n). Inr (code, reader + n)))"

text \<open>\<^verbatim>\<open>readPrefixCode(T binary, int32_t* len, int maxLength)\<close>: the code in the high-order bytes.\<close>

function readPrefixCode_fixed_loop ::
  "'a::len word ptrie \<Rightarrow> 'a word \<Rightarrow> nat \<Rightarrow> nat \<Rightarrow> ('a word \<times> nat) result" where
  "readPrefixCode_fixed_loop t binary m i =
    (if i < m then
       (if binary < pt_boundary t ! i
        then Inr (binary AND push_bit (byte_shift TYPE('a word) i) (NOT 0), i + 1)
        else readPrefixCode_fixed_loop t binary m (i + 1))
     else Inl Out_of_range)"
  by pat_completeness auto
termination
  by (relation "measure (\<lambda>(t, binary, m, i). m - i)") auto

declare readPrefixCode_fixed_loop.simps [simp del]

definition readPrefixCode_fixed ::
  "'a::len word ptrie \<Rightarrow> 'a word \<Rightarrow> int \<Rightarrow> ('a word \<times> nat) result" where
  "readPrefixCode_fixed t binary maxLength =
    readPrefixCode_fixed_loop t binary
      (nat (if maxLength > int (height t) then int (height t) else maxLength)) 0"

text \<open>\<^verbatim>\<open>equals\<close>: the answer and the two moved pointers.\<close>

function equals_loop ::
  "'a::len word ptrie \<Rightarrow> byte list \<Rightarrow> nat \<Rightarrow> byte list \<Rightarrow> nat \<Rightarrow> nat \<Rightarrow> nat \<Rightarrow> 'a word
   \<Rightarrow> (bool \<times> nat \<times> nat) result" where
  "equals_loop t a pa b pb m i code =
    (if i < m then
       (if pa + i < length a \<and> pb + i < length b then
          (if a ! (pa + i) \<noteq> b ! (pb + i) then Inr (False, pa, pb)
           else
             (let code' = code OR push_bit (byte_shift TYPE('a word) i) (ucast (a ! (pa + i)))
              in if code' < pt_boundary t ! i then Inr (True, pa + i + 1, pb + i + 1)
                 else equals_loop t a pa b pb m (i + 1) code'))
        else Inl Undefined_behaviour)
     else Inl Out_of_range)"
  by pat_completeness auto
termination
  by (relation "measure (\<lambda>(t, a, pa, b, pb, m, i, code). m - i)") auto

declare equals_loop.simps [simp del]

definition equals ::
  "'a::len word ptrie \<Rightarrow> byte list \<Rightarrow> nat \<Rightarrow> byte list \<Rightarrow> nat \<Rightarrow> int \<Rightarrow> (bool \<times> nat \<times> nat) result" where
  "equals t a pa b pb maxLength =
    equals_loop t a pa b pb
      (nat (if maxLength > int (height t) then int (height t) else maxLength)) 0 0"

section \<open>Variable-length integers\<close>

function encodeVarUInt_loop ::
  "'a::len word ptrie \<Rightarrow> 'a word \<Rightarrow> nat \<Rightarrow> ('a word \<times> nat) result" where
  "encodeVarUInt_loop t value i =
    (if i < height t then
       (if value < pt_sum t ! i
        then Inr (push_bit (byte_shift TYPE('a word) i)
                    (pt_trie t ! i - (pt_sum t ! i - value)), i + 1)
        else encodeVarUInt_loop t value (i + 1))
     else Inl Overflow_error)"
  by pat_completeness auto
termination
  by (relation "measure (\<lambda>(t, value, i). height t - i)") auto

declare encodeVarUInt_loop.simps [simp del]

definition encodeVarUInt :: "'a::len word ptrie \<Rightarrow> 'a word \<Rightarrow> ('a word \<times> nat) result" where
  "encodeVarUInt t value = encodeVarUInt_loop t value 0"

text \<open>What \<^verbatim>\<open>decodeVarUInt\<close> does with the code it has read and its length \<open>n\<close>.\<close>

definition decode_code :: "'a::len word ptrie \<Rightarrow> 'a word \<Rightarrow> nat \<Rightarrow> 'a word" where
  "decode_code t code n =
    pt_sum t ! (n - 1) + drop_bit ((sizeof_word TYPE('a word) - n) * 8) code - pt_trie t ! (n - 1)"

definition decodeVarUInt_ptr ::
  "'a::len word ptrie \<Rightarrow> byte list \<Rightarrow> nat \<Rightarrow> int \<Rightarrow> ('a word \<times> nat) result" where
  "decodeVarUInt_ptr t buf p maxLength =
    bind_result (readPrefixCode_ptr t buf p maxLength) (\<lambda>(code, n). Inr (decode_code t code n, n))"

definition decodeVarUInt_fixed ::
  "'a::len word ptrie \<Rightarrow> 'a word \<Rightarrow> int \<Rightarrow> ('a word \<times> nat) result" where
  "decodeVarUInt_fixed t binary maxLength =
    bind_result (readPrefixCode_fixed t binary maxLength)
      (\<lambda>(code, n). Inr (decode_code t code n, n))"

text \<open>\<^verbatim>\<open>decodeVarUInt(const byte** reader, const byte* end)\<close>\<close>

definition decodeVarUInt_reader ::
  "'a::len word ptrie \<Rightarrow> byte list \<Rightarrow> nat \<Rightarrow> nat \<Rightarrow> ('a word \<times> nat) result" where
  "decodeVarUInt_reader t buf reader end =
    bind_result (decodeVarUInt_ptr t buf reader (int end - int reader))
      (\<lambda>(v, n). Inr (v, reader + n))"

text \<open>\<^verbatim>\<open>decodeVarUInt(const byte** reader)\<close>, with the default bound \<^verbatim>\<open>height\<close>\<close>

definition decodeVarUInt_unbounded ::
  "'a::len word ptrie \<Rightarrow> byte list \<Rightarrow> nat \<Rightarrow> ('a word \<times> nat) result" where
  "decodeVarUInt_unbounded t buf reader =
    bind_result (decodeVarUInt_ptr t buf reader (int (height t)))
      (\<lambda>(v, n). Inr (v, reader + n))"

text \<open>The \<open>n\<close> bytes \<^verbatim>\<open>writeBigEndian\<close> stores at its destination.\<close>

definition writeBigEndian :: "'a::len word \<Rightarrow> nat \<Rightarrow> byte list" where
  "writeBigEndian value n =
    map (\<lambda>i. ucast (drop_bit (byte_shift TYPE('a word) i) value)) [0..<n]"

section \<open>What the constructor establishes\<close>

definition tb :: "'a::len word ptrie \<Rightarrow> nat \<Rightarrow> nat" where
  "tb t i = unat (pt_trie t ! i)"

definition ts :: "'a::len word ptrie \<Rightarrow> nat \<Rightarrow> nat" where
  "ts t i = unat (pt_sum t ! i)"

definition wf_trie :: "'a::len word ptrie \<Rightarrow> bool" where
  "wf_trie t \<longleftrightarrow>
     LENGTH('a) = 8 * sizeof_word TYPE('a word) \<and>
     0 < height t \<and> height t \<le> sizeof_word TYPE('a word) \<and>
     (\<forall>i < height t. unat (pt_boundary t ! i) = tb t i * 256 ^ (sizeof_word TYPE('a word) - i - 1)) \<and>
     (\<forall>i < height t. tb t i < 256 ^ Suc i) \<and>
     (\<forall>i. Suc i < height t \<longrightarrow> 256 * tb t i \<le> tb t (Suc i)) \<and>
     ts t 0 = tb t 0 \<and>
     (\<forall>i. Suc i < height t \<longrightarrow> ts t (Suc i) + 256 * tb t i = ts t i + tb t (Suc i)) \<and>
     (\<forall>i < height t. ts t i \<le> tb t i)"

text \<open>The word operations of the class, on natural numbers.\<close>

lemma two_power_bytes: "(2 :: nat) ^ (8 * k) = 256 ^ k" "(2 :: nat) ^ (k * 8) = 256 ^ k"
  by (simp_all add: power_mult mult.commute [of k 8])

lemma unat_push_bytes:
  fixes w :: "'a::len word"
  assumes "unat w * 256 ^ k < 2 ^ LENGTH('a)"
  shows "unat (push_bit (k * 8) w) = unat w * 256 ^ k"
proof -
  have "unat (push_bit (k * 8) w) = take_bit LENGTH('a) (push_bit (k * 8) (unat w))"
    by (rule unsigned_push_bit_eq)
  also have "\<dots> = unat w * 256 ^ k mod 2 ^ LENGTH('a)"
    by (simp only: push_bit_eq_mult take_bit_eq_mod two_power_bytes)
  also have "\<dots> = unat w * 256 ^ k" using assms by (rule mod_less)
  finally show ?thesis .
qed

lemma unat_drop_bytes: "unat (drop_bit (k * 8) w) = unat w div 256 ^ k"
  by (simp only: unat_drop_bit_eq) (simp only: drop_bit_eq_div two_power_bytes)

lemma unat_high_boundary:
  fixes w :: "'a::len word"
  assumes "LENGTH('a) = 8 * s" and "i < s"
  shows "unat (push_bit ((s - i - 1) * 8) w) = (unat w mod 256 ^ Suc i) * 256 ^ (s - i - 1)"
proof -
  have s: "s = Suc i + (s - i - 1)" using assms(2) by simp
  have p: "(2::nat) ^ LENGTH('a) = 256 ^ Suc i * 256 ^ (s - i - 1)"
    by (subst assms(1), subst s) (simp only: two_power_bytes power_add)
  have "unat (push_bit ((s - i - 1) * 8) w) = take_bit LENGTH('a) (push_bit ((s - i - 1) * 8) (unat w))"
    by (rule unsigned_push_bit_eq)
  also have "\<dots> = unat w * 256 ^ (s - i - 1) mod (256 ^ Suc i * 256 ^ (s - i - 1))"
    by (simp only: push_bit_eq_mult take_bit_eq_mod two_power_bytes p)
  also have "\<dots> = (unat w mod 256 ^ Suc i) * 256 ^ (s - i - 1)"
    by (rule mult_mod_left [symmetric])
  finally show ?thesis .
qed

lemma unat_low_mask:
  fixes w :: "'a::len word"
  assumes "LENGTH('a) = 8 * s" and "i < s"
  shows "unat (w AND drop_bit ((s - i - 1) * 8) (NOT 0)) = unat w mod 256 ^ Suc i"
proof -
  have "LENGTH('a) = (s - i - 1) * 8 + 8 * Suc i" using assms by (simp add: algebra_simps)
  then have "drop_bit ((s - i - 1) * 8) (NOT 0) = (mask (8 * Suc i) :: 'a word)"
    by (intro bit_word_eqI) (simp add: bit_simps)
  then have "w AND drop_bit ((s - i - 1) * 8) (NOT 0) = take_bit (8 * Suc i) w"
    by (simp add: take_bit_eq_mask)
  then have "unat (w AND drop_bit ((s - i - 1) * 8) (NOT 0)) = take_bit (8 * Suc i) (unat w)"
    by (simp only: unsigned_take_bit_eq)
  then show ?thesis by (simp only: take_bit_eq_mod two_power_bytes)
qed

text \<open>The sums never wrap: level \<open>i\<close> has at most \<open>tb t i\<close> code words up to it.\<close>

lemma trie_sum_nat:
  fixes xs :: "'a::len word list"
  assumes "\<And>j. Suc j \<le> i \<Longrightarrow> 256 * unat (xs ! j) \<le> unat (xs ! Suc j)"
  shows "unat (trie_sum xs i) \<le> unat (xs ! i) \<and>
    (\<forall>j. Suc j \<le> i \<longrightarrow>
      unat (trie_sum xs (Suc j)) + 256 * unat (xs ! j) = unat (trie_sum xs j) + unat (xs ! Suc j))"
  using assms
proof (induction i)
  case 0
  then show ?case by simp
next
  case (Suc i)
  then have IH: "unat (trie_sum xs i) \<le> unat (xs ! i)"
    "\<forall>j. Suc j \<le> i \<longrightarrow>
      unat (trie_sum xs (Suc j)) + 256 * unat (xs ! j) = unat (trie_sum xs j) + unat (xs ! Suc j)"
    by simp_all
  have le: "256 * unat (xs ! i) \<le> unat (xs ! Suc i)" using Suc.prems by simp
  define v where "v = unat (trie_sum xs i) + unat (xs ! Suc i) - 256 * unat (xs ! i)"
  have v: "v + 256 * unat (xs ! i) = unat (trie_sum xs i) + unat (xs ! Suc i)"
    using le by (simp add: v_def)
  have vle: "v \<le> unat (xs ! Suc i)" using IH(1) v by simp
  have pb: "push_bit 8 (xs ! i) = 256 * xs ! i"
    by (simp add: push_bit_eq_mult mult.commute)
  have "trie_sum xs (Suc i) = word_of_nat (unat (trie_sum xs i)) + word_of_nat (unat (xs ! Suc i))
      - word_of_nat (256 * unat (xs ! i))"
    by (simp add: pb)
  also have "\<dots> = word_of_nat (v + 256 * unat (xs ! i)) - word_of_nat (256 * unat (xs ! i))"
    by (simp only: v of_nat_add)
  also have "\<dots> = word_of_nat v" by simp
  finally have "unat (trie_sum xs (Suc i)) = v"
    using order.strict_trans1 [OF vle unsigned_less [of "xs ! Suc i"]]
    by (simp add: unat_of_nat)
  with v vle IH(2) show ?case by (auto simp: le_Suc_eq)
qed

lemma sizeof_word_pos_shift:
  "byte_shift TYPE('a::len word) i = (sizeof_word TYPE('a word) - i - 1) * 8"
  by (simp add: byte_shift_def)

lemma wf_PrefixTrie:
  fixes xs :: "'a::len word list"
  assumes ok: "PrefixTrie xs = Inr t"
    and width: "LENGTH('a) = 8 * sizeof_word TYPE('a word)"
    and h: "0 < length xs" "length xs \<le> sizeof_word TYPE('a word)"
  shows "wf_trie t"
proof -
  let ?n = "length xs" and ?s = "sizeof_word TYPE('a word)"
  define us where "us = map (\<lambda>i. xs ! i AND drop_bit (byte_shift TYPE('a word) i) (NOT 0)) [0..<?n]"
  define bs where "bs = map (\<lambda>i. push_bit (byte_shift TYPE('a word) i) (xs ! i)) [0..<?n]"
  have "PrefixTrie xs =
    (if \<forall>i \<in> {1..<?n}. bs ! (i - 1) \<le> bs ! i
     then Inr \<lparr>pt_boundary = bs, pt_sum = map (trie_sum us) [0..<?n], pt_trie = us\<rparr>
     else Inl Invalid_argument)"
    by (simp only: PrefixTrie_def Let_def us_def bs_def)
  with ok have t: "t = \<lparr>pt_boundary = bs, pt_sum = map (trie_sum us) [0..<?n], pt_trie = us\<rparr>"
    and mono: "\<And>i. 1 \<le> i \<Longrightarrow> i < ?n \<Longrightarrow> bs ! (i - 1) \<le> bs ! i"
    by (auto split: if_splits)
  have u: "unat (us ! i) = unat (xs ! i) mod 256 ^ Suc i" if "i < ?n" for i
    using that h unat_low_mask [OF width, of i "xs ! i"]
    by (simp add: us_def sizeof_word_pos_shift del: power_Suc)
  have b: "unat (bs ! i) = unat (us ! i) * 256 ^ (?s - i - 1)" if "i < ?n" for i
    using that h unat_high_boundary [OF width, of i "xs ! i"] u [OF that]
    by (simp add: bs_def sizeof_word_pos_shift del: power_Suc)
  have step: "256 * unat (us ! i) \<le> unat (us ! Suc i)" if "Suc i < ?n" for i
  proof -
    from mono [of "Suc i"] that have "unat (bs ! i) \<le> unat (bs ! Suc i)"
      by (simp add: word_le_nat_alt)
    moreover have "?s - i - 1 = Suc (?s - Suc i - 1)" using that h by simp
    ultimately have "(256 * unat (us ! i)) * 256 ^ (?s - Suc i - 1)
        \<le> unat (us ! Suc i) * 256 ^ (?s - Suc i - 1)"
      using b [of i] b [of "Suc i"] that by (simp add: algebra_simps)
    then show ?thesis by simp
  qed
  have sums: "unat (trie_sum us i) \<le> unat (us ! i) \<and>
    (\<forall>j. Suc j \<le> i \<longrightarrow>
      unat (trie_sum us (Suc j)) + 256 * unat (us ! j) = unat (trie_sum us j) + unat (us ! Suc j))"
    if "i < ?n" for i
    by (rule trie_sum_nat) (use step that in simp)
  have "unat (us ! i) < 256 ^ Suc i" if "i < ?n" for i
    using u [OF that] by (simp del: power_Suc)
  moreover have "length us = ?n" "length bs = ?n" by (simp_all add: us_def bs_def)
  moreover have "unat (trie_sum us (Suc i)) + 256 * unat (us ! i)
      = unat (trie_sum us i) + unat (us ! Suc i)" if "Suc i < ?n" for i
    using sums [OF that] by simp
  ultimately show ?thesis
    using width h b step sums
    by (simp add: wf_trie_def t tb_def ts_def height_def del: power_Suc trie_sum.simps(2))
      (simp add: numeral_eq_Suc)?
qed


lemma wf_trieD:
  fixes t :: "'a::len word ptrie"
  assumes "wf_trie t"
  shows "LENGTH('a) = 8 * sizeof_word TYPE('a word)"
    and "0 < height t" and "height t \<le> sizeof_word TYPE('a word)"
    and "i < height t \<Longrightarrow>
      unat (pt_boundary t ! i) = tb t i * 256 ^ (sizeof_word TYPE('a word) - i - 1)"
    and "i < height t \<Longrightarrow> tb t i < 256 ^ Suc i"
    and "Suc i < height t \<Longrightarrow> 256 * tb t i \<le> tb t (Suc i)"
    and "ts t 0 = tb t 0"
    and "Suc i < height t \<Longrightarrow> ts t (Suc i) + 256 * tb t i = ts t i + tb t (Suc i)"
    and "i < height t \<Longrightarrow> ts t i \<le> tb t i"
  using assms by (simp_all add: wf_trie_def del: power_Suc)

lemma tb_chain:
  assumes wf: "wf_trie t" and "j \<le> i" "i < height t"
  shows "tb t j * 256 ^ (i - j) \<le> tb t i"
  using assms(2,3)
proof (induction rule: dec_induct)
  case base
  then show ?case by simp
next
  case (step k)
  then have "256 * (tb t j * 256 ^ (k - j)) \<le> 256 * tb t k" by simp
  also have "\<dots> \<le> tb t (Suc k)" using wf_trieD(6) [OF wf] step.prems by simp
  finally show ?case using step.hyps by (simp add: Suc_diff_le)
qed

lemma ts_mono:
  assumes wf: "wf_trie t" and "j \<le> i" "i < height t"
  shows "ts t j \<le> ts t i"
  using assms(2,3)
proof (induction rule: dec_induct)
  case base
  then show ?case by simp
next
  case (step k)
  then show ?case using wf_trieD(6) [OF wf, of k] wf_trieD(8) [OF wf, of k] by simp
qed

text \<open>What a run of bytes says: level \<open>k\<close> is the first at which it is below the boundary.\<close>

definition code_level :: "'a::len word ptrie \<Rightarrow> byte list \<Rightarrow> nat \<Rightarrow> bool" where
  "code_level t bs k \<longleftrightarrow> be_value (take (Suc k) bs) < tb t k"

lemma find_upt_Some:
  "find P [i..<m] = Some k \<longleftrightarrow> i \<le> k \<and> k < m \<and> P k \<and> (\<forall>j. i \<le> j \<longrightarrow> j < k \<longrightarrow> \<not> P j)"
proof
  assume "find P [i..<m] = Some k"
  then obtain n where n: "n < m - i" "P (i + n)" "k = i + n" "\<forall>j < n. \<not> P (i + j)"
    by (auto simp: find_Some_iff)
  have "\<not> P j" if "i \<le> j" "j < k" for j
    using n(4) [rule_format, of "j - i"] that n(3) by simp
  with n show "i \<le> k \<and> k < m \<and> P k \<and> (\<forall>j. i \<le> j \<longrightarrow> j < k \<longrightarrow> \<not> P j)" by simp
next
  assume "i \<le> k \<and> k < m \<and> P k \<and> (\<forall>j. i \<le> j \<longrightarrow> j < k \<longrightarrow> \<not> P j)"
  then show "find P [i..<m] = Some k"
    unfolding find_Some_iff by (intro exI [of _ "k - i"]) auto
qed

lemma find_upt_None: "find P [i..<m] = None \<longleftrightarrow> (\<forall>j. i \<le> j \<longrightarrow> j < m \<longrightarrow> \<not> P j)"
  by (auto simp: find_None_iff)

lemma be_value_take_Suc:
  assumes "p + i < length buf"
  shows "be_value (take (Suc i) (drop p buf)) = be_value (take i (drop p buf)) * 256 + unat (buf ! (p + i))"
  using assms by (simp add: take_Suc_drop_nth be_value_append)

lemma be_value_take_lt: "be_value (take k bs) < 256 ^ k"
proof -
  have "be_value (take k bs) < 256 ^ length (take k bs)" by (rule be_value_lt)
  also have "\<dots> \<le> 256 ^ k" by (rule power_increasing) simp_all
  finally show ?thesis .
qed

text \<open>The fixed-length form of a code of \<open>n\<close> bytes with value \<open>W\<close>: left-aligned.\<close>

definition left_align :: "nat \<Rightarrow> nat \<Rightarrow> 'a::len word" where
  "left_align n W = word_of_nat (W * 256 ^ (sizeof_word TYPE('a word) - n))"

lemma left_align_0 [simp]: "left_align n 0 = 0"
  by (simp add: left_align_def)

lemma left_align_push:
  "(left_align n W :: 'a::len word) = push_bit ((sizeof_word TYPE('a word) - n) * 8) (word_of_nat W)"
  by (simp only: left_align_def push_bit_eq_mult two_power_bytes(2) [symmetric] of_nat_mult
        of_nat_power of_nat_numeral)

lemma unat_left_align:
  assumes "LENGTH('a::len) = 8 * sizeof_word TYPE('a word)" and "n \<le> sizeof_word TYPE('a word)"
    and "W < 256 ^ n"
  shows "unat (left_align n W :: 'a word) = W * 256 ^ (sizeof_word TYPE('a word) - n)"
proof -
  let ?s = "sizeof_word TYPE('a word)"
  have "W * 256 ^ (?s - n) < 256 ^ n * 256 ^ (?s - n)"
    using assms(3) by (rule mult_strict_right_mono) simp
  also have "\<dots> = 256 ^ (n + (?s - n))" by (simp only: power_add)
  also have "\<dots> = 2 ^ LENGTH('a)" using assms(2) by (simp add: assms(1) two_power_bytes)
  finally show ?thesis by (simp add: left_align_def unat_of_nat del: of_nat_mult)
qed

text \<open>One iteration of the reading loop adds the next byte below the ones read so far.\<close>

lemma or_next_byte:
  fixes b :: byte
  assumes "i < sizeof_word TYPE('a::len word)"
  shows "(left_align i W :: 'a word) OR push_bit ((sizeof_word TYPE('a word) - i - 1) * 8) (ucast b)
    = left_align (Suc i) (W * 256 + unat b)"
proof -
  let ?s = "sizeof_word TYPE('a word)"
  have e: "?s - i = Suc (?s - Suc i)" using assms by simp
  have pb: "push_bit ((?s - i - 1) * 8) (ucast b :: 'a word)
    = word_of_nat (unat b * 256 ^ (?s - Suc i))"
    by (simp add: push_bit_eq_mult two_power_bytes(2) [symmetric])
  have "(left_align i W :: 'a word) OR push_bit ((?s - i - 1) * 8) (ucast b)
    = left_align i W + push_bit ((?s - i - 1) * 8) (ucast b)"
  proof (rule disjunctive_add [symmetric])
    fix n
    show "\<not> bit (left_align i W :: 'a word) n \<or>
      \<not> bit (push_bit ((?s - i - 1) * 8) (ucast b) :: 'a word) n"
      using e by (auto simp: left_align_push bit_simps dest: bit_imp_le_length)
  qed
  also have "\<dots> = left_align (Suc i) (W * 256 + unat b)"
    unfolding pb by (simp only: left_align_def e power_Suc of_nat_add [symmetric] distrib_right mult.assoc)
  finally show ?thesis .
qed

lemma left_align_less_boundary:
  fixes t :: "'a::len word ptrie"
  assumes wf: "wf_trie t" and "i < height t" and "W < 256 ^ Suc i"
  shows "(left_align (Suc i) W < pt_boundary t ! i) = (W < tb t i)"
  using unat_left_align [OF wf_trieD(1) [OF wf] _ assms(3)] wf_trieD(3) [OF wf]
    wf_trieD(4) [OF wf assms(2)] assms(2)
  by (simp add: word_less_nat_alt)

lemma readPrefixCode_loop_find:
  fixes t :: "'a::len word ptrie"
  assumes wf: "wf_trie t" and "m \<le> height t" and "i \<le> m" and "p + i \<le> length buf"
    and "code = left_align i (be_value (take i (drop p buf)))"
  shows "readPrefixCode_loop t buf p m i code =
    (case find (code_level t (drop p buf)) [i..<min m (length buf - p)] of
       Some k \<Rightarrow> Inr (left_align (Suc k) (be_value (take (Suc k) (drop p buf))), Suc k)
     | None \<Rightarrow> Inl (if p + m \<le> length buf then Out_of_range else Undefined_behaviour))"
  using assms(3-)
proof (induction "m - i" arbitrary: i code)
  case 0
  then show ?case by (subst readPrefixCode_loop.simps) auto
next
  case (Suc d)
  let ?bs = "drop p buf"
  have im: "i < m" using Suc.hyps by simp
  show ?case
  proof (cases "p + i < length buf")
    case False
    then show ?thesis using Suc.prems im
      by (subst readPrefixCode_loop.simps) auto
  next
    case True
    define W where "W = be_value (take (Suc i) ?bs)"
    have ih: "i < height t" using im assms(2) by simp
    have is': "i < sizeof_word TYPE('a word)" using wf_trieD(3) [OF wf] ih by simp
    have step: "code OR push_bit (byte_shift TYPE('a word) i) (ucast (buf ! (p + i)))
        = left_align (Suc i) W"
      unfolding Suc.prems(3) sizeof_word_pos_shift W_def
      by (subst or_next_byte [OF is']) (simp add: be_value_take_Suc True)
    have less: "(left_align (Suc i) W < pt_boundary t ! i) = code_level t ?bs i"
      unfolding code_level_def W_def
      by (rule left_align_less_boundary [OF wf ih]) (rule be_value_take_lt)
    have upt: "[i..<min m (length buf - p)] = i # [Suc i..<min m (length buf - p)]"
      using im True by (simp add: upt_conv_Cons)
    have IH: "readPrefixCode_loop t buf p m (Suc i) (left_align (Suc i) W) =
      (case find (code_level t ?bs) [Suc i..<min m (length buf - p)] of
         Some k \<Rightarrow> Inr (left_align (Suc k) (be_value (take (Suc k) ?bs)), Suc k)
       | None \<Rightarrow> Inl (if p + m \<le> length buf then Out_of_range else Undefined_behaviour))"
      by (rule Suc.hyps(1)) (use Suc.hyps im True in \<open>simp_all add: W_def\<close>)
    show ?thesis
      by (subst readPrefixCode_loop.simps)
        (simp add: im True step less upt IH Let_def W_def [symmetric])
  qed
qed

lemma readPrefixCode_loop_start:
  fixes t :: "'a::len word ptrie"
  assumes wf: "wf_trie t" and "m \<le> height t" and "p \<le> length buf"
  shows "readPrefixCode_loop t buf p m 0 0 =
    (case find (code_level t (drop p buf)) [0..<min m (length buf - p)] of
       Some k \<Rightarrow> Inr (left_align (Suc k) (be_value (take (Suc k) (drop p buf))), Suc k)
     | None \<Rightarrow> Inl (if p + m \<le> length buf then Out_of_range else Undefined_behaviour))"
  by (rule readPrefixCode_loop_find [OF wf assms(2)]) (use assms in simp_all)

lemma readPrefixCode_loop_Inr:
  fixes t :: "'a::len word ptrie"
  assumes "wf_trie t" and "m \<le> height t" and "p \<le> length buf"
  shows "readPrefixCode_loop t buf p m 0 0 = Inr (code, n) \<longleftrightarrow>
    (0 < n \<and> n \<le> m \<and> p + n \<le> length buf \<and> code_level t (drop p buf) (n - 1) \<and>
     (\<forall>j < n - 1. \<not> code_level t (drop p buf) j) \<and>
     code = left_align n (be_value (take n (drop p buf))))"
proof -
  have "readPrefixCode_loop t buf p m 0 0 = Inr (code, n) \<longleftrightarrow>
    (\<exists>k. n = Suc k \<and> find (code_level t (drop p buf)) [0..<min m (length buf - p)] = Some k \<and>
      code = left_align (Suc k) (be_value (take (Suc k) (drop p buf))))"
    unfolding readPrefixCode_loop_start [OF assms] by (auto split: option.splits)
  then show ?thesis
    using assms(3) by (cases n) (auto simp: find_upt_Some)
qed


section \<open>The bytes of a code\<close>

lemma writeBigEndian_Suc:
  "writeBigEndian (w :: 'a::len word) (Suc n) =
    writeBigEndian w n @ [ucast (drop_bit (byte_shift TYPE('a word) n) w)]"
  by (simp add: writeBigEndian_def)

lemma length_writeBigEndian [simp]: "length (writeBigEndian w n) = n"
  by (simp add: writeBigEndian_def)

lemma unat_ucast_byte: "unat (ucast (w :: 'a::len word) :: byte) = unat w mod 256"
  by (simp add: unsigned_ucast_eq take_bit_eq_mod)

lemma be_value_writeBigEndian:
  fixes w :: "'a::len word"
  assumes "LENGTH('a) = 8 * sizeof_word TYPE('a word)" and "n \<le> sizeof_word TYPE('a word)"
  shows "be_value (writeBigEndian w n) = unat w div 256 ^ (sizeof_word TYPE('a word) - n)"
  using assms(2)
proof (induction n)
  case 0
  have "unat w < 2 ^ LENGTH('a)" by (rule unsigned_less)
  then show ?case by (simp add: writeBigEndian_def assms(1) two_power_bytes)
next
  case (Suc n)
  let ?s = "sizeof_word TYPE('a word)"
  let ?x = "unat w div 256 ^ (?s - Suc n)"
  have e: "?s - n = Suc (?s - Suc n)" using Suc.prems by simp
  have "be_value (writeBigEndian w (Suc n)) = (unat w div 256 ^ (?s - n)) * 256 + ?x mod 256"
    using Suc by (simp add: writeBigEndian_Suc be_value_append unat_ucast_byte byte_shift_def
        unat_drop_bytes del: mult.commute)
  also have "unat w div 256 ^ (?s - n) = ?x div 256"
    by (metis e power_Suc2 div_mult2_eq)
  finally show ?case by simp
qed

lemma be_value_take:
  assumes "k \<le> length bs"
  shows "be_value (take k bs) = be_value bs div 256 ^ (length bs - k)"
proof -
  have "be_value bs = be_value (take k bs) * 256 ^ length (drop k bs) + be_value (drop k bs)"
    by (metis append_take_drop_id be_value_append)
  then show ?thesis using be_value_lt [of "drop k bs"] by simp
qed

lemma be_value_writeBigEndian_left_align:
  assumes "LENGTH('a::len) = 8 * sizeof_word TYPE('a word)" and "n \<le> sizeof_word TYPE('a word)"
    and "W < 256 ^ n"
  shows "be_value (writeBigEndian (left_align n W :: 'a word) n) = W"
  using assms by (simp add: be_value_writeBigEndian unat_left_align)

section \<open>Encoding\<close>

lemma encodeVarUInt_loop_find:
  assumes wf: "wf_trie t" and "i \<le> height t"
  shows "encodeVarUInt_loop t value i =
    (case find (\<lambda>k. unat value < ts t k) [i..<height t] of
       Some k \<Rightarrow> Inr (left_align (Suc k) (tb t k - (ts t k - unat value)), Suc k)
     | None \<Rightarrow> Inl Overflow_error)"
  using assms(2)
proof (induction "height t - i" arbitrary: i)
  case 0
  then show ?case by (subst encodeVarUInt_loop.simps) simp
next
  case (Suc d)
  then have i: "i < height t" by simp
  then have upt: "[i..<height t] = i # [Suc i..<height t]" by (simp add: upt_conv_Cons)
  have IH: "encodeVarUInt_loop t value (Suc i) =
    (case find (\<lambda>k. unat value < ts t k) [Suc i..<height t] of
       Some k \<Rightarrow> Inr (left_align (Suc k) (tb t k - (ts t k - unat value)), Suc k)
     | None \<Rightarrow> Inl Overflow_error)"
    using Suc i by simp
  have less: "(value < pt_sum t ! i) = (unat value < ts t i)"
    by (simp add: word_less_nat_alt ts_def)
  have code: "push_bit (byte_shift TYPE('a word) i) (pt_trie t ! i - (pt_sum t ! i - value))
      = left_align (Suc i) (tb t i - (ts t i - unat value))" if "unat value < ts t i"
  proof -
    have le: "value \<le> pt_sum t ! i" "pt_sum t ! i - value \<le> pt_trie t ! i"
      using that wf_trieD(9) [OF wf i] by (auto simp: word_le_nat_alt ts_def tb_def unat_sub)
    have "unat (pt_trie t ! i - (pt_sum t ! i - value)) = tb t i - (ts t i - unat value)"
      using le by (simp add: unat_sub tb_def ts_def)
    then have "pt_trie t ! i - (pt_sum t ! i - value) = word_of_nat (tb t i - (ts t i - unat value))"
      by (metis of_nat_unat ucast_id)
    then show ?thesis by (simp add: left_align_push byte_shift_def)
  qed
  show ?case
    by (subst encodeVarUInt_loop.simps) (simp add: i upt less code IH)
qed

lemma encodeVarUInt_Inr:
  assumes wf: "wf_trie t"
  shows "encodeVarUInt t value = Inr (code, n) \<longleftrightarrow>
    (0 < n \<and> n \<le> height t \<and> unat value < ts t (n - 1) \<and> (\<forall>j < n - 1. ts t j \<le> unat value) \<and>
     code = left_align n (tb t (n - 1) - (ts t (n - 1) - unat value)))"
proof -
  have "encodeVarUInt t value = Inr (code, n) \<longleftrightarrow>
    (\<exists>k. n = Suc k \<and> find (\<lambda>k. unat value < ts t k) [0..<height t] = Some k \<and>
      code = left_align (Suc k) (tb t k - (ts t k - unat value)))"
    unfolding encodeVarUInt_def encodeVarUInt_loop_find [OF wf le0] by (auto split: option.splits)
  then show ?thesis by (cases n) (auto simp: find_upt_Some not_less)
qed

text \<open>The code of a value: at least the first free code of its level, below the level's boundary.\<close>

lemma encode_level_bounds:
  assumes wf: "wf_trie t" and k: "k < height t" and v: "v < ts t k" and low: "\<forall>j < k. ts t j \<le> v"
  defines "c \<equiv> tb t k - (ts t k - v)"
  shows "c < tb t k" and "\<And>j. j < k \<Longrightarrow> tb t j * 256 ^ (k - j) \<le> c" and "c + ts t k = tb t k + v"
proof -
  have le: "ts t k \<le> tb t k" by (rule wf_trieD(9) [OF wf k])
  show "c < tb t k" "c + ts t k = tb t k + v" using le v by (simp_all add: c_def)
  then have c: "c + ts t k = tb t k + v" by simp
  fix j assume j: "j < k"
  then obtain k' where k': "k = Suc k'" "j \<le> k'" by (cases k) auto
  have "tb t j * 256 ^ (k' - j) \<le> tb t k'" by (rule tb_chain [OF wf]) (use k k' in simp_all)
  then have "tb t j * 256 ^ (k - j) \<le> 256 * tb t k'" using k' by (simp add: Suc_diff_le)
  also have "256 * tb t k' \<le> c"
    using c wf_trieD(8) [OF wf, of k'] k k' low by auto
  finally show "tb t j * 256 ^ (k - j) \<le> c" .
qed


section \<open>Round trips\<close>

lemma nat_maxLength:
  "nat (if maxLength > int h then int h else maxLength) = min h (nat maxLength)"
  by (auto simp: min_def)

lemma readPrefixCode_ptr_Inr:
  assumes "wf_trie t" and "p \<le> length buf"
  shows "readPrefixCode_ptr t buf p maxLength = Inr (code, n) \<longleftrightarrow>
    (0 < n \<and> n \<le> height t \<and> int n \<le> maxLength \<and> p + n \<le> length buf \<and>
     code_level t (drop p buf) (n - 1) \<and> (\<forall>j < n - 1. \<not> code_level t (drop p buf) j) \<and>
     code = left_align n (be_value (take n (drop p buf))))"
  using assms
  by (auto simp: readPrefixCode_ptr_def nat_maxLength readPrefixCode_loop_Inr)

text \<open>The bytes the encoder writes are read back as the same code, whatever follows them.\<close>

lemma read_encoded:
  fixes t :: "'a::len word ptrie"
  assumes wf: "wf_trie t" and enc: "encodeVarUInt t v = Inr (code, n)" and len: "int n \<le> maxLength"
  shows "readPrefixCode_ptr t (pre @ writeBigEndian code n @ rest) (length pre) maxLength
    = Inr (code, n)"
proof -
  let ?k = "n - 1"
  define c where "c = tb t ?k - (ts t ?k - unat v)"
  from enc have n: "0 < n" "n \<le> height t" "unat v < ts t ?k" "\<forall>j < ?k. ts t j \<le> unat v"
    and code: "code = left_align n c"
    by (auto simp: encodeVarUInt_Inr [OF wf] c_def)
  have k: "?k < height t" and sk: "Suc ?k = n" using n by auto
  note b = encode_level_bounds [OF wf k n(3,4), folded c_def]
  have "c < 256 ^ n" using b(1) wf_trieD(5) [OF wf k] sk by simp
  then have val: "be_value (writeBigEndian code n) = c"
    unfolding code using wf_trieD(1,3) [OF wf] n
    by (intro be_value_writeBigEndian_left_align) auto
  have lev: "be_value (take (Suc j) (writeBigEndian code n @ rest)) = c div 256 ^ (?k - j)"
    if "j \<le> ?k" for j
    using that n be_value_take [of "Suc j" "writeBigEndian code n"]
    by (simp add: val Suc_diff_Suc)
  have "code_level t (writeBigEndian code n @ rest) ?k"
    using lev [of ?k] b(1) by (simp add: code_level_def)
  moreover have "\<not> code_level t (writeBigEndian code n @ rest) j" if "j < ?k" for j
  proof -
    have "tb t j \<le> c div 256 ^ (?k - j)"
      using b(2) [OF that] by (simp add: less_eq_div_iff_mult_less_eq)
    then show ?thesis using lev [of j] that by (simp add: code_level_def)
  qed
  ultimately show ?thesis
    using n len val by (simp add: readPrefixCode_ptr_Inr [OF wf] code)
qed

lemma decode_code_encoded:
  fixes t :: "'a::len word ptrie"
  assumes wf: "wf_trie t" and "0 < n" "n \<le> height t" and "W < 256 ^ n"
    and eq: "W + ts t (n - 1) = tb t (n - 1) + unat v"
  shows "decode_code t (left_align n W) n = v"
proof -
  have "unat (left_align n W :: 'a word) = W * 256 ^ (sizeof_word TYPE('a word) - n)"
    using wf_trieD(1,3) [OF wf] assms by (intro unat_left_align) auto
  then have "unat (drop_bit ((sizeof_word TYPE('a word) - n) * 8) (left_align n W :: 'a word)) = W"
    by (simp add: unat_drop_bytes)
  then have d: "drop_bit ((sizeof_word TYPE('a word) - n) * 8) (left_align n W :: 'a word) = word_of_nat W"
    by (metis of_nat_unat ucast_id)
  have "pt_sum t ! (n - 1) + word_of_nat W = (word_of_nat (W + ts t (n - 1)) :: 'a word)"
    by (simp add: ts_def)
  also have "\<dots> = pt_trie t ! (n - 1) + v" by (simp only: eq) (simp add: tb_def)
  finally show ?thesis by (simp add: decode_code_def d)
qed

lemma decode_encoded:
  fixes t :: "'a::len word ptrie"
  assumes wf: "wf_trie t" and enc: "encodeVarUInt t v = Inr (code, n)" and len: "int n \<le> maxLength"
  shows "decodeVarUInt_ptr t (pre @ writeBigEndian code n @ rest) (length pre) maxLength = Inr (v, n)"
proof -
  let ?k = "n - 1"
  from enc have n: "0 < n" "n \<le> height t" "unat v < ts t ?k" "\<forall>j < ?k. ts t j \<le> unat v"
    and code: "code = left_align n (tb t ?k - (ts t ?k - unat v))"
    by (auto simp: encodeVarUInt_Inr [OF wf])
  have k: "?k < height t" and sk: "Suc ?k = n" using n by auto
  note b = encode_level_bounds [OF wf k n(3,4)]
  have "tb t ?k - (ts t ?k - unat v) < 256 ^ n"
    using order.strict_trans [OF b(1) wf_trieD(5) [OF wf k]] unfolding sk .
  then have "decode_code t code n = v"
    unfolding code using b(3) n by (intro decode_code_encoded [OF wf]) auto
  then show ?thesis
    by (simp add: decodeVarUInt_ptr_def read_encoded [OF wf enc len])
qed

text \<open>Conversely, whatever the decoder accepts is the encoder's code of the decoded value.\<close>

lemma code_level_bounds:
  assumes wf: "wf_trie t" and k: "k < height t" and bs: "k < length bs"
    and lev: "code_level t bs k" and low: "\<forall>j < k. \<not> code_level t bs j"
  defines "W \<equiv> be_value (take (Suc k) bs)"
  shows "\<exists>v. W + ts t k = tb t k + v \<and> v < ts t k \<and> (\<forall>j < k. ts t j \<le> v)"
proof -
  have W: "W < tb t k" using lev by (simp add: W_def code_level_def)
  have ge: "tb t k \<le> W + ts t k \<and> (\<forall>j < k. ts t j + tb t k \<le> W + ts t k)"
  proof (cases k)
    case 0
    then show ?thesis using wf_trieD(7) [OF wf] by simp
  next
    case (Suc i)
    have "be_value (take (Suc i) (take (Suc k) bs)) = W div 256 ^ (length (take (Suc k) bs) - Suc i)"
      unfolding W_def by (rule be_value_take) (use bs Suc in simp)
    moreover have "length (take (Suc k) bs) = Suc (Suc i)" using bs Suc by simp
    ultimately have "be_value (take (Suc i) bs) = W div 256" using Suc by simp
    moreover have "tb t i \<le> be_value (take (Suc i) bs)"
      using low Suc by (simp add: code_level_def not_less)
    ultimately have "256 * tb t i \<le> W" by simp
    moreover have "ts t k + 256 * tb t i = ts t i + tb t k"
      using wf_trieD(8) [OF wf, of i] k Suc by simp
    moreover have "ts t j \<le> ts t i" if "j < k" for j
      by (rule ts_mono [OF wf]) (use that k Suc in simp_all)
    ultimately show ?thesis by fastforce
  qed
  then have "\<forall>j < k. ts t j \<le> W + ts t k - tb t k" by (simp add: le_diff_conv2)
  then show ?thesis using W ge by (intro exI [of _ "W + ts t k - tb t k"]) auto
qed

lemma encode_decoded:
  fixes t :: "'a::len word ptrie"
  assumes wf: "wf_trie t" and p: "p \<le> length buf"
    and dec: "decodeVarUInt_ptr t buf p maxLength = Inr (v, n)"
  shows "encodeVarUInt t v = Inr (left_align n (be_value (slice_of p n buf)), n)"
    and "writeBigEndian (left_align n (be_value (slice_of p n buf)) :: 'a word) n = slice_of p n buf"
    and "0 < n" "n \<le> height t" "int n \<le> maxLength" "p + n \<le> length buf"
proof -
  let ?k = "n - 1" and ?bs = "drop p buf"
  define W where "W = be_value (take n ?bs)"
  from dec have n: "0 < n" "n \<le> height t" "int n \<le> maxLength" "p + n \<le> length buf"
    and lev: "code_level t ?bs ?k" "\<forall>j < ?k. \<not> code_level t ?bs j"
    and v: "v = decode_code t (left_align n W) n"
    by (auto simp: decodeVarUInt_ptr_def bind_result_Inr_iff readPrefixCode_ptr_Inr [OF wf p] W_def)
  have k: "?k < height t" and sk: "Suc ?k = n" using n by auto
  have bs: "?k < length ?bs" using n by simp
  obtain x where x: "W + ts t ?k = tb t ?k + x" "x < ts t ?k" "\<forall>j < ?k. ts t j \<le> x"
    using code_level_bounds [OF wf k bs lev] unfolding W_def sk by auto
  have "W < 256 ^ n" by (simp add: W_def be_value_take_lt)
  moreover have "x < 2 ^ LENGTH('a)"
    using x(2) unfolding ts_def by (rule order.strict_trans [OF _ unsigned_less])
  then have "unat (word_of_nat x :: 'a word) = x" by (simp add: unat_of_nat)
  ultimately have "v = word_of_nat x"
    unfolding v using x(1) n by (intro decode_code_encoded [OF wf]) auto
  then have vx: "unat v = x" by (simp add: \<open>unat (word_of_nat x :: 'a word) = x\<close>)
  have W: "tb t ?k - (ts t ?k - x) = W" using x by simp
  show "encodeVarUInt t v = Inr (left_align n (be_value (slice_of p n buf)), n)"
    unfolding encodeVarUInt_Inr [OF wf] vx W W_def slice_of_def using n x by simp
  show "writeBigEndian (left_align n (be_value (slice_of p n buf)) :: 'a word) n = slice_of p n buf"
    using n wf_trieD(1,3) [OF wf] \<open>W < 256 ^ n\<close>
    by (intro be_value_inject)
      (simp_all add: be_value_writeBigEndian_left_align slice_of_def W_def)
  show "0 < n" "n \<le> height t" "int n \<le> maxLength" "p + n \<le> length buf" by fact+
qed

section \<open>The same code in its two forms\<close>

lemma readPrefixCode_fixed_loop_find:
  fixes t :: "'a::len word ptrie"
  assumes wf: "wf_trie t" and "m \<le> height t" and "i \<le> m"
  shows "readPrefixCode_fixed_loop t w m i =
    (case find (\<lambda>k. unat w < tb t k * 256 ^ (sizeof_word TYPE('a word) - Suc k)) [i..<m] of
       Some k \<Rightarrow> Inr (w AND push_bit (byte_shift TYPE('a word) k) (NOT 0), Suc k)
     | None \<Rightarrow> Inl Out_of_range)"
  using assms(3)
proof (induction "m - i" arbitrary: i)
  case 0
  then show ?case by (subst readPrefixCode_fixed_loop.simps) simp
next
  case (Suc d)
  then have i: "i < m" "i < height t" using assms(2) by simp_all
  have upt: "[i..<m] = i # [Suc i..<m]" using i by (simp add: upt_conv_Cons)
  have IH: "readPrefixCode_fixed_loop t w m (Suc i) =
    (case find (\<lambda>k. unat w < tb t k * 256 ^ (sizeof_word TYPE('a word) - Suc k)) [Suc i..<m] of
       Some k \<Rightarrow> Inr (w AND push_bit (byte_shift TYPE('a word) k) (NOT 0), Suc k)
     | None \<Rightarrow> Inl Out_of_range)"
    by (rule Suc.hyps(1)) (use Suc.hyps i in simp_all)
  show ?case
    by (subst readPrefixCode_fixed_loop.simps)
      (simp add: i(1) upt IH word_less_nat_alt wf_trieD(4) [OF wf i(2)])
qed

lemma high_bytes:
  fixes w :: "'a::len word"
  assumes "LENGTH('a) = 8 * sizeof_word TYPE('a word)" and "k < sizeof_word TYPE('a word)"
  shows "w AND push_bit (byte_shift TYPE('a word) k) (NOT 0)
    = left_align (Suc k) (unat w div 256 ^ (sizeof_word TYPE('a word) - Suc k))"
proof -
  let ?d = "(sizeof_word TYPE('a word) - Suc k) * 8"
  have "word_of_nat (unat w div 256 ^ (sizeof_word TYPE('a word) - Suc k)) = drop_bit ?d w"
    by (metis unat_drop_bytes of_nat_unat ucast_id)
  then have "left_align (Suc k) (unat w div 256 ^ (sizeof_word TYPE('a word) - Suc k))
      = push_bit ?d (drop_bit ?d w)"
    by (simp add: left_align_push)
  moreover have "w AND push_bit (byte_shift TYPE('a word) k) (NOT 0) = push_bit ?d (drop_bit ?d w)"
    by (rule bit_word_eqI) (auto simp: byte_shift_def bit_simps)
  ultimately show ?thesis by simp
qed

lemma div_less_level:
  fixes d :: nat
  assumes "0 < d"
  shows "(x div d < y) = (x < y * d)"
  using assms by (simp add: div_less_iff_less_mult)

lemma read_fixed_eq_bytes:
  fixes t :: "'a::len word ptrie"
  assumes wf: "wf_trie t"
  shows "readPrefixCode_fixed t w maxLength =
    readPrefixCode_ptr t (writeBigEndian w (sizeof_word TYPE('a word))) 0 maxLength"
proof -
  let ?s = "sizeof_word TYPE('a word)" and ?m = "min (height t) (nat maxLength)"
  let ?bs = "writeBigEndian w ?s"
  have m: "?m \<le> height t" "?m \<le> ?s" using wf_trieD(3) [OF wf] by simp_all
  have val: "be_value (take (Suc k) ?bs) = unat w div 256 ^ (?s - Suc k)" if "k < ?m" for k
  proof -
    have "Suc k \<le> ?s" using that m(2) by linarith
    then show ?thesis
      using be_value_take [of "Suc k" ?bs] be_value_writeBigEndian [OF wf_trieD(1) [OF wf], of ?s w]
      by simp
  qed
  have lev: "code_level t ?bs k = (unat w < tb t k * 256 ^ (?s - Suc k))" if "k < ?m" for k
    using val [OF that] by (simp add: code_level_def div_less_level)
  have find_eq: "find (code_level t ?bs) [0..<?m] =
      find (\<lambda>k. unat w < tb t k * 256 ^ (?s - Suc k)) [0..<?m]"
    by (rule find_cong) (simp_all add: lev)
  have loop1: "readPrefixCode_loop t ?bs 0 ?m 0 0 =
      (case find (code_level t ?bs) [0..<?m] of
         Some k \<Rightarrow> Inr (left_align (Suc k) (be_value (take (Suc k) ?bs)), Suc k)
       | None \<Rightarrow> Inl Out_of_range)"
    using readPrefixCode_loop_start [OF wf m(1), of 0 ?bs, unfolded drop_0] m
    by (simp add: min_absorb1 split: option.splits)
  have eq: "left_align (Suc k) (be_value (take (Suc k) ?bs))
      = w AND push_bit (byte_shift TYPE('a word) k) (NOT 0)"
    if "find (code_level t ?bs) [0..<?m] = Some k" for k
  proof -
    from that have k: "k < ?m" by (auto simp: find_upt_Some)
    with m(2) have "k < ?s" by linarith
    then show ?thesis by (simp only: val [OF k] high_bytes [OF wf_trieD(1) [OF wf]])
  qed
  show ?thesis
    unfolding readPrefixCode_fixed_def readPrefixCode_ptr_def nat_maxLength loop1
      readPrefixCode_fixed_loop_find [OF wf m(1) le0] find_eq [symmetric]
    by (simp add: eq split: option.splits)
qed


section \<open>Order, comparison and bounds\<close>

lemma encode_less:
  fixes t :: "'a::len word ptrie"
  assumes wf: "wf_trie t" and v: "encodeVarUInt t v = Inr (c1, n1)"
    and w: "encodeVarUInt t w = Inr (c2, n2)" and less: "v < w"
  shows "c1 < c2"
proof -
  let ?s = "sizeof_word TYPE('a word)"
  let ?k1 = "n1 - 1" and ?k2 = "n2 - 1"
  define W1 where "W1 = tb t ?k1 - (ts t ?k1 - unat v)"
  define W2 where "W2 = tb t ?k2 - (ts t ?k2 - unat w)"
  from v have n1: "0 < n1" "n1 \<le> height t" "unat v < ts t ?k1" "\<forall>j < ?k1. ts t j \<le> unat v"
    and c1: "c1 = left_align n1 W1" by (auto simp: encodeVarUInt_Inr [OF wf] W1_def)
  from w have n2: "0 < n2" "n2 \<le> height t" "unat w < ts t ?k2" "\<forall>j < ?k2. ts t j \<le> unat w"
    and c2: "c2 = left_align n2 W2" by (auto simp: encodeVarUInt_Inr [OF wf] W2_def)
  have k: "?k1 < height t" "?k2 < height t" "Suc ?k1 = n1" "Suc ?k2 = n2" using n1 n2 by auto
  note b1 = encode_level_bounds [OF wf k(1) n1(3,4), folded W1_def]
  note b2 = encode_level_bounds [OF wf k(2) n2(3,4), folded W2_def]
  have vw: "unat v < unat w" using less by (simp add: word_less_nat_alt)
  have le: "?k1 \<le> ?k2"
  proof (rule ccontr)
    assume "\<not> ?k1 \<le> ?k2"
    then have "ts t ?k2 \<le> unat v" using n1(4) by simp
    then show False using n2(3) vw by linarith
  qed
  have scaled: "W1 * 256 ^ (?k2 - ?k1) < W2"
  proof (cases "?k1 = ?k2")
    case True
    then show ?thesis using b1(3) b2(3) vw by simp
  next
    case False
    then have "tb t ?k1 * 256 ^ (?k2 - ?k1) \<le> W2" using le by (intro b2(2)) simp
    moreover have "W1 * 256 ^ (?k2 - ?k1) < tb t ?k1 * 256 ^ (?k2 - ?k1)" using b1(1) by simp
    ultimately show ?thesis by linarith
  qed
  have sz: "n1 \<le> ?s" "n2 \<le> ?s" using n1 n2 wf_trieD(3) [OF wf] by simp_all
  have e: "?s - n1 = (?k2 - ?k1) + (?s - n2)" using sz le n1(1) n2(1) by arith
  have "W1 < 256 ^ n1" "W2 < 256 ^ n2"
    using order.strict_trans [OF b1(1) wf_trieD(5) [OF wf k(1)]]
      order.strict_trans [OF b2(1) wf_trieD(5) [OF wf k(2)]] unfolding k(3,4) .
  then have "unat c1 = W1 * 256 ^ (?s - n1)" "unat c2 = W2 * 256 ^ (?s - n2)"
    unfolding c1 c2 using wf_trieD(1) [OF wf] sz by (simp_all add: unat_left_align)
  moreover have "(W1 * 256 ^ (?k2 - ?k1)) * 256 ^ (?s - n2) < W2 * 256 ^ (?s - n2)"
    using scaled by simp
  ultimately show ?thesis by (simp add: word_less_nat_alt e power_add mult.assoc)
qed

lemma equals_loop_read:
  assumes "readPrefixCode_loop t a pa m i code = Inr (c, n)" and "pb + n \<le> length b"
  shows "i < n \<and> equals_loop t a pa b pb m i code =
    Inr (if \<forall>j. i \<le> j \<and> j < n \<longrightarrow> a ! (pa + j) = b ! (pb + j)
         then (True, pa + n, pb + n) else (False, pa, pb))"
  using assms
proof (induction t a pa m i code rule: readPrefixCode_loop.induct)
  case (1 t a pa m i code)
  let ?code = "code OR push_bit (byte_shift TYPE('a word) i) (ucast (a ! (pa + i)))"
  have ok: "i < m" "pa + i < length a"
    using "1.prems"(1) unfolding readPrefixCode_loop.simps [of t a pa m i code]
    by (auto split: if_splits)
  show ?case
  proof (cases "?code < pt_boundary t ! i")
    case True
    then have n: "n = Suc i"
      using "1.prems"(1) ok unfolding readPrefixCode_loop.simps [of t a pa m i code] by simp
    then show ?thesis using ok True "1.prems"(2)
      by (subst equals_loop.simps) (auto simp: Let_def less_Suc_eq_le dest!: antisym)
  next
    case False
    then have "readPrefixCode_loop t a pa m (i + 1) ?code = Inr (c, n)"
      using "1.prems"(1) ok unfolding readPrefixCode_loop.simps [of t a pa m i code] by simp
    from "1.IH" [OF ok refl False this "1.prems"(2)]
    have IH: "Suc i < n" "equals_loop t a pa b pb m (Suc i) ?code =
      Inr (if \<forall>j. Suc i \<le> j \<and> j < n \<longrightarrow> a ! (pa + j) = b ! (pb + j)
           then (True, pa + n, pb + n) else (False, pa, pb))" by simp_all
    have split: "(\<forall>j. i \<le> j \<and> j < n \<longrightarrow> a ! (pa + j) = b ! (pb + j)) \<longleftrightarrow>
      a ! (pa + i) = b ! (pb + i) \<and> (\<forall>j. Suc i \<le> j \<and> j < n \<longrightarrow> a ! (pa + j) = b ! (pb + j))"
      using IH(1) by (metis Suc_leD Suc_leI Suc_lessD le_neq_implies_less order_refl)
    show ?thesis using ok False IH "1.prems"(2) unfolding split equals_loop.simps [of t a pa b pb m i]
      by (cases "a ! (pa + i) = b ! (pb + i)") (simp_all add: Let_def)
  qed
qed

lemma slices_eq_iff:
  assumes "p + n \<le> length a" "q + n \<le> length b"
  shows "slice_of p n a = slice_of q n b \<longleftrightarrow> (\<forall>j < n. a ! (p + j) = b ! (q + j))"
  using assms by (simp add: list_eq_iff_nth_eq nth_slice_of)

lemma readPrefixCode_loop_bytes:
  assumes "p + n \<le> length a" "p + n \<le> length b" "m \<le> n"
    and "\<forall>j < n. a ! (p + j) = b ! (p + j)"
  shows "readPrefixCode_loop t a p m i code = readPrefixCode_loop t b p m i code
    \<and> readPrefixCode_loop t a p m i code \<noteq> Inl Undefined_behaviour"
  using assms
proof (induction t a p m i code rule: readPrefixCode_loop.induct)
  case (1 t a p m i code)
  show ?case
  proof (cases "i < m")
    case False
    then show ?thesis by (simp add: readPrefixCode_loop.simps [of _ _ _ _ i])
  next
    case True
    then have "p + i < length a" "p + i < length b" "a ! (p + i) = b ! (p + i)"
      using "1.prems" by auto
    moreover define code' where
      "code' = code OR push_bit (byte_shift TYPE('a word) i) (ucast (a ! (p + i)))"
    moreover have "readPrefixCode_loop t a p m (i + 1) code' = readPrefixCode_loop t b p m (i + 1) code'"
      "readPrefixCode_loop t b p m (i + 1) code' \<noteq> Inl Undefined_behaviour"
      if "\<not> code' < pt_boundary t ! i"
      using "1.IH" [OF True \<open>p + i < length a\<close> code'_def that "1.prems"] by metis+
    ultimately show ?thesis using True
      unfolding readPrefixCode_loop.simps [of t _ p m i] by (simp add: Let_def)
  qed
qed


section \<open>The properties\<close>

lemma reader_Inr_bounds:
  assumes "wf_trie t" "p \<le> length buf"
    and "decodeVarUInt_reader t buf p e = Inr (v, p')"
  shows "p < p' \<and> p' \<le> p + height t \<and> p' \<le> e \<and> p' \<le> length buf"
  using assms(3) encode_decoded(3-6) [OF assms(1,2)]
  by (fastforce simp: decodeVarUInt_reader_def bind_result_Inr_iff)

abbreviation sample_trie :: "uint16 ptrie" where
  "sample_trie \<equiv> \<lparr>pt_boundary = [0xa000, 0xc000], pt_sum = [0xa0, 0x20a0], pt_trie = [0xa0, 0xc000]\<rparr>"

lemma sample_trie: "PrefixTrie [0xa0, 0xc000 :: uint16] = Inr sample_trie"
  by code_simp

lemma sample_trie_hyps:
  "LENGTH(16) = 8 * sizeof_word TYPE(16 word)"
  "0 < length [0xa0, 0xc000 :: uint16]"
  "length [0xa0, 0xc000 :: uint16] \<le> sizeof_word TYPE(16 word)"
  by (simp_all add: sizeof_word_def)

lemma sample_encode: "encodeVarUInt sample_trie 1000 = Inr (0xa348, 2)"
  by code_simp

lemma sample_encode_one: "encodeVarUInt sample_trie 7 = Inr (0x0700, 1)"
  by code_simp

text \<open>C11: For every trie the constructor accepts, decoding the bytes that \<^verbatim>\<open>encodeVarUInt\<close> and
  \<^verbatim>\<open>writeBigEndian\<close> produce for a value gives back the value and the length of its code, wherever
  the code stands in the buffer and whatever follows it.\<close>

theorem prefix_trie_roundtrip:
  fixes t :: "'a::len word ptrie"
  assumes "PrefixTrie xs = Inr t" and "LENGTH('a) = 8 * sizeof_word TYPE('a word)"
    and "0 < length xs" and "length xs \<le> sizeof_word TYPE('a word)"
    and "encodeVarUInt t v = Inr (code, n)" and "int n \<le> maxLength"
  shows "decodeVarUInt_ptr t (pre @ writeBigEndian code n @ rest) (length pre) maxLength = Inr (v, n)"
  by (rule decode_encoded [OF wf_PrefixTrie [OF assms(1-4)] assms(5,6)])

theorem prefix_trie_roundtrip_witness:
  "decodeVarUInt_ptr sample_trie ([9] @ writeBigEndian (0xa348 :: uint16) 2 @ [1, 2]) (length [9 :: byte]) 2
    = Inr (1000, 2)"
  by (rule prefix_trie_roundtrip [OF sample_trie sample_trie_hyps sample_encode]) simp

text \<open>C36: Every byte string the decoder accepts is the one the encoder produces for the decoded
  value: a value has a single code, so no two byte strings decode to it.\<close>

theorem prefix_trie_canonical:
  fixes t :: "'a::len word ptrie"
  assumes "PrefixTrie xs = Inr t" and "LENGTH('a) = 8 * sizeof_word TYPE('a word)"
    and "0 < length xs" and "length xs \<le> sizeof_word TYPE('a word)"
    and "p \<le> length buf" and "decodeVarUInt_ptr t buf p maxLength = Inr (v, n)"
  shows "\<exists>code. encodeVarUInt t v = Inr (code, n) \<and> writeBigEndian code n = slice_of p n buf"
  using encode_decoded(1,2) [OF wf_PrefixTrie [OF assms(1-4)] assms(5,6)] by blast

theorem prefix_trie_canonical_witness:
  "\<exists>code. encodeVarUInt sample_trie 1000 = Inr (code, 2) \<and> writeBigEndian code 2 = slice_of 1 2 [9, 0xa3, 0x48]"
proof -
  have "decodeVarUInt_ptr sample_trie [9, 0xa3, 0x48] 1 2 = Inr (1000, 2)" by code_simp
  from prefix_trie_canonical [OF sample_trie sample_trie_hyps _ this] show ?thesis by simp
qed

text \<open>The codes of a trie are prefix-free (the code of one value never begins the code of
  another) and keep the order of the values when they are compared as left-aligned integers.\<close>

theorem prefix_trie_prefix_free_ordered:
  fixes t :: "'a::len word ptrie"
  assumes "PrefixTrie xs = Inr t" and "LENGTH('a) = 8 * sizeof_word TYPE('a word)"
    and "0 < length xs" and "length xs \<le> sizeof_word TYPE('a word)"
    and v: "encodeVarUInt t v = Inr (c1, n1)" and w: "encodeVarUInt t w = Inr (c2, n2)"
  shows "((\<exists>rest. writeBigEndian c2 n2 = writeBigEndian c1 n1 @ rest) \<longleftrightarrow> v = w) \<and>
    (v < w \<longleftrightarrow> c1 < c2)"
proof (intro conjI iffI)
  note wf = wf_PrefixTrie [OF assms(1-4)]
  show "v = w" if "\<exists>rest. writeBigEndian c2 n2 = writeBigEndian c1 n1 @ rest"
  proof -
    from that obtain rest where eq: "writeBigEndian c2 n2 = writeBigEndian c1 n1 @ rest" ..
    show ?thesis
      using decode_encoded [OF wf v, of "int n1 + int n2" "[]" rest]
        decode_encoded [OF wf w, of "int n1 + int n2" "[]" "[]"] eq by simp
  qed
  show "\<exists>rest. writeBigEndian c2 n2 = writeBigEndian c1 n1 @ rest" if "v = w"
    using that v w by simp
  show "c1 < c2" if "v < w" using encode_less [OF wf v w] that by simp
  show "v < w" if "c1 < c2"
    using encode_less [OF wf w v] v w that by (cases v w rule: linorder_cases) auto
qed

theorem prefix_trie_prefix_free_ordered_witness:
  "\<not> (\<exists>rest. writeBigEndian (0xa348 :: uint16) 2 = writeBigEndian (0x0700 :: uint16) 1 @ rest) \<and>
   (0x0700 < (0xa348 :: uint16))"
  using prefix_trie_prefix_free_ordered [OF sample_trie sample_trie_hyps sample_encode_one sample_encode]
  by simp

text \<open>Reading a code from a left-aligned integer gives the same code, the same length and the
  same exception as reading it from the big-endian bytes of that integer.\<close>

theorem prefix_trie_fixed_agrees:
  fixes t :: "'a::len word ptrie"
  assumes "PrefixTrie xs = Inr t" and "LENGTH('a) = 8 * sizeof_word TYPE('a word)"
    and "0 < length xs" and "length xs \<le> sizeof_word TYPE('a word)"
  shows "readPrefixCode_fixed t w maxLength =
    readPrefixCode_ptr t (writeBigEndian w (sizeof_word TYPE('a word))) 0 maxLength"
  by (rule read_fixed_eq_bytes [OF wf_PrefixTrie [OF assms]])

theorem prefix_trie_fixed_agrees_witness:
  "readPrefixCode_fixed sample_trie (0xa348 :: uint16) 2 =
    readPrefixCode_ptr sample_trie (writeBigEndian (0xa348 :: uint16) (sizeof_word TYPE(16 word))) 0 2"
  by (rule prefix_trie_fixed_agrees [OF sample_trie sample_trie_hyps])

text \<open>Comparing two identifiers with \<^verbatim>\<open>equals\<close> answers whether the bytes of the code at the
  first pointer also stand at the second, and moves both pointers past the code exactly when
  they do.\<close>

theorem prefix_trie_equals:
  assumes "readPrefixCode_ptr t a pa maxLength = Inr (code, n)" and "pa \<le> length a"
    and "wf_trie t" and "pb + n \<le> length b"
  shows "equals t a pa b pb maxLength =
    Inr (if slice_of pa n a = slice_of pb n b then (True, pa + n, pb + n) else (False, pa, pb))"
proof -
  have "pa + n \<le> length a" using assms(1-3) by (simp add: readPrefixCode_ptr_Inr)
  then show ?thesis
    using equals_loop_read [OF assms(1) [unfolded readPrefixCode_ptr_def] assms(4)]
      slices_eq_iff [of pa n a pb b] assms(4)
    by (simp add: equals_def)
qed

theorem prefix_trie_equals_witness:
  "equals sample_trie [0xa3, 0x48, 1] 0 [7, 0xa3, 0x48] 1 2 = Inr (True, 2, 3)"
proof -
  have "readPrefixCode_ptr sample_trie [0xa3, 0x48, 1] 0 2 = Inr (0xa348, 2)" by code_simp
  from prefix_trie_equals [OF this _ wf_PrefixTrie [OF sample_trie sample_trie_hyps], of 1 "[7, 0xa3, 0x48]"]
  show ?thesis by (simp add: slice_of_def)
qed

text \<open>A reader that is given the end of its buffer never reads at or past it: the outcome
  depends only on the bytes before \<^verbatim>\<open>end\<close>, and no read is out of bounds.\<close>

theorem prefix_trie_reader_in_bounds:
  assumes "e \<le> length a" "e \<le> length b" "p \<le> e" "take e a = take e b"
  shows "readPrefixCode_reader t a p (Some e) = readPrefixCode_reader t b p (Some e) \<and>
    decodeVarUInt_reader t a p e = decodeVarUInt_reader t b p e \<and>
    readPrefixCode_reader t a p (Some e) \<noteq> Inl Undefined_behaviour \<and>
    decodeVarUInt_reader t a p e \<noteq> Inl Undefined_behaviour"
proof (intro conjI)
  have nth: "a ! (p + j) = b ! (p + j)" if "j < e - p" for j
    using that assms(3) by (metis assms(4) less_diff_conv add.commute nth_take)
  have loop: "readPrefixCode_loop t a p m 0 0 = readPrefixCode_loop t b p m 0 0
      \<and> readPrefixCode_loop t a p m 0 0 \<noteq> Inl Undefined_behaviour" if "m \<le> e - p" for m
    by (rule readPrefixCode_loop_bytes [where n = "e - p"]) (use assms that nth in auto)
  have m1: "min e (p + height t) - p \<le> e - p" by simp
  have m2: "min (height t) (nat (int e - int p)) \<le> e - p" using assms(3) by simp
  show "readPrefixCode_reader t a p (Some e) = readPrefixCode_reader t b p (Some e)"
    "readPrefixCode_reader t a p (Some e) \<noteq> Inl Undefined_behaviour"
    using loop [OF m1] by (auto simp: readPrefixCode_reader_def bind_result_Inl_iff)
  show "decodeVarUInt_reader t a p e = decodeVarUInt_reader t b p e"
    "decodeVarUInt_reader t a p e \<noteq> Inl Undefined_behaviour"
    using loop [OF m2]
    by (auto simp: decodeVarUInt_reader_def decodeVarUInt_ptr_def readPrefixCode_ptr_def
        nat_maxLength bind_result_Inl_iff)
qed

theorem prefix_trie_reader_in_bounds_witness:
  "readPrefixCode_reader sample_trie [0xa3, 1] 0 (Some 1) = readPrefixCode_reader sample_trie [0xa3, 2] 0 (Some 1) \<and>
   decodeVarUInt_reader sample_trie [0xa3, 1] 0 1 = decodeVarUInt_reader sample_trie [0xa3, 2] 0 1 \<and>
   readPrefixCode_reader sample_trie [0xa3, 1] 0 (Some 1) \<noteq> Inl Undefined_behaviour \<and>
   decodeVarUInt_reader sample_trie [0xa3, 1] 0 1 \<noteq> Inl Undefined_behaviour"
  by (rule prefix_trie_reader_in_bounds) simp_all

end
