(* ===== verification/Std_Text.thy ===== *)
theory Std_Text
  imports Prelude
begin

text \<open>
  The printing and parsing functions of the C++ standard library that the code calls:
  \<^verbatim>\<open>std::to_string\<close>, \<^verbatim>\<open>std::hex\<close>, \<^verbatim>\<open>std::isspace\<close>, and \<^verbatim>\<open>std::stoull\<close>, \<^verbatim>\<open>std::stoul\<close>,
  \<^verbatim>\<open>std::stoll\<close> with base 0. A \<^verbatim>\<open>std::string\<close> is a list of characters.
\<close>

section \<open>Digits\<close>

definition digit_val :: "char \<Rightarrow> nat option" where
  "digit_val c =
    (let n = of_char c :: nat
     in if 48 \<le> n \<and> n \<le> 57 then Some (n - 48)
        else if 97 \<le> n \<and> n \<le> 122 then Some (n - 87)
        else if 65 \<le> n \<and> n \<le> 90 then Some (n - 55)
        else None)"

definition digit_char :: "nat \<Rightarrow> char" where
  "digit_char d = char_of (if d < 10 then 48 + d else 87 + d)"

lemma digit_val_char [simp]: "d < 36 \<Longrightarrow> digit_val (digit_char d) = Some d"
  by (auto simp: digit_val_def digit_char_def of_char_of Let_def take_bit_eq_mod)

section \<open>Printing\<close>

function digits_of :: "nat \<Rightarrow> nat \<Rightarrow> string" where
  "digits_of base n =
    (if base < 2 \<or> n < base then [digit_char n]
     else digits_of base (n div base) @ [digit_char (n mod base)])"
  by pat_completeness auto
termination
  by (relation "measure snd") auto

declare digits_of.simps [simp del]

definition to_string :: "nat \<Rightarrow> string" where
  "to_string n = digits_of 10 n"

definition to_string_int :: "int \<Rightarrow> string" where
  "to_string_int i = (if i < 0 then ''-'' @ to_string (nat (- i)) else to_string (nat i))"

section \<open>Parsing\<close>

definition is_space :: "char \<Rightarrow> bool" where
  "is_space c = (let n = of_char c :: nat in n = 32 \<or> (9 \<le> n \<and> n \<le> 13))"

fun take_digits :: "nat \<Rightarrow> nat \<Rightarrow> nat \<Rightarrow> string \<Rightarrow> nat \<times> nat" where
  "take_digits base acc k [] = (acc, k)"
| "take_digits base acc k (c # cs) =
    (case digit_val c of
       Some d \<Rightarrow> if d < base then take_digits base (acc * base + d) (Suc k) cs else (acc, k)
     | None \<Rightarrow> (acc, k))"

definition has_hex_prefix :: "string \<Rightarrow> bool" where
  "has_hex_prefix cs =
    (case cs of
       c0 # c1 # c2 # _ \<Rightarrow> c0 = CHR ''0'' \<and> (c1 = CHR ''x'' \<or> c1 = CHR ''X'') \<and>
         (case digit_val c2 of Some d \<Rightarrow> d < 16 | None \<Rightarrow> False)
     | _ \<Rightarrow> False)"

text \<open>The digits after the sign: their value and the number of characters consumed.\<close>

definition scan_unsigned :: "string \<Rightarrow> nat \<times> nat" where
  "scan_unsigned cs =
    (if has_hex_prefix cs then (let (v, k) = take_digits 16 0 0 (drop 2 cs) in (v, k + 2))
     else if cs \<noteq> [] \<and> hd cs = CHR ''0'' then take_digits 8 0 0 cs
     else take_digits 10 0 0 cs)"

text \<open>Blanks, an optional sign and the digits: sign, value, characters consumed; \<open>None\<close> when
  there is no digit.\<close>

definition scan_number :: "string \<Rightarrow> (bool \<times> nat \<times> nat) option" where
  "scan_number cs =
    (let ws = length (takeWhile is_space cs);
         r = drop ws cs;
         neg = (r \<noteq> [] \<and> hd r = CHR ''-'');
         sg = (if r \<noteq> [] \<and> (hd r = CHR ''-'' \<or> hd r = CHR ''+'') then 1 else 0);
         (v, k) = scan_unsigned (drop sg r)
     in if k = 0 then None else Some (neg, v, ws + sg + k))"

definition stoull :: "string \<Rightarrow> (uint64 \<times> nat) result" where
  "stoull cs =
    (case scan_number cs of
       None \<Rightarrow> Inl Invalid_argument
     | Some (neg, v, k) \<Rightarrow>
         if v \<ge> 2 ^ 64 then Inl Out_of_range
         else Inr (if neg then - word_of_nat v else word_of_nat v, k))"

definition stoll :: "string \<Rightarrow> (int \<times> nat) result" where
  "stoll cs =
    (case scan_number cs of
       None \<Rightarrow> Inl Invalid_argument
     | Some (neg, v, k) \<Rightarrow>
         (let i = (if neg then - int v else int v)
          in if i < - (2 ^ 63) \<or> i \<ge> 2 ^ 63 then Inl Out_of_range else Inr (i, k)))"

section \<open>Printed numbers are read back\<close>

lemma digits_of_nonempty [simp]: "digits_of base n \<noteq> []"
  by (subst digits_of.simps) simp

lemma take_digits_acc:
  "take_digits base acc k (cs @ rest) =
    (if \<forall>c \<in> set cs. \<exists>d. digit_val c = Some d \<and> d < base
     then take_digits base (fst (take_digits base acc k cs)) (k + length cs) rest
     else take_digits base acc k cs)"
  by (induction cs arbitrary: acc k) (auto split: option.splits)

lemma digits_of_small: "n < base \<Longrightarrow> digits_of base n = [digit_char n]"
  by (subst digits_of.simps) simp

lemma digits_of_big:
  "2 \<le> base \<Longrightarrow> base \<le> n \<Longrightarrow>
    digits_of base n = digits_of base (n div base) @ [digit_char (n mod base)]"
  by (subst digits_of.simps) simp

lemma digits_induct [consumes 1, case_names small big]:
  fixes n :: nat
  assumes "2 \<le> base"
    and "\<And>n. n < base \<Longrightarrow> P n"
    and "\<And>n. base \<le> n \<Longrightarrow> P (n div base) \<Longrightarrow> P n"
  shows "P n"
proof (induction n rule: less_induct)
  case (less n)
  show ?case
  proof (cases "n < base")
    case True
    then show ?thesis by (rule assms(2))
  next
    case False
    have "n div base < n" using assms(1) False by simp
    then show ?thesis using assms(3) less False by simp
  qed
qed

lemma digits_of_digits:
  assumes "2 \<le> base" "base \<le> 36"
  shows "\<forall>c \<in> set (digits_of base n). \<exists>d. digit_val c = Some d \<and> d < base"
  using assms(1)
proof (induction n rule: digits_induct)
  case (small n)
  then show ?case using assms by (simp add: digits_of_small)
next
  case (big n)
  have "n mod base < base" "n mod base < 36" using assms
    by (auto intro: less_le_trans [OF mod_less_divisor])
  then show ?case using big assms by (auto simp: digits_of_big)
qed

lemma take_digits_digits_of:
  assumes "2 \<le> base" "base \<le> 36"
  shows "take_digits base 0 0 (digits_of base n) = (n, length (digits_of base n))"
  using assms(1)
proof (induction n rule: digits_induct)
  case (small n)
  then show ?case using assms by (simp add: digits_of_small)
next
  case (big n)
  have *: "n mod base < base" "n mod base < 36" using assms
    by (auto intro: less_le_trans [OF mod_less_divisor])
  show ?case
    using big assms digits_of_digits [OF assms, of "n div base"] *
    by (simp add: digits_of_big take_digits_acc)
qed

text \<open>A printed number followed by something that is not a digit is read back whole.\<close>

lemma take_digits_printed:
  assumes "2 \<le> base" "base \<le> 36"
    and "rest = [] \<or> (case digit_val (hd rest) of None \<Rightarrow> True | Some d \<Rightarrow> base \<le> d)"
  shows "take_digits base 0 0 (digits_of base n @ rest) = (n, length (digits_of base n))"
  using take_digits_digits_of [OF assms(1,2), of n] digits_of_digits [OF assms(1,2), of n] assms(3)
  by (cases rest) (auto simp: take_digits_acc split: option.splits)

lemma hd_digits_of:
  assumes "2 \<le> base" "base \<le> 36" "0 < n"
  shows "\<exists>d. 0 < d \<and> d < base \<and> hd (digits_of base n) = digit_char d"
  using assms(1) assms(3)
proof (induction n rule: digits_induct)
  case (small n)
  then show ?case by (auto simp: digits_of_small)
next
  case (big n)
  then show ?case using assms(1,2) by (simp add: digits_of_big div_greater_zero_iff)
qed

lemma digits_of_pow:
  assumes "2 \<le> base" "base ^ k \<le> n"
  shows "k < length (digits_of base n)"
  using assms
proof (induction k arbitrary: n)
  case 0
  then show ?case by simp
next
  case (Suc k)
  have "base ^ k \<le> n div base"
    using Suc.prems by (simp add: less_eq_div_iff_mult_less_eq mult.commute)
  moreover have "base \<le> n"
    using Suc.prems by (metis One_nat_def Suc_1 Suc_le_eq div_greater_zero_iff calculation
        le_0_eq less_nat_zero_code not_gr_zero nat_zero_less_power_iff order_less_le_trans zero_less_Suc)
  ultimately show ?case using Suc by (simp add: digits_of_big)
qed


text \<open>What ends a printed number: the end of the string or a character that is neither a digit
  nor a letter.\<close>

definition number_end :: "string \<Rightarrow> bool" where
  "number_end rest \<longleftrightarrow> rest = [] \<or> digit_val (hd rest) = None"

lemma number_end_Nil [simp]: "number_end []"
  by (simp add: number_end_def)

lemma take_digits_end:
  "2 \<le> base \<Longrightarrow> base \<le> 36 \<Longrightarrow> number_end rest \<Longrightarrow>
    take_digits base 0 0 (digits_of base n @ rest) = (n, length (digits_of base n))"
  by (rule take_digits_printed) (auto simp: number_end_def)

lemma digit_val_x [simp]: "digit_val (CHR ''x'') = Some 33" "digit_val (CHR ''X'') = Some 33"
  by (simp_all add: digit_val_def)

lemma number_end_not_hex: "number_end rest \<Longrightarrow> \<not> has_hex_prefix (CHR ''0'' # rest)"
  by (cases rest) (auto simp: has_hex_prefix_def number_end_def split: list.splits option.splits)

lemma digit_char_0 [simp]: "digit_char 0 = CHR ''0''"
  by code_simp

lemma digit_char_eq [simp]: "d < 36 \<Longrightarrow> digit_char d = CHR ''0'' \<longleftrightarrow> d = 0"
  by (metis digit_val_char digit_char_0 option.inject zero_less_numeral)

lemma hd_digits_cases:
  assumes "0 < n" obtains d where "0 < d" "d < 10" "hd (digits_of 10 n) = digit_char d"
  using hd_digits_of [of 10 n] assms by auto

lemma digit_char_less_10: "d < 10 \<Longrightarrow> of_char (digit_char d) = 48 + d"
  by (simp add: digit_char_def of_char_of take_bit_eq_mod)

lemma not_sign_digit:
  assumes "d < 10" shows "digit_char d \<noteq> CHR ''-''" "digit_char d \<noteq> CHR ''+''" "\<not> is_space (digit_char d)"
proof -
  have *: "of_char (digit_char d) = 48 + d" by (rule digit_char_less_10 [OF assms])
  show "digit_char d \<noteq> CHR ''-''" using * by (auto dest: arg_cong [where f = "of_char :: char \<Rightarrow> nat"])
  show "digit_char d \<noteq> CHR ''+''" using * by (auto dest: arg_cong [where f = "of_char :: char \<Rightarrow> nat"])
  show "\<not> is_space (digit_char d)" using * by (simp add: is_space_def Let_def)
qed

lemma scan_unsigned_to_string:
  assumes "number_end rest"
  shows "scan_unsigned (to_string n @ rest) = (n, length (to_string n))"
proof (cases "n = 0")
  case True
  have "digits_of 10 0 = [CHR ''0'']" "digits_of 8 0 = [CHR ''0'']"
    by (simp_all add: digits_of_small)
  then show ?thesis
    using True assms number_end_not_hex [OF assms] take_digits_end [of 8 rest 0]
    by (simp add: scan_unsigned_def to_string_def)
next
  case False
  then obtain d where d: "0 < d" "d < 10" "hd (digits_of 10 n) = digit_char d"
    using hd_digits_cases by blast
  then obtain cs where cs: "digits_of 10 n = digit_char d # cs"
    by (metis digits_of_nonempty list.collapse)
  have nz: "digit_char d \<noteq> CHR ''0''" using d by simp
  then have "\<not> has_hex_prefix (digits_of 10 n @ rest)"
    by (auto simp: has_hex_prefix_def cs split: list.splits)
  then show ?thesis using take_digits_end [of 10 rest n] assms nz
    by (simp add: scan_unsigned_def to_string_def cs)
qed

lemma to_string_hd:
  obtains d cs where "d < 10" "to_string n = digit_char d # cs"
proof (cases "n = 0")
  case True
  then show ?thesis using that [of 0 "[]"] by (simp add: to_string_def digits_of_small)
next
  case False
  then obtain d where d: "d < 10" "hd (digits_of 10 n) = digit_char d"
    using hd_digits_cases by blast
  then show ?thesis using that [of d "tl (digits_of 10 n)"]
    by (metis digits_of_nonempty list.collapse to_string_def)
qed

lemma scan_number_to_string:
  assumes "number_end rest"
  shows "scan_number (to_string n @ rest) = Some (False, n, length (to_string n))"
proof -
  obtain d cs where d: "d < 10" "to_string n = digit_char d # cs" by (rule to_string_hd)
  show ?thesis
    using scan_unsigned_to_string [OF assms, of n] not_sign_digit [OF d(1)] d(2)
    by (simp add: scan_number_def Let_def)
qed

lemma scan_number_negative:
  assumes "number_end rest"
  shows "scan_number (''-'' @ to_string n @ rest) = Some (True, n, Suc (length (to_string n)))"
proof -
  obtain d cs where d: "d < 10" "to_string n = digit_char d # cs" by (rule to_string_hd)
  have "\<not> is_space (CHR ''-'')" by (simp add: is_space_def)
  then show ?thesis
    using scan_unsigned_to_string [OF assms, of n] d(2)
    by (simp add: scan_number_def Let_def)
qed

text \<open>\<^verbatim>\<open>std::stoull(std::to_string(n), nullptr, 0)\<close> and its signed form give \<open>n\<close> back.\<close>

lemma stoull_to_string:
  "number_end rest \<Longrightarrow> n < 2 ^ 64 \<Longrightarrow>
    stoull (to_string n @ rest) = Inr (word_of_nat n, length (to_string n))"
  by (simp add: stoull_def scan_number_to_string)

lemma stoll_to_string_int:
  assumes "number_end rest" "- (2 ^ 63) \<le> i" "i < 2 ^ 63"
  shows "stoll (to_string_int i @ rest) = Inr (i, length (to_string_int i))"
  using assms scan_number_to_string [OF assms(1), of "nat i"]
    scan_number_negative [OF assms(1), of "nat (- i)"]
  by (auto simp: stoll_def to_string_int_def)

lemma length_to_string: "10 ^ k \<le> n \<Longrightarrow> k < length (to_string n)"
  by (simp add: to_string_def digits_of_pow)

text \<open>A hexadecimal number with its prefix.\<close>

lemma stoull_hex:
  assumes "n < 2 ^ 64"
  shows "stoull (''0x'' @ digits_of 16 n) = Inr (word_of_nat n, 2 + length (digits_of 16 n))"
proof -
  obtain c cs where cs: "digits_of 16 n = c # cs"
    by (metis digits_of_nonempty list.exhaust)
  have "\<exists>d. digit_val c = Some d \<and> d < 16" using digits_of_digits [of 16 n] cs by simp
  then have "has_hex_prefix (''0x'' @ digits_of 16 n)" by (auto simp: has_hex_prefix_def cs)
  then have "scan_unsigned (''0x'' @ digits_of 16 n) = (n, length (digits_of 16 n) + 2)"
    using take_digits_end [of 16 "[]" n] by (simp add: scan_unsigned_def)
  moreover have "\<not> is_space (CHR ''0'')" by (simp add: is_space_def)
  ultimately show ?thesis using assms
    by (simp add: stoull_def scan_number_def Let_def)
qed

end
