(* ===== verification/Identifiers.thy ===== *)
theory Identifiers
  imports Prefix_Trie Std_Text
begin

text \<open>
  The identifiers of \<^verbatim>\<open>include/core/primitives.h\<close> and \<^verbatim>\<open>include/core/tries.hpp\<close>: the four
  tries of the protocol, \<^verbatim>\<open>LongLongID\<close> and \<^verbatim>\<open>FullID\<close> with their orders and hashes,
  \<^verbatim>\<open>VarLenFullID\<close>, and the conversions between identifiers and text of
  \<^verbatim>\<open>PrefixTrie.hpp\<close> and \<^verbatim>\<open>util::toHex\<close>.

  The locale \<open>prefix_codec\<close> is what the readers of serialised data rely on; it is interpreted
  for the numbers of \<^verbatim>\<open>var_uint_trie_g\<close> (\<open>vu\<close>) and for the identifiers of the three other
  tries (\<open>app\<close>, \<open>account\<close>, \<open>loc\<close>).
\<close>


section \<open>The tries of the protocol\<close>

text \<open>The constructors run at compile time, where an exception would be a compilation error.\<close>

definition constexpr_trie :: "'a::len word list \<Rightarrow> 'a word ptrie" where
  "constexpr_trie xs = (case PrefixTrie xs of Inr t \<Rightarrow> t | Inl _ \<Rightarrow> undefined)"

definition var_uint_trie_g :: "uint32 ptrie" where
  "var_uint_trie_g = constexpr_trie [0xd0, 0xf000, 0xfc0000, 0xffffff00]"

definition app_trie_g :: "uint64 ptrie" where
  "app_trie_g = constexpr_trie [0xa0, 0xc000, 0xd00000]"

definition account_trie_g :: "uint64 ptrie" where
  "account_trie_g = constexpr_trie [0x60, 0xd000, 0xe00000]"

definition local_trie_g :: "uint64 ptrie" where
  "local_trie_g = constexpr_trie [0xc0, 0xe000, 0xf00000]"

lemma wf_constexpr_trie:
  fixes xs :: "'a::len word list"
  assumes "is_ok (PrefixTrie xs)" "LENGTH('a) = 8 * sizeof_word TYPE('a word)"
    and "0 < length xs" "length xs \<le> sizeof_word TYPE('a word)"
  shows "wf_trie (constexpr_trie xs)"
proof -
  from assms(1) obtain t where t: "PrefixTrie xs = Inr t" by (cases "PrefixTrie xs") auto
  then show ?thesis using wf_PrefixTrie [OF t] assms by (simp add: constexpr_trie_def)
qed

lemma wf_protocol_tries [simp]:
  "wf_trie var_uint_trie_g" "wf_trie app_trie_g" "wf_trie account_trie_g" "wf_trie local_trie_g"
proof -
  have "is_ok (PrefixTrie [0xd0, 0xf000, 0xfc0000, 0xffffff00 :: uint32])" by code_simp
  then show "wf_trie var_uint_trie_g"
    unfolding var_uint_trie_g_def by (rule wf_constexpr_trie) (simp_all add: sizeof_word_def)
  have "is_ok (PrefixTrie [0xa0, 0xc000, 0xd00000 :: uint64])" by code_simp
  then show "wf_trie app_trie_g"
    unfolding app_trie_g_def by (rule wf_constexpr_trie) (simp_all add: sizeof_word_def)
  have "is_ok (PrefixTrie [0x60, 0xd000, 0xe00000 :: uint64])" by code_simp
  then show "wf_trie account_trie_g"
    unfolding account_trie_g_def by (rule wf_constexpr_trie) (simp_all add: sizeof_word_def)
  have "is_ok (PrefixTrie [0xc0, 0xe000, 0xf00000 :: uint64])" by code_simp
  then show "wf_trie local_trie_g"
    unfolding local_trie_g_def by (rule wf_constexpr_trie) (simp_all add: sizeof_word_def)
qed

section \<open>The interface of a self-delimiting code\<close>

text \<open>
  Clients read numbers and identifiers one after the other out of a buffer. What they rely on is
  that a written value is read back and the position moved past it, that a successful read stays
  within the given end and the buffer, and that the bytes read are the ones written for the value.
\<close>

locale prefix_codec =
  fixes dec :: "byte list \<Rightarrow> nat \<Rightarrow> nat \<Rightarrow> ('v \<times> nat) result"
    and enc :: "'v \<Rightarrow> byte list option"
  assumes dec_enc: "enc v = Some bs \<Longrightarrow> length pre + length bs \<le> e \<Longrightarrow>
      dec (pre @ bs @ rest) (length pre) e = Inr (v, length pre + length bs)"
    and dec_bounds: "dec buf p e = Inr (v, q) \<Longrightarrow> p < q \<and> q \<le> e \<and> q \<le> length buf"
    and enc_dec: "dec buf p e = Inr (v, q) \<Longrightarrow> enc v = Some (slice_of p (q - p) buf)"
begin

lemma enc_nonempty: "enc v = Some bs \<Longrightarrow> bs \<noteq> []"
  using dec_enc [of v bs "[]" "length bs" "[]"] dec_bounds [of bs 0 "length bs" v "length bs"]
  by fastforce

lemma enc_prefix_free:
  assumes "enc v = Some bs" "enc w = Some (bs @ rest)"
  shows "v = w \<and> rest = []"
  using dec_enc [OF assms(1), of "[]" "length (bs @ rest)" rest]
    dec_enc [OF assms(2), of "[]" "length (bs @ rest)" "[]"] by auto

lemma enc_append_inj:
  assumes "enc v = Some bs" "enc w = Some cs" "bs @ xs = cs @ ys"
  shows "v = w \<and> bs = cs \<and> xs = ys"
proof -
  have "dec (bs @ xs) 0 (length bs + length cs) = Inr (v, length bs)"
    using dec_enc [OF assms(1), of "[]" "length bs + length cs" xs] by simp
  moreover have "dec (cs @ ys) 0 (length bs + length cs) = Inr (w, length cs)"
    using dec_enc [OF assms(2), of "[]" "length bs + length cs" ys] by simp
  ultimately have "v = w" "length bs = length cs" unfolding assms(3) by simp_all
  then show ?thesis using assms(3) by simp
qed

lemma dec_at:
  assumes "enc v = Some bs" "slice_of p (length bs) buf = bs" "p + length bs \<le> length buf"
    and "p + length bs \<le> e"
  shows "dec buf p e = Inr (v, p + length bs)"
proof -
  have "take p buf @ bs @ drop (p + length bs) buf = buf"
    using assms(2,3) by (metis append_take_drop_id drop_drop add.commute slice_of_def)
  then show ?thesis
    using dec_enc [OF assms(1), of "take p buf" e "drop (p + length bs) buf"] assms(3,4) by simp
qed

end

text \<open>The bytes written for a number and for an identifier.\<close>

definition put_var_uint :: "'a::len word ptrie \<Rightarrow> 'a word \<Rightarrow> byte list option" where
  "put_var_uint t v =
    (case encodeVarUInt t v of Inr (code, n) \<Rightarrow> Some (writeBigEndian code n) | Inl _ \<Rightarrow> None)"

definition put_identifier :: "'a::len word ptrie \<Rightarrow> 'a word \<Rightarrow> byte list option" where
  "put_identifier t ident =
    (case readPrefixCode_fixed t ident (int (height t)) of
       Inr (code, n) \<Rightarrow> if code = ident then Some (writeBigEndian ident n) else None
     | Inl _ \<Rightarrow> None)"

lemma readPrefixCode_loop_short:
  "length buf < p \<Longrightarrow> readPrefixCode_loop t buf p m i code \<noteq> Inr x"
  by (subst readPrefixCode_loop.simps) simp

lemma reader_within:
  assumes "readPrefixCode_ptr t buf p mx = Inr (code, n)" shows "p \<le> length buf"
  using assms readPrefixCode_loop_short [of buf p] unfolding readPrefixCode_ptr_def
  by (meson not_le)

lemma var_uint_codec:
  assumes wf: "wf_trie t"
  shows "prefix_codec (decodeVarUInt_reader t) (put_var_uint t)"
proof
  show "decodeVarUInt_reader t (pre @ bs @ rest) (length pre) e = Inr (v, length pre + length bs)"
    if put: "put_var_uint t v = Some bs" and le: "length pre + length bs \<le> e" for v bs pre e rest
  proof -
    obtain code n where enc: "encodeVarUInt t v = Inr (code, n)" and bs: "bs = writeBigEndian code n"
      using put by (auto simp: put_var_uint_def split: sum.splits)
    then show ?thesis
      using decode_encoded [OF wf enc, of "int e - int (length pre)" pre rest] le
      by (simp add: decodeVarUInt_reader_def)
  qed
  fix buf p e v q assume d: "decodeVarUInt_reader t buf p e = Inr (v, q)"
  then obtain n where n: "decodeVarUInt_ptr t buf p (int e - int p) = Inr (v, n)" "q = p + n"
    by (auto simp: decodeVarUInt_reader_def bind_result_Inr_iff)
  have p: "p \<le> length buf" using n(1) reader_within
    by (auto simp: decodeVarUInt_ptr_def bind_result_Inr_iff)
  show "p < q \<and> q \<le> e \<and> q \<le> length buf" using reader_Inr_bounds [OF wf p d] by simp
  show "put_var_uint t v = Some (slice_of p (q - p) buf)"
    using encode_decoded(1,2) [OF wf p n(1)] n(2) by (simp add: put_var_uint_def)
qed


lemma read_slice:
  fixes t :: "'a::len word ptrie"
  assumes wf: "wf_trie t" and p: "p \<le> length buf"
    and r: "readPrefixCode_ptr t buf p maxLength = Inr (code, n)"
  shows "writeBigEndian code n = slice_of p n buf"
proof -
  note n = r [unfolded readPrefixCode_ptr_Inr [OF wf p]]
  have "be_value (writeBigEndian (left_align n (be_value (slice_of p n buf)) :: 'a word) n)
      = be_value (slice_of p n buf)"
    using n be_value_lt [of "slice_of p n buf"] wf_trieD(3) [OF wf]
    by (intro be_value_writeBigEndian_left_align [OF wf_trieD(1) [OF wf]]) simp_all
  moreover have "code = left_align n (be_value (slice_of p n buf))" using n by (simp add: slice_of_def)
  moreover have "length (slice_of p n buf) = n" using n by (intro length_slice_of) simp
  ultimately show ?thesis by (intro be_value_inject) simp_all
qed

lemma read_local:
  assumes wf: "wf_trie t" and p: "p \<le> length buf" "q + n \<le> length buf'" and mx: "int n \<le> mx'"
    and r: "readPrefixCode_ptr t buf p mx = Inr (code, n)"
    and eq: "slice_of p n buf = slice_of q n buf'"
  shows "readPrefixCode_ptr t buf' q mx' = Inr (code, n)"
proof -
  note n = r [unfolded readPrefixCode_ptr_Inr [OF wf p(1)]]
  have "take k (drop p buf) = take k (drop q buf')" if "k \<le> n" for k
    using arg_cong [OF eq, of "take k"] that by (simp add: slice_of_def)
  then have lev: "code_level t (drop q buf') j = code_level t (drop p buf) j" if "j < n" for j
    using that by (simp add: code_level_def)
  have "q \<le> length buf'" using p(2) by simp
  from readPrefixCode_ptr_Inr [OF wf this] show ?thesis
    using n lev eq mx p(2) by (simp add: slice_of_def)
qed

lemma take_writeBigEndian: "n \<le> m \<Longrightarrow> take n (writeBigEndian w m) = writeBigEndian w n"
  by (simp add: writeBigEndian_def take_map)

lemma put_identifier_Some:
  fixes t :: "'a::len word ptrie"
  assumes wf: "wf_trie t"
  shows "put_identifier t c = Some bs \<longleftrightarrow>
    readPrefixCode_ptr t bs 0 (int (height t)) = Inr (c, length bs)"
proof -
  let ?s = "sizeof_word TYPE('a word)"
  have "put_identifier t c = Some bs \<longleftrightarrow>
      (\<exists>n. bs = writeBigEndian c n \<and>
        readPrefixCode_ptr t (writeBigEndian c ?s) 0 (int (height t)) = Inr (c, n))"
    by (auto simp: put_identifier_def read_fixed_eq_bytes [OF wf] split: sum.splits if_splits)
  also have "\<dots> \<longleftrightarrow> readPrefixCode_ptr t bs 0 (int (height t)) = Inr (c, length bs)"
  proof (intro iffI)
    assume "\<exists>n. bs = writeBigEndian c n \<and>
        readPrefixCode_ptr t (writeBigEndian c ?s) 0 (int (height t)) = Inr (c, n)"
    then obtain n where n: "bs = writeBigEndian c n"
      "readPrefixCode_ptr t (writeBigEndian c ?s) 0 (int (height t)) = Inr (c, n)" by blast
    have "n \<le> ?s" "n \<le> height t" using n(2) by (simp_all add: readPrefixCode_ptr_Inr [OF wf])
    then show "readPrefixCode_ptr t bs 0 (int (height t)) = Inr (c, length bs)"
      using read_local [OF wf le0 _ _ n(2), of 0 bs "int (height t)"] n(1)
      by (simp add: slice_of_def take_writeBigEndian)
  next
    assume r: "readPrefixCode_ptr t bs 0 (int (height t)) = Inr (c, length bs)"
    have h: "length bs \<le> height t" using r by (simp add: readPrefixCode_ptr_Inr [OF wf])
    then have l: "length bs \<le> ?s" using wf_trieD(3) [OF wf] by simp
    have bs: "bs = writeBigEndian c (length bs)"
      using read_slice [OF wf le0 r] by (simp add: slice_of_def)
    have "readPrefixCode_ptr t (writeBigEndian c ?s) 0 (int (height t)) = Inr (c, length bs)"
      by (rule read_local [OF wf le0 _ _ r])
        (use l h bs in \<open>simp_all add: slice_of_def take_writeBigEndian\<close>)
    then show "\<exists>n. bs = writeBigEndian c n \<and>
        readPrefixCode_ptr t (writeBigEndian c ?s) 0 (int (height t)) = Inr (c, n)"
      using bs by blast
  qed
  finally show ?thesis .
qed

lemma reader_ptr:
  "readPrefixCode_reader t buf p (Some e) =
    bind_result (readPrefixCode_ptr t buf p (int e - int p)) (\<lambda>(code, n). Inr (code, p + n))"
proof -
  have "min e (p + height t) - p = nat (if int e - int p > int (height t) then int (height t) else int e - int p)"
    by (auto simp: min_def)
  then show ?thesis by (simp add: readPrefixCode_reader_def readPrefixCode_ptr_def)
qed

lemma identifier_codec:
  assumes wf: "wf_trie t"
  shows "prefix_codec (\<lambda>buf p e. readPrefixCode_reader t buf p (Some e)) (put_identifier t)"
proof
  show "readPrefixCode_reader t (pre @ bs @ rest) (length pre) (Some e) = Inr (v, length pre + length bs)"
    if "put_identifier t v = Some bs" "length pre + length bs \<le> e" for v bs pre e rest
  proof -
    from that(1) have r: "readPrefixCode_ptr t bs 0 (int (height t)) = Inr (v, length bs)"
      by (simp add: put_identifier_Some [OF wf])
    have "readPrefixCode_ptr t (pre @ bs @ rest) (length pre) (int e - int (length pre)) = Inr (v, length bs)"
      by (rule read_local [OF wf le0 _ _ r]) (use that(2) in \<open>simp_all add: slice_of_def\<close>)
    then show ?thesis by (simp add: reader_ptr)
  qed
  fix buf p e v q assume "readPrefixCode_reader t buf p (Some e) = Inr (v, q)"
  then obtain n where n: "readPrefixCode_ptr t buf p (int e - int p) = Inr (v, n)" "q = p + n"
    by (auto simp: reader_ptr bind_result_Inr_iff)
  have p: "p \<le> length buf" using n(1) reader_within by blast
  note b = n(1) [unfolded readPrefixCode_ptr_Inr [OF wf p]]
  show "p < q \<and> q \<le> e \<and> q \<le> length buf" using b n(2) by auto
  have l: "length (slice_of p n buf) = n" using b by simp
  have "readPrefixCode_ptr t (slice_of p n buf) 0 (int (height t)) = Inr (v, n)"
    by (rule read_local [OF wf p _ _ n(1)]) (use b l in \<open>simp_all add: slice_of_def\<close>)
  then show "put_identifier t v = Some (slice_of p (q - p) buf)"
    using n(2) l by (simp add: put_identifier_Some [OF wf])
qed

interpretation vu: prefix_codec "decodeVarUInt_reader var_uint_trie_g" "put_var_uint var_uint_trie_g"
  by (rule var_uint_codec) simp

interpretation app: prefix_codec
    "\<lambda>buf p e. readPrefixCode_reader app_trie_g buf p (Some e)" "put_identifier app_trie_g"
  by (rule identifier_codec) simp

interpretation account: prefix_codec
    "\<lambda>buf p e. readPrefixCode_reader account_trie_g buf p (Some e)" "put_identifier account_trie_g"
  by (rule identifier_codec) simp

interpretation loc: prefix_codec
    "\<lambda>buf p e. readPrefixCode_reader local_trie_g buf p (Some e)" "put_identifier local_trie_g"
  by (rule identifier_codec) simp


section \<open>Compound identifiers\<close>

datatype LongLongID = LongLongID (ll_up: uint64) (ll_down: uint64)

datatype FullID = FullID (f_up: uint64) (f_down: LongLongID)

instantiation LongLongID :: linorder
begin

definition less_LongLongID :: "LongLongID \<Rightarrow> LongLongID \<Rightarrow> bool" where
  "less_LongLongID a b \<longleftrightarrow> ll_up a < ll_up b \<or> (ll_up a = ll_up b \<and> ll_down a < ll_down b)"

definition less_eq_LongLongID :: "LongLongID \<Rightarrow> LongLongID \<Rightarrow> bool" where
  "less_eq_LongLongID a b \<longleftrightarrow> a < b \<or> a = b"

instance
proof
  fix x y z :: LongLongID
  show "(x < y) = (x \<le> y \<and> \<not> y \<le> x)" "x \<le> x" "x \<le> y \<Longrightarrow> y \<le> z \<Longrightarrow> x \<le> z"
    "x \<le> y \<Longrightarrow> y \<le> x \<Longrightarrow> x = y" "x \<le> y \<or> y \<le> x"
    unfolding less_eq_LongLongID_def less_LongLongID_def
    by (cases x; cases y; cases z; auto)+
qed

end

instantiation FullID :: linorder
begin

definition less_FullID :: "FullID \<Rightarrow> FullID \<Rightarrow> bool" where
  "less_FullID a b \<longleftrightarrow> f_up a < f_up b \<or> (f_up a = f_up b \<and> f_down a < f_down b)"

definition less_eq_FullID :: "FullID \<Rightarrow> FullID \<Rightarrow> bool" where
  "less_eq_FullID a b \<longleftrightarrow> a < b \<or> a = b"

instance
proof
  fix x y z :: FullID
  show "(x < y) = (x \<le> y \<and> \<not> y \<le> x)" "x \<le> x" "x \<le> y \<Longrightarrow> y \<le> z \<Longrightarrow> x \<le> z"
    "x \<le> y \<Longrightarrow> y \<le> x \<Longrightarrow> x = y" "x \<le> y \<or> y \<le> x"
    unfolding less_eq_FullID_def less_FullID_def
    by (cases x; cases y; cases z; auto)+
qed

end

definition LongLongID_Hash :: "LongLongID \<Rightarrow> uint64" where
  "LongLongID_Hash key = (ll_up key mod 8602280293) XOR (ll_down key mod 17184414901)"

definition FullID_Hash :: "FullID \<Rightarrow> uint64" where
  "FullID_Hash key = (f_up key mod 15236479477) XOR LongLongID_Hash (f_down key)"

text \<open>A \<^verbatim>\<open>VarLenFullID\<close> is its bytes: the array is allocated with the length of the identifier.\<close>

definition VarLenFullID_read :: "byte list \<Rightarrow> nat \<Rightarrow> nat \<Rightarrow> (byte list \<times> nat) result" where
  "VarLenFullID_read buf start end =
    bind_result (readPrefixCode_reader app_trie_g buf start (Some end)) (\<lambda>(_, p1).
    bind_result (readPrefixCode_reader account_trie_g buf p1 (Some end)) (\<lambda>(_, p2).
    bind_result (readPrefixCode_reader local_trie_g buf p2 (Some end)) (\<lambda>(_, p3).
      Inr (slice_of start (p3 - start) buf, p3))))"

definition VarLenFullID_eq :: "byte list \<Rightarrow> byte list \<Rightarrow> bool result" where
  "VarLenFullID_eq a b =
    bind_result (equals app_trie_g a 0 b 0 3) (\<lambda>(r1, a1, b1).
    if \<not> r1 then Inr False else
    bind_result (equals account_trie_g a a1 b b1 3) (\<lambda>(r2, a2, b2).
    if \<not> r2 then Inr False else
    bind_result (equals local_trie_g a a2 b b2 3) (\<lambda>(r3, _, _). Inr r3)))"

definition VarLenFullID_FullID :: "byte list \<Rightarrow> FullID result" where
  "VarLenFullID_FullID binary =
    bind_result (readPrefixCode_reader app_trie_g binary 0 None) (\<lambda>(up, p1).
    bind_result (readPrefixCode_reader account_trie_g binary p1 None) (\<lambda>(middle, p2).
    bind_result (readPrefixCode_reader local_trie_g binary p2 None) (\<lambda>(down, _).
      Inr (FullID up (LongLongID middle down)))))"

definition VarLenFullID_getLen :: "byte list \<Rightarrow> nat result" where
  "VarLenFullID_getLen binary =
    bind_result (readPrefixCode_reader app_trie_g binary 0 None) (\<lambda>(_, p1).
    bind_result (readPrefixCode_reader account_trie_g binary p1 None) (\<lambda>(_, p2).
    bind_result (readPrefixCode_reader local_trie_g binary p2 None) (\<lambda>(_, p3). Inr p3)))"

definition VarLenFullID_Hash :: "byte list \<Rightarrow> uint64 result" where
  "VarLenFullID_Hash binary = bind_result (VarLenFullID_FullID binary) (\<lambda>k. Inr (FullID_Hash k))"

definition VarLenFullID_string :: "byte list \<Rightarrow> string result" where
  "VarLenFullID_string binary =
    bind_result (VarLenFullID_getLen binary) (\<lambda>n.
      if n \<le> length binary
      then Inr (''0x'' @ concat (map (\<lambda>i. digits_of 16 (unat (binary ! i))) [0..<n]))
      else Inl Undefined_behaviour)"

text \<open>The bytes of a full identifier.\<close>

definition put_full_id :: "FullID \<Rightarrow> byte list option" where
  "put_full_id k =
    (case (put_identifier app_trie_g (f_up k), put_identifier account_trie_g (ll_up (f_down k)),
           put_identifier local_trie_g (ll_down (f_down k))) of
       (Some a, Some b, Some c) \<Rightarrow> Some (a @ b @ c)
     | _ \<Rightarrow> None)"

lemma put_full_id_Some:
  "put_full_id k = Some bs \<longleftrightarrow>
    (\<exists>u m d a b c. k = FullID u (LongLongID m d) \<and> put_identifier app_trie_g u = Some a \<and>
      put_identifier account_trie_g m = Some b \<and> put_identifier local_trie_g d = Some c \<and>
      bs = a @ b @ c)"
  by (cases k; cases "f_down k") (auto simp: put_full_id_def split: option.splits)

lemma height_protocol_tries [simp]:
  "height var_uint_trie_g = 4" "height app_trie_g = 3" "height account_trie_g = 3"
  "height local_trie_g = 3"
  by code_simp+

lemma readPrefixCode_reader_None:
  "readPrefixCode_reader t buf p None =
    bind_result (readPrefixCode_ptr t buf p (int (height t))) (\<lambda>(code, n). Inr (code, p + n))"
  by (simp add: readPrefixCode_reader_def readPrefixCode_ptr_def)

text \<open>An identifier at a position of a buffer is read back by every way of reading.\<close>

lemma put_identifier_ptr:
  assumes wf: "wf_trie t" and put: "put_identifier t v = Some bs"
    and at: "slice_of p (length bs) buf = bs" "p + length bs \<le> length buf"
  shows "readPrefixCode_ptr t buf p (int (height t)) = Inr (v, length bs)"
proof -
  have r: "readPrefixCode_ptr t bs 0 (int (height t)) = Inr (v, length bs)"
    using put by (simp add: put_identifier_Some [OF wf])
  then have "length bs \<le> height t" by (simp add: readPrefixCode_ptr_Inr [OF wf])
  then show ?thesis
    using read_local [OF wf le0 at(2) _ r] at by (simp add: slice_of_def)
qed

lemma read_None_put:
  "wf_trie t \<Longrightarrow> put_identifier t v = Some bs \<Longrightarrow>
    readPrefixCode_reader t (pre @ bs @ rest) (length pre) None = Inr (v, length pre + length bs)"
  by (simp add: readPrefixCode_reader_None put_identifier_ptr slice_of_def)

lemma equals_loop_swap:
  "equals_loop t a pa b pb m i code = Inr (r, qa, qb) \<longleftrightarrow>
   equals_loop t b pb a pa m i code = Inr (r, qb, qa)"
proof (induction t a pa b pb m i code rule: equals_loop.induct)
  case (1 t a pa b pb m i code)
  then show ?case
    unfolding equals_loop.simps [of t a pa b pb m i] equals_loop.simps [of t b pb a pa m i]
    by (auto simp: Let_def)
qed

lemma equals_read_le:
  assumes wf: "wf_trie t" and pa: "pa \<le> length a" and pb: "pb \<le> length b"
    and a: "readPrefixCode_ptr t a pa (int (height t)) = Inr (c1, n1)"
    and b: "readPrefixCode_ptr t b pb (int (height t)) = Inr (c2, n2)" and le: "n1 \<le> n2"
  shows "equals t a pa b pb (int (height t)) =
    Inr (if c1 = c2 then (True, pa + n1, pb + n2) else (False, pa, pb))"
proof -
  have b2: "pb + n2 \<le> length b" "pa + n1 \<le> length a" "int n1 \<le> int (height t)"
    using a b by (simp_all add: readPrefixCode_ptr_Inr [OF wf] pa pb)
  then have b1: "pb + n1 \<le> length b" using le by simp
  have sa: "writeBigEndian c1 n1 = slice_of pa n1 a" by (rule read_slice [OF wf pa a])
  have sb: "writeBigEndian c2 n1 = slice_of pb n1 b"
    using arg_cong [OF read_slice [OF wf pb b], of "take n1"] le
    by (simp add: take_writeBigEndian slice_of_def)
  have "slice_of pa n1 a = slice_of pb n1 b \<longleftrightarrow> c1 = c2 \<and> n1 = n2"
  proof
    assume eq: "slice_of pa n1 a = slice_of pb n1 b"
    from read_local [OF wf pa b1 b2(3) a eq] b show "c1 = c2 \<and> n1 = n2" by simp
  next
    assume "c1 = c2 \<and> n1 = n2"
    then show "slice_of pa n1 a = slice_of pb n1 b" using sa sb by simp
  qed
  moreover have "n1 = n2" if "c1 = c2"
  proof -
    have "slice_of pa n1 a = slice_of pb n1 b" using that sa sb by simp
    from read_local [OF wf pa b1 b2(3) a this] b show ?thesis by simp
  qed
  ultimately show ?thesis
    using equals_loop_read [OF a [unfolded readPrefixCode_ptr_def] b1] slices_eq_iff [OF b2(2) b1]
    by (auto simp: equals_def)
qed

lemma equals_read:
  assumes wf: "wf_trie t" and pa: "pa \<le> length a" and pb: "pb \<le> length b"
    and a: "readPrefixCode_ptr t a pa (int (height t)) = Inr (c1, n1)"
    and b: "readPrefixCode_ptr t b pb (int (height t)) = Inr (c2, n2)"
  shows "equals t a pa b pb (int (height t)) =
    Inr (if c1 = c2 then (True, pa + n1, pb + n2) else (False, pa, pb))"
proof (cases "n1 \<le> n2")
  case True
  then show ?thesis by (rule equals_read_le [OF assms])
next
  case False
  then have "equals t b pb a pa (int (height t)) =
      Inr (if c2 = c1 then (True, pb + n2, pa + n1) else (False, pb, pa))"
    by (intro equals_read_le [OF wf pb pa b a]) simp
  then show ?thesis
    by (cases "c1 = c2") (simp_all add: equals_def equals_loop_swap [of t b pb a pa])
qed

lemma equals_put:
  assumes wf: "wf_trie t" and h: "m = int (height t)"
    and put: "put_identifier t v = Some bs" "put_identifier t w = Some cs"
  shows "equals t (pre @ bs @ r1) (length pre) (pre' @ cs @ r2) (length pre') m =
    Inr (if v = w then (True, length pre + length bs, length pre' + length cs)
         else (False, length pre, length pre'))"
  unfolding h
  by (rule equals_read [OF wf]) (simp_all add: put_identifier_ptr [OF wf] put slice_of_def)


lemma full_id_read:
  assumes "VarLenFullID_read buf p e = Inr (bs, q)"
  shows "bs = slice_of p (q - p) buf" "p < q" "q \<le> e" "q \<le> length buf"
    and "\<exists>k. put_full_id k = Some bs"
proof -
  from assms obtain u m d p1 p2 where
    r: "readPrefixCode_reader app_trie_g buf p (Some e) = Inr (u, p1)"
      "readPrefixCode_reader account_trie_g buf p1 (Some e) = Inr (m, p2)"
      "readPrefixCode_reader local_trie_g buf p2 (Some e) = Inr (d, q)"
    and bs: "bs = slice_of p (q - p) buf"
    by (auto simp: VarLenFullID_read_def bind_result_Inr_iff)
  note b = app.dec_bounds [OF r(1)] account.dec_bounds [OF r(2)] loc.dec_bounds [OF r(3)]
  show "bs = slice_of p (q - p) buf" "p < q" "q \<le> e" "q \<le> length buf" using bs b by auto
  have "bs = slice_of p (p1 - p) buf @ slice_of p1 (p2 - p1) buf @ slice_of p2 (q - p2) buf"
  proof -
    have 1: "slice_of x (z - x) buf = slice_of x (y - x) buf @ slice_of y (z - y) buf"
      if "x < y" "y < z" for x y z
    proof -
      have "take (z - x) (drop x buf) = take ((y - x) + (z - y)) (drop x buf)" using that by simp
      also have "\<dots> = take (y - x) (drop x buf) @ take (z - y) (drop (y - x) (drop x buf))"
        by (rule take_add)
      finally show ?thesis using that by (simp add: slice_of_def)
    qed
    show ?thesis using b 1 [of p p1 q] 1 [of p1 p2 q] bs by simp
  qed
  then have "put_full_id (FullID u (LongLongID m d)) = Some bs"
    using app.enc_dec [OF r(1)] account.enc_dec [OF r(2)] loc.enc_dec [OF r(3)]
    by (simp add: put_full_id_def)
  then show "\<exists>k. put_full_id k = Some bs" ..
qed

lemma full_id_convert:
  assumes "put_full_id k = Some bs"
  shows "VarLenFullID_FullID bs = Inr k" "VarLenFullID_getLen bs = Inr (length bs)"
proof -
  from assms obtain u m d a b c where k: "k = FullID u (LongLongID m d)"
    and put: "put_identifier app_trie_g u = Some a" "put_identifier account_trie_g m = Some b"
      "put_identifier local_trie_g d = Some c" and bs: "bs = a @ b @ c"
    by (auto simp: put_full_id_Some)
  have "readPrefixCode_reader app_trie_g bs 0 None = Inr (u, length a)"
    using read_None_put [OF wf_protocol_tries(2) put(1), of "[]" "b @ c"] bs by simp
  moreover have "readPrefixCode_reader account_trie_g bs (length a) None = Inr (m, length a + length b)"
    using read_None_put [OF wf_protocol_tries(3) put(2), of a c] bs by simp
  moreover have "readPrefixCode_reader local_trie_g bs (length a + length b) None = Inr (d, length bs)"
    using read_None_put [OF wf_protocol_tries(4) put(3), of "a @ b" "[]"] bs by simp
  ultimately show "VarLenFullID_FullID bs = Inr k" "VarLenFullID_getLen bs = Inr (length bs)"
    by (simp_all add: VarLenFullID_FullID_def VarLenFullID_getLen_def k)
qed

lemma full_id_equals:
  assumes "put_full_id k = Some x" "put_full_id l = Some y"
  shows "VarLenFullID_eq x y = Inr (k = l)"
proof -
  from assms(1) obtain u m d a b c where k: "k = FullID u (LongLongID m d)"
    and put: "put_identifier app_trie_g u = Some a" "put_identifier account_trie_g m = Some b"
      "put_identifier local_trie_g d = Some c" and x: "x = a @ b @ c"
    by (auto simp: put_full_id_Some)
  from assms(2) obtain u' m' d' a' b' c' where l: "l = FullID u' (LongLongID m' d')"
    and put': "put_identifier app_trie_g u' = Some a'" "put_identifier account_trie_g m' = Some b'"
      "put_identifier local_trie_g d' = Some c'" and y: "y = a' @ b' @ c'"
    by (auto simp: put_full_id_Some)
  have h: "3 = int (height app_trie_g)" "3 = int (height account_trie_g)" "3 = int (height local_trie_g)"
    by simp_all
  note e1 = equals_put [OF wf_protocol_tries(2) h(1) put(1) put'(1), of "[]" "b @ c" "[]" "b' @ c'"]
  note e2 = equals_put [OF wf_protocol_tries(3) h(2) put(2) put'(2), of "a" "c" "a'" "c'"]
  note e3 = equals_put [OF wf_protocol_tries(4) h(3) put(3) put'(3), of "a @ b" "[]" "a' @ b'" "[]"]
  show ?thesis
    using e1 e2 e3 by (simp add: VarLenFullID_eq_def x y k l)
qed

lemma put_full_id_inj:
  assumes "put_full_id k = Some x" "put_full_id l = Some y"
  shows "x = y \<longleftrightarrow> k = l"
  using full_id_convert(1) [OF assms(1)] full_id_convert(1) [OF assms(2)] assms by auto

section \<open>Identifiers as text\<close>

definition toHex :: "uint64 \<Rightarrow> string" where
  "toHex value = ''0x'' @ digits_of 16 (unat value)"

definition LongID_string :: "uint64 \<Rightarrow> string" where
  "LongID_string i = toHex i"

definition LongLongID_string :: "LongLongID \<Rightarrow> string" where
  "LongLongID_string k = LongID_string (ll_up k) @ ''::'' @ LongID_string (ll_down k)"

definition FullID_string :: "FullID \<Rightarrow> string" where
  "FullID_string k = LongID_string (f_up k) @ ''::'' @ LongLongID_string (f_down k)"

text \<open>\<^verbatim>\<open>uncheckedParse\<close>: the number is shifted left by whole bytes until its top byte is used.\<close>

definition uncheckedParse :: "string \<Rightarrow> 'a::len word result" where
  "uncheckedParse str =
    bind_result (stoull str) (\<lambda>(num, _).
      let n1 = (if num > 0xffffffff then num else push_bit 32 num);
          n2 = (if n1 > 0xffffffffffff then n1 else push_bit 16 n1);
          n3 = (if n2 > 0xffffffffffffff then n2 else push_bit 8 n2)
      in Inr (ucast (drop_bit (64 - sizeof_word TYPE('a word) * 8) n3)))"

text \<open>The tokens \<^verbatim>\<open>strtok\<close> delivers one after the other.\<close>

function strtok_tokens :: "char \<Rightarrow> string \<Rightarrow> string list" where
  "strtok_tokens d [] = []"
| "strtok_tokens d (c # cs) =
    (if c = d then strtok_tokens d cs
     else (c # takeWhile (\<lambda>x. x \<noteq> d) cs) # strtok_tokens d (dropWhile (\<lambda>x. x \<noteq> d) cs))"
  by pat_completeness auto
termination
  by (relation "measure (\<lambda>(d, cs). length cs)") (auto intro: le_imp_less_Suc length_dropWhile_le)

fun parse_components :: "nat \<Rightarrow> byte list \<Rightarrow> string list \<Rightarrow> byte list result" where
  "parse_components h buffer [] = Inr buffer"
| "parse_components h buffer (token # tokens) =
    (if length buffer = h then Inl Invalid_argument
     else bind_result (stoull token) (\<lambda>(component, _).
       if component > 255 then Inl Overflow_error
       else parse_components h (buffer @ [ucast component]) tokens))"

definition parsePrefixCode :: "'a::len word ptrie \<Rightarrow> string \<Rightarrow> 'a word result" where
  "parsePrefixCode t symbolicRep =
    bind_result
      (parse_components (height t) []
        (strtok_tokens (CHR ''.'') (takeWhile (\<lambda>c. c \<noteq> CHR 0x00) symbolicRep)))
      (\<lambda>buffer. bind_result (readPrefixCode_ptr t buffer 0 (int (length buffer)))
        (\<lambda>(code, n). if n \<noteq> length buffer then Inl Invalid_argument else Inr code))"

function toDecimalStr_loop :: "'a::len word ptrie \<Rightarrow> 'a word \<Rightarrow> nat \<Rightarrow> string \<Rightarrow> string result" where
  "toDecimalStr_loop t code i ret =
    (if i < height t then
       (let ret' = ret @ to_string (unat (ucast (drop_bit (byte_shift TYPE('a word) i) code) :: byte))
        in if code < pt_boundary t ! i then Inr ret'
           else toDecimalStr_loop t code (i + 1) (ret' @ ''.''))
     else Inl Out_of_range)"
  by pat_completeness auto
termination
  by (relation "measure (\<lambda>(t, code, i, ret). height t - i)") auto

declare toDecimalStr_loop.simps [simp del]

definition toDecimalStr :: "'a::len word ptrie \<Rightarrow> 'a word \<Rightarrow> string result" where
  "toDecimalStr t code = toDecimalStr_loop t code 0 []"


section \<open>Text is read back\<close>

lemma unat_push_small:
  fixes w :: uint64
  assumes "unat w * 2 ^ k < 2 ^ 64"
  shows "unat (push_bit k w) = unat w * 2 ^ k"
  using assms unfolding unsigned_push_bit_eq by (simp add: take_bit_eq_mod push_bit_eq_mult)

text \<open>Normalising a number: whole bytes of zeros are added until the top byte is used.\<close>

lemma normalise_step:
  fixes w :: uint64
  assumes "j + k = 64"
  defines "w' \<equiv> (if w \<ge> 2 ^ j then w else push_bit k w)"
  assumes "k < 64" "0 < k"
  shows "(unat w' = unat w \<and> 2 ^ j \<le> unat w) \<or>
    (unat w < 2 ^ j \<and> unat w' = unat w * 2 ^ k)"
proof -
  have "(2 :: nat) ^ j < 2 ^ 64" by (rule power_strict_increasing) (use assms in simp_all)
  then have "unat (push_bit j 1 :: uint64) = 2 ^ j" by (subst unat_push_small) simp_all
  then have j: "unat (2 ^ j :: uint64) = 2 ^ j" by (simp add: push_bit_eq_mult)
  show ?thesis
  proof (cases "w \<ge> 2 ^ j")
    case True
    then show ?thesis using j by (simp add: w'_def word_le_nat_alt)
  next
    case False
    then have "unat w < 2 ^ j" using j by (simp add: word_le_nat_alt)
    moreover from this have "unat w * 2 ^ k < 2 ^ 64"
    proof -
      assume "unat w < 2 ^ j"
      then have "unat w * 2 ^ k < 2 ^ j * 2 ^ k" by (rule mult_strict_right_mono) simp
      then show ?thesis by (simp only: power_add [symmetric] assms(1))
    qed
    ultimately show ?thesis using False by (simp add: w'_def unat_push_small)
  qed
qed

lemma uncheckedParse_normalises:
  assumes "stoull str = Inr (num, l)"
  shows "\<exists>k. uncheckedParse str = Inr (word_of_nat (unat num * 256 ^ k) :: uint64) \<and>
    unat num * 256 ^ k < 2 ^ 64 \<and> (num \<noteq> 0 \<longrightarrow> 2 ^ 56 \<le> unat num * 256 ^ k)"
proof -
  define n1 where "n1 = (if num > 0xffffffff then num else push_bit 32 num)"
  define n2 where "n2 = (if n1 > 0xffffffffffff then n1 else push_bit 16 n1)"
  define n3 where "n3 = (if n2 > 0xffffffffffffff then n2 else push_bit 8 n2)"
  have gt: "num > 0xffffffff \<longleftrightarrow> num \<ge> 2 ^ 32" "n1 > 0xffffffffffff \<longleftrightarrow> n1 \<ge> 2 ^ 48"
    "n2 > 0xffffffffffffff \<longleftrightarrow> n2 \<ge> 2 ^ 56" for num n1 n2 :: uint64
    by (simp_all add: word_less_nat_alt word_le_nat_alt) linarith+
  have "uncheckedParse str = Inr n3"
    unfolding uncheckedParse_def assms bind_result_simps prod.case Let_def
      n1_def [symmetric] n2_def [symmetric] n3_def [symmetric]
    by (simp add: sizeof_word_def)
  moreover have 1: "(unat n1 = unat num \<and> 2 ^ 32 \<le> unat num) \<or> (unat num < 2 ^ 32 \<and> unat n1 = unat num * 256 ^ 4)"
    using normalise_step [of 32 32 num] unfolding n1_def gt by simp
  moreover have 2: "(unat n2 = unat n1 \<and> 2 ^ 48 \<le> unat n1) \<or> (unat n1 < 2 ^ 48 \<and> unat n2 = unat n1 * 256 ^ 2)"
    using normalise_step [of 48 16 n1] unfolding n2_def gt by simp
  moreover have 3: "(unat n3 = unat n2 \<and> 2 ^ 56 \<le> unat n2) \<or> (unat n2 < 2 ^ 56 \<and> unat n3 = unat n2 * 256 ^ 1)"
    using normalise_step [of 56 8 n2] unfolding n3_def gt by simp
  have "\<exists>k. unat n3 = unat num * 256 ^ k"
  proof -
    have "\<exists>a. unat n1 = unat num * 256 ^ a"
      using 1 by (elim disjE conjE) (rule exI [of _ 0], simp, rule exI [of _ 4], simp)
    then obtain a where a: "unat n1 = unat num * 256 ^ a" ..
    have "\<exists>b. unat n2 = unat n1 * 256 ^ b"
      using 2 by (elim disjE conjE) (rule exI [of _ 0], simp, rule exI [of _ 2], simp)
    then obtain b where b: "unat n2 = unat n1 * 256 ^ b" ..
    have "\<exists>c. unat n3 = unat n2 * 256 ^ c"
      using 3 by (elim disjE conjE) (rule exI [of _ 0], simp, rule exI [of _ 1], simp)
    then obtain c where c: "unat n3 = unat n2 * 256 ^ c" ..
    have "unat n3 = unat num * 256 ^ (a + b + c)"
      unfolding a b c by (simp only: power_add mult.assoc)
    then show ?thesis ..
  qed
  then obtain k where k: "unat n3 = unat num * 256 ^ k" ..
  have "2 ^ 56 \<le> unat n3" if "num \<noteq> 0"
  proof -
    have "1 \<le> unat num" using that by (simp add: Suc_le_eq unat_gt_0)
    then have "2 ^ 32 \<le> unat n1" using 1 by (elim disjE conjE) simp_all
    then have "2 ^ 48 \<le> unat n2" using 2 by (elim disjE conjE) simp_all
    then show ?thesis using 3 by (elim disjE conjE) simp_all
  qed
  moreover have "unat n3 < 2 ^ 64" using unsigned_less [of n3] by simp
  moreover have "n3 = word_of_nat (unat num * 256 ^ k)" by (simp only: k [symmetric] of_nat_unat ucast_id)
  ultimately show ?thesis using k by (intro exI [of _ k]) simp
qed

lemma toHex_parse:
  assumes "v = 0 \<or> 2 ^ 56 \<le> unat v"
  shows "uncheckedParse (toHex v) = Inr v"
proof -
  have "unat v < 2 ^ 64" using unsigned_less [of v] by simp
  then have s: "stoull (toHex v) = Inr (v, 2 + length (digits_of 16 (unat v)))"
    using stoull_hex [of "unat v"] by (simp add: toHex_def)
  obtain k where k: "uncheckedParse (toHex v) = Inr (word_of_nat (unat v * 256 ^ k) :: uint64)"
    "unat v * 256 ^ k < 2 ^ 64"
    using uncheckedParse_normalises [OF s] by blast
  have "unat v * 256 ^ k = unat v"
  proof (cases "v = 0")
    case False
    have "k = 0"
    proof (rule ccontr)
      assume "k \<noteq> 0"
      then have "(256 :: nat) ^ 1 \<le> 256 ^ k" by (intro power_increasing) simp_all
      then have "2 ^ 56 * 256 \<le> unat v * 256 ^ k" using assms False by (intro mult_le_mono) simp_all
      then show False using k(2) by simp
    qed
    then show ?thesis by simp
  qed simp
  then show ?thesis using k(1) by (simp only: of_nat_unat ucast_id)
qed

lemma identifier_top_byte:
  fixes t :: "uint64 ptrie"
  assumes wf: "wf_trie t" and t0: "0 < tb t 0" and put: "put_identifier t v = Some bs"
  shows "v = 0 \<or> 2 ^ 56 \<le> unat v"
proof -
  have r: "readPrefixCode_ptr t bs 0 (int (height t)) = Inr (v, length bs)"
    using put by (simp add: put_identifier_Some [OF wf])
  note n = r [unfolded readPrefixCode_ptr_Inr [OF wf le0]]
  then have "bs \<noteq> []" by auto
  then obtain b cs where bs: "bs = b # cs" by (cases bs) simp_all
  have l: "length bs \<le> 8" using n wf_trieD(3) [OF wf] by (simp add: sizeof_word_def)
  have v: "unat v = be_value bs * 256 ^ (8 - length bs)"
  proof -
    have "v = left_align (length bs) (be_value bs)" using n by simp
    then show ?thesis
      using l be_value_lt [of bs] unat_left_align [of "length bs" "be_value bs", where 'a = 64]
      by (simp add: sizeof_word_def)
  qed
  show ?thesis
  proof (cases "b = 0")
    case True
    then have "code_level t bs 0" using t0 by (simp add: code_level_def bs)
    moreover have "\<forall>j < length bs - 1. \<not> code_level t bs j" using n by simp
    ultimately have "\<not> 0 < length bs - 1" by blast
    then have "cs = []" using bs by simp
    then have "unat v = 0" using v True bs by simp
    then show ?thesis by (simp add: unat_eq_0)
  next
    case False
    then have "1 \<le> unat b" by (simp add: Suc_le_eq unat_gt_0)
    then have "1 * 256 ^ length cs \<le> unat b * 256 ^ length cs" by (rule mult_le_mono1)
    then have "256 ^ length cs \<le> be_value bs" unfolding bs be_value.simps by linarith
    then have "256 ^ length cs * 256 ^ (8 - length bs) \<le> unat v"
      unfolding v by (rule mult_le_mono1)
    moreover have "length cs + (8 - length bs) = 7" using bs l by simp
    then have "(256 :: nat) ^ length cs * 256 ^ (8 - length bs) = 256 ^ 7"
      by (simp only: power_add [symmetric])
    ultimately have "256 ^ 7 \<le> unat v" by (simp only:)
    then show ?thesis by simp
  qed
qed

subsection \<open>The dotted form\<close>

fun dotted :: "byte list \<Rightarrow> string" where
  "dotted [] = []"
| "dotted [b] = to_string (unat b)"
| "dotted (b # bs) = to_string (unat b) @ ''.'' @ dotted bs"

lemma to_string_no_dot:
  "c \<in> set (to_string n) \<Longrightarrow> c \<noteq> CHR ''.'' \<and> c \<noteq> CHR 0x00"
  using digits_of_digits [of 10 n] by (auto simp: to_string_def digit_val_def)

lemma dotted_no_nul: "takeWhile (\<lambda>c. c \<noteq> CHR 0x00) (dotted bs) = dotted bs"
proof -
  have "c \<noteq> CHR 0x00" if "c \<in> set (dotted bs)" for c
    using that to_string_no_dot by (induction bs rule: dotted.induct) auto
  then show ?thesis by (simp add: takeWhile_eq_all_conv)
qed

lemma strtok_token:
  assumes "tok \<noteq> []" "d \<notin> set tok"
  shows "strtok_tokens d tok = [tok]" "strtok_tokens d (tok @ d # rest) = tok # strtok_tokens d rest"
proof -
  obtain c cs where tok: "tok = c # cs" using assms(1) by (cases tok) auto
  have "takeWhile (\<lambda>x. x \<noteq> d) cs = cs" "dropWhile (\<lambda>x. x \<noteq> d) cs = []"
    "takeWhile (\<lambda>x. x \<noteq> d) (cs @ d # rest) = cs"
    "dropWhile (\<lambda>x. x \<noteq> d) (cs @ d # rest) = d # rest"
    using assms(2) unfolding tok by (induction cs) auto
  moreover have "c \<noteq> d" using assms(2) tok by auto
  ultimately show "strtok_tokens d tok = [tok]"
    "strtok_tokens d (tok @ d # rest) = tok # strtok_tokens d rest"
    by (simp_all add: tok del: dropWhile_eq_Nil_conv takeWhile_eq_all_conv)
qed

lemma strtok_dotted: "strtok_tokens (CHR ''.'') (dotted bs) = map (\<lambda>b. to_string (unat b)) bs"
proof (induction bs rule: dotted.induct)
  case 1
  then show ?case by simp
next
  case (2 b)
  then show ?case using to_string_no_dot strtok_token(1) [of "to_string (unat b)" "CHR ''.''"]
    by (auto simp: to_string_def)
next
  case (3 b c bs)
  then show ?case
    using to_string_no_dot strtok_token(2) [of "to_string (unat b)" "CHR ''.''" "dotted (c # bs)"]
    by (auto simp: to_string_def)
qed

lemma parse_components_to_string:
  "length buffer + length bs \<le> h \<Longrightarrow>
    parse_components h buffer (map (\<lambda>b. to_string (unat b)) bs) = Inr (buffer @ bs)"
proof (induction bs arbitrary: buffer)
  case Nil
  then show ?case by simp
next
  case (Cons b bs)
  have s: "stoull (to_string (unat b)) = Inr (word_of_nat (unat b), length (to_string (unat b)))"
    using stoull_to_string [of "[]" "unat b"] unat_byte_lt [of b] by simp
  have w: "\<not> (word_of_nat (unat b) :: uint64) > 255" "ucast (word_of_nat (unat b) :: uint64) = b"
  proof -
    have u: "unat (word_of_nat (unat b) :: uint64) = unat b"
      using unat_byte_lt [of b] by (subst unat_of_nat) simp
    show "\<not> (word_of_nat (unat b) :: uint64) > 255"
      using unat_byte_le [of b] by (simp add: word_less_nat_alt u del: of_nat_unat)
    show "ucast (word_of_nat (unat b) :: uint64) = b"
      using unat_byte_lt [of b]
      by (simp only: word_unat_eq_iff unsigned_ucast_eq u) (simp add: take_bit_eq_mod)
  qed
  show ?case using Cons w by (simp add: s)
qed

lemma toDecimalStr_loop_fixed:
  "readPrefixCode_fixed_loop t w m i = Inr (c, n) \<Longrightarrow> m = height t \<Longrightarrow>
    i < n \<and> toDecimalStr_loop t w i ret = Inr (ret @ dotted (drop i (writeBigEndian w n)))"
proof (induction t w m i arbitrary: ret rule: readPrefixCode_fixed_loop.induct)
  case (1 t w m i)
  note prem = "1.prems"(1) [unfolded readPrefixCode_fixed_loop.simps [of t w m i]]
  let ?f = "\<lambda>i. ucast (drop_bit (byte_shift TYPE('a word) i) w) :: byte"
  have im: "i < m" using prem by (auto split: if_splits)
  show ?case
  proof (cases "w < pt_boundary t ! i")
    case True
    then have n: "n = i + 1" using prem im by simp
    then have "drop i (writeBigEndian w n) = [?f i]"
      by (simp add: writeBigEndian_def drop_map)
    then show ?thesis using True n im "1.prems"(2)
      by (subst toDecimalStr_loop.simps) (simp add: Let_def)
  next
    case False
    then have r: "readPrefixCode_fixed_loop t w m (i + 1) = Inr (c, n)" using prem im by simp
    note IH = "1.IH" [OF im False r "1.prems"(2)]
    then have lt: "Suc i < n" by simp
    have d: "drop i (writeBigEndian w n) = ?f i # drop (i + 1) (writeBigEndian w n)"
      using lt by (simp add: Cons_nth_drop_Suc [symmetric] writeBigEndian_def)
    have "drop (i + 1) (writeBigEndian w n) \<noteq> []" using lt by simp
    then have "dotted (drop i (writeBigEndian w n)) =
        to_string (unat (?f i)) @ ''.'' @ dotted (drop (i + 1) (writeBigEndian w n))"
      unfolding d by (metis dotted.simps(3) list.exhaust)
    then show ?thesis using IH False im "1.prems"(2) lt
      by (subst toDecimalStr_loop.simps) (simp add: Let_def)
  qed
qed

lemma identifier_text:
  fixes t :: "'a::len word ptrie"
  assumes wf: "wf_trie t" and put: "put_identifier t v = Some bs"
  shows "toDecimalStr t v = Inr (dotted bs)" "parsePrefixCode t (dotted bs) = Inr v"
proof -
  obtain n where r: "readPrefixCode_fixed t v (int (height t)) = Inr (v, n)"
    and bs: "bs = writeBigEndian v n"
    using put by (auto simp: put_identifier_def split: sum.splits if_splits)
  show "toDecimalStr t v = Inr (dotted bs)"
    using toDecimalStr_loop_fixed [OF r [unfolded readPrefixCode_fixed_def], of "[]"] bs
    by (simp add: toDecimalStr_def)
  have p: "readPrefixCode_ptr t bs 0 (int (height t)) = Inr (v, length bs)"
    using put by (simp add: put_identifier_Some [OF wf])
  then have h: "length bs \<le> height t" by (simp add: readPrefixCode_ptr_Inr [OF wf])
  have "readPrefixCode_ptr t bs 0 (int (length bs)) = Inr (v, length bs)"
    by (rule read_local [OF wf le0 _ _ p]) simp_all
  then show "parsePrefixCode t (dotted bs) = Inr v"
    using h parse_components_to_string [of "[]" bs "height t"]
    by (simp add: parsePrefixCode_def dotted_no_nul strtok_dotted)
qed


section \<open>The properties\<close>

lemma first_level_protocol_tries:
  "0 < tb app_trie_g 0" "0 < tb account_trie_g 0" "0 < tb local_trie_g 0"
  by code_simp+

text \<open>Identifiers constructed by reading serialised data stay within the buffer, have the length
  that was read, and two of them are equal for \<^verbatim>\<open>operator==\<close> exactly when the full identifiers
  they stand for are equal, which is exactly when their bytes are; the comparison never throws.\<close>

theorem full_id_identity:
  assumes "VarLenFullID_read buf p e = Inr (a, q)" and "VarLenFullID_read buf' p' e' = Inr (b, q')"
  shows "\<exists>k l. VarLenFullID_FullID a = Inr k \<and> VarLenFullID_FullID b = Inr l \<and>
    VarLenFullID_eq a b = Inr (k = l) \<and> (a = b \<longleftrightarrow> k = l) \<and>
    VarLenFullID_getLen a = Inr (q - p) \<and> a = slice_of p (q - p) buf \<and>
    p < q \<and> q \<le> e \<and> q \<le> length buf"
proof -
  note ra = full_id_read [OF assms(1)]
  obtain k l where k: "put_full_id k = Some a" and l: "put_full_id l = Some b"
    using ra(5) full_id_read(5) [OF assms(2)] by blast
  have "length a = q - p" unfolding ra(1) using ra(2,4) by (intro length_slice_of) simp
  then show ?thesis
    using full_id_convert [OF k] full_id_convert(1) [OF l] full_id_equals [OF k l]
      put_full_id_inj [OF k l] ra(1-4) by (intro exI [of _ k] exI [of _ l]) simp
qed

theorem full_id_identity_witness:
  "\<exists>k l. VarLenFullID_FullID [1, 0x61, 2, 0xc1, 5] = Inr k \<and> VarLenFullID_FullID [1, 0x61, 2, 7] = Inr l \<and>
    VarLenFullID_eq [1, 0x61, 2, 0xc1, 5] [1, 0x61, 2, 7] = Inr (k = l) \<and>
    ([1, 0x61, 2, 0xc1, 5] = [1, 0x61, 2, 7 :: byte] \<longleftrightarrow> k = l) \<and>
    VarLenFullID_getLen [1, 0x61, 2, 0xc1, 5] = Inr (6 - 1) \<and>
    [1, 0x61, 2, 0xc1, 5] = slice_of 1 (6 - 1) [9, 1, 0x61, 2, 0xc1, 5 :: byte] \<and>
    1 < (6 :: nat) \<and> 6 \<le> (6 :: nat) \<and> 6 \<le> length [9, 1, 0x61, 2, 0xc1, 5 :: byte]"
proof (rule full_id_identity)
  show "VarLenFullID_read [9, 1, 0x61, 2, 0xc1, 5] 1 6 = Inr ([1, 0x61, 2, 0xc1, 5], 6)" by code_simp
  show "VarLenFullID_read [1, 0x61, 2, 7, 8] 0 5 = Inr ([1, 0x61, 2, 7], 4)" by code_simp
qed

text \<open>C37: Every application, account or local identifier that can be read from serialised data is
  given back by parsing its hexadecimal form and by parsing its dotted decimal form.\<close>

theorem identifier_text_roundtrip:
  assumes "t = app_trie_g \<or> t = account_trie_g \<or> t = local_trie_g"
    and "readPrefixCode_reader t buf p (Some e) = Inr (ident, q)"
  shows "uncheckedParse (toHex ident) = Inr ident \<and>
    (\<exists>s. toDecimalStr t ident = Inr s \<and> parsePrefixCode t s = Inr ident)"
proof -
  have wf: "wf_trie t" and t0: "0 < tb t 0" using assms(1) first_level_protocol_tries by auto
  note put = prefix_codec.enc_dec [OF identifier_codec [OF wf] assms(2)]
  show ?thesis
    using toHex_parse [OF identifier_top_byte [OF wf t0 put]] identifier_text [OF wf put] by blast
qed

theorem identifier_text_roundtrip_witness:
  "uncheckedParse (toHex 0xa5b0000000000000) = Inr (0xa5b0000000000000 :: uint64) \<and>
    (\<exists>s. toDecimalStr app_trie_g 0xa5b0000000000000 = Inr s \<and>
      parsePrefixCode app_trie_g s = Inr 0xa5b0000000000000)"
proof (rule identifier_text_roundtrip)
  show "readPrefixCode_reader app_trie_g [0xa5, 0xb0, 1] 0 (Some 3) = Inr (0xa5b0000000000000, 2)"
    by code_simp
qed simp

end
