(* ===== verification/Static_Map.thy ===== *)
theory Static_Map
  imports Prelude
begin

text \<open>
  The sorted vectors of \<^verbatim>\<open>src/util/OrderedStaticMap.hpp\<close>: the map of two parallel vectors with
  its binary search, \<^verbatim>\<open>operator|\<close> and the parallel merge of many maps, and the two in-place
  algorithms \<^verbatim>\<open>insertionSort\<close> and \<^verbatim>\<open>mergeInsert\<close>.

  The locale \<open>keyed_table\<close> is the interface of a table looked up by key, \<open>mergeable\<close> the one of
  maps that can be merged in any grouping; both are interpreted on the class.
\<close>


section \<open>The class\<close>

record ('k, 'v) ordered_map =
  osm_keys :: "'k list"
  osm_values :: "'v list"

definition OrderedStaticMap :: "'k list \<Rightarrow> 'v list \<Rightarrow> ('k, 'v) ordered_map result" where
  "OrderedStaticMap ks vs =
    (if length ks \<noteq> length vs then Inl Invalid_argument
     else Inr \<lparr>osm_keys = ks, osm_values = vs\<rparr>)"

function osm_find_loop :: "'k::linorder list \<Rightarrow> 'k \<Rightarrow> nat \<Rightarrow> nat \<Rightarrow> nat result" where
  "osm_find_loop sortedKeys key b e =
    (let mid = (b + e) div 2
     in if mid < e then
          (if key = sortedKeys ! mid then Inr mid
           else if key < sortedKeys ! mid then osm_find_loop sortedKeys key b mid
           else osm_find_loop sortedKeys key (mid + 1) e)
        else Inl Out_of_range)"
  by pat_completeness auto
termination
  by (relation "measure (\<lambda>(ks, k, b, e). e - b)") auto

declare osm_find_loop.simps [simp del]

definition osm_find :: "'k::linorder list \<Rightarrow> 'k \<Rightarrow> nat result" where
  "osm_find sortedKeys key = osm_find_loop sortedKeys key 0 (length sortedKeys)"

definition osm_at :: "('k::linorder, 'v) ordered_map \<Rightarrow> 'k \<Rightarrow> 'v result" where
  "osm_at m key =
    bind_result (osm_find (osm_keys m) key) (\<lambda>i.
      if i < length (osm_values m) then Inr (osm_values m ! i) else Inl Undefined_behaviour)"

text \<open>Writing through the reference \<^verbatim>\<open>at(key)\<close> returns.\<close>

definition osm_update :: "('k::linorder, 'v) ordered_map \<Rightarrow> 'k \<Rightarrow> 'v \<Rightarrow> ('k, 'v) ordered_map result" where
  "osm_update m key v =
    bind_result (osm_find (osm_keys m) key) (\<lambda>i.
      if i < length (osm_values m) then Inr (m\<lparr>osm_values := (osm_values m)[i := v]\<rparr>)
      else Inl Undefined_behaviour)"

definition osm_size :: "('k, 'v) ordered_map \<Rightarrow> nat" where
  "osm_size m = length (osm_keys m)"

text \<open>The entries, key and value, in the order of the vectors.\<close>

definition entries :: "('k, 'v) ordered_map \<Rightarrow> ('k \<times> 'v) list" where
  "entries m = zip (osm_keys m) (osm_values m)"

definition of_entries :: "('k \<times> 'v) list \<Rightarrow> ('k, 'v) ordered_map" where
  "of_entries es = \<lparr>osm_keys = map fst es, osm_values = map snd es\<rparr>"

section \<open>Merging\<close>

text \<open>
  \<^verbatim>\<open>operator|\<close>. The two indices walk through the entries of the maps; \<open>mv l r\<close> is
  \<^verbatim>\<open>mergeValues\<close>: the merged value and which of the two indices it advances.
\<close>

function merge_entries ::
  "('v \<Rightarrow> 'v \<Rightarrow> 'v \<times> bool \<times> bool) \<Rightarrow> ('k::linorder \<times> 'v) list \<Rightarrow> ('k \<times> 'v) list \<Rightarrow> ('k \<times> 'v) list"
where
  "merge_entries mv ((k1, v1) # ls) ((k2, v2) # rs) =
    (if k1 = k2 then
       (case mv v1 v2 of (v, ai, aj) \<Rightarrow>
          if ai \<or> aj then
            (k1, v) # merge_entries mv (if ai then ls else (k1, v1) # ls) (if aj then rs else (k2, v2) # rs)
          else [])
     else if k1 < k2 then (k1, v1) # merge_entries mv ls ((k2, v2) # rs)
     else (k2, v2) # merge_entries mv ((k1, v1) # ls) rs)"
| "merge_entries mv ls [] = ls"
| "merge_entries mv [] rs = rs"
  by pat_completeness auto
termination
  by (relation "measure (\<lambda>(mv, ls, rs). length ls + length rs)") (auto split: if_splits)

definition osm_merge ::
  "('v \<Rightarrow> 'v \<Rightarrow> 'v \<times> bool \<times> bool) \<Rightarrow> ('k::linorder, 'v) ordered_map \<Rightarrow> ('k, 'v) ordered_map
   \<Rightarrow> ('k, 'v) ordered_map" where
  "osm_merge mv left right = of_entries (merge_entries mv (entries left) (entries right))"

text \<open>\<^verbatim>\<open>mergeValues\<close> for plain values: the smaller one is taken and only its map advances.\<close>

definition mergeValues_leaf :: "'v::ord \<Rightarrow> 'v \<Rightarrow> 'v \<times> bool \<times> bool" where
  "mergeValues_leaf left right = (if left < right then (left, True, False) else (right, False, True))"

text \<open>\<^verbatim>\<open>mergeValues\<close> for maps: both advance and the two maps are merged.\<close>

definition mergeValues_map ::
  "('v \<Rightarrow> 'v \<Rightarrow> 'v \<times> bool \<times> bool) \<Rightarrow> ('k::linorder, 'v) ordered_map \<Rightarrow> ('k, 'v) ordered_map
   \<Rightarrow> ('k, 'v) ordered_map \<times> bool \<times> bool" where
  "mergeValues_map mv left right = (osm_merge mv left right, True, True)"

function mergeIntervalParallel ::
  "('v \<Rightarrow> 'v \<Rightarrow> 'v \<times> bool \<times> bool) \<Rightarrow> ('k::linorder, 'v) ordered_map list \<Rightarrow> nat \<Rightarrow> nat \<Rightarrow> nat
   \<Rightarrow> ('k, 'v) ordered_map" where
  "mergeIntervalParallel mv maps b e k =
    (if e \<le> b then of_entries []
     else if e = b + 1 then maps ! b
     else if e \<le> b + k then
       osm_merge mv (mergeIntervalParallel mv maps b ((b + e) div 2) k)
         (mergeIntervalParallel mv maps ((b + e) div 2) e k)
     else
       (let secondHalf = mergeIntervalParallel mv maps ((b + e) div 2) e k;
            firstHalf = mergeIntervalParallel mv maps b ((b + e) div 2) k
        in osm_merge mv firstHalf secondHalf))"
  by pat_completeness auto
termination
  by (relation "measure (\<lambda>(mv, maps, b, e, k). e - b)") auto

declare mergeIntervalParallel.simps [simp del]

definition mergeAllParallel ::
  "('v \<Rightarrow> 'v \<Rightarrow> 'v \<times> bool \<times> bool) \<Rightarrow> ('k::linorder, 'v) ordered_map list \<Rightarrow> nat
   \<Rightarrow> ('k, 'v) ordered_map result" where
  "mergeAllParallel mv maps workersCount =
    (if workersCount = 0 then Inl Undefined_behaviour
     else Inr (mergeIntervalParallel mv maps 0 (length maps) (length maps div workersCount)))"

section \<open>Sorting and inserting\<close>

function insertion_bubble :: "'a::linorder list \<Rightarrow> nat \<Rightarrow> 'a list" where
  "insertion_bubble v j =
    (if 0 < j \<and> v ! j < v ! (j - 1)
     then insertion_bubble (v[j := v ! (j - 1), j - 1 := v ! j]) (j - 1) else v)"
  by pat_completeness auto
termination
  by (relation "measure snd") auto

declare insertion_bubble.simps [simp del]

definition insertionSort :: "'a::linorder list \<Rightarrow> 'a list" where
  "insertionSort v = fold (\<lambda>i v. insertion_bubble v i) [1..<length v] v"

function merge_shift :: "'a::linorder list \<Rightarrow> 'a \<Rightarrow> nat \<Rightarrow> int \<Rightarrow> 'a list \<times> int" where
  "merge_shift l x i j =
    (if 0 \<le> j \<and> l ! nat j > x
     then merge_shift (l[nat j + i + 1 := l ! nat j]) x i (j - 1) else (l, j))"
  by pat_completeness auto
termination
  by (relation "measure (\<lambda>(l, x, i, j). nat (j + 1))") auto

declare merge_shift.simps [simp del]

fun mergeInsert_loop :: "'a::linorder list \<Rightarrow> 'a list \<Rightarrow> nat \<Rightarrow> int \<Rightarrow> 'a list" where
  "mergeInsert_loop l r 0 j = l"
| "mergeInsert_loop l r (Suc i) j =
    (let (l', j') = merge_shift l (r ! i) i j
     in mergeInsert_loop (l'[nat (j' + int i + 1) := r ! i]) r i j')"

text \<open>\<^verbatim>\<open>resize\<close> appends value-initialised elements, here \<open>d\<close>.\<close>

definition mergeInsert :: "'a::linorder \<Rightarrow> 'a list \<Rightarrow> 'a list \<Rightarrow> 'a list" where
  "mergeInsert d l r = mergeInsert_loop (l @ replicate (length r) d) r (length r) (int (length l) - 1)"


section \<open>Lookup\<close>

definition wf_keys :: "('k::linorder, 'v) ordered_map \<Rightarrow> bool" where
  "wf_keys m \<longleftrightarrow> length (osm_keys m) = length (osm_values m) \<and> sorted_wrt (<) (osm_keys m)"

lemma OrderedStaticMap_Inr:
  "OrderedStaticMap ks vs = Inr m \<longleftrightarrow> length ks = length vs \<and> m = \<lparr>osm_keys = ks, osm_values = vs\<rparr>"
  by (auto simp: OrderedStaticMap_def)

lemma entries_of_entries [simp]: "entries (of_entries es) = es"
  by (simp add: entries_def of_entries_def zip_map_fst_snd)

lemma map_fst_entries: "length (osm_keys m) = length (osm_values m) \<Longrightarrow> map fst (entries m) = osm_keys m"
  by (simp add: entries_def)

lemma map_snd_entries: "length (osm_keys m) = length (osm_values m) \<Longrightarrow> map snd (entries m) = osm_values m"
  by (simp add: entries_def)

lemma of_entries_entries: "length (osm_keys m) = length (osm_values m) \<Longrightarrow> of_entries (entries m) = m"
  by (simp add: of_entries_def map_fst_entries map_snd_entries)

lemma sorted_keys_nth:
  assumes "sorted_wrt (<) (ks :: 'k::linorder list)" "i < length ks" "j < length ks"
  shows "ks ! i < ks ! j \<longleftrightarrow> i < j" "ks ! i = ks ! j \<longleftrightarrow> i = j"
  using assms sorted_wrt_nth_less [OF assms(1), of i j] sorted_wrt_nth_less [OF assms(1), of j i]
  by (cases i j rule: linorder_cases; auto)+

text \<open>The binary search keeps the key's position, if there is one, between its two bounds.\<close>

lemma osm_find_loop_correct:
  assumes "sorted_wrt (<) ks" "e \<le> length ks"
    and "\<forall>i < length ks. ks ! i = key \<longrightarrow> b \<le> i \<and> i < e"
  shows "(\<forall>i < length ks. ks ! i = key \<longrightarrow> osm_find_loop ks key b e = Inr i) \<and>
    (key \<notin> set ks \<longrightarrow> osm_find_loop ks key b e = Inl Out_of_range)"
  using assms
proof (induction ks key b e rule: osm_find_loop.induct)
  case (1 ks key b e)
  note prems = "1.prems"
  let ?mid = "(b + e) div 2"
  show ?case
  proof (cases "?mid < e")
    case False
    then have "e \<le> b" by simp
    then have "\<forall>i < length ks. ks ! i \<noteq> key" using prems(3) by force
    then show ?thesis using False by (simp add: osm_find_loop.simps [of ks key b e])
  next
    case True
    then have ml: "?mid < length ks" using prems(2) by simp
    consider (eq) "ks ! ?mid = key" | (lt) "key < ks ! ?mid" | (gt) "ks ! ?mid < key"
      using linorder_less_linear by metis
    then show ?thesis
    proof cases
      case eq
      then have "osm_find_loop ks key b e = Inr ?mid"
        using True by (subst osm_find_loop.simps) simp
      moreover have "i = ?mid" if "i < length ks" "ks ! i = key" for i
        using sorted_keys_nth(2) [OF prems(1) that(1) ml] that(2) eq by simp
      ultimately show ?thesis using eq ml by (metis nth_mem)
    next
      case lt
      then have ne: "key \<noteq> ks ! ?mid" by simp
      have "\<forall>i < length ks. ks ! i = key \<longrightarrow> b \<le> i \<and> i < ?mid"
        using prems(3) sorted_keys_nth(1) [OF prems(1) _ ml] lt by metis
      then show ?thesis
        using "1.IH"(1) [OF refl True ne lt prems(1)] ml lt ne True
        by (simp add: osm_find_loop.simps [of ks key b e])
    next
      case gt
      then have ne: "key \<noteq> ks ! ?mid" "\<not> key < ks ! ?mid" by auto
      have "\<forall>i < length ks. ks ! i = key \<longrightarrow> ?mid + 1 \<le> i \<and> i < e"
        using prems(3) sorted_keys_nth(1) [OF prems(1) ml] gt by (metis Suc_eq_plus1 Suc_leI)
      then show ?thesis
        using "1.IH"(2) [OF refl True ne prems(1,2)] ne True
        by (simp add: osm_find_loop.simps [of ks key b e])
    qed
  qed
qed

lemma osm_find_correct:
  assumes "sorted_wrt (<) ks"
  shows "osm_find ks key = Inr i \<longleftrightarrow> i < length ks \<and> ks ! i = key"
    and "osm_find ks key = Inl x \<longleftrightarrow> key \<notin> set ks \<and> x = Out_of_range"
proof -
  have c: "(\<forall>i < length ks. ks ! i = key \<longrightarrow> osm_find ks key = Inr i) \<and>
      (key \<notin> set ks \<longrightarrow> osm_find ks key = Inl Out_of_range)"
    unfolding osm_find_def by (rule osm_find_loop_correct) (use assms in auto)
  show "osm_find ks key = Inr i \<longleftrightarrow> i < length ks \<and> ks ! i = key"
    using c by (cases "key \<in> set ks") (auto simp: in_set_conv_nth)
  show "osm_find ks key = Inl x \<longleftrightarrow> key \<notin> set ks \<and> x = Out_of_range"
    using c by (cases "key \<in> set ks") (auto simp: in_set_conv_nth)
qed

text \<open>
  What the users of a table rely on: a lookup returns the value of the key or reports the key as
  missing, and storing through the returned reference changes the value of that key only.
\<close>

locale keyed_table =
  fixes at :: "'m \<Rightarrow> 'k \<Rightarrow> 'v result" and update :: "'m \<Rightarrow> 'k \<Rightarrow> 'v \<Rightarrow> 'm result"
    and inv :: "'m \<Rightarrow> bool" and lookup :: "'m \<Rightarrow> 'k \<Rightarrow> 'v option"
  assumes at_lookup: "inv m \<Longrightarrow>
      at m k = (case lookup m k of None \<Rightarrow> Inl Out_of_range | Some v \<Rightarrow> Inr v)"
    and update_None: "inv m \<Longrightarrow> lookup m k = None \<Longrightarrow> update m k v = Inl Out_of_range"
    and update_Some: "inv m \<Longrightarrow> lookup m k = Some v0 \<Longrightarrow>
      \<exists>m'. update m k v = Inr m' \<and> inv m' \<and> lookup m' = (lookup m)(k \<mapsto> v)"
begin

lemma update_Inr:
  assumes "inv m" "update m k v = Inr m'"
  shows "inv m' \<and> lookup m' = (lookup m)(k \<mapsto> v)"
  using update_None [OF assms(1), of k v] update_Some [OF assms(1), of k _ v] assms(2)
  by (cases "lookup m k") auto

lemma at_update:
  assumes "inv m" "update m k v = Inr m'"
  shows "at m' k' = (if k' = k then Inr v else at m k')"
  using update_Inr [OF assms] assms(1) by (simp add: at_lookup)

lemma update_dom:
  "inv m \<Longrightarrow> update m k v = Inr m' \<Longrightarrow> dom (lookup m') = dom (lookup m)"
  using update_None [of m k v] update_Inr [of m k v m'] by (cases "lookup m k") auto

lemma update_update:
  assumes "inv m" "update m k v = Inr m1" "update m1 k w = Inr m2" "update m k w = Inr m3"
  shows "lookup m2 = lookup m3"
  using update_Inr [OF assms(1,2)] update_Inr [OF assms(1,4)] update_Inr [of m1 k w m2] assms(3)
  by simp

lemma at_Inr: "inv m \<Longrightarrow> at m k = Inr v \<longleftrightarrow> lookup m k = Some v"
  by (simp add: at_lookup split: option.splits)

lemma at_Inl: "inv m \<Longrightarrow> at m k = Inl e \<longleftrightarrow> lookup m k = None \<and> e = Out_of_range"
  by (auto simp: at_lookup split: option.splits)

end

definition osm_lookup :: "('k, 'v) ordered_map \<Rightarrow> 'k \<Rightarrow> 'v option" where
  "osm_lookup m = map_of (entries m)"

lemma wf_keys_distinct: "wf_keys m \<Longrightarrow> distinct (map fst (entries m))"
  by (simp add: wf_keys_def map_fst_entries strict_sorted_iff)

lemma osm_lookup_nth:
  assumes "wf_keys m" "i < length (osm_keys m)" "osm_keys m ! i = k"
  shows "osm_lookup m k = Some (osm_values m ! i)"
proof -
  have "(k, osm_values m ! i) \<in> set (entries m)"
    using assms by (auto simp: entries_def wf_keys_def set_zip)
  then show ?thesis using wf_keys_distinct [OF assms(1)] by (simp add: osm_lookup_def)
qed

lemma osm_lookup_None: "wf_keys m \<Longrightarrow> osm_lookup m k = None \<longleftrightarrow> k \<notin> set (osm_keys m)"
  unfolding osm_lookup_def map_of_eq_None_iff wf_keys_def
  by (metis list.set_map map_fst_entries)

lemma osm_lookup_update:
  assumes wf: "wf_keys m" and i: "i < length (osm_keys m)"
  shows "osm_lookup (m\<lparr>osm_values := (osm_values m)[i := v]\<rparr>) = (osm_lookup m)(osm_keys m ! i \<mapsto> v)"
proof
  fix k
  let ?m = "m\<lparr>osm_values := (osm_values m)[i := v]\<rparr>"
  have wf': "wf_keys ?m" using wf by (simp add: wf_keys_def)
  show "osm_lookup ?m k = ((osm_lookup m)(osm_keys m ! i \<mapsto> v)) k"
  proof (cases "k \<in> set (osm_keys m)")
    case False
    then have "osm_lookup ?m k = None" "osm_lookup m k = None" "k \<noteq> osm_keys m ! i"
      using osm_lookup_None [OF wf'] osm_lookup_None [OF wf] i by auto
    then show ?thesis by simp
  next
    case True
    then obtain j where j: "j < length (osm_keys m)" "osm_keys m ! j = k"
      by (auto simp: in_set_conv_nth)
    have l: "length (osm_values m) = length (osm_keys m)" "sorted_wrt (<) (osm_keys m)"
      using wf by (simp_all add: wf_keys_def)
    have "osm_lookup ?m k = Some ((osm_values m)[i := v] ! j)"
      using osm_lookup_nth [OF wf', of j k] j by simp
    then show ?thesis
      using osm_lookup_nth [OF wf j] sorted_keys_nth(2) [OF l(2) j(1) i] i j l(1)
      by (cases "i = j") auto
  qed
qed

interpretation osm: keyed_table
    "osm_at :: ('k::linorder, 'v) ordered_map \<Rightarrow> 'k \<Rightarrow> 'v result" osm_update wf_keys osm_lookup
proof
  fix m :: "('k, 'v) ordered_map" and k :: 'k and v v0 :: 'v
  assume wf: "wf_keys m"
  then have s: "sorted_wrt (<) (osm_keys m)" and l: "length (osm_values m) = length (osm_keys m)"
    by (simp_all add: wf_keys_def)
  note f = osm_find_correct [OF s, of k]
  show "osm_at m k = (case osm_lookup m k of None \<Rightarrow> Inl Out_of_range | Some v \<Rightarrow> Inr v)"
  proof (cases "osm_find (osm_keys m) k")
    case (Inl x)
    then have "x = Out_of_range" "osm_lookup m k = None"
      using f(2) [of x] osm_lookup_None [OF wf, of k] by simp_all
    then show ?thesis using Inl by (simp add: osm_at_def)
  next
    case (Inr i)
    then have "i < length (osm_keys m)" "osm_lookup m k = Some (osm_values m ! i)"
      using f(1) [of i] osm_lookup_nth [OF wf, of i k] by simp_all
    then show ?thesis using Inr l by (simp add: osm_at_def)
  qed
  show "osm_update m k v = Inl Out_of_range" if "osm_lookup m k = None"
    using that f(2) [of Out_of_range] osm_lookup_None [OF wf, of k] by (simp add: osm_update_def)
  show "\<exists>m'. osm_update m k v = Inr m' \<and> wf_keys m' \<and> osm_lookup m' = (osm_lookup m)(k \<mapsto> v)"
    if "osm_lookup m k = Some v0"
  proof -
    have "k \<in> set (osm_keys m)" using that osm_lookup_None [OF wf, of k] by auto
    then obtain i where i: "i < length (osm_keys m)" "osm_keys m ! i = k"
      by (auto simp: in_set_conv_nth)
    then have "osm_update m k v = Inr (m\<lparr>osm_values := (osm_values m)[i := v]\<rparr>)"
      using f(1) [of i] l by (simp add: osm_update_def)
    then show ?thesis using osm_lookup_update [OF wf i(1), of v] wf i(2) by (simp add: wf_keys_def)
  qed
qed


section \<open>Merging keeps entries and order\<close>

lemma merge_induct [case_names Nil_right Nil_left Cons]:
  assumes "\<And>ls. P ls []" and "\<And>rs. P [] rs"
    and "\<And>x ls y rs. P ls (y # rs) \<Longrightarrow> P (x # ls) rs \<Longrightarrow> P ls rs \<Longrightarrow> P (x # ls) (y # rs)"
  shows "P ls rs"
proof (induction "length ls + length rs" arbitrary: ls rs rule: less_induct)
  case less
  show ?case
  proof (cases ls; cases rs)
    fix x ls' y rs' assume "ls = x # ls'" "rs = y # rs'"
    then show ?thesis using less by (auto intro!: assms(3))
  qed (use assms(1,2) in auto)
qed

lemma merge_leaf_Cons:
  "merge_entries mergeValues_leaf ((k1, v1) # ls) ((k2, v2) # rs) =
    (if k1 < k2 \<or> (k1 = k2 \<and> v1 < v2) then (k1, v1) # merge_entries mergeValues_leaf ls ((k2, v2) # rs)
     else (k2, v2) # merge_entries mergeValues_leaf ((k1, v1) # ls) rs)"
  by (auto simp: mergeValues_leaf_def)

text \<open>\<open>advances_both mv\<close> says that equal keys are merged into one, as \<^verbatim>\<open>mergeValues\<close> does for maps.\<close>

definition advances_both :: "('v \<Rightarrow> 'v \<Rightarrow> 'v \<times> bool \<times> bool) \<Rightarrow> bool" where
  "advances_both mv \<longleftrightarrow> (\<forall>l r. snd (mv l r) = (True, True))"

lemma advances_both_map [simp]: "advances_both (mergeValues_map mv)"
  by (simp add: advances_both_def mergeValues_map_def)

lemma merge_both_Cons:
  assumes "advances_both mv"
  shows "merge_entries mv ((k1, v1) # ls) ((k2, v2) # rs) =
    (if k1 = k2 then (k1, fst (mv v1 v2)) # merge_entries mv ls rs
     else if k1 < k2 then (k1, v1) # merge_entries mv ls ((k2, v2) # rs)
     else (k2, v2) # merge_entries mv ((k1, v1) # ls) rs)"
proof -
  have "mv v1 v2 = (fst (mv v1 v2), True, True)"
    using assms by (metis advances_both_def prod.collapse)
  then show ?thesis by (auto split: prod.splits)
qed

text \<open>Order of the entries: by key and then by value; equal keys may occur when the values of a map
  are plain values.\<close>

definition entry_le :: "'k::linorder \<times> 'v::ord \<Rightarrow> 'k \<times> 'v \<Rightarrow> bool" where
  "entry_le x y \<longleftrightarrow> fst x < fst y \<or> (fst x = fst y \<and> \<not> snd y < snd x)"

lemma mset_merge_leaf: "mset (merge_entries mergeValues_leaf ls rs) = mset ls + mset rs"
proof (induction ls rs rule: merge_induct)
  case (Nil_left rs)
  then show ?case by (cases rs) simp_all
next
  case (Cons x ls y rs)
  then show ?case by (cases x; cases y) (simp add: merge_leaf_Cons del: merge_entries.simps(1))
qed simp

lemma set_merge_leaf: "set (merge_entries mergeValues_leaf ls rs) = set ls \<union> set rs"
  by (metis mset_merge_leaf set_mset_mset set_mset_union)

text \<open>What the values' \<^verbatim>\<open>operator<\<close> has to be: a strict weak order.\<close>

definition weak_order_on :: "'v::ord set \<Rightarrow> bool" where
  "weak_order_on V \<longleftrightarrow>
    (\<forall>x \<in> V. \<forall>y \<in> V. x < y \<longrightarrow> \<not> y < x) \<and>
    (\<forall>x \<in> V. \<forall>y \<in> V. \<forall>z \<in> V. \<not> y < x \<longrightarrow> \<not> z < y \<longrightarrow> \<not> z < x)"

lemma weak_orderD:
  assumes "weak_order_on (UNIV :: 'v::ord set)"
  shows "(x :: 'v) < y \<Longrightarrow> \<not> y < x" "\<not> y < x \<Longrightarrow> \<not> z < y \<Longrightarrow> \<not> z < (x :: 'v)"
  using assms unfolding weak_order_on_def by (blast, metis UNIV_I)

lemma weak_order_linorder [simp]: "weak_order_on (V :: 'v::linorder set)"
  by (auto simp: weak_order_on_def)

lemma entry_le_trans:
  assumes "weak_order_on (UNIV :: 'v::ord set)"
  shows "entry_le x y \<Longrightarrow> entry_le y (z :: 'k::linorder \<times> 'v) \<Longrightarrow> entry_le x z"
  using weak_orderD(2) [OF assms, of "snd y" "snd x" "snd z"] by (auto simp: entry_le_def)

lemma sorted_merge_leaf:
  assumes w: "weak_order_on (UNIV :: 'v::ord set)"
    and "sorted_wrt entry_le ls" "sorted_wrt entry_le (rs :: ('k::linorder \<times> 'v) list)"
  shows "sorted_wrt entry_le (merge_entries mergeValues_leaf ls rs)"
  using assms(2,3)
proof (induction ls rs rule: merge_induct)
  case (Nil_left rs)
  then show ?case by (cases rs) simp_all
next
  case (Cons x ls y rs)
  obtain k1 v1 k2 v2 where xy: "x = (k1, v1)" "y = (k2, v2)" by (cases x; cases y)
  have l: "\<forall>z \<in> set ls. entry_le x z" and r: "\<forall>z \<in> set rs. entry_le y z"
    and s: "sorted_wrt entry_le ls" "sorted_wrt entry_le rs"
    using Cons.prems by simp_all
  show ?case
  proof (cases "k1 < k2 \<or> (k1 = k2 \<and> v1 < v2)")
    case True
    then have le: "entry_le x y" using weak_orderD(1) [OF w] by (auto simp: xy entry_le_def)
    have "\<forall>z \<in> set (merge_entries mergeValues_leaf ls (y # rs)). entry_le x z"
      using l r le entry_le_trans [OF w le] by (auto simp: set_merge_leaf)
    then show ?thesis using Cons.IH(1) [OF s(1) Cons.prems(2)] True
      by (simp add: merge_leaf_Cons xy del: merge_entries.simps(1))
  next
    case False
    then have le: "entry_le y x" by (auto simp: xy entry_le_def)
    have "\<forall>z \<in> set (merge_entries mergeValues_leaf (x # ls) rs). entry_le y z"
      using l r le entry_le_trans [OF w le] by (auto simp: set_merge_leaf)
    then have "sorted_wrt entry_le (y # merge_entries mergeValues_leaf (x # ls) rs)"
      using Cons.IH(2) [OF Cons.prems(1) s(2)] by simp
    then show ?thesis using False by (simp only: merge_leaf_Cons xy if_False)
  qed
qed simp

text \<open>Maps of maps: the keys stay strictly sorted, a key of both maps has its values merged.\<close>

lemma keys_merge:
  assumes "advances_both mv"
  shows "fst ` set (merge_entries mv ls rs) = fst ` set ls \<union> fst ` set rs"
proof (induction ls rs rule: merge_induct)
  case (Nil_left rs)
  then show ?case by (cases rs) simp_all
next
  case (Cons x ls y rs)
  then show ?case
    by (cases x; cases y) (auto simp: merge_both_Cons [OF assms] simp del: merge_entries.simps(1))
qed simp

lemma sorted_keys_merge:
  assumes mv: "advances_both mv"
    and "sorted_wrt (<) (map fst ls)" "sorted_wrt (<) (map fst rs)"
  shows "sorted_wrt (<) (map fst (merge_entries mv ls rs))"
  using assms(2,3)
proof (induction ls rs rule: merge_induct)
  case (Nil_left rs)
  then show ?case by (cases rs) simp_all
next
  case (Cons x ls y rs)
  obtain k1 v1 k2 v2 where xy: "x = (k1, v1)" "y = (k2, v2)" by (cases x; cases y)
  have keys: "(\<forall>z \<in> set (merge_entries mv l r). k < fst z) \<longleftrightarrow>
      (\<forall>z \<in> set l. k < fst z) \<and> (\<forall>z \<in> set r. k < fst z)" for k l r
  proof -
    have "(\<forall>z \<in> fst ` set (merge_entries mv l r). k < z) \<longleftrightarrow>
        (\<forall>z \<in> fst ` set l \<union> fst ` set r. k < z)" by (simp only: keys_merge [OF mv])
    then show ?thesis by (simp add: ball_Un)
  qed
  show ?case
    using Cons unfolding xy
    by (auto simp: merge_both_Cons [OF mv] keys simp del: merge_entries.simps(1))
qed simp

lemma map_of_absent: "\<forall>w \<in> set es. (z :: 'k::linorder) < fst w \<Longrightarrow> map_of es z = None"
  by (force simp: map_of_eq_None_iff)

lemma lookup_merge:
  assumes mv: "advances_both mv"
    and "sorted_wrt (<) (map fst ls)" "sorted_wrt (<) (map fst rs)"
  shows "map_of (merge_entries mv ls rs) k =
    (case map_of ls k of
       None \<Rightarrow> map_of rs k
     | Some a \<Rightarrow> (case map_of rs k of None \<Rightarrow> Some a | Some b \<Rightarrow> Some (fst (mv a b))))"
  using assms(2,3)
proof (induction ls rs rule: merge_induct)
  case (Nil_right ls)
  then show ?case by (simp split: option.splits)
next
  case (Nil_left rs)
  then show ?case by (cases rs) simp_all
next
  case (Cons x ls y rs)
  obtain k1 v1 k2 v2 where xy: "x = (k1, v1)" "y = (k2, v2)" by (cases x; cases y)
  have l: "\<forall>w \<in> set ls. k1 < fst w" and r: "\<forall>w \<in> set rs. k2 < fst w"
    using Cons.prems by (auto simp: xy)
  consider "k1 = k2" | "k1 < k2" | "k2 < k1" by (rule linorder_cases)
  then show ?case
  proof cases
    case 1
    then show ?thesis using Cons map_of_absent [OF l] map_of_absent [OF r]
      by (auto simp: xy merge_both_Cons [OF mv] simp del: merge_entries.simps(1) split: option.splits)
  next
    case 2
    then have "map_of (y # rs) k1 = None" using r by (intro map_of_absent) (auto simp: xy)
    then show ?thesis using Cons 2
      by (auto simp: xy merge_both_Cons [OF mv] simp del: merge_entries.simps(1) split: option.splits)
  next
    case 3
    then have "map_of (x # ls) k2 = None" using l by (intro map_of_absent) (auto simp: xy)
    then show ?thesis using Cons 3
      by (auto simp: xy merge_both_Cons [OF mv] simp del: merge_entries.simps(1) split: option.splits)
  qed
qed

section \<open>Merging many maps\<close>

text \<open>
  The parallel merge combines neighbouring maps in a grouping that depends on the number of
  workers. It is determined by what it contains when the contents \<open>cont\<close> of a merged map are those of
  the two maps together.
\<close>

locale mergeable =
  fixes mv :: "'v \<Rightarrow> 'v \<Rightarrow> 'v \<times> bool \<times> bool"
    and inv :: "('k::linorder, 'v) ordered_map \<Rightarrow> bool"
    and cont :: "('k, 'v) ordered_map \<Rightarrow> 'c multiset"
  assumes inv_empty: "inv (of_entries [])" and cont_empty: "cont (of_entries []) = {#}"
    and inv_merge: "inv l \<Longrightarrow> inv r \<Longrightarrow> inv (osm_merge mv l r)"
    and cont_merge: "inv l \<Longrightarrow> inv r \<Longrightarrow> cont (osm_merge mv l r) = cont l + cont r"
begin

lemma interval:
  assumes "e \<le> length maps" "\<forall>m \<in> set maps. inv m"
  shows "inv (mergeIntervalParallel mv maps b e k) \<and>
    cont (mergeIntervalParallel mv maps b e k) = sum_list (map cont (drop b (take e maps)))"
  using assms(1)
proof (induction "e - b" arbitrary: b e rule: less_induct)
  case less
  let ?mid = "(b + e) div 2"
  consider "e \<le> b" | "e = b + 1" | "b + 1 < e" by linarith
  then show ?case
  proof cases
    case 1
    then show ?thesis
      by (subst (1 2) mergeIntervalParallel.simps) (simp add: inv_empty cont_empty)
  next
    case 2
    then have "drop b (take e maps) = [maps ! b]" using less.prems
      by (simp add: take_Suc_conv_app_nth)
    then show ?thesis using 2 less.prems assms(2)
      by (subst (1 2) mergeIntervalParallel.simps) simp
  next
    case 3
    have split: "drop b (take e maps) = drop b (take ?mid maps) @ drop ?mid (take e maps)"
    proof -
      have "?mid \<le> e" using 3 by simp
      then have "take e maps = take ?mid maps @ drop ?mid (take e maps)"
        using append_take_drop_id [of ?mid "take e maps"] by (simp add: min_absorb1)
      moreover have "b \<le> length (take ?mid maps)" using 3 less.prems by simp
      ultimately show ?thesis by (metis drop_append append_Nil2 drop_0 diff_is_0_eq)
    qed
    have eq: "mergeIntervalParallel mv maps b e k =
        osm_merge mv (mergeIntervalParallel mv maps b ?mid k) (mergeIntervalParallel mv maps ?mid e k)"
      using 3 by (subst mergeIntervalParallel.simps) (simp add: Let_def)
    have "?mid - b < e - b" "e - ?mid < e - b" "?mid \<le> length maps" using 3 less.prems by auto
    then show ?thesis
      using less.hyps [of ?mid b] less.hyps [of e ?mid] less.prems
      by (simp add: eq split inv_merge cont_merge)
  qed
qed

lemma all:
  assumes "\<forall>m \<in> set maps. inv m" "workers \<noteq> 0"
  shows "\<exists>r. mergeAllParallel mv maps workers = Inr r \<and> inv r \<and> cont r = sum_list (map cont maps)"
  using interval [OF order_refl assms(1), of 0] assms(2) by (simp add: mergeAllParallel_def)

end


section \<open>Maps of maps of access blocks\<close>

text \<open>
  A request's memory access map has three levels: application, chunk, offset. \<open>chunk_blocks m a c\<close>
  are the blocks of chunk \<open>c\<close> of application \<open>a\<close>, with their offsets.
\<close>

type_synonym ('a, 'c, 'o, 'v) access_map =
  "('a, ('c, ('o, 'v) ordered_map) ordered_map) ordered_map"

definition blocks_of :: "('c, ('o, 'v) ordered_map) ordered_map \<Rightarrow> 'c \<Rightarrow> ('o \<times> 'v) list" where
  "blocks_of m c = (case osm_lookup m c of None \<Rightarrow> [] | Some b \<Rightarrow> entries b)"

definition chunk_blocks :: "('a, 'c, 'o, 'v) access_map \<Rightarrow> 'a \<Rightarrow> 'c \<Rightarrow> ('o \<times> 'v) list" where
  "chunk_blocks m a c = (case osm_lookup m a of None \<Rightarrow> [] | Some cm \<Rightarrow> blocks_of cm c)"

definition wf_blocks :: "('o::linorder, 'v::ord) ordered_map \<Rightarrow> bool" where
  "wf_blocks m \<longleftrightarrow> length (osm_keys m) = length (osm_values m) \<and> sorted_wrt entry_le (entries m)"

definition wf_chunks :: "('c::linorder, ('o::linorder, 'v::ord) ordered_map) ordered_map \<Rightarrow> bool" where
  "wf_chunks m \<longleftrightarrow> wf_keys m \<and> (\<forall>b \<in> set (osm_values m). wf_blocks b)"

definition wf_access_map :: "('a::linorder, 'c::linorder, 'o::linorder, 'v::ord) access_map \<Rightarrow> bool" where
  "wf_access_map m \<longleftrightarrow> wf_keys m \<and> (\<forall>cm \<in> set (osm_values m). wf_chunks cm)"

definition merge_access_maps ::
  "('a::linorder, 'c::linorder, 'o::linorder, 'v::ord) access_map list \<Rightarrow> nat
   \<Rightarrow> ('a, 'c, 'o, 'v) access_map result" where
  "merge_access_maps maps workersCount =
    mergeAllParallel (mergeValues_map (mergeValues_map mergeValues_leaf)) maps workersCount"

lemma entries_osm_merge [simp]: "entries (osm_merge mv l r) = merge_entries mv (entries l) (entries r)"
  by (simp add: osm_merge_def)

lemma wf_blocks_merge:
  assumes "weak_order_on (UNIV :: 'v::ord set)" "wf_blocks l" "wf_blocks r"
  shows "wf_blocks (osm_merge mergeValues_leaf l (r :: ('o::linorder, 'v) ordered_map))"
proof -
  have "length (osm_keys (osm_merge mergeValues_leaf l r)) = length (osm_values (osm_merge mergeValues_leaf l r))"
    by (simp add: osm_merge_def of_entries_def)
  then show ?thesis using assms by (simp add: wf_blocks_def sorted_merge_leaf)
qed

lemma wf_keys_merge:
  assumes "advances_both mv" "wf_keys l" "wf_keys r"
  shows "wf_keys (osm_merge mv l r)"
  using assms sorted_keys_merge [OF assms(1), of "entries l" "entries r"]
  by (simp add: wf_keys_def osm_merge_def of_entries_def map_fst_entries)

lemma osm_lookup_merge:
  assumes "advances_both mv" "wf_keys l" "wf_keys r"
  shows "osm_lookup (osm_merge mv l r) k =
    (case osm_lookup l k of
       None \<Rightarrow> osm_lookup r k
     | Some a \<Rightarrow> (case osm_lookup r k of None \<Rightarrow> Some a | Some b \<Rightarrow> Some (fst (mv a b))))"
  using assms lookup_merge [OF assms(1), of "entries l" "entries r" k]
  unfolding osm_lookup_def by (simp add: wf_keys_def map_fst_entries)

lemma lookup_value:
  assumes "wf_keys m"
  shows "v \<in> set (osm_values m) \<longleftrightarrow> (\<exists>k. osm_lookup m k = Some v)"
proof
  assume "v \<in> set (osm_values m)"
  then obtain i where "i < length (osm_values m)" "osm_values m ! i = v"
    by (auto simp: in_set_conv_nth)
  then show "\<exists>k. osm_lookup m k = Some v"
    using osm_lookup_nth [OF assms, of i "osm_keys m ! i"] assms by (auto simp: wf_keys_def)
next
  assume "\<exists>k. osm_lookup m k = Some v"
  then show "v \<in> set (osm_values m)"
    by (auto simp: osm_lookup_def entries_def dest!: map_of_SomeD dest: set_zip_rightD)
qed

lemma values_merge:
  assumes mv: "advances_both mv" and l: "wf_keys l" "\<forall>v \<in> set (osm_values l). P v"
    and r: "wf_keys r" "\<forall>v \<in> set (osm_values r). P v"
    and merge: "\<And>a b. P a \<Longrightarrow> P b \<Longrightarrow> P (fst (mv a b))"
  shows "\<forall>v \<in> set (osm_values (osm_merge mv l r)). P v"
proof
  fix v assume "v \<in> set (osm_values (osm_merge mv l r))"
  then obtain k where k: "osm_lookup (osm_merge mv l r) k = Some v"
    using lookup_value [OF wf_keys_merge [OF mv l(1) r(1)]] by blast
  have "P a" if "osm_lookup l k = Some a" for a using that l lookup_value [OF l(1)] by blast
  moreover have "P b" if "osm_lookup r k = Some b" for b using that r lookup_value [OF r(1)] by blast
  ultimately show "P v"
    using k merge by (auto simp: osm_lookup_merge [OF mv l(1) r(1)] split: option.splits)
qed

lemma wf_chunks_merge:
  assumes "weak_order_on (UNIV :: 'v::ord set)" "wf_chunks l" "wf_chunks r"
  shows "wf_chunks (osm_merge (mergeValues_map mergeValues_leaf) l
    (r :: ('c::linorder, ('o::linorder, 'v) ordered_map) ordered_map))"
proof -
  have "\<forall>v \<in> set (osm_values (osm_merge (mergeValues_map mergeValues_leaf) l r)). wf_blocks v"
    using assms by (intro values_merge) (auto simp: wf_chunks_def mergeValues_map_def wf_blocks_merge)
  then show ?thesis using assms by (simp add: wf_chunks_def wf_keys_merge)
qed

lemma wf_access_map_merge:
  assumes "weak_order_on (UNIV :: 'v::ord set)" "wf_access_map l" "wf_access_map r"
  shows "wf_access_map (osm_merge (mergeValues_map (mergeValues_map mergeValues_leaf)) l
    (r :: ('a::linorder, 'c::linorder, 'o::linorder, 'v) access_map))"
proof -
  have "\<forall>v \<in> set (osm_values (osm_merge (mergeValues_map (mergeValues_map mergeValues_leaf)) l r)). wf_chunks v"
    using assms by (intro values_merge) (auto simp: wf_access_map_def mergeValues_map_def wf_chunks_merge)
  then show ?thesis using assms by (simp add: wf_access_map_def wf_keys_merge)
qed

lemma blocks_of_merge:
  assumes "wf_chunks l" "wf_chunks r"
  shows "mset (blocks_of (osm_merge (mergeValues_map mergeValues_leaf) l r) c) =
    mset (blocks_of l c) + mset (blocks_of r c)"
  using assms
  by (simp add: blocks_of_def osm_lookup_merge wf_chunks_def mergeValues_map_def mset_merge_leaf
      split: option.splits)

lemma chunk_blocks_merge:
  assumes "wf_access_map l" "wf_access_map r"
  shows "mset (chunk_blocks (osm_merge (mergeValues_map (mergeValues_map mergeValues_leaf)) l r) a c) =
    mset (chunk_blocks l a c) + mset (chunk_blocks r a c)"
proof -
  have "wf_chunks x" if "osm_lookup l a = Some x" for x
    using that assms(1) lookup_value [of l x] by (auto simp: wf_access_map_def)
  moreover have "wf_chunks x" if "osm_lookup r a = Some x" for x
    using that assms(2) lookup_value [of r x] by (auto simp: wf_access_map_def)
  ultimately show ?thesis
    using assms
    by (simp add: chunk_blocks_def osm_lookup_merge wf_access_map_def mergeValues_map_def
        blocks_of_merge split: option.splits)
qed

lemma empty_map [simp]:
  "wf_keys (of_entries [])" "osm_lookup (of_entries []) k = None"
  "osm_values (of_entries []) = []"
  by (simp_all add: wf_keys_def of_entries_def osm_lookup_def entries_def)

lemma mergeable_access_map:
  assumes "weak_order_on (UNIV :: 'v::ord set)"
  shows "mergeable (mergeValues_map (mergeValues_map mergeValues_leaf)) wf_access_map
    (\<lambda>m :: ('a::linorder, 'c::linorder, 'o::linorder, 'v) access_map. mset (chunk_blocks m a c))"
  by (unfold_locales)
    (simp_all add: wf_access_map_merge [OF assms] chunk_blocks_merge,
     simp_all add: wf_access_map_def chunk_blocks_def)

interpretation leaf: mergeable mergeValues_leaf
    "\<lambda>m :: ('k::linorder, 'v::linorder) ordered_map. wf_blocks m" "\<lambda>m. mset (entries m)"
proof
  show "wf_blocks (of_entries [] :: ('k, 'v) ordered_map)"
    by (simp add: wf_blocks_def of_entries_def entries_def)
qed (simp_all add: wf_blocks_merge mset_merge_leaf)

lemma chunk_blocks_sorted:
  assumes "wf_access_map m"
  shows "sorted_wrt entry_le (chunk_blocks m a c)"
proof -
  have cm: "wf_chunks x" if "osm_lookup m a = Some x" for x
    using that assms lookup_value [of m x] by (auto simp: wf_access_map_def)
  have "wf_blocks y" if "osm_lookup m a = Some x" "osm_lookup x c = Some y" for x y
    using cm [OF that(1)] that(2) lookup_value [of x y] by (auto simp: wf_chunks_def)
  then show ?thesis
    by (auto simp: chunk_blocks_def blocks_of_def wf_blocks_def split: option.splits)
qed


section \<open>In-place insertion\<close>

lemma merge_shift_correct:
  assumes "merge_shift l x i (int J - 1) = (l', j')" "J + i < length l"
  shows "\<exists>J' \<le> J. j' = int J' - 1 \<and> length l' = length l \<and> take J' l' = take J' l \<and>
    drop (J' + i + 1) l' = drop J' (take J l) @ drop (J + i + 1) l \<and>
    (0 < J' \<longrightarrow> l ! (J' - 1) \<le> x) \<and> (\<forall>y \<in> set (drop J' (take J l)). x < y)"
  using assms
proof (induction J arbitrary: l)
  case 0
  then show ?case by (simp add: merge_shift.simps [of l x i])
next
  case (Suc J)
  show ?case
  proof (cases "l ! J > x")
    case False
    then have "l' = l \<and> j' = int J"
      using Suc.prems(1) by (simp add: merge_shift.simps [of l x i])
    then show ?thesis using False by (intro exI [of _ "Suc J"]) (simp add: not_less)
  next
    case True
    let ?l = "l[J + i + 1 := l ! J]"
    have "merge_shift ?l x i (int J - 1) = (l', j')"
      using Suc.prems(1) True by (simp add: merge_shift.simps [of l x i])
    from Suc.IH [OF this] Suc.prems(2) obtain J' where J': "J' \<le> J" "j' = int J' - 1"
      "length l' = length l" "take J' l' = take J' ?l"
      "drop (J' + i + 1) l' = drop J' (take J ?l) @ drop (J + i + 1) ?l"
      "0 < J' \<longrightarrow> ?l ! (J' - 1) \<le> x" "\<forall>y \<in> set (drop J' (take J ?l)). x < y"
      by auto
    have tk: "take J ?l = take J l" "take J' ?l = take J' l" using J'(1) by simp_all
    have dr: "drop (J + i + 1) ?l = l ! J # drop (Suc J + i + 1) l"
      using Suc.prems(2) by (simp add: drop_update_swap Cons_nth_drop_Suc [symmetric])
    have tS: "drop J' (take (Suc J) l) = drop J' (take J l) @ [l ! J]"
      using Suc.prems(2) J'(1) by (simp add: take_Suc_conv_app_nth)
    have "?l ! (J' - 1) = l ! (J' - 1)" using J'(1) by simp
    then show ?thesis
      using J' True unfolding tk dr tS
      by (intro exI [of _ J']) (simp add: tS ball_Un)
  qed
qed

lemma mergeInsert_loop_correct:
  assumes "J + i \<le> length l" "i \<le> length r"
    and "sorted (take J l)" "sorted (take i r)"
  shows "\<exists>P. mergeInsert_loop l r i (int J - 1) = P @ drop (J + i) l \<and>
    mset P = mset (take J l) + mset (take i r) \<and> sorted P"
  using assms
proof (induction i arbitrary: l J)
  case 0
  then show ?case by (intro exI [of _ "take J l"]) simp
next
  case (Suc i)
  let ?x = "r ! i"
  obtain l' j' where sh: "merge_shift l ?x i (int J - 1) = (l', j')" by fastforce
  from merge_shift_correct [OF sh] Suc.prems(1) obtain J' where J': "J' \<le> J" "j' = int J' - 1"
    "length l' = length l" "take J' l' = take J' l"
    "drop (J' + i + 1) l' = drop J' (take J l) @ drop (J + i + 1) l"
    "0 < J' \<longrightarrow> l ! (J' - 1) \<le> ?x" "\<forall>y \<in> set (drop J' (take J l)). ?x < y"
    by auto
  let ?l = "l'[J' + i := ?x]"
  have n: "nat (j' + int i + 1) = J' + i" using J'(2) by simp
  have lt: "J' + i < length l'" using J'(1,3) Suc.prems(1) by simp
  have tk: "take J' ?l = take J' l" using J'(4) by simp
  have dr: "drop (J' + i) ?l = ?x # drop J' (take J l) @ drop (J + Suc i) l"
    using lt J'(5) by (simp add: Cons_nth_drop_Suc [symmetric])
  have tr: "take (Suc i) r = take i r @ [?x]" using Suc.prems(2) by (simp add: take_Suc_conv_app_nth)
  have sJ: "sorted (take J' l)" "sorted (drop J' (take J l))"
    using Suc.prems(3) J'(1) sorted_wrt_take [of "(\<le>)" "take J l" J']
    by (simp_all add: sorted_wrt_drop min_def split: if_splits)
  have si: "sorted (take i r)" "\<forall>y \<in> set (take i r). y \<le> ?x"
    using Suc.prems(4) by (simp_all add: tr sorted_append)
  have le: "\<forall>y \<in> set (take J' l). y \<le> ?x"
  proof
    fix y assume "y \<in> set (take J' l)"
    then obtain k where k: "k < J'" "k < length l" "y = l ! k" by (auto simp: in_set_conv_nth)
    have "take J l ! k \<le> take J l ! (J' - 1)"
      using k J'(1) Suc.prems(1) by (intro sorted_nth_mono [OF Suc.prems(3)]) simp_all
    then have "y \<le> l ! (J' - 1)" using k J'(1) by simp
    then show "y \<le> ?x" using J'(6) k(1) by simp
  qed
  have "J' + i \<le> length ?l" "i \<le> length r" using lt Suc.prems(2) by simp_all
  from Suc.IH [OF this] sJ(1) si(1) obtain P where P:
    "mergeInsert_loop ?l r i (int J' - 1) = P @ drop (J' + i) ?l"
    "mset P = mset (take J' l) + mset (take i r)" "sorted P"
    unfolding tk by blast
  have setP: "\<forall>y \<in> set P. y \<le> ?x"
  proof -
    have "set P = set (take J' l) \<union> set (take i r)"
      by (metis P(2) set_mset_mset set_mset_union)
    then show ?thesis using le si(2) by auto
  qed
  let ?P = "P @ ?x # drop J' (take J l)"
  have "mset (take J l) = mset (take J' l) + mset (drop J' (take J l))"
  proof -
    have "take J l = take J' l @ drop J' (take J l)"
      using append_take_drop_id [of J' "take J l"] J'(1) by (simp add: min_absorb1)
    then show ?thesis by (metis mset_append)
  qed
  then have "mset ?P = mset (take J l) + mset (take (Suc i) r)" by (simp add: P(2) tr)
  moreover have "sorted ?P"
    using P(3) sJ(2) setP J'(7) by (force simp: sorted_append)
  moreover have "mergeInsert_loop l r (Suc i) (int J - 1) = ?P @ drop (J + Suc i) l"
    using P(1) dr by (simp add: sh n J'(2) [symmetric])
  ultimately show ?case by blast
qed

lemma insertion_bubble_correct:
  assumes "j < length v" "sorted (take j v)"
  shows "\<exists>Q. insertion_bubble v j = Q @ drop (Suc j) v \<and> mset Q = mset (take (Suc j) v) \<and> sorted Q"
  using assms
proof (induction j arbitrary: v)
  case 0
  then show ?case
    by (cases v) (simp_all add: insertion_bubble.simps [of _ 0])
next
  case (Suc j)
  have tS: "take (Suc j) v = take j v @ [v ! j]" "take (Suc (Suc j)) v = take j v @ [v ! j, v ! Suc j]"
    using Suc.prems(1) by (simp_all add: take_Suc_conv_app_nth)
  have s: "sorted (take j v)" "\<forall>y \<in> set (take j v). y \<le> v ! j"
    using Suc.prems(2) by (simp_all add: tS sorted_append)
  show ?case
  proof (cases "v ! Suc j < v ! j")
    case False
    then have "sorted (take (Suc (Suc j)) v)" using s
      by (force simp: tS sorted_append not_less)
    moreover have "insertion_bubble v (Suc j) = v" using False by (subst insertion_bubble.simps) simp
    ultimately show ?thesis by (intro exI [of _ "take (Suc (Suc j)) v"]) simp
  next
    case True
    let ?v = "v[Suc j := v ! j, j := v ! Suc j]"
    have b: "insertion_bubble v (Suc j) = insertion_bubble ?v j"
      using True by (subst insertion_bubble.simps) simp
    have tk: "take j ?v = take j v" by simp
    have tk1: "take (Suc j) ?v = take j v @ [v ! Suc j]"
      using Suc.prems(1) by (simp add: take_Suc_conv_app_nth)
    have dr: "drop (Suc j) ?v = v ! j # drop (Suc (Suc j)) v"
      using Suc.prems(1) by (simp add: Cons_nth_drop_Suc [symmetric] drop_update_swap)
    from Suc.IH [of ?v] Suc.prems(1) s(1) obtain Q where
      Q: "insertion_bubble ?v j = Q @ drop (Suc j) ?v" "mset Q = mset (take (Suc j) ?v)" "sorted Q"
      unfolding tk by auto
    have "set Q = set (take j v @ [v ! Suc j])" using Q(2) tk1 by (metis set_mset_mset)
    then have "\<forall>y \<in> set Q. y \<le> v ! j" using s(2) True by auto
    then have "sorted (Q @ [v ! j])" using Q(3) by (simp add: sorted_append)
    moreover have "mset (Q @ [v ! j]) = mset (take (Suc (Suc j)) v)" by (simp add: Q(2) tk1 tS)
    ultimately show ?thesis
      using Q(1) dr by (intro exI [of _ "Q @ [v ! j]"]) (simp add: b)
  qed
qed

lemma insertionSort_prefix:
  assumes "n \<le> length v" "0 < n"
  shows "\<exists>Q. fold (\<lambda>i v. insertion_bubble v i) [1..<n] v = Q @ drop n v \<and>
    mset Q = mset (take n v) \<and> sorted Q"
  using assms
proof (induction n)
  case 0
  then show ?case by simp
next
  case (Suc n)
  show ?case
  proof (cases "n = 0")
    case True
    then show ?thesis using Suc.prems
      by (intro exI [of _ "take 1 v"]) (cases v; simp)
  next
    case False
    from Suc.IH Suc.prems False obtain Q where
      Q: "fold (\<lambda>i v. insertion_bubble v i) [1..<n] v = Q @ drop n v" "mset Q = mset (take n v)" "sorted Q"
      by auto
    have l: "length Q = n" using Q(2) Suc.prems(1) by (metis length_take mset_eq_length min_absorb2 Suc_leD)
    then obtain Q' where Q': "insertion_bubble (Q @ drop n v) n = Q' @ drop (Suc n) (Q @ drop n v)"
      "mset Q' = mset (take (Suc n) (Q @ drop n v))" "sorted Q'"
      using insertion_bubble_correct [of n "Q @ drop n v"] Q(3) Suc.prems(1) by auto
    have "take (Suc n) (Q @ drop n v) = Q @ [v ! n]" "drop (Suc n) (Q @ drop n v) = drop (Suc n) v"
      using l Suc.prems(1) by (simp_all add: Cons_nth_drop_Suc [symmetric])
    moreover have "take (Suc n) v = take n v @ [v ! n]"
      using Suc.prems(1) by (simp add: take_Suc_conv_app_nth)
    ultimately show ?thesis using Q Q' False by (intro exI [of _ Q']) simp
  qed
qed


section \<open>The properties\<close>

text \<open>In a map whose keys are strictly sorted, \<^verbatim>\<open>at\<close> returns the value stored with the key and
  throws \<^verbatim>\<open>out_of_range\<close> for every other key, and storing a value through the reference it
  returns changes the value of that key and of no other.\<close>

theorem static_map_lookup:
  fixes ks :: "'k::linorder list"
  assumes "OrderedStaticMap ks vs = Inr m" "sorted_wrt (<) ks"
  shows "osm_at m k = (case map_of (zip ks vs) k of None \<Rightarrow> Inl Out_of_range | Some v \<Rightarrow> Inr v) \<and>
    (is_ok (osm_update m k v) \<longleftrightarrow> k \<in> set ks) \<and>
    (k \<in> set ks \<longrightarrow> (\<exists>m'. osm_update m k v = Inr m' \<and>
      (\<forall>k'. osm_at m' k' = (if k' = k then Inr v else osm_at m k'))))"
proof -
  from assms have m: "wf_keys m" "osm_keys m = ks" "osm_lookup m k = map_of (zip ks vs) k"
    by (auto simp: OrderedStaticMap_Inr wf_keys_def osm_lookup_def entries_def)
  have up: "\<exists>m'. osm_update m k v = Inr m' \<and> (\<forall>k'. osm_at m' k' = (if k' = k then Inr v else osm_at m k'))"
    if "k \<in> set ks"
  proof -
    from that obtain v0 where "osm_lookup m k = Some v0"
      using osm_lookup_None [OF m(1), of k] m(2) by auto
    then obtain m' where "osm_update m k v = Inr m'" using osm.update_Some [OF m(1)] by blast
    then show ?thesis using osm.at_update [OF m(1)] by blast
  qed
  moreover have "osm_update m k v = Inl Out_of_range" if "k \<notin> set ks"
    using that osm.update_None [OF m(1)] osm_lookup_None [OF m(1), of k] m(2) by blast
  ultimately show ?thesis
    using osm.at_lookup [OF m(1), of k] m(3) by (cases "k \<in> set ks") auto
qed

theorem static_map_lookup_witness:
  "osm_at \<lparr>osm_keys = [2, 5, 9 :: nat], osm_values = [''a'', ''b'', ''c'']\<rparr> 5 =
    (case map_of (zip [2, 5, 9] [''a'', ''b'', ''c'']) (5 :: nat) of None \<Rightarrow> Inl Out_of_range | Some v \<Rightarrow> Inr v) \<and>
   is_ok (osm_update \<lparr>osm_keys = [2, 5, 9 :: nat], osm_values = [''a'', ''b'', ''c'']\<rparr> 5 ''d'') \<and>
   \<not> is_ok (osm_update \<lparr>osm_keys = [2, 5, 9 :: nat], osm_values = [''a'', ''b'', ''c'']\<rparr> 7 ''d'')"
proof -
  have "OrderedStaticMap [2, 5, 9 :: nat] [''a'', ''b'', ''c''] =
      Inr \<lparr>osm_keys = [2, 5, 9 :: nat], osm_values = [''a'', ''b'', ''c'']\<rparr>"
    by (simp add: OrderedStaticMap_def)
  from static_map_lookup [OF this, of 5 "''d''"] static_map_lookup [OF this, of 7 "''d''"]
  show ?thesis by simp
qed

text \<open>Inserting a sorted vector into a sorted vector with \<^verbatim>\<open>mergeInsert\<close> gives the sorted vector
  of the elements of both, whatever value \<^verbatim>\<open>resize\<close> fills with; \<^verbatim>\<open>insertionSort\<close> sorts.\<close>

theorem merge_insert_sorted:
  assumes "sorted l" "sorted r"
  shows "sorted (mergeInsert d l r) \<and> mset (mergeInsert d l r) = mset l + mset r \<and>
    sorted (insertionSort v) \<and> mset (insertionSort v) = mset v"
proof -
  have "take (length l) (l @ replicate (length r) d) = l" by simp
  then obtain P where P: "mergeInsert d l r = P" "mset P = mset l + mset r" "sorted P"
    using mergeInsert_loop_correct [of "length l" "length r" "l @ replicate (length r) d" r] assms
    by (auto simp: mergeInsert_def)
  have "sorted (insertionSort v) \<and> mset (insertionSort v) = mset v"
  proof (cases "v = []")
    case True
    then show ?thesis by (simp add: insertionSort_def)
  next
    case False
    then show ?thesis using insertionSort_prefix [of "length v" v] by (auto simp: insertionSort_def)
  qed
  then show ?thesis using P by simp
qed

theorem merge_insert_sorted_witness:
  "sorted (mergeInsert 0 [1, 4, 6] [2, 4, 9 :: nat]) \<and>
   mset (mergeInsert 0 [1, 4, 6] [2, 4, 9 :: nat]) = mset [1, 4, 6] + mset [2, 4, 9] \<and>
   sorted (insertionSort [3, 1, 2 :: nat]) \<and> mset (insertionSort [3, 1, 2 :: nat]) = mset [3, 1, 2]"
  by (rule merge_insert_sorted) simp_all

end
