(* ===== verification/Access_Info.thy ===== *)
theory Access_Info
  imports Static_Map Identifiers
begin

text \<open>
  The access declarations of \<^verbatim>\<open>include/core/info.h\<close>: the kinds of access with what they
  permit and which of them collide, the access blocks, and the merging of the requests' three-level
  access maps that the scheduler starts from.
\<close>


section \<open>Kinds of access\<close>

datatype AccessType = check_only | writable_access | read_only | int_additive

datatype Operation = op_check | op_int_add | op_read | op_write

text \<open>The values of the enumeration decide \<^verbatim>\<open>operator<\<close>.\<close>

fun access_code :: "AccessType \<Rightarrow> nat" where
  "access_code check_only = 0"
| "access_code writable_access = 1"
| "access_code read_only = 2"
| "access_code int_additive = 3"

instantiation AccessType :: linorder
begin

definition less_AccessType :: "AccessType \<Rightarrow> AccessType \<Rightarrow> bool" where
  "less_AccessType a b \<longleftrightarrow> access_code a < access_code b"

definition less_eq_AccessType :: "AccessType \<Rightarrow> AccessType \<Rightarrow> bool" where
  "less_eq_AccessType a b \<longleftrightarrow> access_code a \<le> access_code b"

instance
proof
  fix x y z :: AccessType
  show "(x < y) = (x \<le> y \<and> \<not> y \<le> x)" "x \<le> x" "x \<le> y \<Longrightarrow> y \<le> z \<Longrightarrow> x \<le> z"
    "x \<le> y \<or> y \<le> x"
    by (auto simp: less_AccessType_def less_eq_AccessType_def)
  show "x \<le> y \<Longrightarrow> y \<le> x \<Longrightarrow> x = y"
    by (cases x; cases y) (simp_all add: less_eq_AccessType_def)
qed

end

definition isAdditive :: "AccessType \<Rightarrow> bool" where
  "isAdditive t \<longleftrightarrow> t = int_additive"

definition mayWrite :: "AccessType \<Rightarrow> bool" where
  "mayWrite t \<longleftrightarrow> t \<noteq> read_only \<and> t \<noteq> check_only"

fun denies :: "AccessType \<Rightarrow> Operation \<Rightarrow> bool" where
  "denies check_only oper = (oper \<noteq> op_check)"
| "denies int_additive oper = (\<not> (oper = op_check \<or> oper = op_int_add))"
| "denies read_only oper = (\<not> (oper = op_check \<or> oper = op_read))"
| "denies writable_access oper = (\<not> (oper = op_write \<or> oper = op_check \<or> oper = op_read))"

fun collides :: "AccessType \<Rightarrow> AccessType \<Rightarrow> bool" where
  "collides check_only other = False"
| "collides int_additive other = (\<not> other = check_only)"
| "collides read_only other = (\<not> (other = check_only \<or> other = read_only))"
| "collides writable_access other = (\<not> other = check_only)"

section \<open>Access blocks\<close>

record AccessBlockInfo =
  abi_size :: int
  abi_access :: AccessType
  abi_request :: int

instantiation AccessBlockInfo_ext :: (type) ord
begin

definition less_AccessBlockInfo_ext :: "'a AccessBlockInfo_ext \<Rightarrow> 'a AccessBlockInfo_ext \<Rightarrow> bool" where
  "less_AccessBlockInfo_ext a b \<longleftrightarrow>
    abi_access a < abi_access b \<or> (abi_access a = abi_access b \<and> abi_request a < abi_request b)"

definition less_eq_AccessBlockInfo_ext :: "'a AccessBlockInfo_ext \<Rightarrow> 'a AccessBlockInfo_ext \<Rightarrow> bool" where
  "less_eq_AccessBlockInfo_ext a b \<longleftrightarrow> \<not> b < a"

instance ..

end

text \<open>\<^verbatim>\<open>operator==\<close> compares all three fields: it is equality of the records.\<close>

lemma weak_order_AccessBlockInfo [simp]: "weak_order_on (V :: AccessBlockInfo set)"
  by (auto simp: weak_order_on_def less_AccessBlockInfo_ext_def)

type_synonym AccessMapType = "(uint64, LongLongID, int, AccessBlockInfo) access_map"

interpretation am: mergeable "mergeValues_map (mergeValues_map mergeValues_leaf)" wf_access_map
    "\<lambda>m :: AccessMapType. mset (chunk_blocks m a c)" for a c
  by (rule mergeable_access_map) simp

section \<open>The properties\<close>

text \<open>What two requests may do to the same bytes: the operations conflict unless both only look or
  one of them is the check of the address.\<close>

definition conflict :: "Operation \<Rightarrow> Operation \<Rightarrow> bool" where
  "conflict a b \<longleftrightarrow> a \<noteq> op_check \<and> b \<noteq> op_check \<and> \<not> (a = op_read \<and> b = op_read)"

text \<open>Two kinds of access collide exactly when they permit conflicting operations, in either order;
  a kind of access that collides with itself or with another one under which bytes can only be
  looked at is exactly one that may write.\<close>

theorem collides_iff_conflict:
  "(collides a b \<longleftrightarrow> (\<exists>oa ob. \<not> denies a oa \<and> \<not> denies b ob \<and> conflict oa ob)) \<and>
   (collides a b \<longleftrightarrow> collides b a) \<and>
   (mayWrite a \<longleftrightarrow> collides a a) \<and> (mayWrite a \<longleftrightarrow> collides a read_only) \<and>
   (mayWrite a \<longleftrightarrow> (\<exists>oper \<in> {op_int_add, op_write}. \<not> denies a oper))"
proof -
  have "collides a b \<longleftrightarrow> (\<exists>oa ob. \<not> denies a oa \<and> \<not> denies b ob \<and> conflict oa ob)"
  proof (cases a; cases b)
  qed (force simp: conflict_def)+
  then show ?thesis by (cases a; cases b) (simp_all add: mayWrite_def)
qed

text \<open>C38: Merging the access maps of all requests, with any number of workers, never fails and gives a
  well-formed map in which every chunk has exactly the access blocks the requests declare for it,
  ordered by offset, kind of access and request.\<close>

theorem access_maps_merged:
  fixes maps :: "AccessMapType list"
  assumes "\<forall>m \<in> set maps. wf_access_map m" "workers \<noteq> 0"
  shows "\<exists>r. merge_access_maps maps workers = Inr r \<and> wf_access_map r \<and>
    (\<forall>a c. mset (chunk_blocks r a c) = sum_list (map (\<lambda>m. mset (chunk_blocks m a c)) maps) \<and>
      sorted_wrt entry_le (chunk_blocks r a c))"
proof -
  have "\<exists>r. merge_access_maps maps workers = Inr r"
    using assms(2) by (simp add: merge_access_maps_def mergeAllParallel_def)
  then obtain r where r: "merge_access_maps maps workers = Inr r" ..
  have "wf_access_map r \<and> mset (chunk_blocks r a c) = sum_list (map (\<lambda>m. mset (chunk_blocks m a c)) maps)"
    for a c
    using am.all [OF assms(1), of workers a c] assms(2) r by (simp add: merge_access_maps_def)
  then show ?thesis using r chunk_blocks_sorted by blast
qed

definition sample_access_maps :: "AccessMapType list" where
  "sample_access_maps =
    [of_entries [(7, of_entries [(LongLongID 1 2, of_entries [(0, \<lparr>abi_size = 4, abi_access = read_only, abi_request = 0\<rparr>)])])],
     of_entries [(7, of_entries [(LongLongID 1 2, of_entries [(0, \<lparr>abi_size = 4, abi_access = writable_access, abi_request = 1\<rparr>)])])]]"

theorem access_maps_merged_witness:
  "\<exists>r. merge_access_maps sample_access_maps 2 = Inr r \<and> wf_access_map r \<and>
    (\<forall>a c. mset (chunk_blocks r a c) = sum_list (map (\<lambda>m. mset (chunk_blocks m a c)) sample_access_maps) \<and>
      sorted_wrt entry_le (chunk_blocks r a c))"
proof (rule access_maps_merged)
  show "\<forall>m \<in> set sample_access_maps. wf_access_map m"
    by (simp add: sample_access_maps_def wf_access_map_def wf_keys_def wf_chunks_def wf_blocks_def
        of_entries_def entries_def)
qed simp

end
