(* ===== verification/Heap_Chunk.thy ===== *)
theory Heap_Chunk
  imports Access_Info
begin

text \<open>
  The chunks of the heap, \<^verbatim>\<open>src/ascee/heap/Chunk.h\<close> and \<^verbatim>\<open>Chunk.cpp\<close>. The array behind
  \<^verbatim>\<open>content\<close> is a byte list of its allocated length, a \<^verbatim>\<open>Chunk::Pointer\<close> the offset it points
  to. \<open>wf_chunk\<close> and \<open>zero_tail\<close> are the invariants of the class, \<open>chunk_bytes\<close> what a
  chunk stands for; \<open>put_delta\<close> and \<open>apply_blocks\<close> are the format of a delta and its meaning.
\<close>


section \<open>The class\<close>

record chunk =
  ch_content :: "byte list"
  ch_size :: uint32
  ch_capacity :: uint32
  ch_writable :: bool

definition maxAllowedCapacity :: uint32 where
  "maxAllowedCapacity = 64 * 1024"

definition Chunk_default :: chunk where
  "Chunk_default = \<lparr>ch_content = [], ch_size = 0, ch_capacity = 0, ch_writable = True\<rparr>"

definition Chunk :: "uint32 \<Rightarrow> chunk result" where
  "Chunk capacity =
    bind_result (require (capacity \<le> maxAllowedCapacity) Assert_failed) (\<lambda>_.
      Inr \<lparr>ch_content = replicate (unat capacity) 0, ch_size = 0, ch_capacity = capacity,
           ch_writable = True\<rparr>)"

definition getsize :: "chunk \<Rightarrow> uint32" where
  "getsize c = ch_size c"

text \<open>The pointer is its offset in the content.\<close>

definition getContentPointer :: "chunk \<Rightarrow> uint32 \<Rightarrow> uint32 \<Rightarrow> nat result" where
  "getContentPointer c offset sz =
    (if int (unat offset) + int (unat sz) > int (unat (ch_capacity c)) then Inl Out_of_range
     else Inr (unat offset))"

definition setWritable :: "chunk \<Rightarrow> bool \<Rightarrow> chunk" where
  "setWritable c wr = c\<lparr>ch_writable := wr\<rparr>"

definition isWritable :: "chunk \<Rightarrow> bool" where
  "isWritable c = ch_writable c"

text \<open>\<^verbatim>\<open>memcpy(buf + off, data)\<close> and \<^verbatim>\<open>memset\<close>: outside the array is undefined behaviour.\<close>

definition store_bytes :: "byte list \<Rightarrow> nat \<Rightarrow> byte list \<Rightarrow> byte list result" where
  "store_bytes buf off data =
    (if off + length data \<le> length buf then Inr (overwrite off data buf) else Inl Undefined_behaviour)"

definition load_bytes :: "byte list \<Rightarrow> nat \<Rightarrow> nat \<Rightarrow> byte list result" where
  "load_bytes buf off n =
    (if off + n \<le> length buf then Inr (slice_of off n buf) else Inl Undefined_behaviour)"

definition setSize :: "chunk \<Rightarrow> uint32 \<Rightarrow> chunk result" where
  "setSize c newSize =
    bind_result (require (newSize \<le> ch_capacity c) Assert_failed) (\<lambda>_.
    bind_result
      (if newSize < ch_size c
       then store_bytes (ch_content c) (unat newSize) (replicate (unat (ch_size c - newSize)) 0)
       else Inr (ch_content c))
      (\<lambda>content. Inr (c\<lparr>ch_content := content, ch_size := newSize\<rparr>)))"

text \<open>\<^verbatim>\<open>resize\<close>: the new array gets the first \<^verbatim>\<open>chunkSize\<close> bytes and zeros after them; copying
  them into a smaller array is undefined behaviour.\<close>

definition resize :: "chunk \<Rightarrow> uint32 \<Rightarrow> chunk result" where
  "resize c newCapacity =
    (if unat newCapacity < unat (ch_size c) then Inl Undefined_behaviour
     else bind_result (load_bytes (ch_content c) 0 (unat (ch_size c))) (\<lambda>bytes.
       Inr (c\<lparr>ch_content := bytes @ replicate (unat newCapacity - unat (ch_size c)) 0,
              ch_capacity := newCapacity\<rparr>)))"

definition reserveSpace :: "chunk \<Rightarrow> uint32 \<Rightarrow> (chunk \<times> bool) result" where
  "reserveSpace c newCapacity =
    bind_result (require (newCapacity \<le> maxAllowedCapacity) Assert_failed) (\<lambda>_.
      if newCapacity \<le> ch_capacity c then Inr (c, False)
      else bind_result (resize c newCapacity) (\<lambda>c'. Inr (c', True)))"

definition shrinkSpace :: "chunk \<Rightarrow> (chunk \<times> bool) result" where
  "shrinkSpace c =
    (if ch_size c = ch_capacity c then Inr (c, False)
     else bind_result (resize c (ch_size c)) (\<lambda>c'. Inr (c', True)))"

text \<open>The bytes fed to the digest: the size as a 32-bit little-endian integer and the content.\<close>

definition calculateDigest_input :: "chunk \<Rightarrow> byte list result" where
  "calculateDigest_input c =
    bind_result (load_bytes (ch_content c) 0 (unat (ch_size c))) (\<lambda>bytes.
      Inr (rev (writeBigEndian (ch_size c) 4) @ bytes))"

definition Chunk_string :: "chunk \<Rightarrow> string result" where
  "Chunk_string c =
    bind_result (load_bytes (ch_content c) 0 (unat (ch_size c))) (\<lambda>bytes.
      Inr (''size: '' @ to_string (unat (ch_size c)) @ '', capacity: '' @ to_string (unat (ch_capacity c)) @
           '', content: 0x[ '' @ concat (map (\<lambda>b. digits_of 16 (unat b) @ '' '') bytes) @ '']''))"

section \<open>Deltas\<close>

text \<open>Reading a number, the way \<^verbatim>\<open>applyDelta\<close> does.\<close>

lemma decode_progress:
  "decodeVarUInt_reader var_uint_trie_g buf p e = Inr (v, q) \<Longrightarrow> p < q \<and> q \<le> e \<and> q \<le> length buf"
  by (rule vu.dec_bounds)

text \<open>
  The loop over the blocks of a delta. \<open>delta\<close> is the position in \<open>buf\<close>, \<open>boundary\<close> the end the
  caller gives; \<^verbatim>\<open>memcpy\<close> reads behind the boundary when a block is longer than what is left.
  \<^verbatim>\<open>offset\<close> is a 64-bit integer, \<^verbatim>\<open>diff\<close>, \<^verbatim>\<open>blockSize\<close> and \<^verbatim>\<open>size\<close> are unsigned 32-bit.
  The result is the content and the position of the delta.
\<close>

function applyDelta_loop ::
  "uint32 \<Rightarrow> byte list \<Rightarrow> nat \<Rightarrow> byte list \<Rightarrow> nat \<Rightarrow> int \<Rightarrow> (byte list \<times> nat) result" where
  "applyDelta_loop sz buf boundary content delta offset =
    (if delta < boundary then
       (case decodeVarUInt_reader var_uint_trie_g buf delta boundary of
          Inl e \<Rightarrow> Inl e
        | Inr (diff, d1) \<Rightarrow>
            if diff = 0 then Inr (content, d1)
            else
              (let off = offset + int (unat (diff - 1))
               in case decodeVarUInt_reader var_uint_trie_g buf d1 boundary of
                    Inl e \<Rightarrow> Inl e
                  | Inr (blockSize, d2) \<Rightarrow>
                      if off + int (unat blockSize) > int (unat sz) \<and> \<not> off < int (unat sz)
                      then Inr (content, d2)
                      else
                        (let n = (if off + int (unat blockSize) > int (unat sz)
                                  then nat (int (unat sz) - off) else unat blockSize)
                         in case load_bytes buf d2 n of
                              Inl e \<Rightarrow> Inl e
                            | Inr bytes \<Rightarrow>
                                (case store_bytes content (nat off) bytes of
                                   Inl e \<Rightarrow> Inl e
                                 | Inr content' \<Rightarrow>
                                     applyDelta_loop sz buf boundary content' (d2 + n) (off + int n)))))
     else Inr (content, delta))"
  by pat_completeness auto
termination
  by (relation "measure (\<lambda>(sz, buf, boundary, content, delta, offset). boundary - delta)")
    (auto dest!: decode_progress)

declare applyDelta_loop.simps [simp del]

definition applyDelta :: "chunk \<Rightarrow> byte list \<Rightarrow> nat \<Rightarrow> nat \<Rightarrow> (chunk \<times> nat) result" where
  "applyDelta c buf delta boundary =
    (if delta \<ge> boundary then Inr (c, delta)
     else
       bind_result (decodeVarUInt_reader var_uint_trie_g buf delta boundary) (\<lambda>(x, d1).
       let sz = ch_size c XOR x in
       bind_result (reserveSpace c sz) (\<lambda>(c1, _).
       bind_result (applyDelta_loop sz buf boundary (ch_content c1) d1 0) (\<lambda>(content, d2).
       bind_result (shrinkSpace (c1\<lparr>ch_content := content, ch_size := sz\<rparr>)) (\<lambda>(c2, _).
         Inr (c2, d2))))))"

section \<open>Invariants\<close>

text \<open>A chunk's array has its capacity, its size is within it, and it is never larger than 64 KiB.\<close>

definition wf_chunk :: "chunk \<Rightarrow> bool" where
  "wf_chunk c \<longleftrightarrow> length (ch_content c) = unat (ch_capacity c) \<and> ch_size c \<le> ch_capacity c \<and>
    ch_capacity c \<le> maxAllowedCapacity"

text \<open>The bytes behind the size are zero, as every execution session has to find them.\<close>

definition zero_tail :: "chunk \<Rightarrow> bool" where
  "zero_tail c \<longleftrightarrow> drop (unat (ch_size c)) (ch_content c) =
    replicate (unat (ch_capacity c) - unat (ch_size c)) 0"

text \<open>What a chunk stands for: its bytes.\<close>

definition chunk_bytes :: "chunk \<Rightarrow> byte list" where
  "chunk_bytes c = take (unat (ch_size c)) (ch_content c)"

lemma unat_maxAllowedCapacity [simp]: "unat maxAllowedCapacity = 65536"
  by (simp add: maxAllowedCapacity_def)

lemma maxAllowedCapacity_unat: "c \<le> maxAllowedCapacity \<longleftrightarrow> unat c \<le> 65536"
  by (simp add: word_le_nat_alt)

lemma wf_chunkD:
  assumes "wf_chunk c"
  shows "length (ch_content c) = unat (ch_capacity c)" "unat (ch_size c) \<le> unat (ch_capacity c)"
    "unat (ch_capacity c) \<le> 65536"
  using assms by (auto simp: wf_chunk_def word_le_nat_alt maxAllowedCapacity_unat)

lemma wf_chunkI:
  "length (ch_content c) = unat (ch_capacity c) \<Longrightarrow> unat (ch_size c) \<le> unat (ch_capacity c) \<Longrightarrow>
    unat (ch_capacity c) \<le> 65536 \<Longrightarrow> wf_chunk c"
  by (simp add: wf_chunk_def word_le_nat_alt maxAllowedCapacity_unat)

lemma chunk_content_split:
  "wf_chunk c \<Longrightarrow> zero_tail c \<Longrightarrow>
    ch_content c = chunk_bytes c @ replicate (unat (ch_capacity c) - unat (ch_size c)) 0"
  by (metis append_take_drop_id chunk_bytes_def zero_tail_def)

lemma length_chunk_bytes: "wf_chunk c \<Longrightarrow> length (chunk_bytes c) = unat (ch_size c)"
  by (simp add: chunk_bytes_def wf_chunkD)


text \<open>Cutting a byte string to \<open>n\<close> bytes or filling it up with zeros.\<close>

definition fit_bytes :: "nat \<Rightarrow> byte list \<Rightarrow> byte list" where
  "fit_bytes n bs = take n bs @ replicate (n - length bs) 0"

lemma length_fit_bytes [simp]: "length (fit_bytes n bs) = n"
  by (simp add: fit_bytes_def)

lemma fit_bytes_self [simp]: "fit_bytes (length bs) bs = bs"
  by (simp add: fit_bytes_def)

section \<open>The operations keep the invariants\<close>

lemma resize_ok:
  assumes wf: "wf_chunk c" and n: "unat (ch_size c) \<le> unat n" "unat n \<le> 65536"
  shows "resize c n = Inr (c\<lparr>ch_content := fit_bytes (unat n) (chunk_bytes c), ch_capacity := n\<rparr>)"
proof -
  have "load_bytes (ch_content c) 0 (unat (ch_size c)) = Inr (chunk_bytes c)"
    using wf_chunkD [OF wf] by (simp add: load_bytes_def chunk_bytes_def slice_of_def)
  then show ?thesis using n length_chunk_bytes [OF wf]
    by (simp add: resize_def fit_bytes_def)
qed

lemma fitted_chunk:
  assumes wf: "wf_chunk c" and n: "unat (ch_size c) \<le> unat n" "unat n \<le> 65536"
  defines "c' \<equiv> c\<lparr>ch_content := fit_bytes (unat n) (chunk_bytes c), ch_capacity := n\<rparr>"
  shows "wf_chunk c'" "zero_tail c'" "chunk_bytes c' = chunk_bytes c"
proof -
  have l: "length (chunk_bytes c) = unat (ch_size c)" by (rule length_chunk_bytes [OF wf])
  show "wf_chunk c'" using n by (intro wf_chunkI) (simp_all add: c'_def)
  show "chunk_bytes c' = chunk_bytes c" "zero_tail c'"
    using n l unfolding chunk_bytes_def [of c'] zero_tail_def
    by (simp_all add: c'_def fit_bytes_def)
qed

lemma reserveSpace_ok:
  assumes "wf_chunk c" "zero_tail c"
  shows "reserveSpace c n = (if unat n \<le> 65536 then
      Inr (if unat n \<le> unat (ch_capacity c) then (c, False)
           else (c\<lparr>ch_content := fit_bytes (unat n) (chunk_bytes c), ch_capacity := n\<rparr>, True))
    else Inl Assert_failed)"
  using assms wf_chunkD [OF assms(1)] resize_ok [OF assms(1), of n]
  by (auto simp: reserveSpace_def require_def maxAllowedCapacity_unat word_le_nat_alt)

lemma shrinkSpace_ok:
  assumes "wf_chunk c"
  shows "\<exists>b. shrinkSpace c = Inr (c\<lparr>ch_content := chunk_bytes c, ch_capacity := ch_size c\<rparr>, b)"
proof (cases "ch_size c = ch_capacity c")
  case True
  then have "ch_content c = chunk_bytes c" "ch_capacity c = ch_size c"
    using wf_chunkD(1) [OF assms] by (simp_all add: chunk_bytes_def)
  then have "c\<lparr>ch_content := chunk_bytes c, ch_capacity := ch_size c\<rparr> = c"
    by (metis chunk.surjective chunk.update_convs(1,3))
  then show ?thesis using True by (intro exI [of _ False]) (simp add: shrinkSpace_def)
next
  case False
  have "unat (ch_size c) \<le> 65536" using wf_chunkD [OF assms] by linarith
  then have "resize c (ch_size c) = Inr (c\<lparr>ch_content := chunk_bytes c, ch_capacity := ch_size c\<rparr>)"
    using resize_ok [OF assms order_refl] fit_bytes_self [of "chunk_bytes c"]
    by (simp add: length_chunk_bytes [OF assms])
  then show ?thesis using False by (intro exI [of _ True]) (simp add: shrinkSpace_def)
qed

lemma shrunk_chunk:
  assumes "wf_chunk c"
  defines "c' \<equiv> c\<lparr>ch_content := chunk_bytes c, ch_capacity := ch_size c\<rparr>"
  shows "wf_chunk c'" "zero_tail c'" "chunk_bytes c' = chunk_bytes c"
proof -
  have "unat (ch_size c) \<le> 65536" using wf_chunkD [OF assms(1)] by linarith
  then show "wf_chunk c'" by (intro wf_chunkI) (simp_all add: c'_def length_chunk_bytes [OF assms(1)])
  show "zero_tail c'" "chunk_bytes c' = chunk_bytes c"
    using length_chunk_bytes [OF assms(1)] unfolding zero_tail_def chunk_bytes_def [of c']
    by (simp_all add: c'_def)
qed

lemma unat_sub_less: "(a :: 'a::len word) < b \<Longrightarrow> unat (b - a) = unat b - unat a"
  by (simp add: unat_sub less_imp_le)

lemma setSize_ok:
  assumes wf: "wf_chunk c" and z: "zero_tail c" and n: "n \<le> ch_capacity c"
  shows "\<exists>c'. setSize c n = Inr c' \<and> wf_chunk c' \<and> zero_tail c' \<and>
    chunk_bytes c' = fit_bytes (unat n) (chunk_bytes c) \<and> ch_capacity c' = ch_capacity c \<and>
    ch_size c' = n \<and> ch_writable c' = ch_writable c"
proof -
  note w = wf_chunkD [OF wf] length_chunk_bytes [OF wf]
  have n': "unat n \<le> unat (ch_capacity c)" using n by (simp add: word_le_nat_alt)
  define content where "content = fit_bytes (unat n) (chunk_bytes c) @ replicate (unat (ch_capacity c) - unat n) 0"
  have step: "(if n < ch_size c
       then store_bytes (ch_content c) (unat n) (replicate (unat (ch_size c - n)) 0)
       else Inr (ch_content c)) = Inr content"
  proof (cases "n < ch_size c")
    case True
    then have lt: "unat n < unat (ch_size c)" by (simp add: word_less_nat_alt)
    have "overwrite (unat n) (replicate (unat (ch_size c) - unat n) 0) (ch_content c) =
        take (unat n) (ch_content c) @ replicate (unat (ch_size c) - unat n) 0 @ drop (unat (ch_size c)) (ch_content c)"
      using lt by (simp add: overwrite_def)
    also have "\<dots> = content"
      using lt w z by (simp add: content_def fit_bytes_def chunk_bytes_def zero_tail_def min_absorb1
          replicate_add [symmetric])
    finally show ?thesis using True lt w by (simp add: store_bytes_def unat_sub_less)
  next
    case False
    then have ge: "unat (ch_size c) \<le> unat n" by (simp add: word_less_nat_alt)
    have "ch_content c = content"
      unfolding chunk_content_split [OF wf z] content_def fit_bytes_def
      using ge w n' by (simp add: replicate_add [symmetric])
    then show ?thesis using False by simp
  qed
  have "setSize c n = Inr (c\<lparr>ch_content := content, ch_size := n\<rparr>)"
    unfolding setSize_def require_def step using n by simp
  moreover have "wf_chunk (c\<lparr>ch_content := content, ch_size := n\<rparr>)"
    using n' w by (intro wf_chunkI) (simp_all add: content_def)
  ultimately show ?thesis
    by (simp add: zero_tail_def chunk_bytes_def content_def)
qed

lemma Chunk_ok:
  assumes "Chunk capacity = Inr c"
  shows "wf_chunk c \<and> zero_tail c \<and> chunk_bytes c = [] \<and> ch_capacity c = capacity \<and> ch_writable c"
  using assms
  by (auto simp: Chunk_def bind_result_Inr_iff zero_tail_def chunk_bytes_def maxAllowedCapacity_unat
      intro!: wf_chunkI)


section \<open>What a delta means\<close>

text \<open>A delta in the documented format: the size to XOR with, and for every block the gap since the end
  of the block before it and the data. The closing zero may be left out at the end of the buffer.\<close>

fun put_blocks :: "bool \<Rightarrow> (nat \<times> byte list) list \<Rightarrow> byte list option" where
  "put_blocks closed [] = (if closed then put_var_uint var_uint_trie_g 0 else Some [])"
| "put_blocks closed ((gap, d) # blocks) =
    (case (put_var_uint var_uint_trie_g (word_of_nat (gap + 1)),
           put_var_uint var_uint_trie_g (word_of_nat (length d)), put_blocks closed blocks) of
       (Some a, Some b, Some c) \<Rightarrow> Some (a @ b @ d @ c)
     | _ \<Rightarrow> None)"

definition put_delta :: "bool \<Rightarrow> uint32 \<Rightarrow> (nat \<times> byte list) list \<Rightarrow> byte list option" where
  "put_delta closed x blocks =
    (case (put_var_uint var_uint_trie_g x, put_blocks closed blocks) of
       (Some a, Some b) \<Rightarrow> Some (a @ b) | _ \<Rightarrow> None)"

text \<open>All blocks lie within the new size.\<close>

fun blocks_fit :: "nat \<Rightarrow> (nat \<times> byte list) list \<Rightarrow> nat \<Rightarrow> bool" where
  "blocks_fit off [] sz = True"
| "blocks_fit off ((gap, d) # blocks) sz \<longleftrightarrow>
    off + gap + length d \<le> sz \<and> blocks_fit (off + gap + length d) blocks sz"

fun apply_blocks :: "nat \<Rightarrow> (nat \<times> byte list) list \<Rightarrow> byte list \<Rightarrow> byte list" where
  "apply_blocks off [] bs = bs"
| "apply_blocks off ((gap, d) # blocks) bs =
    apply_blocks (off + gap + length d) blocks (overwrite (off + gap) d bs)"

lemma length_apply_blocks:
  "blocks_fit off blocks sz \<Longrightarrow> sz \<le> length bs \<Longrightarrow> length (apply_blocks off blocks bs) = length bs"
  by (induction off blocks bs rule: apply_blocks.induct) auto

lemma overwrite_append:
  "off + length d \<le> length xs \<Longrightarrow> overwrite off d (xs @ ys) = overwrite off d xs @ ys"
  by (simp add: overwrite_def)

lemma apply_blocks_append:
  "blocks_fit off blocks (length xs) \<Longrightarrow> apply_blocks off blocks (xs @ ys) = apply_blocks off blocks xs @ ys"
  by (induction off blocks xs rule: apply_blocks.induct) (auto simp: overwrite_append)

section \<open>Applying a delta\<close>

lemma applyDelta_loop_block:
  assumes lt: "delta < boundary"
    and diff: "decodeVarUInt_reader var_uint_trie_g buf delta boundary = Inr (diff, d1)" "diff \<noteq> 0"
    and sz: "decodeVarUInt_reader var_uint_trie_g buf d1 boundary = Inr (n, d2)"
    and off: "off = offset + unat (diff - 1)" "off + unat n \<le> unat sz" "unat sz \<le> length content"
    and data: "d2 + unat n \<le> length buf"
  shows "applyDelta_loop sz buf boundary content delta (int offset) =
    applyDelta_loop sz buf boundary (overwrite off (slice_of d2 (unat n) buf) content) (d2 + unat n)
      (int (off + unat n))"
proof -
  have i: "int offset + int (unat (diff - 1)) = int off" using off(1) by simp
  have i': "int offset + uint (diff - 1) = int off" using off(1) by simp
  have "\<not> int off + int (unat n) > int (unat sz)" using off(2) by linarith
  then show ?thesis
    using lt diff sz data off(2,3) unfolding applyDelta_loop.simps [of sz buf boundary content delta "int offset"]
    by (simp add: i i' load_bytes_def store_bytes_def Let_def)
qed

lemma unat_gap:
  assumes "gap + 1 < 2 ^ 32"
  shows "(word_of_nat (gap + 1) :: uint32) \<noteq> 0" "unat ((word_of_nat (gap + 1) :: uint32) - 1) = gap"
proof -
  have u: "unat (word_of_nat (gap + 1) :: uint32) = gap + 1"
    using assms by (subst unat_of_nat) simp
  then show "(word_of_nat (gap + 1) :: uint32) \<noteq> 0" by (metis Suc_eq_plus1 nat.distinct(1) unsigned_0)
  have "(word_of_nat (gap + 1) :: uint32) - 1 = word_of_nat gap" by simp
  then show "unat ((word_of_nat (gap + 1) :: uint32) - 1) = gap"
    using assms by (simp only:) (subst unat_of_nat, simp)
qed

lemma applyDelta_loop_put:
  assumes "put_blocks closed blocks = Some bs" "blocks_fit off blocks (unat sz)"
    and "unat sz \<le> length content" "unat sz \<le> 65536"
    and "length pre + length bs \<le> boundary" "\<not> closed \<longrightarrow> boundary = length pre + length bs"
  shows "applyDelta_loop sz (pre @ bs @ post) boundary content (length pre) (int off) =
    Inr (apply_blocks off blocks content, length pre + length bs)"
  using assms
proof (induction closed blocks arbitrary: pre bs off content rule: put_blocks.induct)
  case (1 closed)
  show ?case
  proof (cases closed)
    case True
    then have z: "put_var_uint var_uint_trie_g 0 = Some bs" using 1 by simp
    have "length pre < boundary"
      using vu.enc_nonempty [OF z] "1.prems"(5) by (cases bs) simp_all
    then show ?thesis
      using vu.dec_enc [OF z "1.prems"(5)] by (simp add: applyDelta_loop.simps)
  next
    case False
    then show ?thesis using "1.prems" by (simp add: applyDelta_loop.simps)
  qed
next
  case (2 closed gap d blocks)
  obtain a b c where put: "put_var_uint var_uint_trie_g (word_of_nat (gap + 1)) = Some a"
    "put_var_uint var_uint_trie_g (word_of_nat (length d)) = Some b" "put_blocks closed blocks = Some c"
    and bs: "bs = a @ b @ d @ c"
    using "2.prems"(1) by (auto split: option.splits)
  have fit: "off + gap + length d \<le> unat sz" "blocks_fit (off + gap + length d) blocks (unat sz)"
    using "2.prems"(2) by simp_all
  have small: "gap + 1 < 2 ^ 32" "length d < 2 ^ 32" using fit(1) "2.prems"(4) by simp_all
  have ld: "unat (word_of_nat (length d) :: uint32) = length d"
    using small(2) by (subst unat_of_nat) simp
  have ne: "a \<noteq> []" "b \<noteq> []" using vu.enc_nonempty put by blast+
  let ?buf = "pre @ bs @ post"
  have d1: "decodeVarUInt_reader var_uint_trie_g ?buf (length pre) boundary =
      Inr (word_of_nat (gap + 1), length pre + length a)"
    using vu.dec_enc [OF put(1), of pre boundary "b @ d @ c @ post"] "2.prems"(5) by (simp add: bs)
  have d2: "decodeVarUInt_reader var_uint_trie_g ?buf (length pre + length a) boundary =
      Inr (word_of_nat (length d), length pre + length a + length b)"
    using vu.dec_enc [OF put(2), of "pre @ a" boundary "d @ c @ post"] "2.prems"(5) by (simp add: bs)
  have data: "slice_of (length pre + length a + length b) (length d) ?buf = d"
    by (simp add: bs slice_of_def)
  have lt: "length pre < boundary" using "2.prems"(5) ne(1) by (cases a) (simp_all add: bs)
  have step: "applyDelta_loop sz ?buf boundary content (length pre) (int off) =
      applyDelta_loop sz ?buf boundary (overwrite (off + gap) d content)
        (length pre + length a + length b + length d) (int (off + gap + length d))"
    using applyDelta_loop_block [OF lt d1 unat_gap(1) [OF small(1)] d2, of "off + gap" off sz content]
      "2.prems"(3,5) fit(1) ne(1) unat_gap(2) [OF small(1)] ld data
    by (simp add: bs)
  have "applyDelta_loop sz ((pre @ a @ b @ d) @ c @ post) boundary (overwrite (off + gap) d content)
      (length (pre @ a @ b @ d)) (int (off + gap + length d)) =
    Inr (apply_blocks (off + gap + length d) blocks (overwrite (off + gap) d content),
      length (pre @ a @ b @ d) + length c)"
    using "2.prems" fit put(3) bs by (intro "2.IH") auto
  then show ?case unfolding step by (simp add: bs add.assoc)
qed

text \<open>Applying a serialised delta sets the size, keeps the old bytes or zeros, and writes the blocks.\<close>

lemma applyDelta_put:
  assumes wf: "wf_chunk c" and z: "zero_tail c"
    and put: "put_delta closed x blocks = Some ds"
    and sz: "sz = ch_size c XOR x" "unat sz \<le> 65536" and fit: "blocks_fit 0 blocks (unat sz)"
    and b: "length pre + length ds \<le> boundary" "\<not> closed \<longrightarrow> boundary = length pre + length ds"
  shows "\<exists>c'. applyDelta c (pre @ ds @ post) (length pre) boundary = Inr (c', length pre + length ds) \<and>
    wf_chunk c' \<and> zero_tail c' \<and> chunk_bytes c' = apply_blocks 0 blocks (fit_bytes (unat sz) (chunk_bytes c)) \<and>
    ch_capacity c' = sz \<and> ch_writable c' = ch_writable c"
proof -
  obtain p q where p: "put_var_uint var_uint_trie_g x = Some p" and q: "put_blocks closed blocks = Some q"
    and ds: "ds = p @ q" using put by (auto simp: put_delta_def split: option.splits)
  have pne: "p \<noteq> []" using vu.enc_nonempty [OF p] .
  have dec: "decodeVarUInt_reader var_uint_trie_g (pre @ ds @ post) (length pre) boundary = Inr (x, length pre + length p)"
    using vu.dec_enc [OF p, of pre boundary "q @ post"] b(1) by (simp add: ds)
  have lt: "length pre < boundary" using b(1) pne by (cases p) (simp_all add: ds)
  obtain c1 r where c1: "reserveSpace c sz = Inr (c1, r)" "wf_chunk c1" "zero_tail c1"
    "chunk_bytes c1 = chunk_bytes c" "unat sz \<le> unat (ch_capacity c1)" "ch_size c1 = ch_size c"
    "ch_writable c1 = ch_writable c"
  proof (cases "unat sz \<le> unat (ch_capacity c)")
    case True
    then show thesis using that [of c False] reserveSpace_ok [OF wf z, of sz] sz(2) wf z by simp
  next
    case False
    then have "unat (ch_size c) \<le> unat sz" using wf_chunkD(2) [OF wf] by simp
    from fitted_chunk [OF wf this sz(2)] show thesis
      using that [OF _ _ _ _ _ _ _] reserveSpace_ok [OF wf z, of sz] sz(2) False by simp
  qed
  let ?rest = "drop (unat sz) (ch_content c1)"
  have l1: "length (ch_content c1) = unat (ch_capacity c1)" by (rule wf_chunkD(1) [OF c1(2)])
  have content: "ch_content c1 = fit_bytes (unat sz) (chunk_bytes c) @ ?rest"
  proof -
    have "take (unat sz) (ch_content c1) = fit_bytes (unat sz) (chunk_bytes c)"
      using c1(4,5) wf_chunkD(2) [OF c1(2)] length_chunk_bytes [OF c1(2)]
      unfolding chunk_content_split [OF c1(2,3)] by (simp add: fit_bytes_def min_def)
    then show ?thesis by (metis append_take_drop_id)
  qed
  let ?new = "apply_blocks 0 blocks (fit_bytes (unat sz) (chunk_bytes c))"
  have "applyDelta_loop sz ((pre @ p) @ q @ post) boundary (ch_content c1) (length (pre @ p)) (int 0) =
      Inr (apply_blocks 0 blocks (ch_content c1), length (pre @ p) + length q)"
    using b l1 c1(5) by (intro applyDelta_loop_put [OF q fit _ sz(2)]) (auto simp: ds)
  moreover have "apply_blocks 0 blocks (ch_content c1) = ?new @ ?rest"
    using fit by (subst content) (simp add: apply_blocks_append)
  ultimately have loop: "applyDelta_loop sz (pre @ ds @ post) boundary (ch_content c1) (length pre + length p) 0 =
      Inr (?new @ ?rest, length pre + length ds)"
    by (simp add: ds)
  have lnew: "length ?new = unat sz" using fit by (simp add: length_apply_blocks)
  let ?c2 = "c1\<lparr>ch_content := ?new @ ?rest, ch_size := sz\<rparr>"
  have c2: "wf_chunk ?c2" "chunk_bytes ?c2 = ?new"
    using c1(5) wf_chunkD(3) [OF c1(2)] lnew l1
    by (auto intro!: wf_chunkI simp: chunk_bytes_def)
  obtain r2 where "shrinkSpace ?c2 = Inr (?c2\<lparr>ch_content := ?new, ch_capacity := sz\<rparr>, r2)"
    using shrinkSpace_ok [OF c2(1)] c2(2) by auto
  then have "applyDelta c (pre @ ds @ post) (length pre) boundary =
      Inr (?c2\<lparr>ch_content := ?new, ch_capacity := sz\<rparr>, length pre + length ds)"
    using lt c1(1) loop by (simp add: applyDelta_def dec sz(1) [symmetric] Let_def)
  then show ?thesis using shrunk_chunk [OF c2(1)] c2(2) c1(7) by auto
qed


text \<open>An arbitrary, possibly malformed delta: the loop writes only below the new size, and the only
  bytes it can read outside the buffer lie behind the boundary.\<close>

lemma decode_not_UB:
  assumes "e \<le> length buf"
  shows "decodeVarUInt_reader t buf p e \<noteq> Inl Undefined_behaviour"
proof (cases "p \<le> e")
  case True
  have "readPrefixCode_loop t buf p m 0 0 \<noteq> Inl Undefined_behaviour" if "m \<le> e - p" for m
    using readPrefixCode_loop_bytes [of p "e - p" buf buf m t 0 0] True assms that by auto
  moreover have "min (height t) (nat (int e - int p)) \<le> e - p" using True by simp
  ultimately show ?thesis
    by (auto simp: decodeVarUInt_reader_def decodeVarUInt_ptr_def readPrefixCode_ptr_def
        nat_maxLength bind_result_Inl_iff)
next
  case False
  then have "nat (int e - int p) = 0" by simp
  then show ?thesis
    by (simp add: decodeVarUInt_reader_def decodeVarUInt_ptr_def readPrefixCode_ptr_def
        nat_maxLength readPrefixCode_loop.simps)
qed

lemma drop_overwrite: "off + length d \<le> n \<Longrightarrow> n \<le> length xs \<Longrightarrow> drop n (overwrite off d xs) = drop n xs"
  by (simp add: overwrite_def)

lemma applyDelta_loop_any:
  assumes "unat sz \<le> length content" "0 \<le> offset"
  shows "(\<forall>content' d. applyDelta_loop sz buf boundary content delta offset = Inr (content', d) \<longrightarrow>
      length content' = length content \<and> drop (unat sz) content' = drop (unat sz) content) \<and>
    (boundary + unat sz \<le> length buf \<longrightarrow>
      applyDelta_loop sz buf boundary content delta offset \<noteq> Inl Undefined_behaviour)"
  using assms
proof (induction sz buf boundary content delta offset rule: applyDelta_loop.induct)
  case (1 sz buf boundary content delta offset)
  note prems = "1.prems"
  note unf = applyDelta_loop.simps [of sz buf boundary content delta offset]
  show ?case
  proof (cases "delta < boundary")
    case False
    then show ?thesis by (simp add: unf)
  next
    case lt: True
    show ?thesis
    proof (cases "decodeVarUInt_reader var_uint_trie_g buf delta boundary")
      case (Inl e)
      then show ?thesis using lt decode_not_UB [of boundary buf var_uint_trie_g delta]
        by (auto simp: unf)
    next
      case (Inr r1)
      obtain diff d1 where r1: "r1 = (diff, d1)" by (cases r1)
      note dec1 = Inr [unfolded r1]
      let ?off = "offset + int (unat (diff - 1))"
      show ?thesis
      proof (cases "diff = 0")
        case True
        then show ?thesis using lt dec1 by (simp add: unf)
      next
        case ne: False
        show ?thesis
        proof (cases "decodeVarUInt_reader var_uint_trie_g buf d1 boundary")
          case (Inl e)
          then show ?thesis using lt ne dec1 decode_not_UB [of boundary buf var_uint_trie_g d1]
            by (auto simp: unf Let_def)
        next
          case (Inr r2)
          obtain bsz d2 where r2: "r2 = (bsz, d2)" by (cases r2)
          note dec2 = Inr [unfolded r2]
          show ?thesis
          proof (cases "?off + int (unat bsz) > int (unat sz) \<and> \<not> ?off < int (unat sz)")
            case True
            then show ?thesis using lt ne dec1 dec2 by (simp add: unf Let_def)
          next
            case stay: False
            define n where "n = (if ?off + int (unat bsz) > int (unat sz)
              then nat (int (unat sz) - ?off) else unat bsz)"
            have off0: "0 \<le> ?off" using prems(2) by simp
            have n: "nat ?off + n \<le> unat sz"
            proof (cases "?off + int (unat bsz) > int (unat sz)")
              case True
              then have "n = nat (int (unat sz) - ?off)" "?off < int (unat sz)"
                using stay by (simp_all only: n_def if_True simp_thms)
              then show ?thesis using off0 by linarith
            next
              case False
              then have "n = unat bsz" by (simp only: n_def if_False)
              then show ?thesis using False off0 by linarith
            qed
            have fit: "nat ?off + n \<le> length content" using n prems(1) by simp
            have d2: "d2 \<le> boundary" using decode_progress [OF dec2] by simp
            have eq: "applyDelta_loop sz buf boundary content delta offset =
              (if d2 + n \<le> length buf then
                 applyDelta_loop sz buf boundary (overwrite (nat ?off) (slice_of d2 n buf) content)
                   (d2 + n) (?off + int n)
               else Inl Undefined_behaviour)"
              unfolding unf
              by (simp only: lt if_True dec1 dec2 sum.case prod.case Let_def ne if_False stay
                  n_def [symmetric] load_bytes_def store_bytes_def) (use fit in \<open>cases "d2 + n \<le> length buf"; simp\<close>)
            show ?thesis
            proof (cases "d2 + n \<le> length buf")
              case False
              then show ?thesis using eq n d2 by auto
            next
              case True
              let ?c = "overwrite (nat ?off) (slice_of d2 n buf) content"
              have lb: "load_bytes buf d2 n = Inr (slice_of d2 n buf)" "length (slice_of d2 n buf) = n"
                using True by (simp_all add: load_bytes_def)
              then have sb: "store_bytes content (nat ?off) (slice_of d2 n buf) = Inr ?c"
                using fit by (simp add: store_bytes_def)
              have len: "length ?c = length content" "drop (unat sz) ?c = drop (unat sz) content"
                using fit n prems(1) lb(2) by (simp_all add: drop_overwrite)
              note IH = "1.IH" [OF lt dec1 refl ne refl dec2 refl stay n_def lb(1) sb]
              have "unat sz \<le> length ?c" "0 \<le> ?off + int n" using len prems(1) off0 by simp_all
              note IH' = IH [OF this, unfolded len]
              have "applyDelta_loop sz buf boundary content delta offset =
                  applyDelta_loop sz buf boundary ?c (d2 + n) (?off + int n)"
                using eq True by simp
              then show ?thesis using IH' by (simp only:)
            qed
          qed
        qed
      qed
    qed
  qed
qed

lemma applyDelta_any:
  assumes wf: "wf_chunk c" and z: "zero_tail c"
  shows "(\<forall>c' d. applyDelta c buf delta boundary = Inr (c', d) \<longrightarrow>
      wf_chunk c' \<and> zero_tail c' \<and> ch_writable c' = ch_writable c) \<and>
    (boundary + 65536 \<le> length buf \<longrightarrow> applyDelta c buf delta boundary \<noteq> Inl Undefined_behaviour)"
proof (cases "delta < boundary")
  case False
  then show ?thesis using wf z by (simp add: applyDelta_def)
next
  case lt: True
  show ?thesis
  proof (cases "decodeVarUInt_reader var_uint_trie_g buf delta boundary")
    case (Inl e)
    then show ?thesis using lt decode_not_UB [of boundary buf var_uint_trie_g delta]
      by (auto simp: applyDelta_def)
  next
    case (Inr r)
    obtain x d1 where dec: "decodeVarUInt_reader var_uint_trie_g buf delta boundary = Inr (x, d1)"
      using Inr by (cases r) auto
    define sz where "sz = ch_size c XOR x"
    show ?thesis
    proof (cases "unat sz \<le> 65536")
      case False
      then show ?thesis using lt dec reserveSpace_ok [OF wf z, of sz]
        by (auto simp: applyDelta_def sz_def)
    next
      case small: True
      obtain c1 b where c1: "reserveSpace c sz = Inr (c1, b)" "wf_chunk c1"
        "unat sz \<le> unat (ch_capacity c1)" "ch_writable c1 = ch_writable c"
      proof (cases "unat sz \<le> unat (ch_capacity c)")
        case True
        then show thesis using that [of c False] reserveSpace_ok [OF wf z, of sz] small wf by simp
      next
        case False
        then have "unat (ch_size c) \<le> unat sz" using wf_chunkD(2) [OF wf] by simp
        from fitted_chunk [OF wf this small] show thesis
          using that [OF _ _ _ _] reserveSpace_ok [OF wf z, of sz] small False by simp
      qed
      have l: "unat sz \<le> length (ch_content c1)" using c1 wf_chunkD(1) [OF c1(2)] by simp
      note any = applyDelta_loop_any [OF l order_refl, of buf boundary d1]
      have eq: "applyDelta c buf delta boundary =
          bind_result (applyDelta_loop sz buf boundary (ch_content c1) d1 0) (\<lambda>(content, d2).
          bind_result (shrinkSpace (c1\<lparr>ch_content := content, ch_size := sz\<rparr>)) (\<lambda>(c2, _). Inr (c2, d2)))"
        using lt dec c1(1) by (simp add: applyDelta_def sz_def [symmetric] Let_def)
      show ?thesis
      proof (cases "applyDelta_loop sz buf boundary (ch_content c1) d1 0")
        case (Inl e)
        then show ?thesis using any small eq by auto
      next
        case (Inr p)
        obtain content d2 where p: "p = (content, d2)" by (cases p)
        let ?c2 = "c1\<lparr>ch_content := content, ch_size := sz\<rparr>"
        have "length content = length (ch_content c1)" using any Inr p by simp
        then have c2: "wf_chunk ?c2"
          using c1(2,3) wf_chunkD [OF c1(2)] by (intro wf_chunkI) simp_all
        obtain b2 where "shrinkSpace ?c2 = Inr (?c2\<lparr>ch_content := chunk_bytes ?c2, ch_capacity := ch_size ?c2\<rparr>, b2)"
          using shrinkSpace_ok [OF c2] by blast
        then show ?thesis using eq Inr p shrunk_chunk [OF c2] c1(4) by simp
      qed
    qed
  qed
qed

section \<open>The properties\<close>

text \<open>C19: Every operation on a chunk keeps its array as long as its capacity, its size within the
  capacity, the capacity within 64 KiB and the bytes behind the size zero; changing the size cuts the
  bytes or appends zeros, reserving and releasing space leaves them as they are. The assertions fail
  exactly for a size above the capacity and a capacity above 64 KiB.\<close>

theorem chunk_operations:
  assumes "wf_chunk c" and "zero_tail c"
  shows "(if n \<le> ch_capacity c
     then \<exists>c'. setSize c n = Inr c' \<and> wf_chunk c' \<and> zero_tail c' \<and>
       chunk_bytes c' = fit_bytes (unat n) (chunk_bytes c)
     else setSize c n = Inl Assert_failed) \<and>
   (if unat n \<le> 65536
     then \<exists>c' b. reserveSpace c n = Inr (c', b) \<and> wf_chunk c' \<and> zero_tail c' \<and>
       chunk_bytes c' = chunk_bytes c \<and> n \<le> ch_capacity c'
     else reserveSpace c n = Inl Assert_failed) \<and>
   (\<exists>c' b. shrinkSpace c = Inr (c', b) \<and> wf_chunk c' \<and> zero_tail c' \<and>
     chunk_bytes c' = chunk_bytes c \<and> ch_capacity c' = ch_size c) \<and>
   (if unat n \<le> 65536
     then \<exists>c'. Chunk n = Inr c' \<and> wf_chunk c' \<and> zero_tail c' \<and> chunk_bytes c' = []
     else Chunk n = Inl Assert_failed)"
proof (intro conjI)
  show "if n \<le> ch_capacity c
     then \<exists>c'. setSize c n = Inr c' \<and> wf_chunk c' \<and> zero_tail c' \<and>
       chunk_bytes c' = fit_bytes (unat n) (chunk_bytes c)
     else setSize c n = Inl Assert_failed"
    using setSize_ok [OF assms, of n] by (auto simp: setSize_def require_def)
  show "if unat n \<le> 65536
     then \<exists>c' b. reserveSpace c n = Inr (c', b) \<and> wf_chunk c' \<and> zero_tail c' \<and>
       chunk_bytes c' = chunk_bytes c \<and> n \<le> ch_capacity c'
     else reserveSpace c n = Inl Assert_failed"
    using reserveSpace_ok [OF assms, of n] fitted_chunk [OF assms(1), of n] assms wf_chunkD(2) [OF assms(1)]
    by (auto simp: word_le_nat_alt)
  show "\<exists>c' b. shrinkSpace c = Inr (c', b) \<and> wf_chunk c' \<and> zero_tail c' \<and>
     chunk_bytes c' = chunk_bytes c \<and> ch_capacity c' = ch_size c"
    using shrinkSpace_ok [OF assms(1)] shrunk_chunk [OF assms(1)] by fastforce
  show "if unat n \<le> 65536
     then \<exists>c'. Chunk n = Inr c' \<and> wf_chunk c' \<and> zero_tail c' \<and> chunk_bytes c' = []
     else Chunk n = Inl Assert_failed"
    using Chunk_ok [of n] by (auto simp: Chunk_def require_def maxAllowedCapacity_unat)
qed

definition sample_chunk :: chunk where
  "sample_chunk = \<lparr>ch_content = [7, 8, 9, 0, 0], ch_size = 3, ch_capacity = 5, ch_writable = True\<rparr>"

lemma sample_chunk_wf: "wf_chunk sample_chunk" "zero_tail sample_chunk"
  by code_simp+

theorem chunk_operations_witness:
  "(\<exists>c'. setSize sample_chunk 2 = Inr c' \<and> chunk_bytes c' = [7, 8]) \<and>
   (\<exists>c' b. shrinkSpace sample_chunk = Inr (c', b) \<and> chunk_bytes c' = [7, 8, 9] \<and> ch_capacity c' = 3) \<and>
   setSize sample_chunk 6 = Inl Assert_failed"
proof -
  have "(2 :: uint32) \<le> ch_capacity sample_chunk" "\<not> (6 :: uint32) \<le> ch_capacity sample_chunk"
    "fit_bytes (unat (2 :: uint32)) (chunk_bytes sample_chunk) = [7, 8]"
    "chunk_bytes sample_chunk = [7, 8, 9]" "ch_size sample_chunk = 3"
    by (simp_all add: sample_chunk_def word_le_nat_alt fit_bytes_def chunk_bytes_def)
  then show ?thesis
    using chunk_operations [OF sample_chunk_wf, of 2] chunk_operations [OF sample_chunk_wf, of 6]
    by auto
qed

text \<open>C7: Applying a delta in the documented format gives the chunk whose size is the old size XOR the
  number in the delta and whose bytes are the old ones, cut or filled up with zeros to that size, with
  every block of the delta written at its place; the delta is consumed to its last byte, and the
  chunk keeps no space behind its size.\<close>

theorem delta_refines_format:
  assumes "wf_chunk c" and "zero_tail c" and "put_delta closed x blocks = Some ds"
    and "sz = ch_size c XOR x" and "unat sz \<le> 65536" and "blocks_fit 0 blocks (unat sz)"
    and "length pre + length ds \<le> boundary" and "\<not> closed \<longrightarrow> boundary = length pre + length ds"
  shows "\<exists>c'. applyDelta c (pre @ ds @ post) (length pre) boundary = Inr (c', length pre + length ds) \<and>
    wf_chunk c' \<and> zero_tail c' \<and> ch_size c' = sz \<and> ch_capacity c' = sz \<and>
    chunk_bytes c' = apply_blocks 0 blocks (fit_bytes (unat sz) (chunk_bytes c))"
proof -
  obtain c' where c': "applyDelta c (pre @ ds @ post) (length pre) boundary = Inr (c', length pre + length ds)"
    "wf_chunk c'" "zero_tail c'" "ch_capacity c' = sz"
    "chunk_bytes c' = apply_blocks 0 blocks (fit_bytes (unat sz) (chunk_bytes c))"
    using applyDelta_put [OF assms] by blast
  have "length (chunk_bytes c') = unat sz" using c'(5) assms(6) by (simp add: length_apply_blocks)
  then have "unat (ch_size c') = unat sz" using length_chunk_bytes [OF c'(2)] by simp
  then have "ch_size c' = sz" by (simp add: word_unat_eq_iff)
  then show ?thesis using c' by blast
qed

theorem delta_refines_format_witness:
  "\<exists>c'. applyDelta sample_chunk ([99] @ [7, 2, 1, 5, 1, 1, 6, 0] @ [42]) 1 9 = Inr (c', 9) \<and>
    wf_chunk c' \<and> zero_tail c' \<and> ch_size c' = 4 \<and> ch_capacity c' = 4 \<and> chunk_bytes c' = [7, 5, 6, 0]"
proof -
  have put: "put_delta True 7 [(1, [5]), (0, [6])] = Some [7, 2, 1, 5, 1, 1, 6, 0]" by code_simp
  have sz: "4 = ch_size sample_chunk XOR 7" by (simp add: sample_chunk_def)
  have fit: "unat (4 :: uint32) \<le> 65536" "blocks_fit 0 [(1, [5]), (0, [6])] (unat (4 :: uint32))"
    "length [99 :: byte] + length [7, 2, 1, 5, 1, 1, 6, 0 :: byte] \<le> 9"
    "\<not> True \<longrightarrow> 9 = length [99 :: byte] + length [7, 2, 1, 5, 1, 1, 6, 0 :: byte]" by simp_all
  have pos: "length [99 :: byte] + length [7, 2, 1, 5, 1, 1, 6, 0 :: byte] = 9"
    "length [99 :: byte] = 1" "1 + length [7, 2, 1, 5, 1, 1, 6, 0 :: byte] = 9" by simp_all
  have val: "apply_blocks 0 [(1, [5]), (0, [6])] (fit_bytes (unat (4 :: uint32)) (chunk_bytes sample_chunk)) = [7, 5, 6, 0]"
    by (simp add: sample_chunk_def fit_bytes_def chunk_bytes_def overwrite_def)
  show ?thesis
    using delta_refines_format [OF sample_chunk_wf put sz fit, of "[42]"] unfolding pos val .
qed

text \<open>C20: Whatever bytes a delta consists of, applying it either fails or gives a chunk that keeps the
  invariants, and no byte outside the chunk is written: behaviour is undefined only if the copying of
  a block runs out of the buffer, which 64 KiB behind the boundary exclude.\<close>

theorem delta_any_bytes:
  assumes "wf_chunk c" and "zero_tail c" and "boundary + 65536 \<le> length buf"
  shows "(\<exists>e. applyDelta c buf delta boundary = Inl e \<and> e \<noteq> Undefined_behaviour) \<or>
    (\<exists>c' d. applyDelta c buf delta boundary = Inr (c', d) \<and> wf_chunk c' \<and> zero_tail c' \<and>
      isWritable c' = isWritable c)"
  using applyDelta_any [OF assms(1,2), of buf delta boundary] assms(3)
  by (cases "applyDelta c buf delta boundary") (auto simp: isWritable_def)

theorem delta_any_bytes_witness:
  "(\<exists>e. applyDelta sample_chunk (replicate 70000 1) 0 9 = Inl e \<and> e \<noteq> Undefined_behaviour) \<or>
    (\<exists>c' d. applyDelta sample_chunk (replicate 70000 1) 0 9 = Inr (c', d) \<and> wf_chunk c' \<and> zero_tail c' \<and>
      isWritable c' = isWritable sample_chunk)"
  by (rule delta_any_bytes [OF sample_chunk_wf]) simp

text \<open>A block that reaches beyond the new size is cut, but the delta is not moved past the rest of
  its data: what was cut off is read as the next block. One delta in the documented format then
  fails, and of another one the last byte is left unread for the chunk that comes next.\<close>

theorem delta_truncation_desync:
  "put_delta False 2 [(0, [1, 5])] = Some [2, 1, 2, 1, 5] \<and>
   applyDelta sample_chunk [2, 1, 2, 1, 5] 0 5 = Inl Out_of_range \<and>
   put_delta True 2 [(0, [1, 0])] = Some [2, 1, 2, 1, 0, 0] \<and>
   (\<exists>c'. applyDelta sample_chunk [2, 1, 2, 1, 0, 0] 0 6 = Inr (c', 5))"
proof (intro conjI)
  show "put_delta False 2 [(0, [1, 5])] = Some [2, 1, 2, 1, 5]" by code_simp
  show "applyDelta sample_chunk [2, 1, 2, 1, 5] 0 5 = Inl Out_of_range" by code_simp
  show "put_delta True 2 [(0, [1, 0])] = Some [2, 1, 2, 1, 0, 0]" by code_simp
  have "applyDelta sample_chunk [2, 1, 2, 1, 0, 0] 0 6 =
      Inr (\<lparr>ch_content = [1], ch_size = 1, ch_capacity = 1, ch_writable = True\<rparr>, 5)" by code_simp
  then show "\<exists>c'. applyDelta sample_chunk [2, 1, 2, 1, 0, 0] 0 6 = Inr (c', 5)" by blast
qed

end
