(* ===== verification/Modifier.thy ===== *)
theory Modifier
  imports Heap_Chunk
begin

text \<open>
  Access to the heap through declared blocks, \<^verbatim>\<open>src/ascee/heap/RestrictedModifier.h\<close> and
  \<^verbatim>\<open>RestrictedModifier.cpp\<close>. A request sees the chunks it has declared through access blocks,
  and each access block keeps the versions of its bytes that the nested calls of the request have
  written; the newest one is the head of \<open>ab_versions\<close> (the back of the vector).

  Unsigned 32-bit offsets, indices and sizes are natural numbers here: the code widens them to 64
  bits before it adds. Version numbers are integers. A pointer to a \<^verbatim>\<open>ChunkInfo\<close> is the pair of
  keys it is stored under, because the maps never change after the construction of the modifier.
  Objects of type \<^verbatim>\<open>T\<close> are their \<^verbatim>\<open>sizeof(T)\<close> bytes, little-endian for integers.
\<close>

section \<open>Little-endian integers\<close>

fun le_value :: "byte list \<Rightarrow> nat" where
  "le_value [] = 0"
| "le_value (b # bs) = unat b + 256 * le_value bs"

fun le_bytes :: "nat \<Rightarrow> nat \<Rightarrow> byte list" where
  "le_bytes 0 v = []"
| "le_bytes (Suc n) v = word_of_nat (v mod 256) # le_bytes n (v div 256)"

definition le_int :: "byte list \<Rightarrow> int" where
  "le_int bs =
    (let n = 8 * length bs
     in if bs \<noteq> [] \<and> le_value bs \<ge> 2 ^ (n - 1) then int (le_value bs) - 2 ^ n else int (le_value bs))"

definition le_int_bytes :: "nat \<Rightarrow> int \<Rightarrow> byte list" where
  "le_int_bytes n i = le_bytes n (nat (i mod 2 ^ (8 * n)))"

section \<open>Access blocks\<close>

record access_block =
  ab_location :: nat
  ab_size :: nat
  ab_access :: AccessType
  ab_versions :: "(int \<times> byte list) list"

definition max_chunk_size :: nat where
  "max_chunk_size = 64 * 1024"

definition AccessBlock :: "nat \<Rightarrow> nat \<Rightarrow> AccessType \<Rightarrow> access_block result" where
  "AccessBlock heapLocation sz accessType =
    bind_result (require (sz \<le> max_chunk_size) Assert_failed) (\<lambda>_.
      Inr \<lparr>ab_location = heapLocation, ab_size = sz, ab_access = accessType, ab_versions = []\<rparr>)"

definition block_defined :: "access_block \<Rightarrow> nat \<Rightarrow> bool" where
  "block_defined b requiredSize \<longleftrightarrow> ab_size b \<ge> requiredSize \<and> \<not> denies (ab_access b) op_check"

definition syncTo :: "access_block \<Rightarrow> int \<Rightarrow> access_block" where
  "syncTo b version = b\<lparr>ab_versions := dropWhile (\<lambda>v. fst v > version) (ab_versions b)\<rparr>"

text \<open>\<^verbatim>\<open>ensureExists\<close>: the block and whether a version was added, filled with zeros.\<close>

definition ensureExists :: "access_block \<Rightarrow> int \<Rightarrow> (access_block \<times> bool) result" where
  "ensureExists b version =
    bind_result (require (version \<ge> 1) Assert_failed) (\<lambda>_.
      let added = Inr (b\<lparr>ab_versions := (version, replicate (ab_size b) 0) # ab_versions b\<rparr>, True)
      in case ab_versions b of
           [] \<Rightarrow> added
         | (latestVersion, _) # _ \<Rightarrow>
             bind_result (require (latestVersion \<le> version) Assert_failed) (\<lambda>_.
               if latestVersion = version then Inr (b, False) else added))"

text \<open>Where the bytes of the block are: in the heap behind \<open>mem\<close>, or in its newest version.\<close>

definition block_source :: "access_block \<Rightarrow> byte list \<Rightarrow> byte list \<times> nat" where
  "block_source b mem =
    (case ab_versions b of [] \<Rightarrow> (mem, ab_location b) | (_, content) # _ \<Rightarrow> (content, 0))"

definition prepareToRead ::
  "access_block \<Rightarrow> byte list \<Rightarrow> int \<Rightarrow> nat \<Rightarrow> nat \<Rightarrow> ((byte list \<times> nat) \<times> access_block) result" where
  "prepareToRead b mem version offset readSize =
    (if int offset + int readSize > int (ab_size b) then Inl Out_of_range
     else if denies (ab_access b) op_read then Inl Out_of_range
     else
       (let b' = syncTo b version; (buf, p) = block_source b' mem
        in Inr ((buf, p + offset), b')))"

text \<open>Assigning the content of the newest version.\<close>

definition set_newest :: "access_block \<Rightarrow> byte list \<Rightarrow> access_block" where
  "set_newest b content =
    (case ab_versions b of [] \<Rightarrow> b | (n, _) # vs \<Rightarrow> b\<lparr>ab_versions := (n, content) # vs\<rparr>)"

definition newest :: "access_block \<Rightarrow> byte list" where
  "newest b = (case ab_versions b of [] \<Rightarrow> [] | (_, content) # _ \<Rightarrow> content)"

text \<open>\<^verbatim>\<open>prepareToWrite\<close>: a version that has just been added gets the old bytes around the place
  that is going to be written.\<close>

definition prepareToWrite ::
  "access_block \<Rightarrow> byte list \<Rightarrow> int \<Rightarrow> nat \<Rightarrow> nat \<Rightarrow> access_block result" where
  "prepareToWrite b mem version offset writeSize =
    (if int offset + int writeSize > int (ab_size b) then Inl Out_of_range
     else if denies (ab_access b) op_write then Inl Out_of_range
     else
       (let b1 = syncTo b version; (oldBuf, p) = block_source b1 mem
        in bind_result (ensureExists b1 version) (\<lambda>(b2, added).
           if added \<and> ab_size b \<noteq> writeSize then
             bind_result (load_bytes oldBuf p offset) (\<lambda>before.
             bind_result (store_bytes (newest b2) 0 before) (\<lambda>c1.
             bind_result (load_bytes oldBuf (p + offset + writeSize) (ab_size b - writeSize - offset)) (\<lambda>after.
             bind_result (store_bytes c1 (offset + writeSize) after) (\<lambda>c2.
               Inr (set_newest b2 c2)))))
           else Inr b2)))"

definition block_read ::
  "access_block \<Rightarrow> byte list \<Rightarrow> int \<Rightarrow> nat \<Rightarrow> nat \<Rightarrow> (byte list \<times> access_block) result" where
  "block_read b mem version index n =
    bind_result (prepareToRead b mem version index n) (\<lambda>((buf, p), b').
    bind_result (load_bytes buf p n) (\<lambda>bytes. Inr (bytes, b')))"

text \<open>Reading a code can throw after the versions have been dropped: the outcome of the reading is a
  result of its own beside the block.\<close>

definition readVarUInt ::
  "'a::len word ptrie \<Rightarrow> access_block \<Rightarrow> byte list \<Rightarrow> int \<Rightarrow> nat
   \<Rightarrow> (('a word \<times> nat) result \<times> access_block) result" where
  "readVarUInt trie b mem version index =
    bind_result (prepareToRead b mem version index (ab_size b)) (\<lambda>((buf, p), b').
      Inr (decodeVarUInt_ptr trie buf p (int (ab_size b)), b'))"

definition readIdentifier ::
  "'a::len word ptrie \<Rightarrow> access_block \<Rightarrow> byte list \<Rightarrow> int \<Rightarrow> nat
   \<Rightarrow> (('a word \<times> nat) result \<times> access_block) result" where
  "readIdentifier trie b mem version index =
    bind_result (prepareToRead b mem version index (ab_size b)) (\<lambda>((buf, p), b').
      Inr (readPrefixCode_ptr trie buf p (int (ab_size b)), b'))"

definition block_write ::
  "access_block \<Rightarrow> byte list \<Rightarrow> int \<Rightarrow> nat \<Rightarrow> byte list \<Rightarrow> access_block result" where
  "block_write b mem version index bytes =
    bind_result (prepareToWrite b mem version index (length bytes)) (\<lambda>b1.
    bind_result (store_bytes (newest b1) index bytes) (\<lambda>content.
      Inr (set_newest b1 content)))"

definition writeVarUInt ::
  "'a::len word ptrie \<Rightarrow> access_block \<Rightarrow> byte list \<Rightarrow> int \<Rightarrow> nat \<Rightarrow> 'a word
   \<Rightarrow> (nat \<times> access_block) result" where
  "writeVarUInt trie b mem version index v =
    bind_result (encodeVarUInt trie v) (\<lambda>(code, len).
    bind_result (block_write b mem version index (writeBigEndian code len)) (\<lambda>b'.
      Inr (len, b')))"

text \<open>\<^verbatim>\<open>addInt\<close> for a signed type of \<open>n\<close> bytes: overflow of the sum is undefined behaviour.\<close>

definition block_addInt :: "access_block \<Rightarrow> int \<Rightarrow> nat \<Rightarrow> int \<Rightarrow> access_block result" where
  "block_addInt b version n v =
    (if n \<noteq> ab_size b then Inl Out_of_range
     else if denies (ab_access b) op_int_add then Inl Out_of_range
     else
       (let b1 = syncTo b version;
            current = (if ab_versions b1 = [] then 0 else le_int (take n (newest b1)));
            s = current + v
        in if s < - (2 ^ (8 * n - 1)) \<or> s \<ge> 2 ^ (8 * n - 1) then Inl Undefined_behaviour
           else bind_result (ensureExists b1 version) (\<lambda>(b2, _).
                bind_result (store_bytes (newest b2) 0 (le_int_bytes n s)) (\<lambda>content.
                  Inr (set_newest b2 content)))))"

text \<open>\<^verbatim>\<open>wrToHeap\<close>: the block and the changed memory. The sum of an additive block is a signed
  64-bit sum of the zero-extended bytes.\<close>

definition wrToHeap :: "access_block \<Rightarrow> byte list \<Rightarrow> int \<Rightarrow> nat \<Rightarrow> (access_block \<times> byte list) result" where
  "wrToHeap b mem version maxWriteSize =
    (let b' = syncTo b version
     in if ab_versions b' = [] then Inr (b', mem)
        else
          (let writeSize = min (ab_size b) maxWriteSize
           in if isAdditive (ab_access b) then
                bind_result (require (ab_size b \<le> 8) Assert_failed) (\<lambda>_.
                bind_result (load_bytes mem (ab_location b) (ab_size b)) (\<lambda>sb.
                bind_result (load_bytes (newest b') 0 (ab_size b)) (\<lambda>ab.
                let ext = (\<lambda>bs. le_int (bs @ replicate (8 - length bs) 0));
                    s = ext sb + ext ab
                in if s < - (2 ^ 63) \<or> s \<ge> 2 ^ 63 then Inl Undefined_behaviour
                   else bind_result (store_bytes mem (ab_location b) (take writeSize (le_int_bytes 8 s)))
                          (\<lambda>mem'. Inr (b', mem')))))
              else
                bind_result (load_bytes (newest b') 0 writeSize) (\<lambda>bytes.
                bind_result (store_bytes mem (ab_location b) bytes) (\<lambda>mem'. Inr (b', mem')))))"


section \<open>Chunks of a request\<close>

datatype ResizingType = expandable | shrinkable | size_read_only | non_accessible

record chunk_info =
  ci_table :: "(nat, access_block) ordered_map"
  ci_ptr :: nat
  ci_resizing :: ResizingType
  ci_sizeBound :: nat
  ci_size :: access_block
  ci_initialSize :: uint32

text \<open>The heap: the chunks behind the pointers.\<close>

type_synonym heap = "nat \<Rightarrow> chunk"

fun toAccessBlocks_loop :: "chunk \<Rightarrow> (int \<times> AccessBlockInfo) list \<Rightarrow> (nat \<times> access_block) list result" where
  "toAccessBlocks_loop c [] = Inr []"
| "toAccessBlocks_loop c ((offset, info) # rest) =
    (if mayWrite (abi_access info) \<and> \<not> isWritable c then Inl Block_error
     else if offset \<ge> 0 then
       bind_result (getContentPointer c (word_of_int offset) (word_of_int (abi_size info))) (\<lambda>p.
       bind_result (AccessBlock p (unat (word_of_int (abi_size info) :: uint32)) (abi_access info)) (\<lambda>b.
       bind_result (toAccessBlocks_loop c rest) (\<lambda>blocks.
         Inr ((unat (word_of_int offset :: uint32), b) # blocks))))
     else toAccessBlocks_loop c rest)"

definition toAccessBlocks ::
  "chunk \<Rightarrow> int list \<Rightarrow> AccessBlockInfo list \<Rightarrow> (nat, access_block) ordered_map result" where
  "toAccessBlocks c offsets accessInfoList =
    bind_result (toAccessBlocks_loop c (zip offsets accessInfoList)) (\<lambda>blocks.
      OrderedStaticMap (map fst blocks) (map snd blocks))"

definition ChunkInfo ::
  "heap \<Rightarrow> nat \<Rightarrow> ResizingType \<Rightarrow> nat \<Rightarrow> int list \<Rightarrow> AccessBlockInfo list \<Rightarrow> chunk_info result" where
  "ChunkInfo h ptr resizingType sizeBound offsets accessInfoList =
    bind_result (toAccessBlocks (h ptr) offsets accessInfoList) (\<lambda>table.
    bind_result (AccessBlock 0 4 (if resizingType = expandable \<or> resizingType = shrinkable
                                  then writable_access else read_only)) (\<lambda>sb.
    bind_result (require (sizeBound \<le> max_chunk_size) Assert_failed) (\<lambda>_.
      Inr \<lparr>ci_table = table, ci_ptr = ptr, ci_resizing = resizingType, ci_sizeBound = sizeBound,
           ci_size = sb, ci_initialSize = - 1\<rparr>)))"

text \<open>\<^verbatim>\<open>sizeBlock()\<close> fetches the size of the chunk when it is used for the first time.\<close>

definition init_size :: "heap \<Rightarrow> chunk_info \<Rightarrow> chunk_info" where
  "init_size h ci =
    (if ci_initialSize ci = - 1 then ci\<lparr>ci_initialSize := getsize (h (ci_ptr ci))\<rparr> else ci)"

definition size_mem :: "chunk_info \<Rightarrow> byte list" where
  "size_mem ci = le_bytes 4 (unat (ci_initialSize ci))"

definition sizeBlock_read :: "heap \<Rightarrow> chunk_info \<Rightarrow> int \<Rightarrow> (nat \<times> chunk_info) result" where
  "sizeBlock_read h ci version =
    (let ci1 = init_size h ci
     in bind_result (block_read (ci_size ci1) (size_mem ci1) version 0 4) (\<lambda>(bytes, b).
          Inr (le_value bytes, ci1\<lparr>ci_size := b\<rparr>)))"

definition sizeBlock_write :: "heap \<Rightarrow> chunk_info \<Rightarrow> int \<Rightarrow> nat \<Rightarrow> chunk_info result" where
  "sizeBlock_write h ci version newSize =
    (let ci1 = init_size h ci
     in bind_result (block_write (ci_size ci1) (size_mem ci1) version 0 (le_bytes 4 newSize)) (\<lambda>b.
          Inr (ci1\<lparr>ci_size := b\<rparr>)))"

section \<open>The modifier\<close>

type_synonym chunk_map = "(LongLongID, chunk_info) ordered_map"

record modifier =
  md_version :: int
  md_chunk :: "(uint64 \<times> LongLongID) option"
  md_context :: "uint64 option"
  md_apps :: "(uint64, chunk_map) ordered_map"

definition RestrictedModifier :: "uint64 list \<Rightarrow> chunk_map list \<Rightarrow> modifier result" where
  "RestrictedModifier apps chunkMaps =
    bind_result (OrderedStaticMap apps chunkMaps) (\<lambda>m.
      Inr \<lparr>md_version = 0, md_chunk = None, md_context = None, md_apps = m\<rparr>)"

definition MAX_VERSION :: int where
  "MAX_VERSION = 30000"

definition limit_exceeded :: nat where
  "limit_exceeded = 520"

definition saveVersion :: "modifier \<Rightarrow> (int \<times> modifier) result" where
  "saveVersion md =
    (if md_version md = MAX_VERSION then Inl (Ascee_error limit_exceeded)
     else Inr (md_version md, md\<lparr>md_version := md_version md + 1\<rparr>))"

definition restoreVersion :: "modifier \<Rightarrow> int \<Rightarrow> modifier result" where
  "restoreVersion md version =
    bind_result (require (version < md_version md \<and> version \<ge> 0) Assert_failed) (\<lambda>_.
      Inr (md\<lparr>md_version := version\<rparr>))"

text \<open>\<^verbatim>\<open>loadContext\<close> leaves a null pointer when the application has no chunks, and
  \<^verbatim>\<open>loadChunk\<close> dereferences it.\<close>

definition loadContext :: "modifier \<Rightarrow> uint64 \<Rightarrow> modifier" where
  "loadContext md appID =
    (case osm_at (md_apps md) appID of
       Inr _ \<Rightarrow> md\<lparr>md_context := Some appID, md_chunk := None\<rparr>
     | Inl _ \<Rightarrow> md\<lparr>md_context := None, md_chunk := None\<rparr>)"

definition loadChunk :: "modifier \<Rightarrow> uint64 \<Rightarrow> uint64 \<Rightarrow> modifier result" where
  "loadChunk md accountID localID =
    (case md_context md of
       None \<Rightarrow> Inl Undefined_behaviour
     | Some app \<Rightarrow>
         bind_result (osm_at (md_apps md) app) (\<lambda>chunks.
           case osm_at chunks (LongLongID accountID localID) of
             Inl _ \<Rightarrow> Inl Out_of_range
           | Inr _ \<Rightarrow> Inr (md\<lparr>md_chunk := Some (app, LongLongID accountID localID)\<rparr>)))"

definition loadLocalChunk :: "modifier \<Rightarrow> uint64 \<Rightarrow> modifier result" where
  "loadLocalChunk md localID = loadChunk md 0 localID"

text \<open>\<^verbatim>\<open>*currentChunk\<close> and assigning it.\<close>

definition get_chunk_info :: "modifier \<Rightarrow> uint64 \<times> LongLongID \<Rightarrow> chunk_info result" where
  "get_chunk_info md = (\<lambda>(app, chunkID).
    bind_result (osm_at (md_apps md) app) (\<lambda>chunks. osm_at chunks chunkID))"

definition set_chunk_info :: "modifier \<Rightarrow> uint64 \<times> LongLongID \<Rightarrow> chunk_info \<Rightarrow> modifier result" where
  "set_chunk_info md = (\<lambda>(app, chunkID) ci.
    bind_result (osm_at (md_apps md) app) (\<lambda>chunks.
    bind_result (osm_update chunks chunkID ci) (\<lambda>chunks'.
    bind_result (osm_update (md_apps md) app chunks') (\<lambda>apps'.
      Inr (md\<lparr>md_apps := apps'\<rparr>)))))"

text \<open>Running an operation on the access block at an offset of the current chunk.\<close>

definition with_block ::
  "modifier \<Rightarrow> heap \<Rightarrow> nat \<Rightarrow> (access_block \<Rightarrow> byte list \<Rightarrow> ('r \<times> access_block) result)
   \<Rightarrow> ('r \<times> modifier) result" where
  "with_block md h offset f =
    (case md_chunk md of
       None \<Rightarrow> Inl Out_of_range
     | Some p \<Rightarrow>
         bind_result (get_chunk_info md p) (\<lambda>ci.
         bind_result (osm_at (ci_table ci) offset) (\<lambda>b.
         bind_result (f b (ch_content (h (ci_ptr ci)))) (\<lambda>(r, b').
         bind_result (osm_update (ci_table ci) offset b') (\<lambda>table.
         bind_result (set_chunk_info md p (ci\<lparr>ci_table := table\<rparr>)) (\<lambda>md'.
           Inr (r, md')))))))"

definition modifier_load :: "modifier \<Rightarrow> heap \<Rightarrow> nat \<Rightarrow> nat \<Rightarrow> nat \<Rightarrow> (byte list \<times> modifier) result" where
  "modifier_load md h offset index n =
    with_block md h offset (\<lambda>b mem. block_read b mem (md_version md) index n)"

definition loadVarUInt ::
  "'a::len word ptrie \<Rightarrow> modifier \<Rightarrow> heap \<Rightarrow> nat \<Rightarrow> nat \<Rightarrow> (('a word \<times> nat) result \<times> modifier) result" where
  "loadVarUInt trie md h offset index =
    with_block md h offset (\<lambda>b mem. readVarUInt trie b mem (md_version md) index)"

definition loadIdentifier ::
  "'a::len word ptrie \<Rightarrow> modifier \<Rightarrow> heap \<Rightarrow> nat \<Rightarrow> nat \<Rightarrow> (('a word \<times> nat) result \<times> modifier) result" where
  "loadIdentifier trie md h offset index =
    with_block md h offset (\<lambda>b mem. readIdentifier trie b mem (md_version md) index)"

definition modifier_store :: "modifier \<Rightarrow> heap \<Rightarrow> nat \<Rightarrow> nat \<Rightarrow> byte list \<Rightarrow> modifier result" where
  "modifier_store md h offset index bytes =
    bind_result (with_block md h offset (\<lambda>b mem.
      bind_result (block_write b mem (md_version md) index bytes) (\<lambda>b'. Inr ((), b')))) (\<lambda>(_, md'). Inr md')"

definition storeVarUInt ::
  "'a::len word ptrie \<Rightarrow> modifier \<Rightarrow> heap \<Rightarrow> nat \<Rightarrow> 'a word \<Rightarrow> (nat \<times> modifier) result" where
  "storeVarUInt trie md h offset v =
    with_block md h offset (\<lambda>b mem. writeVarUInt trie b mem (md_version md) 0 v)"

definition modifier_addInt :: "modifier \<Rightarrow> heap \<Rightarrow> nat \<Rightarrow> nat \<Rightarrow> int \<Rightarrow> modifier result" where
  "modifier_addInt md h offset n v =
    bind_result (with_block md h offset (\<lambda>b mem.
      bind_result (block_addInt b (md_version md) n v) (\<lambda>b'. Inr ((), b')))) (\<lambda>(_, md'). Inr md')"

text \<open>The size of the current chunk; dereferencing the null pointer is undefined behaviour.\<close>

definition current_size :: "modifier \<Rightarrow> heap \<Rightarrow> (nat \<times> modifier) result" where
  "current_size md h =
    (case md_chunk md of
       None \<Rightarrow> Inl Undefined_behaviour
     | Some p \<Rightarrow>
         bind_result (get_chunk_info md p) (\<lambda>ci.
         bind_result (sizeBlock_read h ci (md_version md)) (\<lambda>(n, ci').
         bind_result (set_chunk_info md p ci') (\<lambda>md'. Inr (n, md')))))"

definition isValid :: "modifier \<Rightarrow> heap \<Rightarrow> nat \<Rightarrow> nat \<Rightarrow> (bool \<times> modifier) result" where
  "isValid md h offset sz =
    (case md_chunk md of
       None \<Rightarrow> Inl Out_of_range
     | Some p \<Rightarrow>
         bind_result (get_chunk_info md p) (\<lambda>ci.
         bind_result (osm_at (ci_table ci) offset) (\<lambda>b.
           if \<not> block_defined b sz then Inl Out_of_range
           else bind_result (current_size md h) (\<lambda>(n, md').
                  Inr (int offset + int sz \<le> int n, md')))))"

definition getChunkSize :: "modifier \<Rightarrow> heap \<Rightarrow> (nat \<times> modifier) result" where
  "getChunkSize md h =
    (case md_chunk md of
       None \<Rightarrow> Inl Undefined_behaviour
     | Some p \<Rightarrow>
         bind_result (get_chunk_info md p) (\<lambda>ci.
           if ci_resizing ci = non_accessible then Inl Out_of_range else current_size md h))"

definition updateChunkSize :: "modifier \<Rightarrow> heap \<Rightarrow> nat \<Rightarrow> modifier result" where
  "updateChunkSize md h newSize =
    (case md_chunk md of
       None \<Rightarrow> Inl Undefined_behaviour
     | Some p \<Rightarrow>
         bind_result (get_chunk_info md p) (\<lambda>ci.
         bind_result (sizeBlock_read h ci (md_version md)) (\<lambda>(oldSize, ci').
           if newSize = oldSize then set_chunk_info md p ci'
           else
             bind_result
               (case ci_resizing ci of
                  expandable \<Rightarrow> require (\<not> (newSize < oldSize \<or> newSize > ci_sizeBound ci)) Out_of_range
                | shrinkable \<Rightarrow> require (\<not> (newSize > oldSize \<or> newSize < ci_sizeBound ci)) Out_of_range
                | _ \<Rightarrow> Inl Out_of_range)
               (\<lambda>_. bind_result (sizeBlock_write h ci' (md_version md) newSize) (\<lambda>ci''.
                      set_chunk_info md p ci'')))))"

section \<open>Writing to the heap\<close>

text \<open>The blocks of a chunk in the order of their offsets; the ones behind its size are skipped.\<close>

fun write_blocks ::
  "int \<Rightarrow> nat \<Rightarrow> (nat \<times> access_block) list \<Rightarrow> byte list \<Rightarrow> (access_block list \<times> byte list) result" where
  "write_blocks version chunkSize [] mem = Inr ([], mem)"
| "write_blocks version chunkSize ((offset, b) # rest) mem =
    (if offset \<ge> chunkSize then Inr (b # map snd rest, mem)
     else bind_result (wrToHeap b mem version (chunkSize - offset)) (\<lambda>(b', mem').
          bind_result (write_blocks version chunkSize rest mem') (\<lambda>(bs, mem''). Inr (b' # bs, mem''))))"

definition write_chunk :: "int \<Rightarrow> heap \<Rightarrow> chunk_info \<Rightarrow> (chunk_info \<times> heap) result" where
  "write_chunk version h ci =
    bind_result (sizeBlock_read h ci version) (\<lambda>(chunkSize, ci1).
    bind_result
      (if ci_resizing ci1 = expandable \<or> ci_resizing ci1 = shrinkable
       then bind_result (setSize (h (ci_ptr ci1)) (word_of_nat chunkSize)) (\<lambda>c. Inr (h(ci_ptr ci1 := c)))
       else Inr h) (\<lambda>h1.
    if chunkSize > 0 \<and> isWritable (h1 (ci_ptr ci1)) then
      bind_result (write_blocks version chunkSize (entries (ci_table ci1)) (ch_content (h1 (ci_ptr ci1))))
        (\<lambda>(bs, mem).
          Inr (ci1\<lparr>ci_table := (ci_table ci1)\<lparr>osm_values := bs\<rparr>\<rparr>,
               h1(ci_ptr ci1 := (h1 (ci_ptr ci1))\<lparr>ch_content := mem\<rparr>)))
    else Inr (ci1, h1)))"

fun write_chunks :: "int \<Rightarrow> heap \<Rightarrow> chunk_info list \<Rightarrow> (chunk_info list \<times> heap) result" where
  "write_chunks version h [] = Inr ([], h)"
| "write_chunks version h (ci # cis) =
    bind_result (write_chunk version h ci) (\<lambda>(ci', h').
    bind_result (write_chunks version h' cis) (\<lambda>(cis', h''). Inr (ci' # cis', h'')))"

fun write_apps :: "int \<Rightarrow> heap \<Rightarrow> chunk_map list \<Rightarrow> (chunk_map list \<times> heap) result" where
  "write_apps version h [] = Inr ([], h)"
| "write_apps version h (cm # cms) =
    bind_result (write_chunks version h (osm_values cm)) (\<lambda>(cis, h').
    bind_result (write_apps version h' cms) (\<lambda>(cms', h'').
      Inr (cm\<lparr>osm_values := cis\<rparr> # cms', h'')))"

definition writeToHeap :: "modifier \<Rightarrow> heap \<Rightarrow> (modifier \<times> heap) result" where
  "writeToHeap md h =
    (if md_version md = 0 then Inr (md, h)
     else bind_result (write_apps (md_version md) h (osm_values (md_apps md))) (\<lambda>(cms, h').
          Inr (md\<lparr>md_apps := (md_apps md)\<lparr>osm_values := cms\<rparr>\<rparr>, h')))"


section \<open>What an operation at a version leaves of the older ones\<close>

lemma syncTo_twice: "v \<le> w \<Longrightarrow> syncTo (syncTo b w) v = syncTo b v"
proof -
  assume "v \<le> w"
  then have "dropWhile (\<lambda>x. fst x > v) (dropWhile (\<lambda>x. fst x > w) vs) = dropWhile (\<lambda>x. fst x > v) vs"
    for vs :: "(int \<times> byte list) list"
    by (induction vs) auto
  then show ?thesis by (simp add: syncTo_def)
qed

lemma syncTo_simps [simp]:
  "ab_size (syncTo b v) = ab_size b" "ab_access (syncTo b v) = ab_access b"
  "ab_location (syncTo b v) = ab_location b"
  by (simp_all add: syncTo_def)

lemma set_newest_simps [simp]:
  "ab_size (set_newest b c) = ab_size b" "ab_access (set_newest b c) = ab_access b"
  "ab_location (set_newest b c) = ab_location b"
  by (simp_all add: set_newest_def split: list.splits prod.splits)

lemma ensureExists_old:
  assumes "ensureExists b w = Inr (b', added)" "v < w"
  shows "syncTo b' v = syncTo b v" "\<exists>c vs. ab_versions b' = (w, c) # vs"
    "ab_size b' = ab_size b" "ab_access b' = ab_access b" "ab_location b' = ab_location b"
  using assms
  by (auto simp: ensureExists_def syncTo_def bind_result_Inr_iff Let_def split: list.splits if_splits prod.splits)

lemma set_newest_old:
  assumes "ab_versions b = (w, c0) # vs" "v < w"
  shows "syncTo (set_newest b c) v = syncTo b v"
  using assms by (simp add: set_newest_def syncTo_def)

lemma prepareToRead_old:
  "prepareToRead b mem w offset n = Inr (p, b') \<Longrightarrow> v \<le> w \<Longrightarrow> b' = syncTo b w \<and> syncTo b' v = syncTo b v"
  by (auto simp: prepareToRead_def syncTo_twice Let_def split: if_splits prod.splits)

lemma prepareToWrite_old:
  assumes "prepareToWrite b mem w offset n = Inr b'" "v < w"
  shows "syncTo b' v = syncTo b v \<and> (\<exists>c vs. ab_versions b' = (w, c) # vs)"
proof -
  from assms(1) obtain b2 added where e: "ensureExists (syncTo b w) w = Inr (b2, added)"
    and b': "b' = b2 \<or> (\<exists>c. b' = set_newest b2 c)"
    by (auto simp: prepareToWrite_def bind_result_Inr_iff Let_def split: if_splits prod.splits)
  note old = ensureExists_old [OF e assms(2)]
  obtain c vs where vs: "ab_versions b2 = (w, c) # vs" using old(2) by blast
  have "syncTo b2 v = syncTo b v" using old(1) syncTo_twice [of v w b] assms(2) by simp
  then show ?thesis using b' vs set_newest_old [OF vs assms(2)]
    by (auto simp: set_newest_def)
qed

lemma block_write_old:
  assumes "block_write b mem w i bytes = Inr b'" "v < w"
  shows "syncTo b' v = syncTo b v"
proof -
  from assms(1) obtain b1 c where b1: "prepareToWrite b mem w i (length bytes) = Inr b1"
    and b': "b' = set_newest b1 c" by (auto simp: block_write_def bind_result_Inr_iff)
  from prepareToWrite_old [OF b1 assms(2)] obtain c0 vs where "ab_versions b1 = (w, c0) # vs"
    "syncTo b1 v = syncTo b v" by blast
  then show ?thesis using set_newest_old assms(2) b' by simp
qed

lemma block_addInt_old:
  assumes "block_addInt b w n i = Inr b'" "v < w"
  shows "syncTo b' v = syncTo b v"
proof -
  from assms(1) obtain b2 added c where e: "ensureExists (syncTo b w) w = Inr (b2, added)"
    and b': "b' = set_newest b2 c"
    by (auto simp: block_addInt_def bind_result_Inr_iff Let_def split: if_splits prod.splits)
  note old = ensureExists_old [OF e assms(2)]
  obtain c0 vs where vs: "ab_versions b2 = (w, c0) # vs" using old(2) by blast
  have "syncTo b2 v = syncTo b v" using old(1) syncTo_twice [of v w b] assms(2) by simp
  then show ?thesis using set_newest_old [OF vs assms(2)] b' by simp
qed

lemma block_read_old:
  "block_read b mem w i n = Inr (bytes, b') \<Longrightarrow> v \<le> w \<Longrightarrow> syncTo b' v = syncTo b v"
  using prepareToRead_old by (fastforce simp: block_read_def bind_result_Inr_iff)

lemma readVarUInt_old:
  "readVarUInt t b mem w i = Inr (r, b') \<Longrightarrow> v \<le> w \<Longrightarrow> syncTo b' v = syncTo b v"
  using prepareToRead_old by (fastforce simp: readVarUInt_def bind_result_Inr_iff)

lemma readIdentifier_old:
  "readIdentifier t b mem w i = Inr (r, b') \<Longrightarrow> v \<le> w \<Longrightarrow> syncTo b' v = syncTo b v"
  using prepareToRead_old by (fastforce simp: readIdentifier_def bind_result_Inr_iff)

lemma writeVarUInt_old:
  "writeVarUInt t b mem w i x = Inr (r, b') \<Longrightarrow> v < w \<Longrightarrow> syncTo b' v = syncTo b v"
  using block_write_old by (fastforce simp: writeVarUInt_def bind_result_Inr_iff)

section \<open>The state of a modifier at a version\<close>

definition lookup_ci :: "modifier \<Rightarrow> uint64 \<times> LongLongID \<Rightarrow> chunk_info option" where
  "lookup_ci md p = (case osm_lookup (md_apps md) (fst p) of None \<Rightarrow> None | Some cm \<Rightarrow> osm_lookup cm (snd p))"

definition wf_modifier :: "modifier \<Rightarrow> bool" where
  "wf_modifier md \<longleftrightarrow> wf_keys (md_apps md) \<and> (\<forall>cm \<in> set (osm_values (md_apps md)). wf_keys cm) \<and>
    (\<forall>p ci. lookup_ci md p = Some ci \<longrightarrow> wf_keys (ci_table ci))"

text \<open>The state of a chunk when the versions above \<open>v\<close> are ignored.\<close>

definition sync_ci :: "heap \<Rightarrow> int \<Rightarrow> chunk_info \<Rightarrow> chunk_info" where
  "sync_ci h v ci = (init_size h ci)\<lparr>
     ci_table := (ci_table ci)\<lparr>osm_values := map (\<lambda>b. syncTo b v) (osm_values (ci_table ci))\<rparr>,
     ci_size := syncTo (ci_size ci) v\<rparr>"

definition snapshot :: "heap \<Rightarrow> modifier \<Rightarrow> int \<Rightarrow> uint64 \<times> LongLongID \<Rightarrow> chunk_info option" where
  "snapshot h md v p = map_option (sync_ci h v) (lookup_ci md p)"

lemma get_chunk_info_lookup:
  assumes "wf_modifier md"
  shows "get_chunk_info md p = (case lookup_ci md p of None \<Rightarrow> Inl Out_of_range | Some ci \<Rightarrow> Inr ci)"
proof -
  have w: "wf_keys (md_apps md)" using assms by (simp add: wf_modifier_def)
  show ?thesis
  proof (cases "osm_lookup (md_apps md) (fst p)")
    case None
    then show ?thesis using osm.at_lookup [OF w]
      by (simp add: get_chunk_info_def lookup_ci_def case_prod_beta)
  next
    case (Some cm)
    then have "cm \<in> set (osm_values (md_apps md))" using lookup_value [OF w] by blast
    then have "wf_keys cm" using assms by (simp add: wf_modifier_def)
    then show ?thesis using Some osm.at_lookup [OF w] osm.at_lookup [of cm "snd p"]
      by (simp add: get_chunk_info_def lookup_ci_def case_prod_beta)
  qed
qed

lemma set_chunk_info_lookup:
  assumes wf: "wf_modifier md" and set: "set_chunk_info md p ci = Inr md'" and t: "wf_keys (ci_table ci)"
  shows "wf_modifier md' \<and> lookup_ci md' = (lookup_ci md)(p \<mapsto> ci) \<and>
    md_version md' = md_version md \<and> md_chunk md' = md_chunk md \<and> md_context md' = md_context md"
proof -
  obtain a c where p: "p = (a, c)" by (cases p)
  have w: "wf_keys (md_apps md)" using wf by (simp add: wf_modifier_def)
  from set obtain cm cm' apps where at: "osm_at (md_apps md) a = Inr cm"
    and up1: "osm_update cm c ci = Inr cm'" and up2: "osm_update (md_apps md) a cm' = Inr apps"
    and md': "md' = md\<lparr>md_apps := apps\<rparr>"
    by (auto simp: set_chunk_info_def p bind_result_Inr_iff)
  have cm: "osm_lookup (md_apps md) a = Some cm" using at osm.at_Inr [OF w] by simp
  then have "cm \<in> set (osm_values (md_apps md))" using lookup_value [OF w] by blast
  then have wcm: "wf_keys cm" using wf by (simp add: wf_modifier_def)
  note u1 = osm.update_Inr [OF wcm up1] and u2 = osm.update_Inr [OF w up2]
  have look: "lookup_ci md' = (lookup_ci md)(p \<mapsto> ci)"
    using u1 u2 cm by (auto simp: lookup_ci_def md' p fun_eq_iff)
  moreover have "wf_keys cmx" if "cmx \<in> set (osm_values apps)" for cmx
  proof -
    from that obtain k where "osm_lookup apps k = Some cmx" using lookup_value [of apps cmx] u2 by blast
    then have "cmx = cm' \<or> osm_lookup (md_apps md) k = Some cmx" using u2 by (auto split: if_splits)
    then show ?thesis using u1 wf lookup_value [OF w, of cmx] by (auto simp: wf_modifier_def)
  qed
  ultimately have "wf_modifier md'"
    using u2 wf t by (auto simp: wf_modifier_def md' split: if_splits)
  then show ?thesis using look by (simp add: md')
qed

text \<open>Replacing the state of one chunk by one that agrees with it at version \<open>v\<close>.\<close>

lemma set_chunk_info_snapshot:
  assumes wf: "wf_modifier md" and ci0: "get_chunk_info md p = Inr ci0"
    and set: "set_chunk_info md p ci = Inr md'" and t: "wf_keys (ci_table ci)"
    and same: "sync_ci h v ci = sync_ci h v ci0"
  shows "wf_modifier md' \<and> snapshot h md' v = snapshot h md v \<and>
    md_version md' = md_version md \<and> md_chunk md' = md_chunk md \<and> md_context md' = md_context md"
proof -
  have "lookup_ci md p = Some ci0"
    using ci0 get_chunk_info_lookup [OF wf] by (simp split: option.splits)
  then show ?thesis
    using set_chunk_info_lookup [OF wf set t] same by (auto simp: snapshot_def fun_eq_iff)
qed

lemma update_table_sync:
  assumes t: "wf_keys (ci_table ci)" and at: "osm_at (ci_table ci) offset = Inr b"
    and up: "osm_update (ci_table ci) offset b' = Inr table" and same: "syncTo b' v = syncTo b v"
  shows "wf_keys table \<and> sync_ci h v (ci\<lparr>ci_table := table\<rparr>) = sync_ci h v ci"
proof -
  from up obtain i where i: "osm_find (osm_keys (ci_table ci)) offset = Inr i"
    "i < length (osm_values (ci_table ci))"
    and table: "table = (ci_table ci)\<lparr>osm_values := (osm_values (ci_table ci))[i := b']\<rparr>"
    by (auto simp: osm_update_def bind_result_Inr_iff split: if_splits)
  have b: "b = osm_values (ci_table ci) ! i" using at i by (simp add: osm_at_def)
  have "map (\<lambda>b. syncTo b v) ((osm_values (ci_table ci))[i := b']) = map (\<lambda>b. syncTo b v) (osm_values (ci_table ci))"
    using i(2) same b by (simp add: map_update list_update_same_conv)
  then show ?thesis using osm.update_Inr [OF t up] by (simp add: sync_ci_def table init_size_def)
qed

lemma with_block_snapshot:
  assumes wf: "wf_modifier md" and run: "with_block md h offset f = Inr (r, md')"
    and f: "\<And>b mem r b'. f b mem = Inr (r, b') \<Longrightarrow> syncTo b' v = syncTo b v"
  shows "wf_modifier md' \<and> snapshot h md' v = snapshot h md v \<and>
    md_version md' = md_version md \<and> md_chunk md' = md_chunk md \<and> md_context md' = md_context md"
proof -
  from run obtain p ci b b' table where p: "md_chunk md = Some p" and ci: "get_chunk_info md p = Inr ci"
    and b: "osm_at (ci_table ci) offset = Inr b" and fb: "f b (ch_content (h (ci_ptr ci))) = Inr (r, b')"
    and up: "osm_update (ci_table ci) offset b' = Inr table"
    and set: "set_chunk_info md p (ci\<lparr>ci_table := table\<rparr>) = Inr md'"
    by (auto simp: with_block_def bind_result_Inr_iff split: option.splits)
  have t: "wf_keys (ci_table ci)"
    using wf ci get_chunk_info_lookup [OF wf, of p]
    by (cases p) (auto simp: wf_modifier_def split: option.splits)
  note s = update_table_sync [OF t b up f [OF fb], of h]
  show ?thesis by (rule set_chunk_info_snapshot [OF wf ci set]) (use s in simp_all)
qed


lemma init_size_simps [simp]:
  "ci_table (init_size h ci) = ci_table ci" "ci_size (init_size h ci) = ci_size ci"
  "ci_ptr (init_size h ci) = ci_ptr ci" "ci_resizing (init_size h ci) = ci_resizing ci"
  "ci_sizeBound (init_size h ci) = ci_sizeBound ci"
  by (simp_all add: init_size_def)

text \<open>The size of a chunk never is the marker for a size that has not been fetched.\<close>

definition sized_heap :: "heap \<Rightarrow> bool" where
  "sized_heap h \<longleftrightarrow> (\<forall>p. ch_size (h p) \<noteq> - 1)"

lemma wf_chunk_sized: "\<forall>p. wf_chunk (h p) \<Longrightarrow> sized_heap h"
proof -
  have "ch_size c \<noteq> - 1" if "wf_chunk c" for c
  proof
    assume "ch_size c = - 1"
    then have "unat (ch_size c) = 4294967295" by (simp add: unsigned_minus_1_eq_mask mask_eq_exp_minus_1)
    then show False using wf_chunkD [OF that] by simp
  qed
  then show "\<forall>p. wf_chunk (h p) \<Longrightarrow> sized_heap h" by (simp add: sized_heap_def)
qed

lemma init_size_twice [simp]: "sized_heap h \<Longrightarrow> init_size h (init_size h ci) = init_size h ci"
  by (simp add: init_size_def sized_heap_def getsize_def)

lemma init_size_set [simp]: "init_size h (ci\<lparr>ci_size := b\<rparr>) = (init_size h ci)\<lparr>ci_size := b\<rparr>"
  by (simp add: init_size_def)

lemma sizeBlock_read_sync:
  assumes "sized_heap h" "sizeBlock_read h ci w = Inr (n, ci')" "v \<le> w"
  shows "sync_ci h v ci' = sync_ci h v ci \<and> ci_table ci' = ci_table ci \<and> ci_resizing ci' = ci_resizing ci"
proof -
  from assms(2) obtain b where "ci' = (init_size h ci)\<lparr>ci_size := b\<rparr>" "syncTo b v = syncTo (ci_size ci) v"
    using block_read_old [OF _ assms(3)] by (fastforce simp: sizeBlock_read_def bind_result_Inr_iff Let_def)
  then show ?thesis using assms(1) by (simp add: sync_ci_def)
qed

lemma sizeBlock_write_sync:
  assumes "sized_heap h" "sizeBlock_write h ci w n = Inr ci'" "v < w"
  shows "sync_ci h v ci' = sync_ci h v ci \<and> ci_table ci' = ci_table ci"
proof -
  from assms(2) obtain b where "ci' = (init_size h ci)\<lparr>ci_size := b\<rparr>" "syncTo b v = syncTo (ci_size ci) v"
    using block_write_old [OF _ assms(3)] by (fastforce simp: sizeBlock_write_def bind_result_Inr_iff Let_def)
  then show ?thesis using assms(1) by (simp add: sync_ci_def)
qed

lemma wf_table:
  assumes "wf_modifier md" "get_chunk_info md p = Inr ci" shows "wf_keys (ci_table ci)"
  using assms get_chunk_info_lookup [OF assms(1), of p]
  by (cases p) (auto simp: wf_modifier_def split: option.splits)

lemma current_size_snapshot:
  assumes wf: "wf_modifier md" and sh: "sized_heap h" and run: "current_size md h = Inr (n, md')"
    and v: "v \<le> md_version md"
  shows "wf_modifier md' \<and> snapshot h md' v = snapshot h md v \<and>
    md_version md' = md_version md \<and> md_chunk md' = md_chunk md \<and> md_context md' = md_context md"
proof -
  from run obtain p ci ci' where ci: "get_chunk_info md p = Inr ci"
    and r: "sizeBlock_read h ci (md_version md) = Inr (n, ci')" and set: "set_chunk_info md p ci' = Inr md'"
    by (auto simp: current_size_def bind_result_Inr_iff split: option.splits)
  show ?thesis
    by (rule set_chunk_info_snapshot [OF wf ci set])
      (use sizeBlock_read_sync [OF sh r v] wf_table [OF wf ci] in simp_all)
qed

lemma updateChunkSize_snapshot:
  assumes wf: "wf_modifier md" and sh: "sized_heap h" and run: "updateChunkSize md h n = Inr md'"
    and v: "v < md_version md"
  shows "wf_modifier md' \<and> snapshot h md' v = snapshot h md v \<and>
    md_version md' = md_version md \<and> md_chunk md' = md_chunk md \<and> md_context md' = md_context md"
proof -
  from run obtain p ci old ci1 where p: "md_chunk md = Some p" and ci: "get_chunk_info md p = Inr ci"
    and r: "sizeBlock_read h ci (md_version md) = Inr (old, ci1)"
    by (auto simp: updateChunkSize_def bind_result_Inr_iff split: option.splits)
  obtain ci2 where set: "set_chunk_info md p ci2 = Inr md'"
    and ci2: "ci2 = ci1 \<or> sizeBlock_write h ci1 (md_version md) n = Inr ci2"
    using run p ci r by (auto simp: updateChunkSize_def bind_result_Inr_iff split: if_splits)
  have "sync_ci h v ci2 = sync_ci h v ci \<and> ci_table ci2 = ci_table ci"
    using ci2 sizeBlock_read_sync [OF sh r] sizeBlock_write_sync [OF sh _ v] v by force
  then show ?thesis
    by (intro set_chunk_info_snapshot [OF wf ci set]) (use wf_table [OF wf ci] in simp_all)
qed

section \<open>Histories of operations\<close>

text \<open>What code running in a session does to its modifier, the answers left out. An operation that
  throws leaves the modifier as it is, up to versions above the current one.\<close>

datatype mod_op =
    OpContext uint64
  | OpChunk uint64 uint64
  | OpLoad nat nat nat
  | OpLoadVarUInt "uint32 ptrie" nat nat
  | OpLoadIdentifier "uint64 ptrie" nat nat
  | OpStore nat nat "byte list"
  | OpStoreVarUInt "uint32 ptrie" nat uint32
  | OpAddInt nat nat int
  | OpValid nat nat
  | OpGetSize
  | OpResize nat
  | OpSave
  | OpRestore int

fun mod_step :: "heap \<Rightarrow> mod_op \<Rightarrow> modifier \<Rightarrow> modifier result" where
  "mod_step h (OpContext app) md = Inr (loadContext md app)"
| "mod_step h (OpChunk acc loc) md = loadChunk md acc loc"
| "mod_step h (OpLoad offset i n) md = bind_result (modifier_load md h offset i n) (\<lambda>(_, m). Inr m)"
| "mod_step h (OpLoadVarUInt t offset i) md = bind_result (loadVarUInt t md h offset i) (\<lambda>(_, m). Inr m)"
| "mod_step h (OpLoadIdentifier t offset i) md = bind_result (loadIdentifier t md h offset i) (\<lambda>(_, m). Inr m)"
| "mod_step h (OpStore offset i bytes) md = modifier_store md h offset i bytes"
| "mod_step h (OpStoreVarUInt t offset x) md = bind_result (storeVarUInt t md h offset x) (\<lambda>(_, m). Inr m)"
| "mod_step h (OpAddInt offset n x) md = modifier_addInt md h offset n x"
| "mod_step h (OpValid offset n) md = bind_result (isValid md h offset n) (\<lambda>(_, m). Inr m)"
| "mod_step h OpGetSize md = bind_result (getChunkSize md h) (\<lambda>(_, m). Inr m)"
| "mod_step h (OpResize n) md = updateChunkSize md h n"
| "mod_step h OpSave md = bind_result (saveVersion md) (\<lambda>(_, m). Inr m)"
| "mod_step h (OpRestore v) md = restoreVersion md v"

definition mod_run :: "heap \<Rightarrow> mod_op list \<Rightarrow> modifier \<Rightarrow> modifier" where
  "mod_run h ops md = fold (\<lambda>oper md. case mod_step h oper md of Inr md' \<Rightarrow> md' | Inl _ \<Rightarrow> md) ops md"

text \<open>
  What a store with versions promises: operations at a version do not change what is seen at an
  older one. \<open>ok v oper\<close> rules out going back to version \<open>v\<close> or before it.
\<close>

locale versioned_store =
  fixes step :: "'op \<Rightarrow> 's \<Rightarrow> 's result" and ver :: "'s \<Rightarrow> int" and see :: "'s \<Rightarrow> int \<Rightarrow> 'view"
    and inv :: "'s \<Rightarrow> bool" and ok :: "int \<Rightarrow> 'op \<Rightarrow> bool"
  assumes step_inv: "inv s \<Longrightarrow> step oper s = Inr s' \<Longrightarrow> inv s'"
    and step_ver: "inv s \<Longrightarrow> step oper s = Inr s' \<Longrightarrow> v < ver s \<Longrightarrow> ok v oper \<Longrightarrow> v < ver s'"
    and step_see: "inv s \<Longrightarrow> step oper s = Inr s' \<Longrightarrow> v < ver s \<Longrightarrow> see s' v = see s v"
begin

lemma history:
  assumes "inv s" "v < ver s" "\<forall>oper \<in> set ops. ok v oper"
  shows "inv (fold (\<lambda>oper s. case step oper s of Inr s' \<Rightarrow> s' | Inl _ \<Rightarrow> s) ops s) \<and>
    v < ver (fold (\<lambda>oper s. case step oper s of Inr s' \<Rightarrow> s' | Inl _ \<Rightarrow> s) ops s) \<and>
    see (fold (\<lambda>oper s. case step oper s of Inr s' \<Rightarrow> s' | Inl _ \<Rightarrow> s) ops s) v = see s v"
  using assms
proof (induction ops arbitrary: s)
  case Nil
  then show ?case by simp
next
  case (Cons oper ops)
  show ?case
  proof (cases "step oper s")
    case (Inl e)
    then show ?thesis using Cons by simp
  next
    case (Inr s')
    then have "inv s'" "v < ver s'" "see s' v = see s v"
      using step_inv step_ver step_see Cons.prems by auto
    then show ?thesis using Cons Inr by simp
  qed
qed

end

definition restores_above :: "int \<Rightarrow> mod_op \<Rightarrow> bool" where
  "restores_above v oper \<longleftrightarrow> (case oper of OpRestore w \<Rightarrow> v < w | _ \<Rightarrow> True)"

lemma loadChunk_only: "loadChunk md a l = Inr md' \<Longrightarrow> \<exists>p. md' = md\<lparr>md_chunk := Some p\<rparr>"
  by (auto simp: loadChunk_def bind_result_Inr_iff split: option.splits sum.splits) (metis sum.exhaust)

lemma loadContext_only: "\<exists>c. loadContext md a = md\<lparr>md_context := c, md_chunk := None\<rparr>"
  by (auto simp: loadContext_def split: sum.splits)

lemma snapshot_position [simp]:
  "snapshot h (md\<lparr>md_chunk := x\<rparr>) = snapshot h md" "snapshot h (md\<lparr>md_context := y\<rparr>) = snapshot h md"
  "snapshot h (md\<lparr>md_version := v\<rparr>) = snapshot h md"
  "wf_modifier (md\<lparr>md_chunk := x\<rparr>) = wf_modifier md" "wf_modifier (md\<lparr>md_context := y\<rparr>) = wf_modifier md"
  "wf_modifier (md\<lparr>md_version := v\<rparr>) = wf_modifier md"
  by (simp_all add: snapshot_def lookup_ci_def wf_modifier_def fun_eq_iff)

lemma mod_step_old:
  assumes wf: "wf_modifier md" and sh: "sized_heap h" and step: "mod_step h oper md = Inr md'"
    and v: "v < md_version md"
  shows "wf_modifier md' \<and> snapshot h md' v = snapshot h md v \<and>
    (restores_above v oper \<longrightarrow> v < md_version md')"
proof -
  note wb = with_block_snapshot [OF wf, where v = v]
  have le: "v \<le> md_version md" using v by simp
  show ?thesis
  proof (cases oper)
    case (OpContext x)
    then show ?thesis using step wf v loadContext_only [of md x] by auto
  next
    case (OpChunk x y)
    then show ?thesis using step wf v loadChunk_only [of md x y] by auto
  next
    case (OpLoad offset i n)
    then show ?thesis
      using step wb block_read_old [OF _ le] v by (fastforce simp: modifier_load_def bind_result_Inr_iff)
  next
    case (OpLoadVarUInt t offset i)
    then show ?thesis
      using step wb readVarUInt_old [OF _ le] v by (fastforce simp: loadVarUInt_def bind_result_Inr_iff)
  next
    case (OpLoadIdentifier t offset i)
    then show ?thesis
      using step wb readIdentifier_old [OF _ le] v by (fastforce simp: loadIdentifier_def bind_result_Inr_iff)
  next
    case (OpStore offset i bytes)
    then show ?thesis
      using step wb block_write_old [OF _ v] v by (fastforce simp: modifier_store_def bind_result_Inr_iff)
  next
    case (OpStoreVarUInt t offset x)
    then show ?thesis
      using step wb writeVarUInt_old [OF _ v] v by (fastforce simp: storeVarUInt_def bind_result_Inr_iff)
  next
    case (OpAddInt offset n x)
    then show ?thesis
      using step wb block_addInt_old [OF _ v] v by (fastforce simp: modifier_addInt_def bind_result_Inr_iff)
  next
    case (OpValid offset n)
    then show ?thesis
      using step current_size_snapshot [OF wf sh _ le] v
      by (auto simp: isValid_def bind_result_Inr_iff split: option.splits if_splits)
  next
    case OpGetSize
    then show ?thesis
      using step current_size_snapshot [OF wf sh _ le] v
      by (auto simp: getChunkSize_def bind_result_Inr_iff split: option.splits if_splits)
  next
    case (OpResize n)
    then show ?thesis using step updateChunkSize_snapshot [OF wf sh _ v] v by auto
  next
    case OpSave
    then show ?thesis using step wf v by (auto simp: saveVersion_def split: if_splits)
  next
    case (OpRestore w)
    then show ?thesis using step wf by (auto simp: restoreVersion_def bind_result_Inr_iff restores_above_def)
  qed
qed


interpretation mv: versioned_store "mod_step h" md_version "snapshot h"
    "\<lambda>md. wf_modifier md \<and> sized_heap h" restores_above for h
proof
  fix s s' :: modifier and oper v
  assume s: "wf_modifier s \<and> sized_heap h" and st: "mod_step h oper s = Inr s'"
  note old = mod_step_old [of s h oper s']
  show "v < md_version s \<Longrightarrow> restores_above v oper \<Longrightarrow> v < md_version s'"
    "v < md_version s \<Longrightarrow> snapshot h s' v = snapshot h s v"
    using old [of v] s st by auto
  show "wf_modifier s' \<and> sized_heap h"
    using old [of "md_version s - 1"] s st by simp
qed

section \<open>What is seen depends on the state at the current version\<close>

lemma osm_at_map:
  "osm_at (m\<lparr>osm_values := map f (osm_values m)\<rparr>) k = bind_result (osm_at m k) (\<lambda>v. Inr (f v))"
  by (cases "osm_find (osm_keys m) k") (simp_all add: osm_at_def)

lemma block_read_sync [simp]: "block_read (syncTo b v) mem v i n = block_read b mem v i n"
  by (simp add: block_read_def prepareToRead_def syncTo_twice)

lemma osm_update_ok: "wf_keys m \<Longrightarrow> osm_at m k = Inr v \<Longrightarrow> is_ok (osm_update m k w)"
  using osm.update_Some [of m k v w] osm.at_Inr [of m k v] by auto

lemma set_chunk_info_ok:
  assumes wf: "wf_modifier md" and ci: "get_chunk_info md p = Inr ci0"
  shows "\<exists>md'. set_chunk_info md p ci = Inr md'"
proof -
  obtain a c where p: "p = (a, c)" by (cases p)
  have w: "wf_keys (md_apps md)" using wf by (simp add: wf_modifier_def)
  from ci obtain cm where cm: "osm_at (md_apps md) a = Inr cm" and at: "osm_at cm c = Inr ci0"
    by (auto simp: get_chunk_info_def p bind_result_Inr_iff)
  have "cm \<in> set (osm_values (md_apps md))"
    using cm osm.at_Inr [OF w] lookup_value [OF w] by blast
  then have "wf_keys cm" using wf by (simp add: wf_modifier_def)
  then obtain cm' where "osm_update cm c ci = Inr cm'"
    using osm_update_ok [OF _ at, of ci] by (cases "osm_update cm c ci") auto
  moreover obtain apps where "osm_update (md_apps md) a cm' = Inr apps"
    using osm_update_ok [OF w cm, of cm'] by (cases "osm_update (md_apps md) a cm'") auto
  ultimately show ?thesis by (simp add: set_chunk_info_def p cm)
qed

text \<open>The bytes and the size read at a chunk.\<close>

definition bytes_at :: "modifier \<Rightarrow> heap \<Rightarrow> uint64 \<times> LongLongID \<Rightarrow> nat \<Rightarrow> nat \<Rightarrow> nat \<Rightarrow> byte list result" where
  "bytes_at md h p offset i n =
    bind_result (modifier_load (md\<lparr>md_chunk := Some p\<rparr>) h offset i n) (\<lambda>(bytes, _). Inr bytes)"

definition size_at :: "modifier \<Rightarrow> heap \<Rightarrow> uint64 \<times> LongLongID \<Rightarrow> nat result" where
  "size_at md h p = bind_result (getChunkSize (md\<lparr>md_chunk := Some p\<rparr>) h) (\<lambda>(n, _). Inr n)"

lemma get_chunk_info_position [simp]:
  "get_chunk_info (md\<lparr>md_chunk := x\<rparr>) = get_chunk_info md"
  "get_chunk_info (md\<lparr>md_version := v\<rparr>) = get_chunk_info md"
  by (simp_all add: get_chunk_info_def fun_eq_iff)

lemma bytes_at_snapshot:
  assumes wf: "wf_modifier md"
  shows "bytes_at md h p offset i n =
    (case snapshot h md (md_version md) p of
       None \<Rightarrow> Inl Out_of_range
     | Some cs \<Rightarrow>
         bind_result (osm_at (ci_table cs) offset) (\<lambda>b.
         bind_result (block_read b (ch_content (h (ci_ptr cs))) (md_version md) i n) (\<lambda>(bytes, _). Inr bytes)))"
proof (cases "lookup_ci md p")
  case None
  then show ?thesis using get_chunk_info_lookup [OF wf, of p]
    by (simp add: bytes_at_def modifier_load_def with_block_def snapshot_def)
next
  case (Some ci)
  then have ci: "get_chunk_info md p = Inr ci" using get_chunk_info_lookup [OF wf, of p] by simp
  note t = wf_table [OF wf ci]
  let ?read = "\<lambda>b. block_read b (ch_content (h (ci_ptr ci))) (md_version md) i n"
  have "bytes_at md h p offset i n =
      bind_result (osm_at (ci_table ci) offset) (\<lambda>b. bind_result (?read b) (\<lambda>(bytes, _). Inr bytes))"
  proof (cases "osm_at (ci_table ci) offset")
    case (Inl e)
    then show ?thesis by (simp add: bytes_at_def modifier_load_def with_block_def ci)
  next
    case (Inr b)
    show ?thesis
    proof (cases "?read b")
      case (Inl e)
      then show ?thesis using Inr by (simp add: bytes_at_def modifier_load_def with_block_def ci)
    next
      case read: (Inr r)
      obtain bytes b' where r: "r = (bytes, b')" by (cases r)
      obtain table where "osm_update (ci_table ci) offset b' = Inr table"
        using osm_update_ok [OF t Inr, of b'] by (cases "osm_update (ci_table ci) offset b'") auto
      moreover have "\<exists>md'. set_chunk_info (md\<lparr>md_chunk := Some p\<rparr>) p (ci\<lparr>ci_table := table\<rparr>) = Inr md'"
        using set_chunk_info_ok [of "md\<lparr>md_chunk := Some p\<rparr>"] wf ci by simp
      ultimately show ?thesis using Inr read r
        by (auto simp: bytes_at_def modifier_load_def with_block_def ci)
    qed
  qed
  then show ?thesis
    by (simp add: snapshot_def Some sync_ci_def osm_at_map bind_result_assoc)
qed

lemma size_at_snapshot:
  assumes wf: "wf_modifier md" and sh: "sized_heap h"
  shows "size_at md h p =
    (case snapshot h md (md_version md) p of
       None \<Rightarrow> Inl Out_of_range
     | Some cs \<Rightarrow>
         if ci_resizing cs = non_accessible then Inl Out_of_range
         else bind_result (block_read (ci_size cs) (size_mem cs) (md_version md) 0 4)
                (\<lambda>(bytes, _). Inr (le_value bytes)))"
proof (cases "lookup_ci md p")
  case None
  then show ?thesis using get_chunk_info_lookup [OF wf, of p]
    by (simp add: size_at_def getChunkSize_def snapshot_def)
next
  case (Some ci)
  then have ci: "get_chunk_info md p = Inr ci" using get_chunk_info_lookup [OF wf, of p] by simp
  let ?md = "md\<lparr>md_chunk := Some p\<rparr>"
  have set: "\<exists>md'. set_chunk_info ?md p ci' = Inr md'" for ci'
    using set_chunk_info_ok [of ?md] wf ci by simp
  have m: "size_mem (sync_ci h v ci) = size_mem (init_size h ci)" for v
    by (simp add: sync_ci_def size_mem_def)
  let ?read = "block_read (ci_size ci) (size_mem (init_size h ci)) (md_version md) 0 4"
  have "bind_result (current_size ?md h) (\<lambda>(n, _). Inr n) = bind_result ?read (\<lambda>(bytes, _). Inr (le_value bytes))"
  proof (cases ?read)
    case (Inl e)
    then show ?thesis by (simp add: current_size_def ci sizeBlock_read_def Let_def)
  next
    case (Inr r)
    obtain bytes b' where r: "r = (bytes, b')" by (cases r)
    obtain md' where "set_chunk_info ?md p ((init_size h ci)\<lparr>ci_size := b'\<rparr>) = Inr md'" using set by blast
    then show ?thesis using Inr r by (simp add: current_size_def ci sizeBlock_read_def Let_def)
  qed
  then show ?thesis
    by (simp add: size_at_def getChunkSize_def ci snapshot_def Some m) (simp add: sync_ci_def)
qed


section \<open>What reading and writing a block does\<close>

text \<open>The block's bytes lie in the memory, and every version has all of them.\<close>

definition wf_block :: "access_block \<Rightarrow> byte list \<Rightarrow> bool" where
  "wf_block b mem \<longleftrightarrow> ab_location b + ab_size b \<le> length mem \<and>
    sorted_wrt (\<lambda>x y. fst y < fst x) (ab_versions b) \<and>
    (\<forall>(n, c) \<in> set (ab_versions b). 1 \<le> n \<and> length c = ab_size b)"

definition block_view :: "access_block \<Rightarrow> byte list \<Rightarrow> int \<Rightarrow> byte list" where
  "block_view b mem version =
    (case ab_versions (syncTo b version) of
       [] \<Rightarrow> slice_of (ab_location b) (ab_size b) mem
     | (_, c) # _ \<Rightarrow> c)"

lemma wf_block_dropWhile:
  assumes "wf_block b mem"
  shows "wf_block (b\<lparr>ab_versions := dropWhile P (ab_versions b)\<rparr>) mem"
  using assms
  by (auto simp: wf_block_def dropWhile_eq_drop sorted_wrt_drop dest: set_dropWhileD in_set_dropD)

lemma wf_block_sync: "wf_block b mem \<Longrightarrow> wf_block (syncTo b v) mem"
  using wf_block_dropWhile by (simp add: syncTo_def)

lemma length_block_view:
  assumes "wf_block b mem" shows "length (block_view b mem v) = ab_size b"
proof (cases "ab_versions (syncTo b v)")
  case Nil
  then show ?thesis using assms by (simp add: block_view_def wf_block_def)
next
  case (Cons x xs)
  then have "length (snd x) = ab_size b"
    using wf_block_sync [OF assms, of v] by (auto simp: wf_block_def)
  then show ?thesis using Cons by (simp add: block_view_def case_prod_beta)
qed

lemma slice_of_slice: "k + m \<le> n \<Longrightarrow> slice_of k m (slice_of p n xs) = slice_of (p + k) m xs"
  by (simp add: slice_of_def drop_take add.commute min_absorb1)

lemma block_source_view:
  assumes wf: "wf_block b mem" and src: "block_source (syncTo b v) mem = (buf, p)" and k: "k + m \<le> ab_size b"
  shows "load_bytes buf (p + k) m = Inr (slice_of k m (block_view b mem v))"
proof (cases "ab_versions (syncTo b v)")
  case Nil
  then have buf: "buf = mem" "p = ab_location b" using src by (simp_all add: block_source_def)
  have "ab_location b + ab_size b \<le> length mem" using wf by (simp add: wf_block_def)
  then have "load_bytes buf (p + k) m = Inr (slice_of (ab_location b + k) m mem)"
    using k by (simp add: buf load_bytes_def)
  then show ?thesis using Nil k by (simp add: block_view_def slice_of_slice)
next
  case (Cons x xs)
  then have buf: "buf = snd x" "p = 0" using src by (simp_all add: block_source_def case_prod_beta)
  have "block_view b mem v = snd x" using Cons by (simp add: block_view_def case_prod_beta)
  then show ?thesis using buf length_block_view [OF wf, of v] k by (simp add: load_bytes_def)
qed

lemma block_read_wf:
  assumes wf: "wf_block b mem"
  shows "block_read b mem v i n =
    (if i + n > ab_size b \<or> denies (ab_access b) op_read then Inl Out_of_range
     else Inr (slice_of i n (block_view b mem v), syncTo b v))"
proof -
  obtain buf p where src: "block_source (syncTo b v) mem = (buf, p)" by fastforce
  show ?thesis
    using block_source_view [OF wf src, of i n]
    by (auto simp: block_read_def prepareToRead_def src simp flip: of_nat_add)
qed

lemma dropWhile_ge:
  "dropWhile (\<lambda>x. w \<le> fst x) (dropWhile (\<lambda>x. w < fst x) vs) = dropWhile (\<lambda>x. (w :: int) \<le> fst x) vs"
  by (induction vs) auto

text \<open>The versions after one has been written: the older ones stay.\<close>

definition put_version :: "access_block \<Rightarrow> int \<Rightarrow> byte list \<Rightarrow> access_block" where
  "put_version b w c = b\<lparr>ab_versions := (w, c) # dropWhile (\<lambda>x. w \<le> fst x) (ab_versions b)\<rparr>"

lemma put_version_simps [simp]:
  "ab_size (put_version b w c) = ab_size b" "ab_access (put_version b w c) = ab_access b"
  "ab_location (put_version b w c) = ab_location b"
  by (simp_all add: put_version_def)

lemma put_version_sync: "put_version (syncTo b w) w c = put_version b w c"
  by (simp add: put_version_def syncTo_def dropWhile_ge)

lemma block_view_put: "block_view (put_version b w c) mem w = c"
  by (simp add: block_view_def put_version_def syncTo_def)

lemma dropWhile_older:
  "sorted_wrt (\<lambda>x y. fst y < fst x) vs \<Longrightarrow> \<forall>x \<in> set (dropWhile (\<lambda>x. (w :: int) \<le> fst x) vs). fst x < w"
  by (induction vs) (auto simp: not_le)

lemma wf_put_version:
  assumes "wf_block b mem" "1 \<le> w" "length c = ab_size b"
  shows "wf_block (put_version b w c) mem"
proof -
  let ?vs = "dropWhile (\<lambda>x. w \<le> fst x) (ab_versions b)"
  have wf: "wf_block (b\<lparr>ab_versions := ?vs\<rparr>) mem" by (rule wf_block_dropWhile [OF assms(1)])
  have "\<forall>x \<in> set ?vs. fst x < w"
    by (rule dropWhile_older) (use assms(1) in \<open>simp add: wf_block_def\<close>)
  then show ?thesis using wf assms by (auto simp: wf_block_def put_version_def)
qed

text \<open>\<^verbatim>\<open>ensureExists\<close> on versions that are not newer: the newest one is the current one.\<close>

lemma ensureExists_wf:
  assumes wf: "wf_block b mem" and w: "1 \<le> w"
  shows "\<exists>b2 added. ensureExists (syncTo b w) w = Inr (b2, added) \<and>
    length (newest b2) = ab_size b \<and> (\<forall>c. set_newest b2 c = put_version b w c) \<and>
    (\<not> added \<longrightarrow> newest b2 = block_view b mem w)"
proof -
  let ?b = "syncTo b w"
  have new: "?thesis" if "ensureExists ?b w =
      Inr (?b\<lparr>ab_versions := (w, replicate (ab_size b) 0) # ab_versions ?b\<rparr>, True)"
    "dropWhile (\<lambda>x. w \<le> fst x) (ab_versions b) = ab_versions ?b"
    using that by (intro exI [of _ "?b\<lparr>ab_versions := (w, replicate (ab_size b) 0) # ab_versions ?b\<rparr>"] exI [of _ True])
      (simp add: newest_def set_newest_def put_version_def syncTo_def)
  have drop: "dropWhile (\<lambda>x. w \<le> fst x) (ab_versions b) = dropWhile (\<lambda>x. w \<le> fst x) (ab_versions ?b)"
    by (simp add: syncTo_def dropWhile_ge)
  show ?thesis
proof (cases "ab_versions (syncTo b w)")
  case Nil
  then show ?thesis using w drop by (intro new) (simp_all add: ensureExists_def Let_def)
next
  case (Cons x xs)
  obtain n c where x: "x = (n, c)" by (cases x)
  have le: "n \<le> w"
    using Cons x by (metis (mono_tags, lifting) syncTo_def access_block.select_convs(4) access_block.surjective
        access_block.update_convs(4) hd_dropWhile list.distinct(1) list.sel(1) fst_conv not_le)
  have wfs: "wf_block (syncTo b w) mem" by (rule wf_block_sync [OF wf])
  have len: "length c = ab_size b" using wfs Cons x by (auto simp: wf_block_def)
  show ?thesis
  proof (cases "n = w")
    case True
    have "\<forall>y \<in> set xs. fst y < w" using wfs Cons x True by (auto simp: wf_block_def)
    then have "dropWhile (\<lambda>x. w \<le> fst x) xs = xs"
      by (cases xs) auto
    then have older: "dropWhile (\<lambda>x. w \<le> fst x) (ab_versions b) = xs" using drop Cons x True by simp
    have "ensureExists ?b w = Inr (?b, False)" "newest ?b = c" "block_view b mem w = c"
      using w Cons x True by (simp_all add: ensureExists_def newest_def block_view_def Let_def)
    moreover have "set_newest ?b d = put_version b w d" for d
      using Cons x True older by (simp add: set_newest_def put_version_def syncTo_def)
    ultimately show ?thesis using len by (intro exI [of _ ?b] exI [of _ False]) simp
  next
    case False
    then show ?thesis
      using le w Cons x drop by (intro new) (simp_all add: ensureExists_def Let_def)
  qed
qed
qed

lemma set_newest_twice: "set_newest (set_newest b c) d = set_newest b d"
  by (simp add: set_newest_def split: list.splits prod.splits)

lemma set_newest_put: "set_newest (put_version b w c) d = put_version b w d"
  by (simp add: set_newest_def put_version_def)

lemma newest_set: "ab_versions b \<noteq> [] \<Longrightarrow> newest (set_newest b c) = c"
  by (auto simp: newest_def set_newest_def split: list.splits prod.splits)

lemma block_write_wf:
  assumes wf: "wf_block b mem" and w: "1 \<le> w"
  shows "block_write b mem w i bytes =
    (if i + length bytes > ab_size b \<or> denies (ab_access b) op_write then Inl Out_of_range
     else Inr (put_version b w (overwrite i bytes (block_view b mem w))))"
proof (cases "i + length bytes > ab_size b \<or> denies (ab_access b) op_write")
  case True
  then show ?thesis
    by (auto simp: block_write_def prepareToWrite_def simp flip: of_nat_add)
next
  case ok: False
  let ?n = "length bytes" and ?O = "block_view b mem w"
  have lO: "length ?O = ab_size b" by (rule length_block_view [OF wf])
  obtain buf p where src: "block_source (syncTo b w) mem = (buf, p)" by fastforce
  obtain b2 added where e: "ensureExists (syncTo b w) w = Inr (b2, added)"
    and len: "length (newest b2) = ab_size b" and put: "\<forall>c. set_newest b2 c = put_version b w c"
    and old: "\<not> added \<longrightarrow> newest b2 = ?O"
    using ensureExists_wf [OF wf w] by blast
  have guard: "\<not> int i + int ?n > int (ab_size b)" "\<not> denies (ab_access b) op_write"
    using ok by (simp_all flip: of_nat_add)
  show ?thesis
  proof (cases "added \<and> ab_size b \<noteq> ?n")
    case False
    then have eq: "overwrite i bytes (newest b2) = overwrite i bytes ?O"
      using old ok len lO by (cases added) (simp_all add: overwrite_def)
    have p: "prepareToWrite b mem w i ?n = Inr b2"
    proof (cases added)
      case True
      then have "ab_size b = ?n" using False by simp
      then show ?thesis using guard e src by (simp add: prepareToWrite_def)
    next
      case False
      then show ?thesis using guard e src by (simp add: prepareToWrite_def)
    qed
    have "store_bytes (newest b2) i bytes = Inr (overwrite i bytes (newest b2))"
      using ok len by (simp add: store_bytes_def)
    then show ?thesis unfolding block_write_def p bind_result_simps using ok put eq by simp
  next
    case True
    let ?rest = "ab_size b - ?n - i"
    have l1: "load_bytes buf p i = Inr (slice_of 0 i ?O)"
      using block_source_view [OF wf src, of 0 i] ok by simp
    have l2: "load_bytes buf (p + i + ?n) ?rest = Inr (slice_of (i + ?n) ?rest ?O)"
      using block_source_view [OF wf src, of "i + ?n" ?rest] ok by (simp add: add.assoc)
    define c1 where "c1 = overwrite 0 (slice_of 0 i ?O) (newest b2)"
    define c2 where "c2 = overwrite (i + ?n) (slice_of (i + ?n) ?rest ?O) c1"
    have s1: "store_bytes (newest b2) 0 (slice_of 0 i ?O) = Inr c1" "length c1 = ab_size b"
      using ok len lO by (simp_all add: store_bytes_def c1_def)
    have s2: "store_bytes c1 (i + ?n) (slice_of (i + ?n) ?rest ?O) = Inr c2" "length c2 = ab_size b"
      using ok lO s1(2) by (simp_all add: store_bytes_def c2_def)
    have p: "prepareToWrite b mem w i ?n = Inr (set_newest b2 c2)"
      using guard e src True l1 l2 s1(1) s2(1) by (simp add: prepareToWrite_def)
    have "ab_versions (set_newest b2 c2) \<noteq> []" "set_newest b2 c2 = put_version b w c2"
      using put by (simp_all add: put_version_def)
    then have ne: "ab_versions b2 \<noteq> []" by (auto simp: set_newest_def split: list.splits)
    have "store_bytes (newest (set_newest b2 c2)) i bytes = Inr (overwrite i bytes c2)"
      using ok s2(2) ne by (simp add: store_bytes_def newest_set)
    moreover have "overwrite i bytes c2 = overwrite i bytes ?O"
    proof (rule nth_equalityI)
      show "length (overwrite i bytes c2) = length (overwrite i bytes ?O)" using ok s2(2) lO by simp
      fix k assume "k < length (overwrite i bytes c2)"
      then have k: "k < ab_size b" using ok s2(2) by simp
      show "overwrite i bytes c2 ! k = overwrite i bytes ?O ! k"
        using ok k s2(2) lO s1(2) len
        by (auto simp: nth_overwrite c2_def c1_def nth_slice_of)
    qed
    ultimately show ?thesis
      unfolding block_write_def p bind_result_simps using ok put by (simp add: set_newest_put)
  qed
qed


section \<open>Little-endian arithmetic\<close>

lemma length_le_bytes [simp]: "length (le_bytes n v) = n"
  by (induction n v rule: le_bytes.induct) simp_all

lemma unat_byte_of_nat: "unat (word_of_nat (v mod 256) :: byte) = v mod 256"
  by (subst unat_of_nat) simp

lemma le_value_le_bytes: "le_value (le_bytes n v) = v mod 256 ^ n"
proof (induction n arbitrary: v)
  case (Suc n)
  have "v mod (256 * 256 ^ n) = 256 * (v div 256 mod 256 ^ n) + v mod 256"
    by (rule mod_mult2_eq)
  then show ?case using Suc by (simp add: unat_byte_of_nat del: of_nat_mod)
qed simp

lemma le_value_lt: "le_value bs < 256 ^ length bs"
proof (induction bs)
  case (Cons b bs)
  then have "le_value bs + 1 \<le> 256 ^ length bs" by simp
  then have "256 * (le_value bs + 1) \<le> 256 * 256 ^ length bs" by (rule mult_le_mono2)
  then show ?case using unat_byte_lt [of b] by simp
qed simp

lemma le_bytes_le_value: "le_bytes (length bs) (le_value bs) = bs"
proof (induction bs)
  case (Cons b bs)
  have "(unat b + 256 * le_value bs) mod 256 = unat b" "(unat b + 256 * le_value bs) div 256 = le_value bs"
    using unat_byte_lt [of b] by simp_all
  then show ?case using Cons by simp
qed simp

lemma le_bytes_mod: "le_bytes n (v mod 256 ^ n) = le_bytes n v"
proof -
  have "le_bytes (length (le_bytes n v)) (le_value (le_bytes n v)) = le_bytes n v" by (rule le_bytes_le_value)
  then show ?thesis by (simp add: le_value_le_bytes)
qed

lemma take_le_bytes: "k \<le> n \<Longrightarrow> take k (le_bytes n v) = le_bytes k v"
proof (induction n v arbitrary: k rule: le_bytes.induct)
  case (2 n v)
  then show ?case by (cases k) simp_all
qed simp

lemma le_value_append_zeros: "le_value (bs @ replicate n 0) = le_value bs"
proof -
  have "le_value (replicate n 0) = 0" by (induction n) simp_all
  then show ?thesis by (induction bs) simp_all
qed

lemma le_int_cong: "le_int bs mod 2 ^ (8 * length bs) = int (le_value bs)"
proof -
  have "int (le_value bs) < 2 ^ (8 * length bs)"
    using le_value_lt [of bs] by (simp add: power_mult flip: of_nat_less_iff)
  then have "int (le_value bs) mod 2 ^ (8 * length bs) = int (le_value bs)" by simp
  moreover have "(int (le_value bs) - 2 ^ (8 * length bs)) mod 2 ^ (8 * length bs) = int (le_value bs) mod 2 ^ (8 * length bs)"
    by (metis minus_mod_self2)
  ultimately show ?thesis by (simp add: le_int_def Let_def)
qed

text \<open>The bytes stored for the sum of two zero-extended integers are those of the sum modulo their
  own width.\<close>

lemma extended_sum_bytes:
  assumes "length xs = n" "length ys = n" "n \<le> 8" "k \<le> n"
  defines "ext \<equiv> \<lambda>bs. le_int (bs @ replicate (8 - length bs) 0)"
  shows "take k (le_int_bytes 8 (ext xs + ext ys)) = le_bytes k (le_value xs + le_value ys)"
proof -
  have e: "ext bs mod 2 ^ 64 = int (le_value bs)" if "length bs = n" for bs
    using le_int_cong [of "bs @ replicate (8 - length bs) 0"] that assms(3)
    by (simp add: ext_def le_value_append_zeros)
  have "(ext xs + ext ys) mod 2 ^ 64 = (ext xs mod 2 ^ 64 + ext ys mod 2 ^ 64) mod 2 ^ 64"
    by (simp add: mod_simps)
  also have "\<dots> = int ((le_value xs + le_value ys) mod 256 ^ 8)"
    by (simp only: e [OF assms(1)] e [OF assms(2)] zmod_int of_nat_add) simp
  finally have "nat ((ext xs + ext ys) mod 2 ^ (8 * 8)) = (le_value xs + le_value ys) mod 256 ^ 8" by simp
  then have "le_int_bytes 8 (ext xs + ext ys) = le_bytes 8 (le_value xs + le_value ys)"
    unfolding le_int_bytes_def by (simp only: le_bytes_mod)
  then show ?thesis using assms(3,4) by (simp add: take_le_bytes)
qed

lemma le_value_take: "le_value (take k bs) = le_value bs mod 256 ^ k"
proof (induction bs arbitrary: k)
  case (Cons b bs)
  show ?case
  proof (cases k)
    case (Suc m)
    have "(unat b + 256 * le_value bs) mod (256 * 256 ^ m) = 256 * (le_value bs mod 256 ^ m) + unat b"
      using unat_byte_lt [of b] mod_mult2_eq [of "unat b + 256 * le_value bs" 256 "256 ^ m"] by simp
    then show ?thesis using Cons Suc by simp
  qed simp
qed simp

lemma le_bytes_cong: "x mod 256 ^ n = y mod 256 ^ n \<Longrightarrow> le_bytes n x = le_bytes n y"
  by (metis le_bytes_mod)

lemma extended_bounds:
  assumes "length bs < 8"
  shows "0 \<le> le_int (bs @ replicate (8 - length bs) 0)" "le_int (bs @ replicate (8 - length bs) 0) < 2 ^ 56"
proof -
  have "le_value bs < 256 ^ length bs" by (rule le_value_lt)
  also have "(256 :: nat) ^ length bs \<le> 256 ^ 7" by (rule power_increasing) (use assms in simp_all)
  finally have "le_value bs < 2 ^ 56" by simp
  moreover have "length (bs @ replicate (8 - length bs) 0) = 8" using assms by simp
  ultimately have "le_int (bs @ replicate (8 - length bs) 0) = int (le_value bs)"
    by (simp add: le_int_def Let_def le_value_append_zeros)
  then show "0 \<le> le_int (bs @ replicate (8 - length bs) 0)" "le_int (bs @ replicate (8 - length bs) 0) < 2 ^ 56"
    using \<open>le_value bs < 2 ^ 56\<close> by simp_all
qed

section \<open>Writing to the heap\<close>

lemma overwrite_slice_id: "p + n \<le> length xs \<Longrightarrow> overwrite p (slice_of p n xs) xs = xs"
proof -
  assume "p + n \<le> length xs"
  then have "length (slice_of p n xs) = n" by simp
  moreover have "take p xs @ take n (drop p xs) @ drop (p + n) xs = xs"
    by (metis append_take_drop_id drop_drop add.commute)
  ultimately show ?thesis by (simp add: overwrite_def) (simp add: slice_of_def)
qed

lemma wrToHeap_wf:
  assumes wf: "wf_block b mem" and na: "\<not> isAdditive (ab_access b)"
  shows "wrToHeap b mem v mx =
    Inr (syncTo b v, overwrite (ab_location b) (take (min (ab_size b) mx) (block_view b mem v)) mem)"
proof (cases "ab_versions (syncTo b v)")
  case Nil
  let ?n = "min (ab_size b) mx"
  have "take ?n (block_view b mem v) = slice_of (ab_location b) ?n mem"
    using Nil by (simp add: block_view_def slice_of_def min_def)
  moreover have "overwrite (ab_location b) (slice_of (ab_location b) ?n mem) mem = mem"
    using wf by (intro overwrite_slice_id) (auto simp: wf_block_def min_def)
  ultimately show ?thesis using Nil by (simp add: wrToHeap_def Let_def)
next
  case (Cons x xs)
  have v: "newest (syncTo b v) = block_view b mem v"
    using Cons by (simp add: newest_def block_view_def)
  have l: "length (block_view b mem v) = ab_size b" by (rule length_block_view [OF wf])
  have "ab_location b + ab_size b \<le> length mem" using wf by (simp add: wf_block_def)
  then have s: "load_bytes (block_view b mem v) 0 (min (ab_size b) mx) = Inr (take (min (ab_size b) mx) (block_view b mem v))"
    "store_bytes mem (ab_location b) (take (min (ab_size b) mx) (block_view b mem v)) =
      Inr (overwrite (ab_location b) (take (min (ab_size b) mx) (block_view b mem v)) mem)"
    using l by (simp_all add: load_bytes_def store_bytes_def slice_of_def)
  show ?thesis using Cons na v s by (simp add: wrToHeap_def Let_def)
qed

lemma wrToHeap_additive:
  assumes wf: "wf_block b mem" and add: "isAdditive (ab_access b)"
    and run: "wrToHeap b mem v mx = Inr (b', mem')" and full: "ab_size b \<le> mx"
  shows "mem' = overwrite (ab_location b) (le_bytes (ab_size b)
      (le_value (slice_of (ab_location b) (ab_size b) mem) +
       (if ab_versions (syncTo b v) = [] then 0 else le_value (block_view b mem v)))) mem"
proof (cases "ab_versions (syncTo b v)")
  case Nil
  let ?s = "slice_of (ab_location b) (ab_size b) mem"
  have "length ?s = ab_size b" using wf by (simp add: wf_block_def)
  then have "le_bytes (ab_size b) (le_value ?s) = ?s" using le_bytes_le_value [of ?s] by simp
  moreover have "overwrite (ab_location b) ?s mem = mem"
    using wf by (intro overwrite_slice_id) (simp add: wf_block_def)
  ultimately show ?thesis using Nil run by (simp add: wrToHeap_def Let_def)
next
  case (Cons x xs)
  have v: "newest (syncTo b v) = block_view b mem v"
    using Cons by (simp add: newest_def block_view_def)
  have l: "length (block_view b mem v) = ab_size b" by (rule length_block_view [OF wf])
  have lm: "ab_location b + ab_size b \<le> length mem" using wf by (simp add: wf_block_def)
  let ?ext = "\<lambda>bs. le_int (bs @ replicate (8 - length bs) 0)"
  have ld: "load_bytes mem (ab_location b) (ab_size b) = Inr (slice_of (ab_location b) (ab_size b) mem)"
    "load_bytes (block_view b mem v) 0 (ab_size b) = Inr (block_view b mem v)"
    using lm l by (simp_all add: load_bytes_def slice_of_def)
  have size: "ab_size b \<le> 8" "ab_versions (syncTo b v) \<noteq> []"
    using run Cons add by (auto simp: wrToHeap_def Let_def bind_result_Inr_iff)
  have "store_bytes mem (ab_location b) (take (ab_size b)
      (le_int_bytes 8 (?ext (slice_of (ab_location b) (ab_size b) mem) + ?ext (block_view b mem v)))) = Inr mem'"
    using run size add v ld full
    by (auto simp: wrToHeap_def Let_def bind_result_Inr_iff min_absorb1 split: if_splits)
  then show ?thesis
    using extended_sum_bytes [OF _ l size(1) order_refl, of "slice_of (ab_location b) (ab_size b) mem"] lm Cons
    by (simp add: store_bytes_def split: if_splits)
qed

text \<open>The blocks of a chunk, in order and without overlap.\<close>

fun disjoint_blocks :: "(nat \<times> access_block) list \<Rightarrow> bool" where
  "disjoint_blocks [] = True"
| "disjoint_blocks ((o1, b1) # rest) \<longleftrightarrow>
    ab_location b1 = o1 \<and> (\<forall>(o2, b2) \<in> set rest. o1 + ab_size b1 \<le> o2) \<and> disjoint_blocks rest"

lemma disjoint_location:
  "disjoint_blocks es \<Longrightarrow> (off, b) \<in> set es \<Longrightarrow> ab_location b = off"
  by (induction es rule: disjoint_blocks.induct) auto

lemma block_view_cong:
  assumes "slice_of (ab_location b) (ab_size b) mem = slice_of (ab_location b) (ab_size b) mem'"
  shows "block_view b mem v = block_view b mem' v"
  using assms by (cases "ab_versions (syncTo b v)") (simp_all add: block_view_def)

lemma wf_block_length: "wf_block b mem \<Longrightarrow> length mem' = length mem \<Longrightarrow> wf_block b mem'"
  by (simp add: wf_block_def)

text \<open>The bytes of a block after writing it back without a limit: what the request sees in it, and for an
  additive block the sum of the bytes in the chunk and the increment, modulo its width.\<close>

definition written_bytes :: "access_block \<Rightarrow> byte list \<Rightarrow> int \<Rightarrow> byte list" where
  "written_bytes b mem v =
    (if isAdditive (ab_access b) \<and> ab_versions (syncTo b v) \<noteq> []
     then le_bytes (ab_size b) (le_value (slice_of (ab_location b) (ab_size b) mem) + le_value (block_view b mem v))
     else block_view b mem v)"

definition sum_fits :: "access_block \<Rightarrow> bool" where
  "sum_fits b \<longleftrightarrow> (isAdditive (ab_access b) \<longrightarrow> ab_size b < 8)"

lemma length_written_bytes: "wf_block b mem \<Longrightarrow> length (written_bytes b mem v) = ab_size b"
  by (simp add: written_bytes_def length_block_view)

lemma wrToHeap_written:
  assumes wf: "wf_block b mem" and fits: "sum_fits b"
  shows "wrToHeap b mem v mx =
    Inr (syncTo b v, overwrite (ab_location b) (take (min (ab_size b) mx) (written_bytes b mem v)) mem)"
proof (cases "isAdditive (ab_access b)")
  case False
  then show ?thesis using wrToHeap_wf [OF wf False] by (simp add: written_bytes_def)
next
  case add: True
  show ?thesis
  proof (cases "ab_versions (syncTo b v)")
    case Nil
    let ?n = "min (ab_size b) mx"
    have "take ?n (block_view b mem v) = slice_of (ab_location b) ?n mem"
      using Nil by (simp add: block_view_def slice_of_def min_def)
    moreover have "overwrite (ab_location b) (slice_of (ab_location b) ?n mem) mem = mem"
      using wf by (intro overwrite_slice_id) (auto simp: wf_block_def min_def)
    ultimately show ?thesis using Nil by (simp add: wrToHeap_def Let_def written_bytes_def)
  next
    case (Cons x xs)
    let ?S = "slice_of (ab_location b) (ab_size b) mem" and ?V = "block_view b mem v"
    let ?ext = "\<lambda>bs. le_int (bs @ replicate (8 - length bs) 0)"
    have v: "newest (syncTo b v) = ?V" using Cons by (simp add: newest_def block_view_def)
    have s8: "ab_size b < 8" using add fits by (simp add: sum_fits_def)
    have lm: "ab_location b + ab_size b \<le> length mem" using wf by (simp add: wf_block_def)
    have l: "length ?V = ab_size b" "length ?S = ab_size b" using length_block_view [OF wf] lm by simp_all
    have ld: "load_bytes mem (ab_location b) (ab_size b) = Inr ?S" "load_bytes ?V 0 (ab_size b) = Inr ?V"
      using lm l by (simp_all add: load_bytes_def slice_of_def)
    have range: "\<not> (?ext ?S + ?ext ?V < - (2 ^ 63) \<or> ?ext ?S + ?ext ?V \<ge> 2 ^ 63)"
      using extended_bounds [of ?S] extended_bounds [of ?V] l s8 by simp
    have bytes: "take (min (ab_size b) mx) (le_int_bytes 8 (?ext ?S + ?ext ?V)) =
        take (min (ab_size b) mx) (written_bytes b mem v)"
      using extended_sum_bytes [OF l(2,1), of "min (ab_size b) mx"] s8 add Cons
      by (simp add: written_bytes_def take_le_bytes)
    have st: "store_bytes mem (ab_location b) (take (min (ab_size b) mx) (written_bytes b mem v)) =
        Inr (overwrite (ab_location b) (take (min (ab_size b) mx) (written_bytes b mem v)) mem)"
      using lm length_written_bytes [OF wf] by (simp add: store_bytes_def)
    show ?thesis
      unfolding wrToHeap_def Let_def v syncTo_simps ld bind_result_simps bytes st
      using Cons add s8 range by simp
  qed
qed

lemma written_bytes_cong:
  assumes "slice_of (ab_location b) (ab_size b) mem = slice_of (ab_location b) (ab_size b) mem'"
  shows "written_bytes b mem v = written_bytes b mem' v"
  by (simp only: written_bytes_def block_view_cong [OF assms] assms)

lemma write_blocks_commit:
  assumes "disjoint_blocks es" "sorted_wrt (<) (map fst es)"
    and "\<forall>(off, b) \<in> set es. wf_block b mem \<and> sum_fits b"
  shows "\<exists>bs mem'. write_blocks v n es mem = Inr (bs, mem') \<and> length bs = length es \<and>
    length mem' = length mem \<and>
    (\<forall>(off, b) \<in> set es. off < n \<longrightarrow>
      slice_of off (min (ab_size b) (n - off)) mem' = take (min (ab_size b) (n - off)) (written_bytes b mem v)) \<and>
    (\<forall>k < length mem. (n \<le> k \<or> (\<forall>(off, b) \<in> set es. \<not> (off \<le> k \<and> k < off + ab_size b))) \<longrightarrow>
      mem' ! k = mem ! k)"
  using assms
proof (induction es arbitrary: mem)
  case Nil
  then show ?case by simp
next
  case (Cons e es)
  obtain off b where e: "e = (off, b)" by (cases e)
  show ?case
  proof (cases "off \<ge> n")
    case True
    then have "\<forall>(o2, b2) \<in> set es. \<not> o2 < n" using Cons.prems(2) e by auto
    then show ?thesis using True by (auto simp: e)
  next
    case False
    let ?m = "min (ab_size b) (n - off)" and ?V = "written_bytes b mem v"
    have wf: "wf_block b mem" and na: "sum_fits b" and loc: "ab_location b = off"
      using Cons.prems by (auto simp: e)
    have lV: "length ?V = ab_size b" by (rule length_written_bytes [OF wf])
    have lm: "off + ab_size b \<le> length mem" using wf loc by (simp add: wf_block_def)
    let ?mem = "overwrite off (take ?m ?V) mem"
    have lmem: "length ?mem = length mem" using lV lm by simp
    have wr: "wrToHeap b mem v (n - off) = Inr (syncTo b v, ?mem)"
      using wrToHeap_written [OF wf na, of v "n - off"] loc by simp
    have later: "off + ab_size b \<le> o2 \<and> wf_block b2 mem \<and> ab_location b2 = o2 \<and> sum_fits b2"
      if "(o2, b2) \<in> set es" for o2 b2
      using that Cons.prems disjoint_location [of es o2 b2] by (auto simp: e)
    have view: "written_bytes b2 ?mem v = written_bytes b2 mem v" if "(o2, b2) \<in> set es" for o2 b2
    proof (rule written_bytes_cong)
      have "o2 + ab_size b2 \<le> length mem" using later [OF that] by (auto simp: wf_block_def)
      then show "slice_of (ab_location b2) (ab_size b2) ?mem = slice_of (ab_location b2) (ab_size b2) mem"
        using later [OF that] lV lm by (intro slice_overwrite_disjoint) auto
    qed
    have wfs: "\<forall>(o2, b2) \<in> set es. wf_block b2 ?mem \<and> sum_fits b2"
      using later wf_block_length [OF _ lmem] by blast
    obtain bs mem' where IH: "write_blocks v n es ?mem = Inr (bs, mem')" "length bs = length es"
      "length mem' = length ?mem"
      and in_blocks: "\<forall>(o2, b2) \<in> set es. o2 < n \<longrightarrow>
        slice_of o2 (min (ab_size b2) (n - o2)) mem' = take (min (ab_size b2) (n - o2)) (written_bytes b2 ?mem v)"
      and outside: "\<forall>k < length ?mem. (n \<le> k \<or> (\<forall>(o2, b2) \<in> set es. \<not> (o2 \<le> k \<and> k < o2 + ab_size b2))) \<longrightarrow>
        mem' ! k = ?mem ! k"
      using Cons.IH [OF _ _ wfs] Cons.prems(1,2) by (auto simp: e)
    have first: "slice_of off ?m mem' = take ?m ?V"
    proof -
      have "slice_of off ?m mem' = slice_of off ?m ?mem"
      proof (rule nth_equalityI)
        show "length (slice_of off ?m mem') = length (slice_of off ?m ?mem)"
          using IH(3) by (simp add: slice_of_def)
        fix k assume "k < length (slice_of off ?m mem')"
        then have k: "k < ?m" "off + ?m \<le> length mem" using lm by (auto simp: slice_of_def)
        have "\<forall>(o2, b2) \<in> set es. \<not> (o2 \<le> off + k \<and> off + k < o2 + ab_size b2)"
          using later k(1) by fastforce
        moreover have "off + k < length mem" using k by linarith
        ultimately have "mem' ! (off + k) = ?mem ! (off + k)" using outside lmem by simp
        then show "slice_of off ?m mem' ! k = slice_of off ?m ?mem ! k"
          using k IH(3) lmem by (simp add: nth_slice_of)
      qed
      also have "\<dots> = take ?m ?V"
        using slice_overwrite_same [of off "take ?m ?V" mem] lV lm by simp
      finally show ?thesis .
    qed
    have keep: "mem' ! k = mem ! k"
      if "k < length mem" "n \<le> k \<or> (\<forall>(o2, b2) \<in> set (e # es). \<not> (o2 \<le> k \<and> k < o2 + ab_size b2))" for k
    proof -
      have "mem' ! k = ?mem ! k" using that outside lmem by auto
      moreover have "\<not> (off \<le> k \<and> k < off + ?m)" using that False by (auto simp: e)
      ultimately show ?thesis using that(1) lV lm by (simp add: nth_overwrite)
    qed
    have "write_blocks v n (e # es) mem = Inr (syncTo b v # bs, mem')"
      using False wr IH(1) by (simp add: e)
    then show ?thesis
      using IH(2,3) lmem first in_blocks view keep by (intro exI) (auto simp: e)
  qed
qed


lemma bytes_at_lookup:
  assumes "wf_modifier md"
  shows "bytes_at md h p offset i n =
    (case lookup_ci md p of
       None \<Rightarrow> Inl Out_of_range
     | Some ci \<Rightarrow>
         bind_result (osm_at (ci_table ci) offset) (\<lambda>b.
         bind_result (block_read b (ch_content (h (ci_ptr ci))) (md_version md) i n) (\<lambda>(bytes, _). Inr bytes)))"
  unfolding bytes_at_snapshot [OF assms]
  by (simp add: snapshot_def sync_ci_def osm_at_map bind_result_assoc split: option.splits)

section \<open>The properties\<close>

definition sample_heap :: heap where
  "sample_heap = (\<lambda>_. \<lparr>ch_content = [1, 2, 3, 4, 5, 6, 7, 8], ch_size = 8, ch_capacity = 8, ch_writable = True\<rparr>)"

definition sample_table :: "(nat, access_block) ordered_map" where
  "sample_table = \<lparr>osm_keys = [0, 4], osm_values =
    [\<lparr>ab_location = 0, ab_size = 4, ab_access = writable_access, ab_versions = []\<rparr>,
     \<lparr>ab_location = 4, ab_size = 4, ab_access = read_only, ab_versions = []\<rparr>]\<rparr>"

definition sample_modifier :: modifier where
  "sample_modifier = \<lparr>md_version = 1, md_chunk = Some (7, LongLongID 0 9), md_context = Some 7,
     md_apps = \<lparr>osm_keys = [7], osm_values =
       [\<lparr>osm_keys = [LongLongID 0 9], osm_values =
         [\<lparr>ci_table = sample_table, ci_ptr = 0, ci_resizing = shrinkable, ci_sizeBound = 4,
           ci_size = \<lparr>ab_location = 0, ab_size = 4, ab_access = writable_access, ab_versions = []\<rparr>,
           ci_initialSize = - 1\<rparr>]\<rparr>]\<rparr>\<rparr>"

lemma sample_lookup:
  "lookup_ci sample_modifier p = (if p = (7, LongLongID 0 9) then
     Some \<lparr>ci_table = sample_table, ci_ptr = 0, ci_resizing = shrinkable, ci_sizeBound = 4,
           ci_size = \<lparr>ab_location = 0, ab_size = 4, ab_access = writable_access, ab_versions = []\<rparr>,
           ci_initialSize = - 1\<rparr> else None)"
  by (cases p) (auto simp: lookup_ci_def sample_modifier_def osm_lookup_def entries_def)

lemma wf_sample_modifier: "wf_modifier sample_modifier"
proof -
  have "wf_keys (md_apps sample_modifier) \<and> (\<forall>cm \<in> set (osm_values (md_apps sample_modifier)). wf_keys cm)"
    "wf_keys sample_table" by code_simp+
  then show ?thesis by (auto simp: wf_modifier_def sample_lookup split: if_splits)
qed

lemma wf_sample_heap: "wf_chunk (sample_heap p)"
proof -
  have "wf_chunk \<lparr>ch_content = [1, 2, 3, 4, 5, 6, 7, 8], ch_size = 8, ch_capacity = 8, ch_writable = True\<rparr>"
    by code_simp
  then show ?thesis by (simp add: sample_heap_def)
qed

text \<open>C6: When a call is abandoned and the version saved before it is restored, every byte and every
  chunk size reads as it did before the call, whatever the call has loaded, stored, added and resized,
  and however many nested calls it has saved and restored versions for.\<close>

theorem modifier_rollback:
  assumes "wf_modifier md" "\<forall>p. wf_chunk (h p)" "0 \<le> md_version md"
    and "saveVersion md = Inr (v, md1)" and "\<forall>oper \<in> set ops. restores_above v oper"
  shows "\<exists>md'. restoreVersion (mod_run h ops md1) v = Inr md' \<and> wf_modifier md' \<and>
    md_version md' = md_version md \<and>
    (\<forall>p offset i n. bytes_at md' h p offset i n = bytes_at md h p offset i n) \<and>
    (\<forall>p. size_at md' h p = size_at md h p)"
proof -
  have sh: "sized_heap h" by (rule wf_chunk_sized [OF assms(2)])
  have v: "v = md_version md" "md1 = md\<lparr>md_version := v + 1\<rparr>"
    using assms(4) by (auto simp: saveVersion_def split: if_splits)
  let ?md2 = "mod_run h ops md1"
  have run: "wf_modifier ?md2 \<and> v < md_version ?md2 \<and> snapshot h ?md2 v = snapshot h md1 v"
    using mv.history [of md1 h v ops] assms(1,5) sh v by (simp add: mod_run_def)
  define md' where "md' = ?md2\<lparr>md_version := v\<rparr>"
  have res: "restoreVersion ?md2 v = Inr md'"
    using run assms(3) v(1) by (simp add: restoreVersion_def md'_def)
  have wf': "wf_modifier md'" and see: "snapshot h md' (md_version md') = snapshot h md (md_version md)"
    using run v by (simp_all add: md'_def)
  have ver: "md_version md' = md_version md" using v by (simp add: md'_def)
  have "bytes_at md' h p offset i n = bytes_at md h p offset i n" for p offset i n
    unfolding bytes_at_snapshot [OF wf'] bytes_at_snapshot [OF assms(1)] see [unfolded ver] ver ..
  moreover have "size_at md' h p = size_at md h p" for p
    unfolding size_at_snapshot [OF wf' sh] size_at_snapshot [OF assms(1) sh] see [unfolded ver] ver ..
  ultimately show ?thesis using res wf' ver by blast
qed

theorem modifier_rollback_witness:
  "\<exists>md'. restoreVersion (mod_run sample_heap [OpStore 0 1 [9, 9], OpSave, OpResize 4, OpRestore 2, OpLoad 0 0 4]
      (sample_modifier\<lparr>md_version := 2\<rparr>)) 1 = Inr md' \<and> wf_modifier md' \<and>
    md_version md' = md_version sample_modifier \<and>
    (\<forall>p offset i n. bytes_at md' sample_heap p offset i n = bytes_at sample_modifier sample_heap p offset i n) \<and>
    (\<forall>p. size_at md' sample_heap p = size_at sample_modifier sample_heap p)"
proof (rule modifier_rollback [OF wf_sample_modifier])
  show "saveVersion sample_modifier = Inr (1, sample_modifier\<lparr>md_version := 2\<rparr>)"
    by (simp add: saveVersion_def sample_modifier_def MAX_VERSION_def)
  show "0 \<le> md_version sample_modifier" by (simp add: sample_modifier_def)
qed (simp_all add: wf_sample_heap restores_above_def)

text \<open>Restoring a version only resets the counter: what an abandoned call has stored stays in the
  blocks under the version number that the next call gets. That call then reads the bytes of the
  abandoned one, and they are written to the heap.\<close>

theorem abandoned_bytes_resurface:
  "bytes_at (mod_run sample_heap [OpSave, OpStore 0 0 [9], OpRestore 1] sample_modifier)
      sample_heap (7, LongLongID 0 9) 0 0 2 = Inr [1, 2] \<and>
   bytes_at (mod_run sample_heap [OpSave, OpStore 0 0 [9], OpRestore 1, OpSave] sample_modifier)
      sample_heap (7, LongLongID 0 9) 0 0 2 = Inr [9, 2] \<and>
   (\<exists>md' h'. writeToHeap (mod_run sample_heap [OpSave, OpStore 0 0 [9], OpRestore 1, OpSave] sample_modifier)
        sample_heap = Inr (md', h') \<and> chunk_bytes (h' 0) = [9, 2, 3, 4, 5, 6, 7, 8])"
proof (intro conjI)
  show "bytes_at (mod_run sample_heap [OpSave, OpStore 0 0 [9], OpRestore 1] sample_modifier)
      sample_heap (7, LongLongID 0 9) 0 0 2 = Inr [1, 2]" by code_simp
  show "bytes_at (mod_run sample_heap [OpSave, OpStore 0 0 [9], OpRestore 1, OpSave] sample_modifier)
      sample_heap (7, LongLongID 0 9) 0 0 2 = Inr [9, 2]" by code_simp
  have "(case writeToHeap (mod_run sample_heap [OpSave, OpStore 0 0 [9], OpRestore 1, OpSave] sample_modifier)
        sample_heap of Inr (md', h') \<Rightarrow> chunk_bytes (h' 0) = [9, 2, 3, 4, 5, 6, 7, 8] | Inl _ \<Rightarrow> False)"
    by code_simp
  then show "\<exists>md' h'. writeToHeap (mod_run sample_heap [OpSave, OpStore 0 0 [9], OpRestore 1, OpSave] sample_modifier)
        sample_heap = Inr (md', h') \<and> chunk_bytes (h' 0) = [9, 2, 3, 4, 5, 6, 7, 8]"
    by (auto split: sum.splits prod.splits)
qed

text \<open>C21: A successful store changes exactly the bytes it names: the block reads as before with the
  stored bytes in their place, and every other block of every chunk reads as before.\<close>

theorem store_then_load:
  assumes "wf_modifier md" and "1 \<le> md_version md" and "md_chunk md = Some p"
    and "lookup_ci md p = Some ci" and "osm_lookup (ci_table ci) offset = Some b"
    and "wf_block b (ch_content (h (ci_ptr ci)))" and "modifier_store md h offset i bytes = Inr md'"
  shows "(\<forall>j n. j + n \<le> ab_size b \<longrightarrow> bytes_at md' h p offset j n =
      Inr (slice_of j n (overwrite i bytes (block_view b (ch_content (h (ci_ptr ci))) (md_version md))))) \<and>
    (\<forall>q offset' j n. (q, offset') \<noteq> (p, offset) \<longrightarrow> bytes_at md' h q offset' j n = bytes_at md h q offset' j n)"
proof -
  let ?mem = "ch_content (h (ci_ptr ci))" and ?v = "md_version md"
  have ci: "get_chunk_info md p = Inr ci" using get_chunk_info_lookup [OF assms(1), of p] assms(4) by simp
  have t: "wf_keys (ci_table ci)" by (rule wf_table [OF assms(1) ci])
  have b: "osm_at (ci_table ci) offset = Inr b" using osm.at_Inr [OF t] assms(5) by simp
  from assms(7) obtain b' table where w: "block_write b ?mem ?v i bytes = Inr b'"
    and up: "osm_update (ci_table ci) offset b' = Inr table"
    and set: "set_chunk_info md p (ci\<lparr>ci_table := table\<rparr>) = Inr md'"
    by (auto simp: modifier_store_def with_block_def assms(3) ci b bind_result_Inr_iff)
  note u = osm.update_Inr [OF t up]
  have md': "wf_modifier md'" "lookup_ci md' = (lookup_ci md)(p \<mapsto> ci\<lparr>ci_table := table\<rparr>)"
    "md_version md' = ?v"
    using set_chunk_info_lookup [OF assms(1) set] u by simp_all
  have at: "osm_at table off = (if off = offset then Inr b' else osm_at (ci_table ci) off)" for off
    by (rule osm.at_update [OF t up])
  have ok: "i + length bytes \<le> ab_size b" "\<not> denies (ab_access b) op_write"
    and b': "b' = put_version b ?v (overwrite i bytes (block_view b ?mem ?v))"
    using w block_write_wf [OF assms(6,2), of i bytes] by (auto split: if_splits)
  have readable: "\<not> denies (ab_access b) op_read" using ok(2) by (cases "ab_access b") simp_all
  have "length (overwrite i bytes (block_view b ?mem ?v)) = ab_size b"
    using ok(1) length_block_view [OF assms(6)] by simp
  then have wf': "wf_block b' ?mem" unfolding b' by (rule wf_put_version [OF assms(6,2)])
  have "bytes_at md' h p offset j n = Inr (slice_of j n (overwrite i bytes (block_view b ?mem ?v)))"
    if "j + n \<le> ab_size b" for j n
    using that readable block_read_wf [OF wf', of ?v j n]
    by (simp add: bytes_at_lookup [OF md'(1)] md'(2,3) at b' block_view_put)
  moreover have "bytes_at md' h q offset' j n = bytes_at md h q offset' j n"
    if "(q, offset') \<noteq> (p, offset)" for q offset' j n
    using that assms(4)
    by (cases "lookup_ci md q") (auto simp: bytes_at_lookup [OF md'(1)] bytes_at_lookup [OF assms(1)] md'(2,3) at)
  ultimately show ?thesis by blast
qed

theorem store_then_load_witness:
  "\<exists>md'. modifier_store sample_modifier sample_heap 0 1 [9, 9] = Inr md' \<and>
    bytes_at md' sample_heap (7, LongLongID 0 9) 0 0 4 = Inr [1, 9, 9, 4] \<and>
    bytes_at md' sample_heap (7, LongLongID 0 9) 4 0 2 = bytes_at sample_modifier sample_heap (7, LongLongID 0 9) 4 0 2"
proof -
  have "is_ok (modifier_store sample_modifier sample_heap 0 1 [9, 9])" by code_simp
  then obtain md' where md': "modifier_store sample_modifier sample_heap 0 1 [9, 9] = Inr md'"
    by (cases "modifier_store sample_modifier sample_heap 0 1 [9, 9]") auto
  let ?b = "\<lparr>ab_location = 0, ab_size = 4, ab_access = writable_access, ab_versions = []\<rparr>"
  let ?p = "(7 :: uint64, LongLongID 0 9)"
  obtain ci where ci: "lookup_ci sample_modifier ?p = Some ci" "ci_table ci = sample_table" "ci_ptr ci = 0"
    by (simp add: sample_lookup)
  have b: "osm_lookup (ci_table ci) 0 = Some ?b"
    by (simp add: ci sample_table_def osm_lookup_def entries_def)
  have wf: "wf_block ?b (ch_content (sample_heap (ci_ptr ci)))" by (simp add: wf_block_def sample_heap_def)
  have view: "overwrite 1 [9, 9] (block_view ?b (ch_content (sample_heap (ci_ptr ci))) 1) = [1, 9, 9, 4]"
    by (simp add: block_view_def syncTo_def sample_heap_def slice_of_def overwrite_def)
  have ver: "md_version sample_modifier = 1" "md_chunk sample_modifier = Some ?p"
    by (simp_all add: sample_modifier_def)
  note st = store_then_load [OF wf_sample_modifier _ ver(2) ci(1) b wf md']
  have "bytes_at md' sample_heap ?p 0 0 4 = Inr (slice_of 0 4 [1, 9, 9, 4])"
    using st unfolding ver view by simp
  moreover have "bytes_at md' sample_heap ?p 4 0 2 = bytes_at sample_modifier sample_heap ?p 4 0 2"
    using st unfolding ver by simp
  ultimately show ?thesis using md' by (simp add: slice_of_def)
qed

text \<open>C22: The increments of two requests to the same integer can be written to the heap in either
  order: both orders give the old integer plus both increments, modulo its width.\<close>

theorem additive_writes_commute:
  assumes "wf_block a mem" and "wf_block b mem" and "isAdditive (ab_access a)" and "isAdditive (ab_access b)"
    and "ab_location b = ab_location a" and "ab_size b = ab_size a" and "ab_size a \<le> mx"
    and "wrToHeap a mem v mx = Inr (a1, m1)" and "wrToHeap b m1 w mx = Inr (b1, m2)"
    and "wrToHeap b mem w mx = Inr (b2, n1)" and "wrToHeap a n1 v mx = Inr (a2, n2)"
  shows "m2 = n2 \<and> le_value (slice_of (ab_location a) (ab_size a) m2) =
    (le_value (slice_of (ab_location a) (ab_size a) mem) +
     (if ab_versions (syncTo a v) = [] then 0 else le_value (block_view a mem v)) +
     (if ab_versions (syncTo b w) = [] then 0 else le_value (block_view b mem w))) mod 256 ^ ab_size a"
proof -
  let ?l = "ab_location a" and ?n = "ab_size a"
  define x where "x = le_value (slice_of ?l ?n mem)"
  define da where "da = (if ab_versions (syncTo a v) = [] then 0 else le_value (block_view a mem v))"
  define db where "db = (if ab_versions (syncTo b w) = [] then 0 else le_value (block_view b mem w))"
  have lm: "?l + ?n \<le> length mem" using assms(1) by (simp add: wf_block_def)
  have ow: "slice_of ?l ?n (overwrite ?l (le_bytes ?n y) mem) = le_bytes ?n y"
    "overwrite ?l (le_bytes ?n z) (overwrite ?l (le_bytes ?n y) mem) = overwrite ?l (le_bytes ?n z) mem" for y z
    using slice_overwrite_same [of ?l "le_bytes ?n y" mem] lm by (simp_all add: overwrite_def)
  have nonempty_view: "block_view c m u = block_view c mem u" if "ab_versions (syncTo c u) \<noteq> []" for c m u
    using that by (auto simp: block_view_def split: list.splits)
  have m1: "m1 = overwrite ?l (le_bytes ?n (x + da)) mem"
    using wrToHeap_additive [OF assms(1,3,8,7)] by (simp add: x_def da_def)
  have mx: "ab_size b \<le> mx" using assms(6,7) by simp
  have n1: "n1 = overwrite ?l (le_bytes ?n (x + db)) mem"
    using wrToHeap_additive [OF assms(2,4,10) mx] unfolding assms(5,6) x_def db_def .
  have wf: "wf_block b m1" "wf_block a n1"
    using wf_block_length [OF assms(2), of m1] wf_block_length [OF assms(1), of n1] lm
    by (simp_all add: m1 n1)
  have d: "(if ab_versions (syncTo b w) = [] then 0 else le_value (block_view b m1 w)) = db"
    "(if ab_versions (syncTo a v) = [] then 0 else le_value (block_view a n1 v)) = da"
    using nonempty_view [of b w m1] nonempty_view [of a v n1] by (simp_all add: da_def db_def)
  have m2: "m2 = overwrite ?l (le_bytes ?n ((x + da) mod 256 ^ ?n + db)) mem"
    using wrToHeap_additive [OF wf(1) assms(4,9) mx] unfolding d(1) unfolding assms(5,6) m1 ow le_value_le_bytes .
  have n2: "n2 = overwrite ?l (le_bytes ?n ((x + db) mod 256 ^ ?n + da)) mem"
    using wrToHeap_additive [OF wf(2) assms(3,11,7)] unfolding d(2) unfolding n1 ow le_value_le_bytes .
  have norm: "le_bytes ?n (y mod 256 ^ ?n + z) = le_bytes ?n ((y + z) mod 256 ^ ?n)" for y z
  proof -
    have "le_bytes ?n (y mod 256 ^ ?n + z) = le_bytes ?n ((y mod 256 ^ ?n + z) mod 256 ^ ?n)"
      by (simp only: le_bytes_mod)
    then show ?thesis by (simp only: mod_add_left_eq)
  qed
  have "(x + da + db) mod 256 ^ ?n = (x + db + da) mod 256 ^ ?n" by (simp add: ac_simps)
  then have "m2 = n2" unfolding m2 n2 norm by simp
  moreover have "le_value (slice_of ?l ?n m2) = (x + da + db) mod 256 ^ ?n"
    unfolding m2 norm ow by (simp add: le_value_le_bytes)
  ultimately show ?thesis unfolding x_def da_def db_def by blast
qed


lemma le_bytes_numeral:
  "le_bytes (numeral k) v = word_of_nat (v mod 256) # le_bytes (pred_numeral k) (v div 256)"
  by (simp only: numeral_eq_Suc [of k] le_bytes.simps)

lemma zeros_6: "replicate 6 (0::byte) = [0,0,0,0,0,0]" by code_simp

lemma sum_samples:
  "le_int (255 # 0 # replicate 6 0) = 255" "le_int (254 # 1 # replicate 6 0) = 510"
  "le_int (2 # 0 # replicate 6 0) = 2" "le_int (253 # 2 # replicate 6 0) = 765" "le_int (0 # 2 # replicate 6 0) = 512"
  "take 2 (le_int_bytes 8 765) = [253, 2]" "take 2 (le_int_bytes 8 512) = [0, 2]" "take 2 (le_int_bytes 8 767) = [255, 2]"
  by (simp_all add: le_int_def zeros_6 le_int_bytes_def le_bytes_numeral)

theorem additive_writes_commute_witness:
  "\<exists>m2 n2. (let a = \<lparr>ab_location = 1, ab_size = 2, ab_access = int_additive, ab_versions = [(1, [255, 0])]\<rparr>;
            b = \<lparr>ab_location = 1, ab_size = 2, ab_access = int_additive, ab_versions = [(1, [2, 0])]\<rparr>
        in bind_result (wrToHeap a [7, 254, 1, 7] 1 9) (\<lambda>(_, m). wrToHeap b m 1 9) = Inr (b, m2) \<and>
           bind_result (wrToHeap b [7, 254, 1, 7] 1 9) (\<lambda>(_, m). wrToHeap a m 1 9) = Inr (a, n2)) \<and>
     m2 = n2 \<and> le_value (slice_of 1 2 m2) = (510 + 255 + 2) mod 256 ^ 2"
proof -
  let ?a = "\<lparr>ab_location = 1, ab_size = 2, ab_access = int_additive, ab_versions = [(1, [255, 0])]\<rparr>"
  let ?b = "\<lparr>ab_location = 1, ab_size = 2, ab_access = int_additive, ab_versions = [(1, [2, 0])]\<rparr>"
  let ?mem = "[7, 254, 1, 7] :: byte list"
  have run: "wrToHeap ?a ?mem 1 9 = Inr (?a, [7, 253, 2, 7])" "wrToHeap ?b [7, 253, 2, 7] 1 9 = Inr (?b, [7, 255, 2, 7])"
    "wrToHeap ?b ?mem 1 9 = Inr (?b, [7, 0, 2, 7])" "wrToHeap ?a [7, 0, 2, 7] 1 9 = Inr (?a, [7, 255, 2, 7])"
    by (simp_all add: wrToHeap_def syncTo_def isAdditive_def Let_def newest_def load_bytes_def store_bytes_def
        slice_of_def overwrite_def sum_samples)
  have "le_value (slice_of 1 2 [7, 255, 2, 7 :: byte]) = (510 + 255 + 2) mod 256 ^ 2"
    using additive_writes_commute [OF _ _ _ _ _ _ _ run]
    by (simp add: wf_block_def isAdditive_def slice_of_def syncTo_def block_view_def)
  then show ?thesis using run by (intro exI [of _ "[7, 255, 2, 7]"]) simp
qed

text \<open>A chunk's size changes only within what the request has declared: an expandable chunk grows
  up to its bound, a shrinkable one shrinks down to it, any other size change is refused, and after a
  successful change the new size is what is read back.\<close>

theorem resize_within_bounds:
  assumes "wf_modifier md" and "1 \<le> md_version md" and "md_chunk md = Some p" and "lookup_ci md p = Some ci"
    and "wf_block (ci_size ci) (size_mem (init_size h ci))" and "ab_size (ci_size ci) = 4"
    and "ab_access (ci_size ci) = (if ci_resizing ci = expandable \<or> ci_resizing ci = shrinkable
      then writable_access else read_only)"
    and "newSize < 2 ^ 32"
  defines "old \<equiv> le_value (block_view (ci_size ci) (size_mem (init_size h ci)) (md_version md))"
  shows "(if newSize = old \<or>
      (ci_resizing ci = expandable \<and> old < newSize \<and> newSize \<le> ci_sizeBound ci) \<or>
      (ci_resizing ci = shrinkable \<and> ci_sizeBound ci \<le> newSize \<and> newSize < old)
    then \<exists>md'. updateChunkSize md h newSize = Inr md' \<and> md_chunk md' = Some p \<and>
      (\<exists>md''. current_size md' h = Inr (newSize, md''))
    else updateChunkSize md h newSize = Inl Out_of_range)"
proof -
  let ?v = "md_version md" and ?ci = "init_size h ci"
  let ?view = "block_view (ci_size ci) (size_mem ?ci) ?v"
  let ?ci1 = "?ci\<lparr>ci_size := syncTo (ci_size ci) ?v\<rparr>"
  have ci: "get_chunk_info md p = Inr ci" using get_chunk_info_lookup [OF assms(1), of p] assms(4) by simp
  have t: "wf_keys (ci_table ci)" by (rule wf_table [OF assms(1) ci])
  have readable: "\<not> denies (ab_access (ci_size ci)) op_read" using assms(7) by simp
  have idem: "init_size h ?ci = ?ci" by (simp add: init_size_def)
  have lv: "length ?view = 4" using length_block_view [OF assms(5)] assms(6) by simp
  have read: "sizeBlock_read h ci ?v = Inr (old, ?ci1)"
    using block_read_wf [OF assms(5), of ?v 0 4] readable assms(6) lv
    by (simp add: sizeBlock_read_def Let_def old_def slice_of_def)
  have stored: "\<exists>md'. set_chunk_info md p (?ci\<lparr>ci_size := b\<rparr>) = Inr md' \<and> md_chunk md' = Some p \<and>
      (\<exists>md''. current_size md' h = Inr (le_value (block_view b (size_mem ?ci) ?v), md''))"
    if b: "wf_block b (size_mem ?ci)" "ab_size b = 4" "\<not> denies (ab_access b) op_read" for b
  proof -
    obtain md' where set: "set_chunk_info md p (?ci\<lparr>ci_size := b\<rparr>) = Inr md'"
      using set_chunk_info_ok [OF assms(1) ci] by blast
    have md': "wf_modifier md'" "lookup_ci md' p = Some (?ci\<lparr>ci_size := b\<rparr>)" "md_version md' = ?v"
      "md_chunk md' = Some p"
      using set_chunk_info_lookup [OF assms(1) set] t assms(3) by simp_all
    have ci': "get_chunk_info md' p = Inr (?ci\<lparr>ci_size := b\<rparr>)"
      using get_chunk_info_lookup [OF md'(1), of p] md'(2) by simp
    have "block_read b (size_mem (?ci\<lparr>ci_size := b\<rparr>)) ?v 0 4 = Inr (block_view b (size_mem ?ci) ?v, syncTo b ?v)"
      using block_read_wf [OF b(1), of ?v 0 4] b(2,3) length_block_view [OF b(1), of ?v]
      by (simp add: size_mem_def slice_of_def)
    then have "sizeBlock_read h (?ci\<lparr>ci_size := b\<rparr>) ?v =
        Inr (le_value (block_view b (size_mem ?ci) ?v), ?ci\<lparr>ci_size := syncTo b ?v\<rparr>)"
      by (simp add: sizeBlock_read_def Let_def idem)
    moreover obtain md'' where "set_chunk_info md' p (?ci\<lparr>ci_size := syncTo b ?v\<rparr>) = Inr md''"
      using set_chunk_info_ok [OF md'(1) ci'] by blast
    ultimately have "current_size md' h = Inr (le_value (block_view b (size_mem ?ci) ?v), md'')"
      by (simp add: current_size_def md'(3,4) ci')
    then show ?thesis using set md'(4) by blast
  qed
  show ?thesis
  proof (cases "newSize = old")
    case True
    have "block_view (syncTo (ci_size ci) ?v) (size_mem ?ci) ?v = ?view"
      by (cases "ab_versions (syncTo (ci_size ci) ?v)") (simp_all add: block_view_def syncTo_twice)
    then have "\<exists>md'. set_chunk_info md p ?ci1 = Inr md' \<and> md_chunk md' = Some p \<and>
        (\<exists>md''. current_size md' h = Inr (old, md''))"
      using stored [of "syncTo (ci_size ci) ?v"] wf_block_sync [OF assms(5)] assms(6) readable
      by (simp add: old_def)
    then show ?thesis using True by (simp add: updateChunkSize_def assms(3) ci read)
  next
    case ne: False
    show ?thesis
    proof (cases "(ci_resizing ci = expandable \<and> old < newSize \<and> newSize \<le> ci_sizeBound ci) \<or>
        (ci_resizing ci = shrinkable \<and> ci_sizeBound ci \<le> newSize \<and> newSize < old)")
      case True
      let ?b = "put_version (ci_size ci) ?v (le_bytes 4 newSize)"
      have acc: "ab_access (ci_size ci) = writable_access" using True assms(7) by auto
      have wfs: "wf_block (syncTo (ci_size ci) ?v) (size_mem ?ci)" by (rule wf_block_sync [OF assms(5)])
      have "block_write (syncTo (ci_size ci) ?v) (size_mem ?ci) ?v 0 (le_bytes 4 newSize) = Inr ?b"
        using block_write_wf [OF wfs assms(2), of 0 "le_bytes 4 newSize"] acc assms(6)
          length_block_view [OF wfs, of ?v]
        by (simp add: overwrite_def put_version_sync)
      then have "sizeBlock_write h ?ci1 ?v newSize = Inr (?ci\<lparr>ci_size := ?b\<rparr>)"
        by (simp add: sizeBlock_write_def Let_def idem size_mem_def)
      moreover have "wf_block ?b (size_mem ?ci)"
        using assms(2,5,6) by (intro wf_put_version) simp_all
      moreover have "le_value (le_bytes 4 newSize) = newSize"
        using assms(8) by (simp add: le_value_le_bytes)
      ultimately show ?thesis
        using True ne stored [of ?b] assms(6) readable
        by (auto simp: updateChunkSize_def assms(3) ci read block_view_put)
    next
      case False
      then have "updateChunkSize md h newSize = Inl Out_of_range"
        using ne by (cases "ci_resizing ci") (auto simp: updateChunkSize_def assms(3) ci read require_def)
      then show ?thesis using ne False by simp
    qed
  qed
qed

theorem resize_within_bounds_witness:
  "(\<exists>md'. updateChunkSize sample_modifier sample_heap 6 = Inr md' \<and>
      (\<exists>md''. current_size md' sample_heap = Inr (6, md''))) \<and>
   updateChunkSize sample_modifier sample_heap 9 = Inl Out_of_range \<and>
   updateChunkSize sample_modifier sample_heap 3 = Inl Out_of_range"
proof -
  let ?p = "(7 :: uint64, LongLongID 0 9)"
  obtain ci where ci: "lookup_ci sample_modifier ?p = Some ci" "ci_resizing ci = shrinkable" "ci_sizeBound ci = 4"
    "ci_size ci = \<lparr>ab_location = 0, ab_size = 4, ab_access = writable_access, ab_versions = []\<rparr>"
    "size_mem (init_size sample_heap ci) = [8, 0, 0, 0]"
  proof -
    have "size_mem (init_size sample_heap ci) = [8, 0, 0, 0]" if "ci_initialSize ci = - 1" for ci
      using that by (simp add: size_mem_def init_size_def getsize_def sample_heap_def le_bytes_numeral)
    then show thesis using that by (simp add: sample_lookup)
  qed
  have ver: "md_version sample_modifier = 1" "md_chunk sample_modifier = Some ?p"
    by (simp_all add: sample_modifier_def)
  have wf: "wf_block (ci_size ci) (size_mem (init_size sample_heap ci))" by (simp add: ci wf_block_def)
  have old: "le_value (block_view (ci_size ci) (size_mem (init_size sample_heap ci)) (md_version sample_modifier)) = 8"
    by (simp add: ci block_view_def syncTo_def slice_of_def)
  note r = resize_within_bounds [OF wf_sample_modifier _ ver(2) ci(1) wf, unfolded old]
  show ?thesis using r [of 6] r [of 9] r [of 3] by (auto simp: ci ver)
qed

text \<open>An application that has no declared chunks gets an empty context; loading a chunk in it, or
  asking for the size of a chunk before one has been loaded, dereferences a null pointer, while the
  access to a block checks for it.\<close>

theorem empty_context_dereferenced:
  assumes "wf_modifier md" and "app \<notin> set (osm_keys (md_apps md))"
  shows "loadChunk (loadContext md app) acc loc = Inl Undefined_behaviour \<and>
    getChunkSize (loadContext md app) h = Inl Undefined_behaviour \<and>
    updateChunkSize (loadContext md app) h n = Inl Undefined_behaviour \<and>
    modifier_load (loadContext md app) h offset i n = Inl Out_of_range"
proof -
  have "wf_keys (md_apps md)" using assms(1) by (simp add: wf_modifier_def)
  then have "osm_at (md_apps md) app = Inl Out_of_range"
    using osm.at_Inl osm_lookup_None assms(2) by blast
  then show ?thesis
    by (simp add: loadContext_def loadChunk_def getChunkSize_def updateChunkSize_def modifier_load_def with_block_def)
qed

theorem empty_context_dereferenced_witness:
  "loadChunk (loadContext sample_modifier 8) 0 9 = Inl Undefined_behaviour \<and>
    getChunkSize (loadContext sample_modifier 8) sample_heap = Inl Undefined_behaviour \<and>
    updateChunkSize (loadContext sample_modifier 8) sample_heap 4 = Inl Undefined_behaviour \<and>
    modifier_load (loadContext sample_modifier 8) sample_heap 0 0 4 = Inl Out_of_range"
  by (rule empty_context_dereferenced [OF wf_sample_modifier]) (simp add: sample_modifier_def)


text \<open>The first half of writing a chunk back: its new size, and what its bytes then are.\<close>

lemma chunk_resized:
  assumes "wf_chunk c" and "zero_tail c" and "c = h p" and "isWritable c"
    and "if resizing then n \<le> unat (ch_capacity c) else n = unat (ch_size c)"
  obtains c1 where
    "(if resizing then bind_result (setSize (h p) (word_of_nat n)) (\<lambda>c. Inr (h(p := c))) else Inr h) = Inr (h(p := c1))"
    "wf_chunk c1" "chunk_bytes c1 = fit_bytes n (chunk_bytes c)" "unat (ch_size c1) = n" "ch_capacity c1 = ch_capacity c"
    "ch_writable c1"
proof (cases resizing)
  case True
  then have n: "n \<le> unat (ch_capacity c)" using assms(5) by simp
  then have u: "unat (word_of_nat n :: uint32) = n" using wf_chunkD(3) [OF assms(1)] by (subst unat_of_nat) simp
  have "(word_of_nat n :: uint32) \<le> ch_capacity c" using n u by (simp add: word_le_nat_alt)
  from setSize_ok [OF assms(1,2) this] obtain c1 where "setSize c (word_of_nat n) = Inr c1" "wf_chunk c1"
    "zero_tail c1" "chunk_bytes c1 = fit_bytes n (chunk_bytes c)" "ch_size c1 = word_of_nat n"
    "ch_capacity c1 = ch_capacity c" "ch_writable c1 = ch_writable c" unfolding u by blast
  then show thesis using that [of c1] True u assms(3,4) by (simp add: isWritable_def)
next
  case False
  then have "n = unat (ch_size c)" using assms(5) by simp
  then show thesis
    using that [of c] False assms(1-4) length_chunk_bytes [OF assms(1)] fit_bytes_self [of "chunk_bytes c"]
    by (simp add: isWritable_def fun_upd_idem)
qed

lemma resized_content:
  assumes "wf_chunk c" "zero_tail c" "wf_chunk c1" "chunk_bytes c1 = fit_bytes n (chunk_bytes c)" "unat (ch_size c1) = n"
    and "ch_capacity c1 = ch_capacity c" "k < n"
  shows "ch_content c1 ! k = fit_bytes n (chunk_bytes c) ! k" "ch_content c1 ! k = ch_content c ! k"
proof -
  show below: "ch_content c1 ! k = fit_bytes n (chunk_bytes c) ! k"
    using assms(4,5,7) by (metis chunk_bytes_def nth_take)
  have "ch_content c ! k = fit_bytes (unat (ch_capacity c)) (chunk_bytes c) ! k"
    using chunk_content_split [OF assms(1,2)] length_chunk_bytes [OF assms(1)] wf_chunkD(2) [OF assms(1)]
    by (simp add: fit_bytes_def)
  also have "\<dots> = fit_bytes n (chunk_bytes c) ! k"
    using assms(5-7) wf_chunkD(1,2) [OF assms(3)] length_chunk_bytes [OF assms(1)] wf_chunkD(2) [OF assms(1)]
    by (auto simp: fit_bytes_def nth_append)
  finally show "ch_content c1 ! k = ch_content c ! k" using below by simp
qed

text \<open>The same bytes are written in front of \<open>n\<close> when only bytes behind have changed.\<close>

lemma written_in_front:
  assumes "\<forall>k < n. mem ! k = mem' ! k" "length mem = length mem'" "ab_location b = off" "off + ab_size b \<le> length mem"
  shows "take (min (ab_size b) (n - off)) (written_bytes b mem v) = take (min (ab_size b) (n - off)) (written_bytes b mem' v)"
proof -
  let ?m = "min (ab_size b) (n - off)" and ?S = "slice_of off (ab_size b) mem" and ?S' = "slice_of off (ab_size b) mem'"
  have same: "take ?m ?S = take ?m ?S'"
    by (rule nth_equalityI) (use assms in \<open>auto simp: slice_of_def\<close>)
  show ?thesis
  proof (cases "ab_versions (syncTo b v)")
    case Nil
    then show ?thesis using assms(3) same by (simp add: written_bytes_def block_view_def)
  next
    case (Cons x xs)
    have "le_value ?S mod 256 ^ ?m = le_value ?S' mod 256 ^ ?m" using same by (simp flip: le_value_take)
    then have "le_bytes ?m (le_value ?S + z) = le_bytes ?m (le_value ?S' + z)" for z
      by (intro le_bytes_cong) (metis mod_add_left_eq)
    moreover have "block_view b mem v = block_view b mem' v" using Cons by (simp add: block_view_def)
    ultimately show ?thesis using assms(3) by (simp add: written_bytes_def take_le_bytes)
  qed
qed

text \<open>C12: Writing back a writable chunk sets its size and stores, for every declared block below the new size and cut at
  it, the bytes the request sees in the block, or, in an additive block that the request has added to, the sum of the
  bytes in the chunk and the increment, modulo the block's width; every byte outside the blocks stays, no other chunk is
  touched, and the chunk keeps its invariant. The blocks do not overlap and additive ones have fewer than eight bytes:
  the signed sum of longer ones can overflow.\<close>

theorem chunk_written_back:
  assumes "wf_chunk c" and "zero_tail c" and "c = h (ci_ptr ci)" and "isWritable c"
    and "wf_block (ci_size ci) (size_mem (init_size h ci))" and "ab_size (ci_size ci) = 4"
    and "\<not> denies (ab_access (ci_size ci)) op_read"
    and "n = le_value (block_view (ci_size ci) (size_mem (init_size h ci)) v)"
    and "if ci_resizing ci = expandable \<or> ci_resizing ci = shrinkable then n \<le> unat (ch_capacity c)
      else n = unat (ch_size c)"
    and "disjoint_blocks (entries (ci_table ci))" and "wf_keys (ci_table ci)"
    and "\<forall>(off, b) \<in> set (entries (ci_table ci)). wf_block b (ch_content c) \<and> sum_fits b"
  shows "\<exists>ci' h'. write_chunk v h ci = Inr (ci', h') \<and> (\<forall>q. q \<noteq> ci_ptr ci \<longrightarrow> h' q = h q) \<and>
    wf_chunk (h' (ci_ptr ci)) \<and> unat (ch_size (h' (ci_ptr ci))) = n \<and>
    (\<forall>(off, b) \<in> set (entries (ci_table ci)). off < n \<longrightarrow>
      slice_of off (min (ab_size b) (n - off)) (chunk_bytes (h' (ci_ptr ci))) =
        take (min (ab_size b) (n - off)) (written_bytes b (ch_content c) v)) \<and>
    (\<forall>k < n. (\<forall>(off, b) \<in> set (entries (ci_table ci)). \<not> (off \<le> k \<and> k < off + ab_size b)) \<longrightarrow>
      chunk_bytes (h' (ci_ptr ci)) ! k = fit_bytes n (chunk_bytes c) ! k)"
proof -
  let ?ci = "init_size h ci" and ?p = "ci_ptr ci" and ?es = "entries (ci_table ci)"
  let ?ci1 = "?ci\<lparr>ci_size := syncTo (ci_size ci) v\<rparr>"
  have "length (block_view (ci_size ci) (size_mem ?ci) v) = 4"
    using length_block_view [OF assms(5)] assms(6) by simp
  then have read: "sizeBlock_read h ci v = Inr (n, ?ci1)"
    using block_read_wf [OF assms(5), of v 0 4] assms(6-8)
    by (simp add: sizeBlock_read_def Let_def slice_of_def)
  obtain c1 where
    h1: "(if ci_resizing ci = expandable \<or> ci_resizing ci = shrinkable
       then bind_result (setSize (h ?p) (word_of_nat n)) (\<lambda>c. Inr (h(?p := c))) else Inr h) = Inr (h(?p := c1))"
    and c1: "wf_chunk c1" "chunk_bytes c1 = fit_bytes n (chunk_bytes c)"
      "unat (ch_size c1) = n" "ch_capacity c1 = ch_capacity c" "ch_writable c1"
    by (rule chunk_resized [of c h ?p, OF assms(1-4,9)])
  have h1': "(if ci_resizing ?ci1 = expandable \<or> ci_resizing ?ci1 = shrinkable
       then bind_result (setSize (h (ci_ptr ?ci1)) (word_of_nat n)) (\<lambda>c. Inr (h(ci_ptr ?ci1 := c))) else Inr h) = Inr (h(?p := c1))"
  proof -
    have "ci_resizing ?ci1 = ci_resizing ci" "ci_ptr ?ci1 = ?p" by simp_all
    then show ?thesis using h1 by (simp only:)
  qed
  let ?mem = "ch_content c1"
  note front = resized_content [OF assms(1,2) c1(1-4)]
  have lmem: "length ?mem = length (ch_content c)" using wf_chunkD(1) [OF c1(1)] wf_chunkD(1) [OF assms(1)] c1(4) by simp
  have ln: "n \<le> length ?mem" using wf_chunkD(1,2) [OF c1(1)] c1(3) by simp
  have wfs: "\<forall>(off, b) \<in> set ?es. wf_block b ?mem \<and> sum_fits b"
    using assms(12) wf_block_length [OF _ lmem] by blast
  have sorted: "sorted_wrt (<) (map fst ?es)" using assms(11) by (simp add: wf_keys_def map_fst_entries)
  from write_blocks_commit [OF assms(10) sorted wfs, of v n] obtain bs mem' where
    wr: "write_blocks v n ?es ?mem = Inr (bs, mem')" "length mem' = length ?mem"
    and inb: "\<forall>(off, b) \<in> set ?es. off < n \<longrightarrow>
      slice_of off (min (ab_size b) (n - off)) mem' = take (min (ab_size b) (n - off)) (written_bytes b ?mem v)"
    and outb: "\<forall>k < length ?mem. (n \<le> k \<or> (\<forall>(off, b) \<in> set ?es. \<not> (off \<le> k \<and> k < off + ab_size b))) \<longrightarrow>
      mem' ! k = ?mem ! k"
    by blast
  let ?c2 = "c1\<lparr>ch_content := mem'\<rparr>"
  obtain ci2 where run: "write_chunk v h ci = Inr (ci2, h(?p := ?c2))"
  proof (cases "n = 0")
    case True
    have "mem' = ?mem" by (rule nth_equalityI) (use wr(2) outb True in auto)
    then have "?c2 = c1" by simp
    then show ?thesis
      using that [of ?ci1] True unfolding write_chunk_def read bind_result_simps prod.case h1' by simp
  next
    case False
    then show ?thesis
      using that [of "?ci1\<lparr>ci_table := (ci_table ci)\<lparr>osm_values := bs\<rparr>\<rparr>"] c1(5) wr(1)
      unfolding write_chunk_def read bind_result_simps prod.case h1' by (simp add: isWritable_def)
  qed
  have wf2: "wf_chunk ?c2" using c1(1) wr(2) by (simp add: wf_chunk_def)
  have cb: "chunk_bytes ?c2 = take n mem'" by (simp add: chunk_bytes_def c1(3))
  have "slice_of off (min (ab_size b) (n - off)) (chunk_bytes ?c2) =
      take (min (ab_size b) (n - off)) (written_bytes b (ch_content c) v)"
    if b: "(off, b) \<in> set ?es" "off < n" for off b
  proof -
    have loc: "ab_location b = off" by (rule disjoint_location [OF assms(10) b(1)])
    then have "off + ab_size b \<le> length ?mem" using wfs b(1) by (auto simp: wf_block_def)
    from written_in_front [OF _ lmem loc this, of n v] front(2) inb b show ?thesis
      unfolding cb by (auto simp: slice_of_def drop_take)
  qed
  moreover have "chunk_bytes ?c2 ! k = fit_bytes n (chunk_bytes c) ! k"
    if "k < n" "\<forall>(off, b) \<in> set ?es. \<not> (off \<le> k \<and> k < off + ab_size b)" for k
    using outb that ln front(1) cb by (auto simp: nth_take)
  ultimately show ?thesis using run wf2 c1(3) by (intro exI [of _ ci2] exI [of _ "h(?p := ?c2)"]) auto
qed

definition sample_written :: chunk_info where
  "sample_written = \<lparr>ci_table = \<lparr>osm_keys = [0, 4], osm_values =
      [\<lparr>ab_location = 0, ab_size = 4, ab_access = writable_access, ab_versions = [(1, [9, 9, 9, 9])]\<rparr>,
       \<lparr>ab_location = 4, ab_size = 4, ab_access = int_additive, ab_versions = [(2, [7, 7, 7, 7]), (1, [8, 0, 0, 0])]\<rparr>]\<rparr>,
    ci_ptr = 0, ci_resizing = shrinkable, ci_sizeBound = 4,
    ci_size = \<lparr>ab_location = 0, ab_size = 4, ab_access = writable_access, ab_versions = [(1, [6, 0, 0, 0])]\<rparr>,
    ci_initialSize = - 1\<rparr>"

theorem chunk_written_back_witness:
  "\<exists>ci' h'. write_chunk 1 sample_heap sample_written = Inr (ci', h') \<and>
    unat (ch_size (h' (ci_ptr sample_written))) = 6 \<and> wf_chunk (h' (ci_ptr sample_written)) \<and>
    slice_of 0 4 (chunk_bytes (h' 0)) = [9, 9, 9, 9] \<and> slice_of 4 2 (chunk_bytes (h' 0)) = [13, 6]"
proof -
  have n: "6 = le_value (block_view (ci_size sample_written) (size_mem (init_size sample_heap sample_written)) 1)"
    by code_simp
  have "wf_block (ci_size sample_written) (size_mem (init_size sample_heap sample_written))"
    "ab_size (ci_size sample_written) = 4" "\<not> denies (ab_access (ci_size sample_written)) op_read"
    "disjoint_blocks (entries (ci_table sample_written))" "wf_keys (ci_table sample_written)"
    "\<forall>(off, b) \<in> set (entries (ci_table sample_written)).
      wf_block b (ch_content (sample_heap (ci_ptr sample_written))) \<and> sum_fits b"
    "zero_tail (sample_heap (ci_ptr sample_written))" "isWritable (sample_heap (ci_ptr sample_written))"
    "if ci_resizing sample_written = expandable \<or> ci_resizing sample_written = shrinkable
     then 6 \<le> unat (ch_capacity (sample_heap (ci_ptr sample_written)))
     else 6 = unat (ch_size (sample_heap (ci_ptr sample_written)))"
    by code_simp+
  note facts = this
  have e: "entries (ci_table sample_written) =
      [(0, \<lparr>ab_location = 0, ab_size = 4, ab_access = writable_access, ab_versions = [(1, [9, 9, 9, 9])]\<rparr>),
       (4, \<lparr>ab_location = 4, ab_size = 4, ab_access = int_additive, ab_versions = [(2, [7, 7, 7, 7]), (1, [8, 0, 0, 0])]\<rparr>)]"
    "ci_ptr sample_written = 0" by code_simp+
  have w: "written_bytes \<lparr>ab_location = 0, ab_size = 4, ab_access = writable_access, ab_versions = [(1, [9, 9, 9, 9])]\<rparr>
      (ch_content (sample_heap 0)) 1 = [9, 9, 9, 9]"
    "written_bytes \<lparr>ab_location = 4, ab_size = 4, ab_access = int_additive, ab_versions = [(2, [7, 7, 7, 7]), (1, [8, 0, 0, 0])]\<rparr>
      (ch_content (sample_heap 0)) 1 = [13, 6, 7, 8]"
    by (simp_all add: written_bytes_def block_view_def syncTo_def isAdditive_def sample_heap_def slice_of_def le_bytes_numeral)
  show ?thesis
    using chunk_written_back [OF wf_sample_heap facts(7) refl facts(8) facts(1-3) n facts(9,4-6)] w
    unfolding e by auto
qed

end
