(* ===== verification/Scheduler.thy ===== *)
theory Scheduler
  imports Modifier
begin

text \<open>
  Scheduling of the requests of a block, \<^verbatim>\<open>src/util/BlockingQueue.hpp\<close>,
  \<^verbatim>\<open>src/validator/RequestScheduler.h\<close> and \<^verbatim>\<open>RequestScheduler.cpp\<close>, and the parallel
  execution loop of \<^verbatim>\<open>src/validator/RequestProcessor.hpp\<close>. Requests are executed in the order of
  the proposed execution graph: a node is handed out when its in-degree has dropped to zero.

  A pointer to a \<^verbatim>\<open>DagNode\<close> is the index of the node, adjacency lists are lists in the order in which
  the hash set is traversed, and the part of a request that the scheduler does not look at is the
  type variable \<open>'r\<close>. Threads are interleaved: a step of the pool is one atomic action of one worker.
\<close>


section \<open>The blocking queue\<close>

record 'a blocking_queue =
  content :: "'a list"
  producerCount :: int

definition BlockingQueue :: "'a blocking_queue" where
  "BlockingQueue = \<lparr>content = [], producerCount = 0\<rparr>"

definition enqueue :: "'a \<Rightarrow> 'a blocking_queue \<Rightarrow> 'a blocking_queue" where
  "enqueue v q = q\<lparr>content := content q @ [v]\<rparr>"

text \<open>\<open>None\<close>: the caller waits on the condition variable.\<close>

definition blockingDequeue ::
  "bool \<Rightarrow> 'a blocking_queue \<Rightarrow> ('a \<times> 'a blocking_queue) result option" where
  "blockingDequeue withProducer q =
    (if content q = [] \<and> producerCount q > 0 then None
     else Some (case content q of
                  [] \<Rightarrow> Inl Underflow_error
                | v # vs \<Rightarrow>
                    Inr (v, q\<lparr>content := vs,
                              producerCount := producerCount q + (if withProducer then 1 else 0)\<rparr>)))"

definition addProducer :: "'a blocking_queue \<Rightarrow> 'a blocking_queue" where
  "addProducer q = q\<lparr>producerCount := producerCount q + 1\<rparr>"

definition removeProducer :: "'a blocking_queue \<Rightarrow> 'a blocking_queue" where
  "removeProducer q = q\<lparr>producerCount := producerCount q - 1\<rparr>"

definition isEmpty :: "'a blocking_queue \<Rightarrow> bool" where
  "isEmpty q \<longleftrightarrow> content q = []"

section \<open>Nodes of the execution graph\<close>

record 'r dag_node =
  nd_request :: 'r
  nd_attachments :: "nat list"
  nd_adjList :: "nat list"
  nd_inDegree :: int

definition decrementInDegree :: "'r dag_node \<Rightarrow> 'r dag_node result" where
  "decrementInDegree nd =
    bind_result (require (nd_inDegree nd > 0) Assert_failed) (\<lambda>_.
      Inr (nd\<lparr>nd_inDegree := nd_inDegree nd - 1\<rparr>))"

definition incrementInDegree :: "'r dag_node \<Rightarrow> 'r dag_node" where
  "incrementInDegree nd = nd\<lparr>nd_inDegree := nd_inDegree nd + 1\<rparr>"

definition node_isAdjacent :: "'r dag_node \<Rightarrow> nat \<Rightarrow> bool" where
  "node_isAdjacent nd other \<longleftrightarrow> other \<in> set (nd_adjList nd)"

section \<open>The scheduler\<close>

record 'r scheduler =
  sc_remaining :: int
  sc_zeroQueue :: "nat blocking_queue"
  sc_nodeIndex :: "'r dag_node option list"
  sc_accessMaps :: "AccessMapType list"

definition RequestScheduler :: "nat \<Rightarrow> 'r scheduler" where
  "RequestScheduler totalRequestCount =
    \<lparr>sc_remaining = int totalRequestCount, sc_zeroQueue = BlockingQueue,
     sc_nodeIndex = replicate totalRequestCount None,
     sc_accessMaps = replicate totalRequestCount \<lparr>osm_keys = [], osm_values = []\<rparr>\<rparr>"

text \<open>\<^verbatim>\<open>*nodeIndex[i]\<close> and assigning it.\<close>

definition node_at :: "'r scheduler \<Rightarrow> nat \<Rightarrow> 'r dag_node result" where
  "node_at s i =
    (if i < length (sc_nodeIndex s)
     then case sc_nodeIndex s ! i of None \<Rightarrow> Inl Undefined_behaviour | Some nd \<Rightarrow> Inr nd
     else Inl Undefined_behaviour)"

definition set_node :: "'r scheduler \<Rightarrow> nat \<Rightarrow> 'r dag_node option \<Rightarrow> 'r scheduler" where
  "set_node s i nd = s\<lparr>sc_nodeIndex := (sc_nodeIndex s)[i := nd]\<rparr>"

definition nextRequest :: "'r scheduler \<Rightarrow> (nat option \<times> 'r scheduler) result option" where
  "nextRequest s =
    (case blockingDequeue True (sc_zeroQueue s) of
       None \<Rightarrow> None
     | Some (Inl _) \<Rightarrow> Some (if sc_remaining s \<noteq> 0 then Inl Block_error else Inr (None, s))
     | Some (Inr (i, q)) \<Rightarrow> Some (Inr (Some i, s\<lparr>sc_zeroQueue := q\<rparr>)))"

text \<open>The atomic parts of \<^verbatim>\<open>submitResult\<close>: the check of the status, one decrement of an in-degree
  (and whether it is zero now), the enqueueing of a node, and the three last statements.\<close>

definition checkStatus :: "'r dag_node \<Rightarrow> int \<Rightarrow> unit result" where
  "checkStatus nd statusCode =
    require (\<not> (statusCode > 400 \<and> nd_attachments nd \<noteq> [])) Block_error"

definition decrement_at :: "'r scheduler \<Rightarrow> nat \<Rightarrow> (bool \<times> 'r scheduler) result" where
  "decrement_at s v =
    bind_result (node_at s v) (\<lambda>nd.
    bind_result (decrementInDegree nd) (\<lambda>nd'.
      Inr (nd_inDegree nd' = 0, set_node s v (Some nd'))))"

definition enqueue_node :: "'r scheduler \<Rightarrow> nat \<Rightarrow> 'r scheduler" where
  "enqueue_node s v = s\<lparr>sc_zeroQueue := enqueue v (sc_zeroQueue s)\<rparr>"

definition count_request :: "'r scheduler \<Rightarrow> 'r scheduler" where
  "count_request s = s\<lparr>sc_remaining := sc_remaining s - 1\<rparr>"

definition leave_queue :: "'r scheduler \<Rightarrow> 'r scheduler" where
  "leave_queue s = s\<lparr>sc_zeroQueue := removeProducer (sc_zeroQueue s)\<rparr>"

fun release_nodes :: "'r scheduler \<Rightarrow> nat list \<Rightarrow> 'r scheduler result" where
  "release_nodes s [] = Inr s"
| "release_nodes s (v # vs) =
    bind_result (decrement_at s v) (\<lambda>(zero, s').
      release_nodes (if zero then enqueue_node s' v else s') vs)"

definition submitResult :: "'r scheduler \<Rightarrow> nat \<Rightarrow> int \<Rightarrow> 'r scheduler result" where
  "submitResult s reqID statusCode =
    bind_result (node_at s reqID) (\<lambda>reqNode.
    bind_result (checkStatus reqNode statusCode) (\<lambda>_.
    bind_result (release_nodes s (nd_adjList reqNode)) (\<lambda>s1.
      Inr (leave_queue (count_request (set_node s1 reqID None))))))"

fun increment_nodes :: "'r scheduler \<Rightarrow> nat list \<Rightarrow> 'r scheduler result" where
  "increment_nodes s [] = Inr s"
| "increment_nodes s (v # vs) =
    bind_result (node_at s v) (\<lambda>nd. increment_nodes (set_node s v (Some (incrementInDegree nd))) vs)"

text \<open>\<^verbatim>\<open>injectDigest\<close> has an empty body; what is left of its loop are the dereferences.\<close>

fun deref_nodes :: "'r scheduler \<Rightarrow> nat list \<Rightarrow> unit result" where
  "deref_nodes s [] = Inr ()"
| "deref_nodes s (v # vs) = bind_result (node_at s v) (\<lambda>_. deref_nodes s vs)"

definition finalizeRequest :: "'r scheduler \<Rightarrow> nat \<Rightarrow> 'r scheduler result" where
  "finalizeRequest s i =
    bind_result (node_at s i) (\<lambda>nd.
    bind_result (increment_nodes s (nd_adjList nd)) (\<lambda>s'.
    bind_result (deref_nodes s' (nd_attachments nd)) (\<lambda>_. Inr s')))"

fun buildExecDag_loop :: "'r scheduler \<Rightarrow> nat list \<Rightarrow> 'r scheduler result" where
  "buildExecDag_loop s [] = Inr s"
| "buildExecDag_loop s (i # is) =
    bind_result (node_at s i) (\<lambda>nd.
      if nd_inDegree nd = 0 then buildExecDag_loop (enqueue_node s i) is else Inr s)"

definition buildExecDag :: "'r scheduler \<Rightarrow> 'r scheduler result" where
  "buildExecDag s =
    bind_result (buildExecDag_loop s [0..<nat (sc_remaining s)]) (\<lambda>s'.
      bind_result (require (\<not> isEmpty (sc_zeroQueue s')) Block_error) (\<lambda>_. Inr s'))"

definition requestAt :: "'r scheduler \<Rightarrow> nat \<Rightarrow> 'r result" where
  "requestAt s i = bind_result (node_at s i) (\<lambda>nd. Inr (nd_request nd))"

definition sortAccessBlocks :: "'r scheduler \<Rightarrow> nat \<Rightarrow> AccessMapType result" where
  "sortAccessBlocks s workersCount = merge_access_maps (sc_accessMaps s) workersCount"

definition isAdjacent :: "'r scheduler \<Rightarrow> nat \<Rightarrow> nat \<Rightarrow> bool result" where
  "isAdjacent s u v = bind_result (node_at s u) (\<lambda>nd. Inr (node_isAdjacent nd v))"

section \<open>Parallel execution\<close>

text \<open>
  The workers of \<^verbatim>\<open>RequestProcessor::parallelExecuteRequests\<close>. Each constructor is a point between
  two atomic actions of the loop of a worker: a locked operation of the queue, an atomic counter, or
  a write to the worker's own node or response.
\<close>

datatype worker =
    Fetching
  | Executing nat
  | Releasing nat "nat list"
  | Pushing nat nat "nat list"
  | Resetting nat
  | Counting
  | Leaving
  | Returned
  | Rejected
  | Aborted exn

record 'r pool =
  pl_sched :: "'r scheduler"
  pl_workers :: "worker list"
  pl_responses :: "int option list"

definition start_pool :: "'r scheduler \<Rightarrow> nat \<Rightarrow> 'r pool" where
  "start_pool s workersCount =
    \<lparr>pl_sched = s, pl_workers = replicate workersCount Fetching,
     pl_responses = replicate (length (sc_nodeIndex s)) None\<rparr>"

text \<open>One action of worker \<open>i\<close>; \<open>res\<close> is what the execution of its request ends in, used only when it
  executes one. \<open>None\<close>: the worker waits or has ended.\<close>

definition worker_step :: "int result \<Rightarrow> nat \<Rightarrow> 'r pool \<Rightarrow> 'r pool option" where
  "worker_step res i p =
    (let s = pl_sched p;
         go = (\<lambda>s' w. Some (p\<lparr>pl_sched := s', pl_workers := (pl_workers p)[i := w]\<rparr>))
     in case pl_workers p ! i of
          Fetching \<Rightarrow>
            (case nextRequest s of
               None \<Rightarrow> None
             | Some (Inl _) \<Rightarrow> go s Rejected
             | Some (Inr (None, s')) \<Rightarrow> go s' Returned
             | Some (Inr (Some v, s')) \<Rightarrow> go s' (Executing v))
        | Executing v \<Rightarrow>
            (case res of
               Inl e \<Rightarrow> go s (Aborted e)
             | Inr statusCode \<Rightarrow>
                 (case bind_result (node_at s v) (\<lambda>nd.
                         bind_result (checkStatus nd statusCode) (\<lambda>_. Inr (nd_adjList nd))) of
                    Inl e \<Rightarrow> Some (p\<lparr>pl_workers := (pl_workers p)[i := Aborted e],
                                     pl_responses := (pl_responses p)[v := Some statusCode]\<rparr>)
                  | Inr adj \<Rightarrow> Some (p\<lparr>pl_workers := (pl_workers p)[i := Releasing v adj],
                                       pl_responses := (pl_responses p)[v := Some statusCode]\<rparr>)))
        | Releasing v [] \<Rightarrow> go s (Resetting v)
        | Releasing v (u # us) \<Rightarrow>
            (case decrement_at s u of
               Inl e \<Rightarrow> go s (Aborted e)
             | Inr (zero, s') \<Rightarrow> go s' (if zero then Pushing v u us else Releasing v us))
        | Pushing v u us \<Rightarrow> go (enqueue_node s u) (Releasing v us)
        | Resetting v \<Rightarrow> go (set_node s v None) Counting
        | Counting \<Rightarrow> go (count_request s) Leaving
        | Leaving \<Rightarrow> go (leave_queue s) Fetching
        | Returned \<Rightarrow> None
        | Rejected \<Rightarrow> None
        | Aborted e \<Rightarrow> None)"

text \<open>\<open>outcome v res\<close>: executing request \<open>v\<close> can end in \<open>res\<close>.\<close>

inductive pool_step :: "(nat \<Rightarrow> int result \<Rightarrow> bool) \<Rightarrow> 'r pool \<Rightarrow> 'r pool \<Rightarrow> bool"
  for outcome :: "nat \<Rightarrow> int result \<Rightarrow> bool"
  where
    step: "i < length (pl_workers p) \<Longrightarrow> worker_step res i p = Some p' \<Longrightarrow>
      (\<And>v. pl_workers p ! i = Executing v \<Longrightarrow> outcome v res) \<Longrightarrow> pool_step outcome p p'"

inductive pool_reach :: "(nat \<Rightarrow> int result \<Rightarrow> bool) \<Rightarrow> 'r pool \<Rightarrow> 'r pool \<Rightarrow> bool"
  for outcome :: "nat \<Rightarrow> int result \<Rightarrow> bool" and p0 :: "'r pool"
  where
    start: "pool_reach outcome p0 p0"
  | more: "pool_reach outcome p0 p \<Longrightarrow> pool_step outcome p p' \<Longrightarrow> pool_reach outcome p0 p'"

inductive_cases pool_stepE: "pool_step outcome p p'"

text \<open>A schedule: which worker moves next, and what executing its request ends in.\<close>

fun pool_run :: "(nat \<times> int result) list \<Rightarrow> 'r pool \<Rightarrow> 'r pool" where
  "pool_run [] p = p"
| "pool_run ((i, res) # rest) p =
    (case worker_step res i p of None \<Rightarrow> pool_run rest p | Some p' \<Rightarrow> pool_run rest p')"


section \<open>Sums over the workers\<close>

definition total :: "('a \<Rightarrow> int) \<Rightarrow> 'a list \<Rightarrow> int" where
  "total f xs = sum_list (map f xs)"

lemma total_simps [simp]:
  "total f [] = 0" "total f (x # xs) = f x + total f xs" "total f (xs @ ys) = total f xs + total f ys"
  by (simp_all add: total_def)

lemma total_update:
  "i < length xs \<Longrightarrow> total f (xs[i := x]) = total f xs - f (xs ! i) + f x"
  by (induction xs arbitrary: i) (auto simp: nth_Cons split: nat.split)

lemma total_nonneg: "(\<And>x. 0 \<le> f x) \<Longrightarrow> 0 \<le> total f xs"
  by (induction xs) (auto intro: add_nonneg_nonneg)

lemma total_ge: "(\<And>x. 0 \<le> f x) \<Longrightarrow> x \<in> set xs \<Longrightarrow> f x \<le> total f xs"
  by (induction xs) (auto simp: add_increasing add_increasing2 total_nonneg)

lemma total_zero: "(\<And>x. 0 \<le> f x) \<Longrightarrow> total f xs = 0 \<Longrightarrow> x \<in> set xs \<Longrightarrow> f x = 0"
  using total_ge [of f x xs] by (metis order_antisym)

lemma total_pos: "total f xs > 0 \<Longrightarrow> \<exists>x \<in> set xs. f x > 0"
proof (rule ccontr)
  assume "total f xs > 0" "\<not> (\<exists>x \<in> set xs. f x > 0)"
  then have "\<forall>x \<in> set xs. f x \<le> 0" by auto
  then have "total f xs \<le> 0" by (induction xs) auto
  with \<open>total f xs > 0\<close> show False by simp
qed

lemma total_replicate: "total f (replicate n x) = int n * f x"
  by (induction n) (simp_all add: algebra_simps)

section \<open>The invariant of the pool\<close>

definition occ :: "'a list \<Rightarrow> 'a \<Rightarrow> int" where
  "occ xs v = int (count_list xs v)"

lemma occ_simps [simp]:
  "occ [] v = 0" "occ (x # xs) v = of_bool (x = v) + occ xs v" "occ (xs @ ys) v = occ xs v + occ ys v"
  by (simp_all add: occ_def)

lemma occ_nonneg [simp]: "0 \<le> occ xs v" by (simp add: occ_def)

lemma occ_pos_iff: "0 < occ xs v \<longleftrightarrow> v \<in> set xs"
  by (induction xs) (auto simp: add_pos_nonneg add_nonneg_pos)

text \<open>The nodes that a worker still has to decrement, the nodes it holds the token of, and whether it
  is inside \<^verbatim>\<open>submitResult\<close> or holds a producer.\<close>

fun w_pending :: "worker \<Rightarrow> nat list" where
  "w_pending (Releasing v us) = us"
| "w_pending (Pushing v u us) = us"
| "w_pending _ = []"

fun w_token :: "worker \<Rightarrow> nat list" where
  "w_token (Executing v) = [v]"
| "w_token (Pushing v u us) = [u]"
| "w_token _ = []"

fun w_submitting :: "worker \<Rightarrow> int" where
  "w_submitting (Releasing v us) = 1"
| "w_submitting (Pushing v u us) = 1"
| "w_submitting (Resetting v) = 1"
| "w_submitting Counting = 1"
| "w_submitting _ = 0"

fun w_producer :: "worker \<Rightarrow> int" where
  "w_producer Fetching = 0"
| "w_producer Returned = 0"
| "w_producer Rejected = 0"
| "w_producer _ = 1"

text \<open>The nodes of a worker exist, and inside \<^verbatim>\<open>submitResult\<close> its request has a response.\<close>

fun wf_worker :: "nat \<Rightarrow> int option list \<Rightarrow> worker \<Rightarrow> bool" where
  "wf_worker n rs (Executing v) = (v < n)"
| "wf_worker n rs (Releasing v us) = (v < n \<and> rs ! v \<noteq> None \<and> set us \<subseteq> {..<n})"
| "wf_worker n rs (Pushing v u us) = (v < n \<and> rs ! v \<noteq> None \<and> u < n \<and> set us \<subseteq> {..<n})"
| "wf_worker n rs (Resetting v) = (v < n \<and> rs ! v \<noteq> None)"
| "wf_worker n rs _ = True"

lemma wf_worker_response:
  assumes "wf_worker n rs w" "length rs = n"
  shows "wf_worker n (rs[v := Some st]) w"
proof -
  have "rs ! x \<noteq> None \<Longrightarrow> x < n \<Longrightarrow> rs[v := Some st] ! x \<noteq> None" for x
    using assms(2) by (cases "x = v") auto
  then show ?thesis using assms(1) by (cases w) auto
qed

fun is_aborted :: "worker \<Rightarrow> bool" where
  "is_aborted (Aborted e) = True"
| "is_aborted _ = False"

lemma w_nonneg [simp]: "0 \<le> w_submitting w" "0 \<le> w_producer w"
  by (cases w; simp)+

definition degree :: "'r scheduler \<Rightarrow> nat \<Rightarrow> int" where
  "degree s v = (case sc_nodeIndex s ! v of None \<Rightarrow> 0 | Some nd \<Rightarrow> nd_inDegree nd)"

definition load :: "nat list list \<Rightarrow> 'r pool \<Rightarrow> nat \<Rightarrow> int" where
  "load A p v =
    total (\<lambda>(adj, r). if r = None then occ adj v else 0) (zip A (pl_responses p)) +
    total (\<lambda>w. occ (w_pending w) v) (pl_workers p)"

definition tokens :: "'r pool \<Rightarrow> nat \<Rightarrow> int" where
  "tokens p v = occ (content (sc_zeroQueue (pl_sched p))) v +
    total (\<lambda>w. occ (w_token w) v) (pl_workers p) +
    of_bool (pl_responses p ! v \<noteq> None) + of_bool (degree (pl_sched p) v > 0)"

definition unanswered :: "'r pool \<Rightarrow> int" where
  "unanswered p = total (\<lambda>r. of_bool (r = None)) (pl_responses p)"

definition wf_node :: "nat list \<Rightarrow> int option \<Rightarrow> 'r dag_node option \<Rightarrow> bool" where
  "wf_node adj r nd \<longleftrightarrow>
    (case nd of None \<Rightarrow> r \<noteq> None | Some d \<Rightarrow> nd_adjList d = adj \<and> 0 \<le> nd_inDegree d)"

definition wf_pool :: "nat list list \<Rightarrow> 'r pool \<Rightarrow> bool" where
  "wf_pool A p \<longleftrightarrow>
    length (sc_nodeIndex (pl_sched p)) = length A \<and> length (pl_responses p) = length A \<and>
    (\<forall>v < length A. set (A ! v) \<subseteq> {..<length A}) \<and>
    (\<forall>v < length A. wf_node (A ! v) (pl_responses p ! v) (sc_nodeIndex (pl_sched p) ! v)) \<and>
    set (content (sc_zeroQueue (pl_sched p))) \<subseteq> {..<length A} \<and>
    (\<forall>w \<in> set (pl_workers p). wf_worker (length A) (pl_responses p) w)"

definition safe_pool :: "nat list list \<Rightarrow> 'r pool \<Rightarrow> bool" where
  "safe_pool A p \<longleftrightarrow> wf_pool A p \<and>
    (\<forall>v < length A. load A p v \<le> degree (pl_sched p) v \<and> tokens p v \<le> 1) \<and>
    producerCount (sc_zeroQueue (pl_sched p)) = total w_producer (pl_workers p) \<and>
    unanswered p + total w_submitting (pl_workers p) \<le> sc_remaining (pl_sched p)"

text \<open>\<open>skip\<close>: the nodes without predecessors that \<^verbatim>\<open>buildExecDag\<close> did not reach.\<close>

definition exact_pool :: "nat list list \<Rightarrow> nat set \<Rightarrow> 'r pool \<Rightarrow> bool" where
  "exact_pool A skip p \<longleftrightarrow>
    (\<forall>w \<in> set (pl_workers p). \<not> is_aborted w) \<and>
    (\<forall>v < length A. load A p v = degree (pl_sched p) v \<and> tokens p v = (if v \<in> skip then 0 else 1)) \<and>
    sc_remaining (pl_sched p) = unanswered p + total w_submitting (pl_workers p)"

lemma of_bool_le_0 [simp]: "of_bool b \<le> (0 :: int) \<longleftrightarrow> \<not> b" by (cases b) simp_all

lemma load_nonneg: "0 \<le> load A p v"
  by (auto simp: load_def intro!: add_nonneg_nonneg total_nonneg split: prod.splits)

lemma tokens_parts:
  assumes "tokens p v \<le> 1"
  shows "i < length (pl_workers p) \<Longrightarrow> v \<in> set (w_token (pl_workers p ! i)) \<Longrightarrow>
      v \<notin> set (content (sc_zeroQueue (pl_sched p))) \<and> pl_responses p ! v = None \<and> degree (pl_sched p) v \<le> 0"
    and "v \<in> set (content (sc_zeroQueue (pl_sched p))) \<Longrightarrow>
      pl_responses p ! v = None \<and> degree (pl_sched p) v \<le> 0"
    and "degree (pl_sched p) v > 0 \<Longrightarrow> pl_responses p ! v = None"
proof -
  let ?q = "occ (content (sc_zeroQueue (pl_sched p))) v"
  let ?w = "total (\<lambda>w. occ (w_token w) v) (pl_workers p)"
  let ?r = "of_bool (pl_responses p ! v \<noteq> None) :: int"
  let ?d = "of_bool (degree (pl_sched p) v > 0) :: int"
  have le: "?q + ?w + ?r + ?d \<le> 1" using assms by (simp only: tokens_def)
  have w0: "0 \<le> ?w" by (rule total_nonneg) simp
  have q0: "0 \<le> ?q" and r0: "0 \<le> ?r" and d0: "0 \<le> ?d" by simp_all
  {
    assume i: "i < length (pl_workers p)" "v \<in> set (w_token (pl_workers p ! i))"
    have "occ (w_token (pl_workers p ! i)) v \<le> ?w"
      by (rule total_ge [of "\<lambda>w. occ (w_token w) v" "pl_workers p ! i" "pl_workers p"]) (use i in auto)
    moreover have "0 < occ (w_token (pl_workers p ! i)) v" using i by (simp add: occ_pos_iff)
    ultimately have "?q \<le> 0" "?r \<le> 0" "?d \<le> 0" using le q0 r0 d0 by linarith+
    then show "v \<notin> set (content (sc_zeroQueue (pl_sched p))) \<and> pl_responses p ! v = None \<and>
        degree (pl_sched p) v \<le> 0"
      using occ_pos_iff [of "content (sc_zeroQueue (pl_sched p))" v] by (auto split: if_splits)
  }
  {
    assume "v \<in> set (content (sc_zeroQueue (pl_sched p)))"
    then have "0 < ?q" by (simp add: occ_pos_iff)
    then have "?r \<le> 0" "?d \<le> 0" using le w0 r0 d0 by linarith+
    then show "pl_responses p ! v = None \<and> degree (pl_sched p) v \<le> 0" by (auto split: if_splits)
  }
  assume "degree (pl_sched p) v > 0"
  then have "?d = 1" by simp
  then have "?r \<le> 0" using le w0 q0 by linarith
  then show "pl_responses p ! v = None" by (auto split: if_splits)
qed

text \<open>An action that aborts no worker conserves what the invariants compare.\<close>

definition balance :: "nat list list \<Rightarrow> 'r pool \<Rightarrow> nat \<Rightarrow> int" where
  "balance A p v = degree (pl_sched p) v - load A p v"

definition producer_balance :: "'r pool \<Rightarrow> int" where
  "producer_balance p = producerCount (sc_zeroQueue (pl_sched p)) - total w_producer (pl_workers p)"

definition request_balance :: "'r pool \<Rightarrow> int" where
  "request_balance p = sc_remaining (pl_sched p) - unanswered p - total w_submitting (pl_workers p)"

lemmas balances = balance_def producer_balance_def request_balance_def

lemma safe_pool_balance:
  "safe_pool A p \<longleftrightarrow> wf_pool A p \<and> (\<forall>v < length A. 0 \<le> balance A p v \<and> tokens p v \<le> 1) \<and>
    producer_balance p = 0 \<and> 0 \<le> request_balance p"
  by (auto simp: safe_pool_def balances)

lemma exact_pool_balance:
  "exact_pool A skip p \<longleftrightarrow> (\<forall>w \<in> set (pl_workers p). \<not> is_aborted w) \<and>
    (\<forall>v < length A. balance A p v = 0 \<and> tokens p v = (if v \<in> skip then 0 else 1)) \<and>
    request_balance p = 0"
  by (auto simp: exact_pool_def balances)

definition conserved :: "nat list list \<Rightarrow> 'r pool \<Rightarrow> 'r pool \<Rightarrow> bool" where
  "conserved A p p' \<longleftrightarrow> wf_pool A p' \<and>
    (\<forall>v < length A. balance A p' v = balance A p v \<and> tokens p' v = tokens p v) \<and>
    producer_balance p' = producer_balance p \<and> request_balance p' = request_balance p \<and>
    (\<forall>w \<in> set (pl_workers p'). is_aborted w \<longrightarrow> w \<in> set (pl_workers p))"

lemma conserved_safe: "conserved A p p' \<Longrightarrow> safe_pool A p \<Longrightarrow> safe_pool A p'"
  by (auto simp: conserved_def safe_pool_balance)

lemma conserved_exact: "conserved A p p' \<Longrightarrow> exact_pool A skip p \<Longrightarrow> exact_pool A skip p'"
  by (auto simp: conserved_def exact_pool_balance)

lemma wf_poolD:
  assumes "wf_pool A p"
  shows "length (sc_nodeIndex (pl_sched p)) = length A" "length (pl_responses p) = length A"
    "v < length A \<Longrightarrow> set (A ! v) \<subseteq> {..<length A}"
    "v < length A \<Longrightarrow> sc_nodeIndex (pl_sched p) ! v = None \<Longrightarrow> pl_responses p ! v \<noteq> None"
    "v < length A \<Longrightarrow> sc_nodeIndex (pl_sched p) ! v = Some nd \<Longrightarrow> nd_adjList nd = A ! v \<and> 0 \<le> nd_inDegree nd"
    "v \<in> set (content (sc_zeroQueue (pl_sched p))) \<Longrightarrow> v < length A"
    "i < length (pl_workers p) \<Longrightarrow> wf_worker (length A) (pl_responses p) (pl_workers p ! i)"
proof -
  assume i: "i < length (pl_workers p)"
  then have "pl_workers p ! i \<in> set (pl_workers p)" by simp
  then show "wf_worker (length A) (pl_responses p) (pl_workers p ! i)"
    using assms unfolding wf_pool_def by blast
qed (use assms in \<open>auto simp: wf_pool_def wf_node_def split: option.splits\<close>)

lemma wf_pool_worker:
  assumes "wf_pool A p" "wf_worker (length A) (pl_responses p) w"
  shows "wf_pool A (p\<lparr>pl_workers := (pl_workers p)[i := w]\<rparr>)"
  using assms set_update_subset_insert [of "pl_workers p" i w] by (fastforce simp: wf_pool_def)

lemma aborted_update:
  "\<not> is_aborted w \<Longrightarrow> x \<in> set (ws[i := w]) \<Longrightarrow> is_aborted x \<Longrightarrow> x \<in> set ws"
  using set_update_subset_insert [of ws i w] by auto

lemmas pool_measures = balances load_def tokens_def unanswered_def

text \<open>An action that only moves the worker on, with the same pending nodes and tokens.\<close>

lemma conserved_worker:
  assumes "wf_pool A p" "i < length (pl_workers p)"
    and "w_pending w = w_pending (pl_workers p ! i)" "w_token w = w_token (pl_workers p ! i)"
    and "w_submitting w = w_submitting (pl_workers p ! i)" "w_producer w = w_producer (pl_workers p ! i)"
    and "wf_worker (length A) (pl_responses p) w" "\<not> is_aborted w"
  shows "conserved A p (p\<lparr>pl_workers := (pl_workers p)[i := w]\<rparr>)"
proof -
  from wf_pool_worker [OF assms(1,7)] show ?thesis
    unfolding conserved_def pool_measures
    by (intro conjI allI impI ballI; use assms(2-6) aborted_update [OF assms(8)] in \<open>simp add: total_update\<close>)
qed

text \<open>An action that changes the queue and the counters besides.\<close>

lemma conserved_queue:
  assumes "wf_pool A p" "i < length (pl_workers p)" "s' = (pl_sched p)\<lparr>sc_zeroQueue := q, sc_remaining := r\<rparr>"
    and "w_pending w = w_pending (pl_workers p ! i)"
    and "\<And>v. v < length A \<Longrightarrow> occ (content q) v =
      occ (content (sc_zeroQueue (pl_sched p))) v + occ (w_token (pl_workers p ! i)) v - occ (w_token w) v"
    and "r - w_submitting w = sc_remaining (pl_sched p) - w_submitting (pl_workers p ! i)"
    and "producerCount q - w_producer w =
      producerCount (sc_zeroQueue (pl_sched p)) - w_producer (pl_workers p ! i)"
    and "wf_worker (length A) (pl_responses p) w" "set (content q) \<subseteq> {..<length A}" "\<not> is_aborted w"
  shows "conserved A p (p\<lparr>pl_sched := s', pl_workers := (pl_workers p)[i := w]\<rparr>)"
proof -
  have "wf_pool A (p\<lparr>pl_sched := s', pl_workers := (pl_workers p)[i := w]\<rparr>)"
    using wf_pool_worker [OF assms(1,8), of i] assms(3,9) by (simp add: wf_pool_def)
  then show ?thesis
    unfolding conserved_def pool_measures
    by (intro conjI allI impI ballI;
      use assms(2-7) aborted_update [OF assms(10)] in \<open>simp add: total_update degree_def\<close>)
qed

text \<open>The action after which a request has its response.\<close>

lemma of_bool_None: "of_bool (x \<noteq> None) = (1 - of_bool (x = None) :: int)"
  by (cases x) auto

lemma zip_responses_update:
  "i < length A \<Longrightarrow> zip A (rs[i := r]) = (zip A rs)[i := (A ! i, r)]"
proof -
  assume "i < length A"
  then have "zip A (rs[i := r]) = zip (A[i := A ! i]) (rs[i := r])" by simp
  then show ?thesis by (simp only: zip_update)
qed

lemma conserved_response:
  assumes "wf_pool A p" "i < length (pl_workers p)" "pl_workers p ! i = Executing v" "tokens p v \<le> 1"
  shows "conserved A p (p\<lparr>pl_workers := (pl_workers p)[i := Releasing v (A ! v)],
    pl_responses := (pl_responses p)[v := Some st]\<rparr>)"
    (is "conserved A p ?p'")
proof -
  note wf = wf_poolD [OF assms(1)]
  have v: "v < length A" using wf(7) [OF assms(2)] assms(3) by simp
  have none: "pl_responses p ! v = None"
    using tokens_parts(1) [OF assms(4,2)] assms(3) by simp
  have "wf_pool A (p\<lparr>pl_responses := (pl_responses p)[v := Some st]\<rparr>)"
    using assms(1) v wf_worker_response
    by (auto simp: wf_pool_def wf_node_def nth_list_update split: option.splits)
  from wf_pool_worker [OF this, of "Releasing v (A ! v)" i] have "wf_pool A ?p'"
    using v wf(2,3) by (simp add: wf_pool_def)
  moreover have "load A ?p' u = load A p u" for u
    using v none wf(2) assms(2,3) by (simp add: load_def zip_responses_update total_update)
  moreover have "tokens ?p' u = tokens p u" for u
    using v none wf(2) assms(2,3) by (cases "u = v") (simp_all add: tokens_def total_update)
  moreover have "unanswered ?p' = unanswered p - 1"
    using v none wf(2) by (simp add: unanswered_def total_update)
  ultimately show ?thesis
    using assms(2,3) aborted_update [of "Releasing v (A ! v)" _ "pl_workers p" i]
    by (auto simp: conserved_def balances total_update)
qed

text \<open>The action that decrements an in-degree.\<close>

lemma decrement_at_ok:
  assumes "u < length (sc_nodeIndex s)" "sc_nodeIndex s ! u = Some nd" "0 < nd_inDegree nd"
  shows "decrement_at s u = Inr (nd_inDegree nd = 1,
    s\<lparr>sc_nodeIndex := (sc_nodeIndex s)[u := Some (nd\<lparr>nd_inDegree := nd_inDegree nd - 1\<rparr>)]\<rparr>)"
  using assms by (simp add: decrement_at_def node_at_def decrementInDegree_def set_node_def)

lemma conserved_decrement:
  assumes "safe_pool A p" "i < length (pl_workers p)" "pl_workers p ! i = Releasing v (u # us)"
  shows "\<exists>zero s'. decrement_at (pl_sched p) u = Inr (zero, s') \<and>
    conserved A p (p\<lparr>pl_sched := s',
      pl_workers := (pl_workers p)[i := if zero then Pushing v u us else Releasing v us]\<rparr>)"
proof -
  have wfp: "wf_pool A p" using assms(1) by (simp add: safe_pool_def)
  note wf = wf_poolD [OF wfp]
  have nodes: "wf_worker (length A) (pl_responses p) (Releasing v (u # us))"
    using wf(7) [OF assms(2)] assms(3) by simp
  then have u: "u < length A" by simp
  have "0 < occ (w_pending (pl_workers p ! i)) u" using assms(3) by (simp add: add_pos_nonneg)
  also have "\<dots> \<le> total (\<lambda>w. occ (w_pending w) u) (pl_workers p)"
    by (rule total_ge [of "\<lambda>w. occ (w_pending w) u" "pl_workers p ! i"]) (use assms(2) in auto)
  also have "\<dots> \<le> load A p u"
    unfolding load_def by (simp add: total_nonneg split: prod.splits)
  also have "\<dots> \<le> degree (pl_sched p) u" using assms(1) u by (simp add: safe_pool_def)
  finally have deg: "0 < degree (pl_sched p) u" .
  then obtain nd where nd: "sc_nodeIndex (pl_sched p) ! u = Some nd" "0 < nd_inDegree nd"
    by (auto simp: degree_def split: option.splits)
  let ?w = "if nd_inDegree nd = 1 then Pushing v u us else Releasing v us"
  let ?s = "(pl_sched p)\<lparr>sc_nodeIndex := (sc_nodeIndex (pl_sched p))[u := Some (nd\<lparr>nd_inDegree := nd_inDegree nd - 1\<rparr>)]\<rparr>"
  let ?p' = "p\<lparr>pl_sched := ?s, pl_workers := (pl_workers p)[i := ?w]\<rparr>"
  have dec: "decrement_at (pl_sched p) u = Inr (nd_inDegree nd = 1, ?s)"
    using decrement_at_ok nd u wf(1) by metis
  have "wf_worker (length A) (pl_responses p) ?w" using nodes by simp
  from wf_pool_worker [OF wfp this, of i] have "wf_pool A ?p'"
    using nd u by (auto simp: wf_pool_def wf_node_def nth_list_update split: option.splits)
  moreover have deg': "degree ?s x = degree (pl_sched p) x - of_bool (x = u)" for x
    using nd u wf(1) by (auto simp: degree_def nth_list_update)
  moreover have "load A ?p' x = load A p x - of_bool (u = x)" for x
    using assms(2,3) by (simp add: load_def total_update)
  moreover have "tokens ?p' x = tokens p x" for x
  proof (cases "x = u")
    case True
    then show ?thesis using nd u wf(1) assms(2,3)
      by (simp add: tokens_def total_update deg') (simp add: degree_def)
  next
    case False
    then show ?thesis using assms(2,3) by (simp add: tokens_def total_update deg')
  qed
  ultimately have "conserved A p ?p'"
    using assms(2,3) aborted_update [of ?w _ "pl_workers p" i]
    by (auto simp: conserved_def balances total_update unanswered_def)
  then show ?thesis using dec by blast
qed

text \<open>The action that frees the node of an answered request.\<close>

lemma conserved_reset:
  assumes "safe_pool A p" "i < length (pl_workers p)" "pl_workers p ! i = Resetting v"
  shows "conserved A p (p\<lparr>pl_sched := set_node (pl_sched p) v None,
    pl_workers := (pl_workers p)[i := Counting]\<rparr>)"
    (is "conserved A p ?p'")
proof -
  have wfp: "wf_pool A p" using assms(1) by (simp add: safe_pool_def)
  note wf = wf_poolD [OF wfp]
  have v: "v < length A" and rs: "pl_responses p ! v \<noteq> None" using wf(7) [OF assms(2)] assms(3) by simp_all
  have "tokens p v \<le> 1" "load A p v \<le> degree (pl_sched p) v" using assms(1) v by (simp_all add: safe_pool_def)
  then have "degree (pl_sched p) v = 0"
    using tokens_parts(3) [of p v] rs load_nonneg [of A p v] by fastforce
  then have deg: "degree (set_node (pl_sched p) v None) x = degree (pl_sched p) x" for x
    using v wf(1) by (cases "x = v") (simp_all add: degree_def set_node_def)
  have "wf_worker (length A) (pl_responses p) Counting" by simp
  from wf_pool_worker [OF wfp this, of i] have "wf_pool A ?p'"
    using rs v by (auto simp: wf_pool_def wf_node_def nth_list_update set_node_def split: option.splits)
  then show ?thesis
    using assms(2,3) aborted_update [of Counting _ "pl_workers p" i]
    by (auto simp: conserved_def pool_measures total_update deg) (simp_all add: set_node_def)
qed

section \<open>Every action keeps the invariants\<close>

lemma aborted_step:
  assumes "safe_pool A p" "i < length (pl_workers p)" "pl_workers p ! i = Executing v"
    and "rs = pl_responses p \<or> rs = (pl_responses p)[v := Some st]"
  shows "safe_pool A (p\<lparr>pl_workers := (pl_workers p)[i := Aborted e], pl_responses := rs\<rparr>)"
    (is "safe_pool A ?p'")
proof -
  have wfp: "wf_pool A p" using assms(1) by (simp add: safe_pool_def)
  note wf = wf_poolD [OF wfp]
  have v: "v < length A" using wf(7) [OF assms(2)] assms(3) by simp
  have tok: "tokens p v \<le> 1" using assms(1) v by (simp add: safe_pool_def)
  have none: "pl_responses p ! v = None" using tokens_parts(1) [OF tok assms(2)] assms(3) by simp
  have wfrs: "wf_pool A (p\<lparr>pl_responses := rs\<rparr>)"
    using wfp v wf_worker_response assms(4)
    by (auto simp: wf_pool_def wf_node_def nth_list_update split: option.splits)
  from wf_pool_worker [OF wfrs, of "Aborted e" i] have "wf_pool A ?p'" by (simp add: wf_pool_def)
  moreover have "load A ?p' u \<le> load A p u" for u
    using assms(2-4) v none wf(2) by (auto simp: load_def total_update zip_responses_update)
  moreover have "tokens ?p' u \<le> tokens p u" for u
    using assms(2-4) v none wf(2) by (cases "u = v") (auto simp: tokens_def total_update)
  moreover have "unanswered ?p' \<le> unanswered p"
    using assms(4) v none wf(2) by (auto simp: unanswered_def total_update)
  moreover have "load A p u \<le> degree (pl_sched p) u" "tokens p u \<le> 1" if "u < length A" for u
    using assms(1) that by (simp_all add: safe_pool_def)
  ultimately have "wf_pool A ?p'" "\<forall>u < length A. load A ?p' u \<le> degree (pl_sched ?p') u \<and> tokens ?p' u \<le> 1"
    "unanswered ?p' \<le> unanswered p"
    by (auto, (meson order_trans)+)
  then show ?thesis
    using assms(1-3) by (simp add: safe_pool_def total_update)
qed

lemma executing_ok:
  assumes "safe_pool A p" "i < length (pl_workers p)" "pl_workers p ! i = Executing v"
  shows "\<exists>nd. node_at (pl_sched p) v = Inr nd \<and> nd_adjList nd = A ! v \<and>
    sc_nodeIndex (pl_sched p) ! v = Some nd"
proof -
  have wfp: "wf_pool A p" using assms(1) by (simp add: safe_pool_def)
  note wf = wf_poolD [OF wfp]
  have v: "v < length A" using wf(7) [OF assms(2)] assms(3) by simp
  have "tokens p v \<le> 1" using assms(1) v by (simp add: safe_pool_def)
  then have "pl_responses p ! v = None" using tokens_parts(1) [OF _ assms(2), of v] assms(3) by simp
  then obtain nd where "sc_nodeIndex (pl_sched p) ! v = Some nd" using wf(4) [OF v] by blast
  then show ?thesis using wf(1) wf(5) [OF v] v by (simp add: node_at_def)
qed

text \<open>A step either conserves everything or aborts a worker whose request has failed: no step of a
  worker dereferences a null pointer or violates an assertion.\<close>

lemma worker_step_cases:
  assumes "safe_pool A p" "i < length (pl_workers p)" "worker_step res i p = Some p'"
  shows "conserved A p p' \<or>
    (\<exists>v e. pl_workers p ! i = Executing v \<and> pl_workers p' = (pl_workers p)[i := Aborted e] \<and>
      safe_pool A p' \<and> (res = Inl e \<or>
        (e = Block_error \<and> (\<exists>st nd. res = Inr st \<and> st > 400 \<and>
           sc_nodeIndex (pl_sched p) ! v = Some nd \<and> nd_attachments nd \<noteq> []))))"
proof -
  have wfp: "wf_pool A p" using assms(1) by (simp add: safe_pool_def)
  note wf = wf_poolD [OF wfp]
  note step = assms(3) [unfolded worker_step_def Let_def]
  have tok: "v < length A \<Longrightarrow> tokens p v \<le> 1" for v using assms(1) by (simp add: safe_pool_def)
  note same = conserved_worker [OF wfp assms(2)] and queue = conserved_queue [OF wfp assms(2)]
  have sched: "p\<lparr>pl_sched := pl_sched p, pl_workers := ws\<rparr> = p\<lparr>pl_workers := ws\<rparr>" for ws by simp
  show ?thesis
  proof (cases "pl_workers p ! i")
    case Fetching
    show ?thesis
    proof (cases "content (sc_zeroQueue (pl_sched p))")
      case Nil
      then show ?thesis using step Fetching
        by (auto simp: nextRequest_def blockingDequeue_def sched intro!: same split: if_splits)
    next
      case (Cons v vs)
      have "set (v # vs) \<subseteq> {..<length A}" using wf(6) Cons by auto
      then show ?thesis using step Fetching Cons
        by (auto simp: nextRequest_def blockingDequeue_def
          intro!: queue [where r = "sc_remaining (pl_sched p)"])
    qed
  next
    case (Executing v)
    obtain nd where nd: "node_at (pl_sched p) v = Inr nd" "nd_adjList nd = A ! v"
      "sc_nodeIndex (pl_sched p) ! v = Some nd"
      using executing_ok [OF assms(1,2) Executing] by blast
    have v: "v < length A" using wf(7) [OF assms(2)] Executing by simp
    note ab = aborted_step [OF assms(1,2) Executing]
    show ?thesis
    proof (cases res)
      case (Inl e)
      then have "p' = p\<lparr>pl_workers := (pl_workers p)[i := Aborted e], pl_responses := pl_responses p\<rparr>"
        using step Executing by (cases p; cases p') auto
      then show ?thesis using ab [of "pl_responses p"] Inl Executing by auto
    next
      case (Inr st)
      show ?thesis
      proof (cases "st > 400 \<and> nd_attachments nd \<noteq> []")
        case True
        then have "p' = p\<lparr>pl_workers := (pl_workers p)[i := Aborted Block_error],
            pl_responses := (pl_responses p)[v := Some st]\<rparr>"
          using step Executing Inr nd by (simp add: checkStatus_def)
        then show ?thesis using ab [of "(pl_responses p)[v := Some st]" st] Inr Executing True nd(3) by auto
      next
        case False
        then have "checkStatus nd st = Inr ()" by (simp add: checkStatus_def)
        then have "p' = p\<lparr>pl_workers := (pl_workers p)[i := Releasing v (A ! v)],
            pl_responses := (pl_responses p)[v := Some st]\<rparr>"
          using step Executing Inr nd by simp
        then show ?thesis using conserved_response [OF wfp assms(2) Executing tok [OF v]] by simp
      qed
    qed
  next
    case (Releasing v us)
    show ?thesis
    proof (cases us)
      case Nil
      then show ?thesis using step Releasing wf(7) [OF assms(2)] by (auto simp: sched intro!: same)
    next
      case (Cons u rest)
      from conserved_decrement [OF assms(1,2), of v u rest] Releasing Cons step
      show ?thesis by (auto simp: sched)
    qed
  next
    case (Pushing v u us)
    have "sc_remaining (pl_sched p) = sc_remaining (pl_sched p)" ..
    then show ?thesis using step Pushing wf(7) [OF assms(2)] wf(6)
      by (auto simp: enqueue_node_def enqueue_def intro!: queue [where r = "sc_remaining (pl_sched p)"])
  next
    case (Resetting v)
    then show ?thesis using step conserved_reset [OF assms(1,2) Resetting] by simp
  next
    case Counting
    then show ?thesis using step wf(6)
      by (auto simp: count_request_def intro!: queue [where q = "sc_zeroQueue (pl_sched p)"])
  next
    case Leaving
    then show ?thesis using step wf(6)
      by (auto simp: leave_queue_def removeProducer_def intro!: queue [where r = "sc_remaining (pl_sched p)"])
  qed (use step in simp_all)
qed


section \<open>Preparing the graph\<close>

text \<open>The proposed graph: the requests that come after each one. Its in-degrees count repetitions.\<close>

definition valid_graph :: "nat list list \<Rightarrow> bool" where
  "valid_graph A \<longleftrightarrow> (\<forall>v < length A. set (A ! v) \<subseteq> {..<length A})"

definition indegree :: "nat list list \<Rightarrow> nat \<Rightarrow> int" where
  "indegree A v = total (\<lambda>adj. occ adj v) A"

definition graph_nodes :: "nat list list \<Rightarrow> (nat \<Rightarrow> int) \<Rightarrow> 'r scheduler \<Rightarrow> bool" where
  "graph_nodes A d s \<longleftrightarrow> length (sc_nodeIndex s) = length A \<and>
    (\<forall>v < length A. \<exists>nd. sc_nodeIndex s ! v = Some nd \<and> nd_adjList nd = A ! v \<and> nd_inDegree nd = d v)"

definition prepared :: "nat list list \<Rightarrow> 'r scheduler \<Rightarrow> bool" where
  "prepared A s \<longleftrightarrow> graph_nodes A (indegree A) s \<and> sc_remaining s = int (length A) \<and>
    sc_zeroQueue s = BlockingQueue"

text \<open>The second loop of \<^verbatim>\<open>RequestProcessor::loadRequests\<close>.\<close>

fun finalizeRequests :: "'r scheduler \<Rightarrow> nat list \<Rightarrow> 'r scheduler result" where
  "finalizeRequests s [] = Inr s"
| "finalizeRequests s (i # is) = bind_result (finalizeRequest s i) (\<lambda>s'. finalizeRequests s' is)"

lemma graph_nodes_at:
  "graph_nodes A d s \<Longrightarrow> v < length A \<Longrightarrow>
    \<exists>nd. node_at s v = Inr nd \<and> sc_nodeIndex s ! v = Some nd \<and> nd_adjList nd = A ! v \<and> nd_inDegree nd = d v"
  by (auto simp: graph_nodes_def node_at_def)

lemma increment_nodes_graph:
  assumes "graph_nodes A d s" "set vs \<subseteq> {..<length A}"
  shows "\<exists>s'. increment_nodes s vs = Inr s' \<and> graph_nodes A (\<lambda>v. d v + occ vs v) s' \<and>
    sc_remaining s' = sc_remaining s \<and> sc_zeroQueue s' = sc_zeroQueue s \<and>
    (\<forall>v < length A. map_option nd_attachments (sc_nodeIndex s' ! v) = map_option nd_attachments (sc_nodeIndex s ! v))"
  using assms
proof (induction vs arbitrary: s d)
  case Nil
  then show ?case by simp
next
  case (Cons u us)
  then have u: "u < length A" by simp
  obtain nd where nd: "node_at s u = Inr nd" "sc_nodeIndex s ! u = Some nd" "nd_adjList nd = A ! u"
    "nd_inDegree nd = d u" using graph_nodes_at [OF Cons.prems(1) u] by blast
  let ?s = "set_node s u (Some (incrementInDegree nd))"
  have len: "length (sc_nodeIndex s) = length A" using Cons.prems(1) by (simp add: graph_nodes_def)
  have "graph_nodes A (\<lambda>v. d v + of_bool (u = v)) ?s"
    using Cons.prems(1) nd u by (auto simp: graph_nodes_def set_node_def incrementInDegree_def nth_list_update)
  from Cons.IH [OF this] Cons.prems(2) obtain s' where
    "increment_nodes ?s us = Inr s'" "graph_nodes A (\<lambda>v. d v + of_bool (u = v) + occ us v) s'"
    "sc_remaining s' = sc_remaining s" "sc_zeroQueue s' = sc_zeroQueue s"
    "\<forall>v < length A. map_option nd_attachments (sc_nodeIndex s' ! v) = map_option nd_attachments (sc_nodeIndex ?s ! v)"
    by (auto simp: set_node_def)
  moreover have "map_option nd_attachments (sc_nodeIndex ?s ! v) = map_option nd_attachments (sc_nodeIndex s ! v)" for v
    using nd(2) u len by (cases "v = u") (auto simp: set_node_def incrementInDegree_def)
  ultimately show ?case using nd(1) by (simp add: add.assoc)
qed

lemma deref_nodes_graph:
  "graph_nodes A d s \<Longrightarrow> set vs \<subseteq> {..<length A} \<Longrightarrow> deref_nodes s vs = Inr ()"
  by (induction vs) (use graph_nodes_at in fastforce)+

lemma finalizeRequests_graph:
  assumes "graph_nodes A d s" "valid_graph A" "set is \<subseteq> {..<length A}"
    and "\<forall>i < length A. \<forall>nd. sc_nodeIndex s ! i = Some nd \<longrightarrow> set (nd_attachments nd) \<subseteq> {..<length A}"
  shows "\<exists>s'. finalizeRequests s is = Inr s' \<and>
    graph_nodes A (\<lambda>v. d v + total (\<lambda>i. occ (A ! i) v) is) s' \<and>
    sc_remaining s' = sc_remaining s \<and> sc_zeroQueue s' = sc_zeroQueue s"
  using assms(1,3,4)
proof (induction "is" arbitrary: s d)
  case Nil
  then show ?case by simp
next
  case (Cons i "is")
  then have i: "i < length A" by simp
  obtain nd where nd: "node_at s i = Inr nd" "sc_nodeIndex s ! i = Some nd" "nd_adjList nd = A ! i"
    using graph_nodes_at [OF Cons.prems(1) i] by blast
  have "set (A ! i) \<subseteq> {..<length A}" using assms(2) i by (simp add: valid_graph_def)
  from increment_nodes_graph [OF Cons.prems(1) this] obtain s1 where
    s1: "increment_nodes s (A ! i) = Inr s1" "graph_nodes A (\<lambda>v. d v + occ (A ! i) v) s1"
    "sc_remaining s1 = sc_remaining s" "sc_zeroQueue s1 = sc_zeroQueue s"
    and att: "\<forall>v < length A. map_option nd_attachments (sc_nodeIndex s1 ! v) = map_option nd_attachments (sc_nodeIndex s ! v)"
    by blast
  have "deref_nodes s1 (nd_attachments nd) = Inr ()"
    by (rule deref_nodes_graph [OF s1(2)]) (use Cons.prems(3) i nd(2) in auto)
  then have fin: "finalizeRequest s i = Inr s1" using nd s1(1) by (simp add: finalizeRequest_def)
  have "\<forall>j < length A. \<forall>x. sc_nodeIndex s1 ! j = Some x \<longrightarrow> set (nd_attachments x) \<subseteq> {..<length A}"
  proof (intro allI impI)
    fix j x assume j: "j < length A" and x: "sc_nodeIndex s1 ! j = Some x"
    from att j have "map_option nd_attachments (sc_nodeIndex s1 ! j) = map_option nd_attachments (sc_nodeIndex s ! j)"
      by blast
    then have "map_option nd_attachments (sc_nodeIndex s ! j) = Some (nd_attachments x)" using x by simp
    then show "set (nd_attachments x) \<subseteq> {..<length A}" using Cons.prems(3) j by fastforce
  qed
  from Cons.IH [OF s1(2) _ this] Cons.prems(2) show ?case using fin s1 by (auto simp: add.assoc)
qed

text \<open>Building the graph puts the nodes before the first one with a predecessor into the queue.\<close>

lemma buildExecDag_loop_graph:
  assumes "graph_nodes A d s" "set is \<subseteq> {..<length A}"
  shows "buildExecDag_loop s is =
    Inr (s\<lparr>sc_zeroQueue := (sc_zeroQueue s)\<lparr>content := content (sc_zeroQueue s) @ takeWhile (\<lambda>v. d v = 0) is\<rparr>\<rparr>)"
  using assms
proof (induction "is" arbitrary: s)
  case Nil
  then show ?case by simp
next
  case (Cons i "is")
  then have i: "i < length A" by simp
  obtain nd where nd: "node_at s i = Inr nd" "nd_inDegree nd = d i"
    using graph_nodes_at [OF Cons.prems(1) i] by blast
  have "graph_nodes A d (enqueue_node s i)"
    using Cons.prems(1) by (simp add: graph_nodes_def enqueue_node_def)
  from Cons.IH [OF this] Cons.prems(2) show ?case
    using nd by (auto simp: enqueue_node_def enqueue_def)
qed

definition source_nodes :: "nat list list \<Rightarrow> nat list" where
  "source_nodes A = takeWhile (\<lambda>v. indegree A v = 0) [0..<length A]"

definition skipped_nodes :: "nat list list \<Rightarrow> nat set" where
  "skipped_nodes A = {v. v < length A \<and> indegree A v = 0 \<and> v \<notin> set (source_nodes A)}"

lemma buildExecDag_prepared:
  assumes "prepared A s"
  shows "buildExecDag s = (if source_nodes A = [] then Inl Block_error
    else Inr (s\<lparr>sc_zeroQueue := BlockingQueue\<lparr>content := source_nodes A\<rparr>\<rparr>))"
proof -
  have "buildExecDag_loop s [0..<length A] =
    Inr (s\<lparr>sc_zeroQueue := (sc_zeroQueue s)\<lparr>content := content (sc_zeroQueue s) @ source_nodes A\<rparr>\<rparr>)"
    unfolding source_nodes_def by (rule buildExecDag_loop_graph) (use assms in \<open>auto simp: prepared_def\<close>)
  then show ?thesis
    using assms by (simp add: buildExecDag_def prepared_def BlockingQueue_def isEmpty_def)
qed

text \<open>The nodes that are skipped are the ones whose number the proposer has chosen too large.\<close>

lemma skipped_nodes_iff:
  "v \<in> skipped_nodes A \<longleftrightarrow> v < length A \<and> indegree A v = 0 \<and> (\<exists>u < v. indegree A u \<noteq> 0)"
proof -
  have "v \<in> set (takeWhile P [0..<n]) \<longleftrightarrow> v < n \<and> (\<forall>u \<le> v. P u)" for P n
  proof (induction n)
    case (Suc n)
    have "takeWhile P [0..<Suc n] =
      (if \<forall>u < n. P u then [0..<n] @ (if P n then [n] else []) else takeWhile P [0..<n])"
    proof (cases "\<forall>u < n. P u")
      case True
      then have "takeWhile P ([0..<n] @ [n]) = [0..<n] @ takeWhile P [n]" by (intro takeWhile_append2) auto
      then show ?thesis using True by simp
    next
      case False
      then obtain u where "u \<in> set [0..<n]" "\<not> P u" by auto
      then have "takeWhile P ([0..<n] @ [n]) = takeWhile P [0..<n]" by (rule takeWhile_append1)
      then show ?thesis using False by auto
    qed
    then show ?case using Suc.IH by (auto simp: less_Suc_eq le_less)
  qed simp
  then show ?thesis
    by (auto simp: skipped_nodes_def source_nodes_def) (metis le_less not_le)+
qed


section \<open>Reachable pools\<close>

lemma zip_replicate_None: "length A = n \<Longrightarrow> zip A (replicate n None) = map (\<lambda>a. (a, None)) A"
  by (simp add: zip_replicate2)

lemma total_map: "total f (map g xs) = total (f \<circ> g) xs"
  by (simp add: total_def)

lemma occ_distinct: "distinct xs \<Longrightarrow> occ xs v = of_bool (v \<in> set xs)"
  by (induction xs) auto

lemma start_pool_ok:
  assumes "prepared A s" "valid_graph A" "buildExecDag s = Inr s'"
  shows "safe_pool A (start_pool s' k)" "exact_pool A (skipped_nodes A) (start_pool s' k)"
    "\<forall>v < length A. \<exists>nd. sc_nodeIndex (pl_sched (start_pool s' k)) ! v = Some nd \<and>
      sc_nodeIndex s ! v = Some nd"
proof -
  have s': "s' = s\<lparr>sc_zeroQueue := BlockingQueue\<lparr>content := source_nodes A\<rparr>\<rparr>"
    using buildExecDag_prepared [OF assms(1)] assms(3) by (auto split: if_splits)
  have prep: "length (sc_nodeIndex s) = length A" "sc_remaining s = int (length A)"
    "sc_zeroQueue s = BlockingQueue"
    using assms(1) by (simp_all add: prepared_def graph_nodes_def)
  have node: "\<exists>nd. sc_nodeIndex s ! v = Some nd \<and> nd_adjList nd = A ! v \<and> nd_inDegree nd = indegree A v"
    if "v < length A" for v
    using assms(1) that by (simp add: prepared_def graph_nodes_def)
  let ?p = "start_pool s' k"
  have src: "v \<in> set (source_nodes A) \<Longrightarrow> v < length A \<and> indegree A v = 0" for v
    by (auto simp: source_nodes_def dest: set_takeWhileD)
  have dist: "distinct (source_nodes A)" by (simp add: source_nodes_def)
  have deg: "degree (pl_sched ?p) v = indegree A v" if "v < length A" for v
    using node [OF that] by (auto simp: start_pool_def s' degree_def)
  have nonneg: "0 \<le> indegree A v" for v unfolding indegree_def by (rule total_nonneg) simp
  have load: "load A ?p v = indegree A v" for v
    by (simp add: load_def start_pool_def s' prep(1) zip_replicate_None total_replicate total_map
      comp_def indegree_def)
  have occ: "occ (source_nodes A) v = of_bool (v \<in> set (source_nodes A))" for v
    by (rule occ_distinct [OF dist])
  have skip: "v \<in> skipped_nodes A \<longleftrightarrow> indegree A v = 0 \<and> v \<notin> set (source_nodes A)" if "v < length A" for v
    using that by (simp add: skipped_nodes_def)
  have tok: "tokens ?p v = (if v \<in> skipped_nodes A then 0 else 1)" if "v < length A" for v
  proof -
    have "tokens ?p v = of_bool (v \<in> set (source_nodes A)) + of_bool (indegree A v > 0)"
      unfolding tokens_def deg [OF that] using prep(1) that
      by (simp add: start_pool_def s' total_replicate occ BlockingQueue_def)
    then show ?thesis unfolding skip [OF that]
      using src [of v] nonneg [of v] by (cases "v \<in> set (source_nodes A)") auto
  qed
  have wf: "wf_pool A ?p"
  proof -
    have "wf_node (A ! v) (pl_responses ?p ! v) (sc_nodeIndex (pl_sched ?p) ! v)" if "v < length A" for v
      using node [OF that] nonneg [of v] by (auto simp: wf_node_def start_pool_def s')
    moreover have "set (content (sc_zeroQueue (pl_sched ?p))) \<subseteq> {..<length A}"
      using src by (auto simp: start_pool_def s')
    moreover have "\<forall>w \<in> set (pl_workers ?p). wf_worker (length A) (pl_responses ?p) w"
      by (simp add: start_pool_def)
    moreover have "length (sc_nodeIndex (pl_sched ?p)) = length A" "length (pl_responses ?p) = length A"
      by (simp_all add: start_pool_def s' prep(1))
    ultimately show ?thesis using assms(2) by (simp add: wf_pool_def valid_graph_def)
  qed
  have bal: "load A ?p v = degree (pl_sched ?p) v" if "v < length A" for v using deg [OF that] load by simp
  have prod: "producerCount (sc_zeroQueue (pl_sched ?p)) = total w_producer (pl_workers ?p)"
    by (simp add: start_pool_def s' total_replicate BlockingQueue_def)
  have rem: "sc_remaining (pl_sched ?p) = unanswered ?p + total w_submitting (pl_workers ?p)"
    by (simp add: start_pool_def s' total_replicate unanswered_def prep)
  show "safe_pool A ?p" using wf tok bal prod rem by (simp add: safe_pool_def)
  have "\<forall>w \<in> set (pl_workers ?p). \<not> is_aborted w" by (simp add: start_pool_def)
  then show "exact_pool A (skipped_nodes A) ?p" using tok bal rem by (simp add: exact_pool_def)
  show "\<forall>v < length A. \<exists>nd. sc_nodeIndex (pl_sched ?p) ! v = Some nd \<and> sc_nodeIndex s ! v = Some nd"
    using node by (fastforce simp: start_pool_def s')
qed

lemma step_safe: "pool_step outcome p p' \<Longrightarrow> safe_pool A p \<Longrightarrow> safe_pool A p'"
  by (elim pool_stepE) (use worker_step_cases conserved_safe in blast)

lemma reach_safe: "pool_reach outcome p0 p \<Longrightarrow> safe_pool A p0 \<Longrightarrow> safe_pool A p"
  by (induction rule: pool_reach.induct) (auto intro: step_safe)

lemma total_two:
  assumes "\<And>x. 0 \<le> f x" "i < j" "j < length xs"
  shows "f (xs ! i) + f (xs ! j) \<le> total f xs"
proof -
  have "xs = take j xs @ xs ! j # drop (Suc j) xs" using assms(3) by (rule id_take_nth_drop)
  then have "total f xs = total f (take j xs) + f (xs ! j) + total f (drop (Suc j) xs)"
    by (metis total_simps(2,3) add.assoc)
  moreover have "f (xs ! i) \<le> total f (take j xs)"
    by (rule total_ge [OF assms(1)]) (use assms(2,3) in \<open>auto simp: in_set_conv_nth\<close>)
  ultimately show ?thesis using total_nonneg [of f "drop (Suc j) xs"] assms(1) by simp
qed

lemma executing_ready:
  assumes "prepared A s" "valid_graph A" "buildExecDag s = Inr s'"
    and "pool_reach outcome (start_pool s' k) p"
    and "i < length (pl_workers p)" "pl_workers p ! i = Executing v"
  shows "(\<forall>u < length A. v \<in> set (A ! u) \<longrightarrow> pl_responses p ! u \<noteq> None) \<and>
    pl_responses p ! v = None \<and> v \<notin> set (content (sc_zeroQueue (pl_sched p))) \<and>
    (\<forall>j < length (pl_workers p). j \<noteq> i \<longrightarrow> pl_workers p ! j \<noteq> Executing v)"
proof -
  have safe: "safe_pool A p" by (rule reach_safe [OF assms(4) start_pool_ok(1) [OF assms(1-3)]])
  then have wfp: "wf_pool A p" by (simp add: safe_pool_def)
  note wf = wf_poolD [OF wfp]
  have v: "v < length A" using wf(7) [OF assms(5)] assms(6) by simp
  have tok: "tokens p v \<le> 1" and ld: "load A p v \<le> degree (pl_sched p) v"
    using safe v by (simp_all add: safe_pool_def)
  note parts = tokens_parts(1) [OF tok assms(5)]
  have q: "v \<notin> set (content (sc_zeroQueue (pl_sched p)))" "pl_responses p ! v = None"
    "degree (pl_sched p) v \<le> 0" using parts assms(6) by simp_all
  let ?l = "\<lambda>(adj, r). if r = None then occ adj v else 0"
  have l0: "0 \<le> ?l x" for x by (auto split: prod.splits)
  have "0 \<le> total (\<lambda>w. occ (w_pending w) v) (pl_workers p)" by (rule total_nonneg) simp
  then have "total ?l (zip A (pl_responses p)) \<le> 0" using ld q(3) by (simp add: load_def)
  then have zero: "total ?l (zip A (pl_responses p)) = 0" using total_nonneg [of ?l, OF l0] by (metis order_antisym)
  have preds: "pl_responses p ! u \<noteq> None" if u: "u < length A" "v \<in> set (A ! u)" for u
  proof
    assume r: "pl_responses p ! u = None"
    have "(A ! u, pl_responses p ! u) \<in> set (zip A (pl_responses p))"
      using u(1) wf(2) by (auto simp: set_zip)
    from total_zero [of ?l, OF l0 zero this] have "occ (A ! u) v = 0" using r by simp
    then show False using u(2) occ_pos_iff [of "A ! u" v] by simp
  qed
  have "pl_workers p ! j \<noteq> Executing v" if j: "j < length (pl_workers p)" "j \<noteq> i" for j
  proof
    assume e: "pl_workers p ! j = Executing v"
    have "2 \<le> total (\<lambda>w. occ (w_token w) v) (pl_workers p)"
    proof (cases "i < j")
      case True
      from total_two [of "\<lambda>w. occ (w_token w) v" i j "pl_workers p"] this j e assms(5,6)
      show ?thesis by simp
    next
      case False
      then have "j < i" using j by simp
      from total_two [of "\<lambda>w. occ (w_token w) v" j i "pl_workers p"] this j e assms(5,6)
      show ?thesis by simp
    qed
    moreover have "total (\<lambda>w. occ (w_token w) v) (pl_workers p) \<le> tokens p v" by (simp add: tokens_def)
    ultimately show False using tok by simp
  qed
  then show ?thesis using q preds by blast
qed

text \<open>C2: A request is only executed when every request it depends on in the proposed graph has its
  response, and no request is ever executed twice or by two workers: in every interleaving of the
  workers, whatever the executions end in.\<close>

theorem dependencies_respected:
  assumes "prepared A s" "valid_graph A" "buildExecDag s = Inr s'"
    and "pool_reach outcome (start_pool s' k) p"
    and "i < length (pl_workers p)" "pl_workers p ! i = Executing v"
  shows "(\<forall>u < length A. v \<in> set (A ! u) \<longrightarrow> pl_responses p ! u \<noteq> None) \<and>
    pl_responses p ! v = None \<and> v \<notin> set (content (sc_zeroQueue (pl_sched p))) \<and>
    (\<forall>j < length (pl_workers p). j \<noteq> i \<longrightarrow> pl_workers p ! j \<noteq> Executing v)"
  by (rule executing_ready [OF assms])


section \<open>Termination\<close>

fun w_weight :: "worker \<Rightarrow> int" where
  "w_weight Fetching = 2"
| "w_weight (Executing v) = 1"
| "w_weight (Releasing v us) = 2 * int (length us) + 6"
| "w_weight (Pushing v u us) = 2 * int (length us) + 7"
| "w_weight (Resetting v) = 5"
| "w_weight Counting = 4"
| "w_weight Leaving = 3"
| "w_weight _ = 0"

lemma w_weight_nonneg [simp]: "0 \<le> w_weight w" by (cases w) auto

definition work_left :: "nat list list \<Rightarrow> 'r pool \<Rightarrow> int" where
  "work_left A p =
    total (\<lambda>(adj, r). if r = None then 2 * int (length adj) + 6 else 0) (zip A (pl_responses p)) +
    total w_weight (pl_workers p)"

lemma work_left_nonneg: "0 \<le> work_left A p"
  by (auto simp: work_left_def intro!: add_nonneg_nonneg total_nonneg split: prod.splits)

lemma work_left_worker:
  assumes "i < length (pl_workers p)" "pl_responses p' = pl_responses p"
    "pl_workers p' = (pl_workers p)[i := w]" "w_weight w < w_weight (pl_workers p ! i)"
  shows "work_left A p' < work_left A p"
  using assms by (simp add: work_left_def total_update)

lemma worker_step_work:
  assumes "safe_pool A p" "i < length (pl_workers p)" "worker_step res i p = Some p'"
  shows "work_left A p' < work_left A p"
proof -
  have wfp: "wf_pool A p" using assms(1) by (simp add: safe_pool_def)
  note wf = wf_poolD [OF wfp]
  note step = assms(3) [unfolded worker_step_def Let_def] and less = work_left_worker [OF assms(2)]
  show ?thesis
  proof (cases "pl_workers p ! i")
    case Fetching
    then have "pl_workers p' = (pl_workers p)[i := pl_workers p' ! i] \<and> pl_responses p' = pl_responses p \<and>
        w_weight (pl_workers p' ! i) < 2"
      using step assms(2) by (auto simp: nextRequest_def split: option.splits sum.splits if_splits)
    then show ?thesis using less [of p' "pl_workers p' ! i"] Fetching by simp
  next
    case (Executing v)
    have v: "v < length A" using wf(7) [OF assms(2)] Executing by simp
    have "tokens p v \<le> 1" using assms(1) v by (simp add: safe_pool_def)
    then have none: "pl_responses p ! v = None" using tokens_parts(1) [OF _ assms(2), of v] Executing by simp
    obtain nd where nd: "node_at (pl_sched p) v = Inr nd" "nd_adjList nd = A ! v"
      using executing_ok [OF assms(1,2) Executing] by blast
    show ?thesis
    proof (cases res)
      case (Inl e)
      then show ?thesis using step Executing by (auto intro: less)
    next
      case (Inr st)
      obtain w where w: "pl_workers p' = (pl_workers p)[i := w]" "pl_responses p' = (pl_responses p)[v := Some st]"
        "w = Releasing v (A ! v) \<or> (\<exists>e. w = Aborted e)"
      proof (cases "checkStatus nd st")
        case (Inl e)
        then show thesis using that [of "Aborted e"] step Executing \<open>res = Inr st\<close> nd by auto
      next
        case (Inr u)
        then show thesis using that [of "Releasing v (A ! v)"] step Executing \<open>res = Inr st\<close> nd by auto
      qed
      then show ?thesis
        using none v wf(2) assms(2) Executing
        by (auto simp: work_left_def zip_responses_update total_update)
    qed
  next
    case (Releasing v us)
    then show ?thesis using step by (cases us) (auto intro: less split: sum.splits prod.splits if_splits)
  qed (use step in \<open>auto intro: less\<close>)
qed

lemma pool_steps_work:
  "(pool_step outcome ^^ m) p p' \<Longrightarrow> safe_pool A p \<Longrightarrow> int m + work_left A p' \<le> work_left A p \<and> safe_pool A p'"
proof (induction m arbitrary: p')
  case 0
  then show ?case by auto
next
  case (Suc m)
  from Suc.prems(1) obtain q where q: "(pool_step outcome ^^ m) p q" "pool_step outcome q p'" by auto
  have IH: "int m + work_left A q \<le> work_left A p" "safe_pool A q" using Suc.IH [OF q(1) Suc.prems(2)] by auto
  from q(2) obtain i res where "i < length (pl_workers q)" "worker_step res i q = Some p'"
    by (elim pool_stepE) blast
  from worker_step_work [OF IH(2) this] have "work_left A p' < work_left A q" .
  then show ?case using IH(1) step_safe [OF q(2) IH(2)] by simp
qed

text \<open>The parallel execution terminates: however the workers are scheduled and whatever the
  requests end in, at most \<open>2 * |adjacency list| + 6\<close> actions per request and two per worker are made
  before every worker has ended or waits.\<close>

theorem parallel_execution_terminates:
  assumes "prepared A s" "valid_graph A" "buildExecDag s = Inr s'"
    and "(pool_step outcome ^^ m) (start_pool s' k) p"
  shows "m \<le> sum_list (map (\<lambda>adj. 2 * length adj + 6) A) + 2 * k"
proof -
  from pool_steps_work [OF assms(4) start_pool_ok(1) [OF assms(1-3)]]
  have "int m + work_left A p \<le> work_left A (start_pool s' k)" by blast
  then have "int m \<le> work_left A (start_pool s' k)" using work_left_nonneg [of A p] by simp
  also have "\<dots> = total (\<lambda>adj. 2 * int (length adj) + 6) A + 2 * int k"
    using buildExecDag_prepared [OF assms(1)] assms(1,3)
    by (simp add: work_left_def start_pool_def prepared_def graph_nodes_def zip_replicate_None
      total_replicate total_map comp_def split: if_splits)
  also have "total (\<lambda>adj. 2 * int (length adj) + 6) A = int (sum_list (map (\<lambda>adj. 2 * length adj + 6) A))"
    by (induction A) simp_all
  finally show ?thesis by linarith
qed

section \<open>Progress\<close>

lemma worker_can_step:
  assumes "worker_step res i p = None"
  shows "pl_workers p ! i \<in> {Fetching, Returned, Rejected} \<or> is_aborted (pl_workers p ! i)"
    and "pl_workers p ! i = Fetching \<Longrightarrow> 0 < producerCount (sc_zeroQueue (pl_sched p)) \<and>
      content (sc_zeroQueue (pl_sched p)) = []"
proof -
  show "pl_workers p ! i \<in> {Fetching, Returned, Rejected} \<or> is_aborted (pl_workers p ! i)"
    using assms
    by (cases "pl_workers p ! i")
      (auto simp: worker_step_def Let_def split: sum.splits list.splits option.splits prod.splits)
  show "pl_workers p ! i = Fetching \<Longrightarrow> 0 < producerCount (sc_zeroQueue (pl_sched p)) \<and>
      content (sc_zeroQueue (pl_sched p)) = []"
    using assms
    by (auto simp: worker_step_def Let_def nextRequest_def blockingDequeue_def
      split: option.splits sum.splits if_splits)
qed

lemma stuck_worker:
  assumes "\<forall>p'. \<not> pool_step outcome p p'" "\<forall>v. \<exists>res. outcome v res" "i < length (pl_workers p)"
  shows "\<exists>res. worker_step res i p = None"
proof (rule ccontr)
  assume n: "\<nexists>res. worker_step res i p = None"
  obtain res where res: "\<forall>v. pl_workers p ! i = Executing v \<longrightarrow> outcome v res"
  proof (cases "\<exists>v. pl_workers p ! i = Executing v")
    case True
    then obtain v where v: "pl_workers p ! i = Executing v" by blast
    obtain r where "outcome v r" using assms(2) by blast
    then show thesis using that v by auto
  qed (use that in auto)
  have "worker_step res i p \<noteq> None" using n by simp
  then obtain p' where "worker_step res i p = Some p'" by blast
  from pool_step.step [OF assms(3) this] res show False using assms(1) by blast
qed

text \<open>Without a failed request no worker waits for ever: all of them have ended.\<close>

lemma stuck_ended:
  assumes "safe_pool A p" "exact_pool A skip p" "\<forall>p'. \<not> pool_step outcome p p'" "\<forall>v. \<exists>res. outcome v res"
  shows "\<forall>w \<in> set (pl_workers p). w = Returned \<or> w = Rejected"
proof -
  have kinds: "w \<in> {Fetching, Returned, Rejected}" if w: "w \<in> set (pl_workers p)" for w
  proof -
    obtain i where i: "i < length (pl_workers p)" "pl_workers p ! i = w" using w by (auto simp: in_set_conv_nth)
    obtain res where "worker_step res i p = None" using stuck_worker [OF assms(3,4) i(1)] by blast
    from worker_can_step(1) [OF this] show ?thesis using i assms(2) w by (auto simp: exact_pool_def)
  qed
  have "total w_producer (pl_workers p) = 0"
    using kinds
  proof (induction "pl_workers p")
    case Nil
    then show ?case by simp
  next
    case (Cons a x)
    have "\<forall>w \<in> set ws. w \<in> {Fetching, Returned, Rejected} \<Longrightarrow> total w_producer ws = 0" for ws
      by (induction ws) auto
    then show ?case using Cons by blast
  qed
  then have "producerCount (sc_zeroQueue (pl_sched p)) = 0" using assms(1) by (simp add: safe_pool_def)
  moreover have "False" if w: "Fetching \<in> set (pl_workers p)" "producerCount (sc_zeroQueue (pl_sched p)) = 0"
  proof -
    obtain i where i: "i < length (pl_workers p)" "pl_workers p ! i = Fetching"
      using w by (auto simp: in_set_conv_nth)
    obtain res where "worker_step res i p = None" using stuck_worker [OF assms(3,4) i(1)] by blast
    from worker_can_step(2) [OF this i(2)] w(2) show False by simp
  qed
  ultimately show ?thesis using kinds by blast
qed

text \<open>Once a worker has ended nothing is left to do, and what the others will end in is decided.\<close>

definition decided :: "'r pool \<Rightarrow> bool" where
  "decided p \<longleftrightarrow>
    (\<forall>w \<in> set (pl_workers p). w = Returned \<or> w = Rejected \<longrightarrow>
      content (sc_zeroQueue (pl_sched p)) = [] \<and> producerCount (sc_zeroQueue (pl_sched p)) \<le> 0 \<and>
      (w = Returned \<longleftrightarrow> sc_remaining (pl_sched p) = 0))"

lemma step_decided:
  assumes "safe_pool A p" "pool_step outcome p p'" "decided p"
  shows "decided p'"
proof -
  from assms(2) obtain i res where i: "i < length (pl_workers p)" and step: "worker_step res i p = Some p'"
    by (elim pool_stepE) blast
  let ?q = "sc_zeroQueue (pl_sched p)"
  have prod: "producerCount ?q = total w_producer (pl_workers p)" using assms(1) by (simp add: safe_pool_def)
  have w: "w_producer (pl_workers p ! i) \<le> producerCount ?q"
    unfolding prod by (rule total_ge) (use i in auto)
  have ended: "False" if "w_producer (pl_workers p ! i) = 1" "x \<in> set (pl_workers p)" "x = Returned \<or> x = Rejected" for x
    using assms(3) w that by (force simp: decided_def)
  show ?thesis
  proof (cases "pl_workers p ! i = Fetching")
    case True
    show ?thesis
    proof (cases "content ?q")
      case Nil
      then obtain w where "p' = p\<lparr>pl_workers := (pl_workers p)[i := w]\<rparr>" "producerCount ?q \<le> 0"
        "w = (if sc_remaining (pl_sched p) = 0 then Returned else Rejected)"
        using step True
        by (cases p) (auto simp: worker_step_def Let_def nextRequest_def blockingDequeue_def split: if_splits)
      then show ?thesis using assms(3) Nil set_update_subset_insert [of "pl_workers p" i w]
        by (fastforce simp: decided_def split: if_splits)
    next
      case (Cons v vs)
      then have "\<forall>x \<in> set (pl_workers p). \<not> (x = Returned \<or> x = Rejected)" using assms(3) by (auto simp: decided_def)
      moreover obtain w s' where "p' = p\<lparr>pl_sched := s', pl_workers := (pl_workers p)[i := w]\<rparr>" "w = Executing v"
        using step True Cons by (auto simp: worker_step_def Let_def nextRequest_def blockingDequeue_def)
      ultimately show ?thesis using set_update_subset_insert [of "pl_workers p" i w] by (fastforce simp: decided_def)
    qed
  next
    case False
    then have one: "w_producer (pl_workers p ! i) = 1"
      using step by (cases "pl_workers p ! i") (auto simp: worker_step_def Let_def)
    then have "\<forall>x \<in> set (pl_workers p). \<not> (x = Returned \<or> x = Rejected)" using ended by blast
    moreover have "\<exists>w. pl_workers p' = (pl_workers p)[i := w] \<and> w \<noteq> Returned \<and> w \<noteq> Rejected"
      using step False one
      by (cases "pl_workers p ! i")
        (auto simp: worker_step_def Let_def split: sum.splits list.splits option.splits prod.splits if_splits)
    ultimately show ?thesis
      using set_update_subset_insert [of "pl_workers p" i] by (fastforce simp: decided_def)
  qed
qed


section \<open>Runs without failures\<close>

text \<open>No execution throws, and no request that pays for others fails.\<close>

definition no_failures :: "'r scheduler \<Rightarrow> (nat \<Rightarrow> int result \<Rightarrow> bool) \<Rightarrow> bool" where
  "no_failures s outcome \<longleftrightarrow>
    (\<forall>v. \<exists>res. outcome v res) \<and>
    (\<forall>v res. outcome v res \<longrightarrow>
      (\<exists>st. res = Inr st \<and>
        (st \<le> 400 \<or> (\<forall>nd. sc_nodeIndex s ! v = Some nd \<longrightarrow> nd_attachments nd = []))))"

definition attachments_of :: "'r scheduler \<Rightarrow> 'r scheduler \<Rightarrow> bool" where
  "attachments_of s t \<longleftrightarrow> (\<forall>v < length (sc_nodeIndex t). \<forall>nd. sc_nodeIndex t ! v = Some nd \<longrightarrow>
    (\<exists>nd0. sc_nodeIndex s ! v = Some nd0 \<and> nd_attachments nd = nd_attachments nd0))"

lemma attachments_trans:
  assumes "attachments_of s t" "attachments_of t u" "length (sc_nodeIndex u) = length (sc_nodeIndex t)"
  shows "attachments_of s u"
  using assms unfolding attachments_of_def by metis

lemma total_zeroI: "(\<And>x. x \<in> set xs \<Longrightarrow> f x = 0) \<Longrightarrow> total f xs = 0"
  by (induction xs) simp_all

lemma attachments_set_node:
  assumes "nd = None \<or> (\<exists>x y. sc_nodeIndex s ! v = Some x \<and> nd = Some y \<and> nd_attachments y = nd_attachments x)"
  shows "attachments_of s (set_node s v nd)"
proof -
  have "\<exists>nd0. sc_nodeIndex s ! u = Some nd0 \<and> nd_attachments y = nd_attachments nd0"
    if "u < length (sc_nodeIndex s)" "(sc_nodeIndex s)[v := nd] ! u = Some y" for u y
    using that assms by (cases "u = v") auto
  then show ?thesis by (simp add: attachments_of_def set_node_def)
qed

lemma attachments_simps [simp]:
  "attachments_of s s" "attachments_of s (set_node s v None)" "attachments_of s (enqueue_node s v)"
  "attachments_of s (count_request s)" "attachments_of s (leave_queue s)"
  "attachments_of s (s\<lparr>sc_zeroQueue := q\<rparr>)"
  by (simp_all add: attachments_set_node)
    (simp_all add: attachments_of_def enqueue_node_def count_request_def leave_queue_def)

lemma decrement_attachments:
  assumes "decrement_at s u = Inr (z, s')"
  shows "attachments_of s s'" "length (sc_nodeIndex s') = length (sc_nodeIndex s)"
proof -
  from assms obtain nd nd' where nd: "node_at s u = Inr nd" "decrementInDegree nd = Inr nd'"
    "s' = set_node s u (Some nd')"
    by (auto simp: decrement_at_def bind_result_Inr_iff)
  have "sc_nodeIndex s ! u = Some nd" using nd(1) by (auto simp: node_at_def split: if_splits option.splits)
  moreover have "nd_attachments nd' = nd_attachments nd"
    using nd(2) by (auto simp: decrementInDegree_def bind_result_Inr_iff)
  ultimately show "attachments_of s s'" using attachments_set_node nd(3) by blast
  show "length (sc_nodeIndex s') = length (sc_nodeIndex s)" using nd(3) by (simp add: set_node_def)
qed

lemma step_attachments:
  assumes "worker_step res i p = Some p'"
  shows "attachments_of (pl_sched p) (pl_sched p')"
    "length (sc_nodeIndex (pl_sched p')) = length (sc_nodeIndex (pl_sched p))"
proof -
  have "attachments_of (pl_sched p) (pl_sched p') \<and>
    length (sc_nodeIndex (pl_sched p')) = length (sc_nodeIndex (pl_sched p))"
  proof (cases "pl_workers p ! i")
    case Fetching
    then show ?thesis using assms
      by (auto simp: worker_step_def Let_def nextRequest_def split: option.splits sum.splits if_splits)
  next
    case (Executing v)
    then show ?thesis using assms by (auto simp: worker_step_def Let_def split: sum.splits)
  next
    case (Releasing v us)
    then show ?thesis using assms decrement_attachments
      by (cases us) (auto simp: worker_step_def Let_def split: sum.splits prod.splits if_splits)
  qed (use assms in \<open>auto simp: worker_step_def Let_def, (simp add: set_node_def enqueue_node_def
    count_request_def leave_queue_def)+\<close>)
  then show "attachments_of (pl_sched p) (pl_sched p')"
    "length (sc_nodeIndex (pl_sched p')) = length (sc_nodeIndex (pl_sched p))" by blast+
qed

lemma reach_exact:
  assumes "prepared A s" "valid_graph A" "buildExecDag s = Inr s'" "no_failures s outcome"
    and "pool_reach outcome (start_pool s' k) p"
  shows "safe_pool A p \<and> exact_pool A (skipped_nodes A) p \<and> decided p \<and> attachments_of s (pl_sched p) \<and>
    length (pl_workers p) = k"
  using assms(5)
proof (induction rule: pool_reach.induct)
  case start
  have "decided (start_pool s' k)" by (simp add: decided_def start_pool_def)
  moreover have "attachments_of s (pl_sched (start_pool s' k))"
    using start_pool_ok(3) [OF assms(1-3), of k] start_pool_ok(1) [OF assms(1-3), of k]
    by (fastforce simp: attachments_of_def safe_pool_def wf_pool_def)
  moreover have "length (pl_workers (start_pool s' k)) = k" by (simp add: start_pool_def)
  ultimately show ?case using start_pool_ok [OF assms(1-3)] by blast
next
  case (more p p')
  from more.hyps(2) obtain i res where i: "i < length (pl_workers p)" and step: "worker_step res i p = Some p'"
    and out: "\<And>v. pl_workers p ! i = Executing v \<Longrightarrow> outcome v res"
    by (elim pool_stepE) blast
  have att: "attachments_of s (pl_sched p')"
    using attachments_trans [OF _ step_attachments [OF step]] more.IH by blast
  have dec: "decided p'" using step_decided [OF _ more.hyps(2)] more.IH by blast
  have len: "length (pl_workers p') = length (pl_workers p)"
    using step
    by (cases "pl_workers p ! i")
      (auto simp: worker_step_def Let_def split: sum.splits list.splits option.splits prod.splits if_splits)
  from worker_step_cases [OF _ i step] more.IH have
    "conserved A p p' \<or> (\<exists>v e. pl_workers p ! i = Executing v \<and> (res = Inl e \<or>
        (\<exists>st nd. res = Inr st \<and> st > 400 \<and> sc_nodeIndex (pl_sched p) ! v = Some nd \<and> nd_attachments nd \<noteq> [])))"
    by blast
  then show ?case
  proof
    assume "conserved A p p'"
    then show ?case using conserved_safe conserved_exact more.IH att dec len by auto
  next
    assume "\<exists>v e. pl_workers p ! i = Executing v \<and> (res = Inl e \<or>
        (\<exists>st nd. res = Inr st \<and> st > 400 \<and> sc_nodeIndex (pl_sched p) ! v = Some nd \<and> nd_attachments nd \<noteq> []))"
    then obtain v e where v: "pl_workers p ! i = Executing v" and bad: "res = Inl e \<or>
        (\<exists>st nd. res = Inr st \<and> st > 400 \<and> sc_nodeIndex (pl_sched p) ! v = Some nd \<and> nd_attachments nd \<noteq> [])"
      by blast
    have wfp: "wf_pool A p" using more.IH by (simp add: safe_pool_def)
    have "v < length A" using wf_poolD(7) [OF wfp i] v by simp
    then have "v < length (sc_nodeIndex (pl_sched p))" using wf_poolD(1) [OF wfp] by simp
    then have "sc_nodeIndex (pl_sched p) ! v = Some nd \<Longrightarrow>
        \<exists>nd0. sc_nodeIndex s ! v = Some nd0 \<and> nd_attachments nd = nd_attachments nd0" for nd
      using more.IH by (auto simp: attachments_of_def)
    with out [OF v] assms(4) bad have False unfolding no_failures_def by (metis Inl_Inr_False not_less sum.inject(2))
    then show ?case ..
  qed
qed

text \<open>In a graph whose edges go to larger numbers, as the block loader has to check, a request without
  a response and without a token has such a predecessor, so the smallest one cannot exist.\<close>

definition topological :: "nat list list \<Rightarrow> bool" where
  "topological A \<longleftrightarrow> (\<forall>u < length A. \<forall>v \<in> set (A ! u). u < v \<and> v < length A)"

lemma topological_valid: "topological A \<Longrightarrow> valid_graph A"
  unfolding topological_def valid_graph_def by blast

lemma all_answered:
  assumes "safe_pool A p" "exact_pool A {} p" "topological A"
    and "\<forall>w \<in> set (pl_workers p). w_token w = [] \<and> w_pending w = []" "content (sc_zeroQueue (pl_sched p)) = []"
  shows "v < length A \<Longrightarrow> pl_responses p ! v \<noteq> None"
proof (induction v rule: less_induct)
  case (less v)
  have tot: "total (\<lambda>w. occ (w_token w) v) (pl_workers p) = 0"
    by (rule total_zeroI) (simp add: assms(4))
  have pen: "total (\<lambda>w. occ (w_pending w) v) (pl_workers p) = 0"
    by (rule total_zeroI) (simp add: assms(4))
  have tok: "tokens p v = 1" and bal: "load A p v = degree (pl_sched p) v"
    using assms(2) less.prems by (simp_all add: exact_pool_def)
  let ?f = "\<lambda>(adj, r). if r = None then occ adj v else 0"
  have len: "length (pl_responses p) = length A"
    using assms(1) wf_poolD(2) by (auto simp: safe_pool_def)
  show ?case
  proof (rule notI)
    assume none: "pl_responses p ! v = None"
    have "tokens p v = of_bool (degree (pl_sched p) v > 0)"
      unfolding tokens_def tot assms(5) none by simp
    then have "degree (pl_sched p) v > 0" using tok by simp
    then have "0 < total ?f (zip A (pl_responses p))"
      using bal unfolding load_def pen by simp
    from total_pos [OF this] obtain x where x: "x \<in> set (zip A (pl_responses p))" "0 < ?f x" by blast
    from x(1) obtain n where n: "n < length A" "x = (A ! n, pl_responses p ! n)"
      using len by (auto simp: set_zip)
    have u: "pl_responses p ! n = None" "v \<in> set (A ! n)"
      using x(2) unfolding n(2) by (simp_all add: occ_pos_iff split: if_splits)
    then have "n < v" using assms(3) n(1) unfolding topological_def by blast
    then show False using less.IH n(1) u(1) by blast
  qed
qed

text \<open>C9: When no request fails, the parallel execution of a topologically numbered graph whose sources
  have the smallest numbers ends with every worker returned and every request answered, in every
  interleaving; when a source has a larger number than some other node, every worker ends with a
  block error instead.\<close>

theorem parallel_execution_completes:
  assumes "prepared A s" "topological A" "buildExecDag s = Inr s'" "no_failures s outcome" "0 < k"
    and "pool_reach outcome (start_pool s' k) p" "\<forall>p'. \<not> pool_step outcome p p'"
  shows "if skipped_nodes A = {}
    then pl_workers p = replicate k Returned \<and> (\<forall>v < length A. pl_responses p ! v \<noteq> None)
    else pl_workers p = replicate k Rejected"
proof -
  from reach_exact [OF assms(1) topological_valid [OF assms(2)] assms(3,4,6)] have
    safe: "safe_pool A p" and exact: "exact_pool A (skipped_nodes A) p" and dec: "decided p"
    and len: "length (pl_workers p) = k" by blast+
  have ended: "\<forall>w \<in> set (pl_workers p). w = Returned \<or> w = Rejected"
    by (rule stuck_ended [OF safe exact assms(7)]) (use assms(4) in \<open>simp add: no_failures_def\<close>)
  have "pl_workers p \<noteq> []" using len assms(5) by auto
  then obtain w where w: "w \<in> set (pl_workers p)" by (cases "pl_workers p") auto
  have q: "content (sc_zeroQueue (pl_sched p)) = []" using dec ended w by (auto simp: decided_def)
  have all: "\<forall>w \<in> set (pl_workers p). w = Returned \<longleftrightarrow> sc_remaining (pl_sched p) = 0"
    using dec ended by (auto simp: decided_def)
  have none: "\<forall>w \<in> set (pl_workers p). w_token w = [] \<and> w_pending w = [] \<and> w_submitting w = 0"
    using ended by auto
  then have "total w_submitting (pl_workers p) = 0" by (intro total_zeroI) simp
  then have rem: "sc_remaining (pl_sched p) = unanswered p" using exact by (simp add: exact_pool_def)
  have replicate: "pl_workers p = replicate k x" if "\<forall>w \<in> set (pl_workers p). w = x" for x
    using that len by (metis replicate_length_same)
  have wfp: "wf_pool A p" using safe by (simp add: safe_pool_def)
  have len2: "length (pl_responses p) = length A" using wf_poolD(2) [OF wfp] .
  show ?thesis
  proof (cases "skipped_nodes A = {}")
    case True
    have answered: "\<forall>v < length A. pl_responses p ! v \<noteq> None"
      using all_answered [OF safe _ assms(2) _ q] exact none True by auto
    then have "\<forall>r \<in> set (pl_responses p). r \<noteq> None" using len2 by (auto simp: in_set_conv_nth)
    then have "unanswered p = 0" unfolding unanswered_def by (intro total_zeroI) simp
    then have "\<forall>w \<in> set (pl_workers p). w = Returned" using all rem by simp
    then show ?thesis using True replicate answered by simp
  next
    case False
    then obtain v where v: "v \<in> skipped_nodes A" by blast
    then have vA: "v < length A" by (simp add: skipped_nodes_def)
    then have "tokens p v = 0" using exact v by (simp add: exact_pool_def)
    moreover have "0 \<le> total (\<lambda>w. occ (w_token w) v) (pl_workers p)" by (rule total_nonneg) simp
    ultimately have "(of_bool (pl_responses p ! v \<noteq> None) :: int) \<le> 0"
      using occ_nonneg [of "content (sc_zeroQueue (pl_sched p))" v]
      unfolding tokens_def by (smt (verit) of_bool_def)
    then have "pl_responses p ! v = None" by simp
    then have "None \<in> set (pl_responses p)" using vA len2 by (metis nth_mem)
    from total_ge [OF _ this, of "\<lambda>r. of_bool (r = None)"] have "0 < unanswered p" by (simp add: unanswered_def)
    then have "\<forall>w \<in> set (pl_workers p). w = Rejected" using all rem ended by auto
    then show ?thesis using False replicate by simp
  qed
qed


section \<open>Failures\<close>

lemma worker_step_workers:
  assumes "worker_step res i p = Some p'"
  shows "\<exists>w. pl_workers p' = (pl_workers p)[i := w] \<and> \<not> is_aborted (pl_workers p ! i) \<and>
    (w = Returned \<or> w = Rejected \<longrightarrow> producerCount (sc_zeroQueue (pl_sched p)) \<le> 0)"
proof (cases "pl_workers p ! i")
  case Fetching
  show ?thesis
  proof (cases "content (sc_zeroQueue (pl_sched p))")
    case Nil
    then have "producerCount (sc_zeroQueue (pl_sched p)) \<le> 0"
      using assms Fetching by (auto simp: worker_step_def Let_def nextRequest_def blockingDequeue_def split: if_splits)
    then show ?thesis using assms Fetching Nil
      by (auto simp: worker_step_def Let_def nextRequest_def blockingDequeue_def split: if_splits)
  next
    case (Cons v vs)
    then have "pl_workers p' = (pl_workers p)[i := Executing v]"
      using assms Fetching by (auto simp: worker_step_def Let_def nextRequest_def blockingDequeue_def)
    then show ?thesis using Fetching by auto
  qed
next
  case (Executing v)
  then have "\<exists>w. pl_workers p' = (pl_workers p)[i := w] \<and> w \<noteq> Returned \<and> w \<noteq> Rejected"
    using assms by (auto simp: worker_step_def Let_def split: sum.splits)
  then show ?thesis using Executing by auto
next
  case (Releasing v us)
  then have "\<exists>w. pl_workers p' = (pl_workers p)[i := w] \<and> w \<noteq> Returned \<and> w \<noteq> Rejected"
    using assms by (cases us) (auto simp: worker_step_def Let_def split: sum.splits prod.splits if_splits)
  then show ?thesis using Releasing by auto
qed (use assms in \<open>auto simp: worker_step_def Let_def\<close>)

lemma reach_trans:
  "pool_reach outcome q r \<Longrightarrow> pool_reach outcome p q \<Longrightarrow> pool_reach outcome p r"
  by (induction rule: pool_reach.induct) (auto intro: pool_reach.more)

text \<open>C32: A worker whose request has thrown, or has failed to pay for others, leaves its producer in the
  queue. From then on no other worker returns or is rejected: each one waits for ever, or aborts
  itself, so the caller that waits for the workers never learns of the block error.\<close>

theorem failed_request_blocks_workers:
  assumes "prepared A s" "valid_graph A" "buildExecDag s = Inr s'"
    and "pool_reach outcome (start_pool s' k) p" "Aborted e \<in> set (pl_workers p)"
    and "pool_reach outcome p p'"
    and "i < length (pl_workers p)" "pl_workers p ! i \<noteq> Returned" "pl_workers p ! i \<noteq> Rejected"
  shows "pl_workers p' ! i \<noteq> Returned \<and> pl_workers p' ! i \<noteq> Rejected \<and>
    ((\<forall>q. \<not> pool_step outcome p' q) \<and> (\<forall>v. \<exists>res. outcome v res) \<longrightarrow>
      pl_workers p' ! i = Fetching \<or> is_aborted (pl_workers p' ! i))"
proof -
  obtain j where j: "j < length (pl_workers p)" "pl_workers p ! j = Aborted e"
    using assms(5) by (auto simp: in_set_conv_nth)
  have safe: "safe_pool A p" by (rule reach_safe [OF assms(4) start_pool_ok(1) [OF assms(1-3)]])
  from assms(6) have "length (pl_workers p') = length (pl_workers p) \<and> pl_workers p' ! j = Aborted e \<and>
      safe_pool A p' \<and> pl_workers p' ! i \<noteq> Returned \<and> pl_workers p' ! i \<noteq> Rejected"
  proof (induction rule: pool_reach.induct)
    case start
    then show ?case using j safe assms(8,9) by simp
  next
    case (more q q')
    from more.hyps(2) obtain l res where l: "l < length (pl_workers q)" "worker_step res l q = Some q'"
      by (elim pool_stepE) blast
    from worker_step_workers [OF l(2)] obtain w where w: "pl_workers q' = (pl_workers q)[l := w]"
      "\<not> is_aborted (pl_workers q ! l)"
      "w = Returned \<or> w = Rejected \<longrightarrow> producerCount (sc_zeroQueue (pl_sched q)) \<le> 0" by blast
    have lj: "l \<noteq> j" using w(2) more.IH by auto
    have "w_producer (pl_workers q ! j) \<le> total w_producer (pl_workers q)"
      by (rule total_ge) (use more.IH j nth_mem [of j "pl_workers q"] in auto)
    then have "1 \<le> producerCount (sc_zeroQueue (pl_sched q))" using more.IH by (simp add: safe_pool_def)
    then have "w \<noteq> Returned \<and> w \<noteq> Rejected" using w(3) by auto
    then show ?case using more.IH w(1) lj l(1) step_safe [OF more.hyps(2)]
      by (auto simp: nth_list_update)
  qed
  note inv = this
  have "pl_workers p' ! i = Fetching \<or> is_aborted (pl_workers p' ! i)"
    if st: "\<forall>q. \<not> pool_step outcome p' q" "\<forall>v. \<exists>res. outcome v res"
  proof -
    obtain res where "worker_step res i p' = None" using stuck_worker [OF st] inv assms(7) by auto
    from worker_can_step(1) [OF this] show ?thesis using inv by auto
  qed
  then show ?thesis using inv by blast
qed

text \<open>No interleaving makes a worker dereference a null pointer or violate the assertion of an
  in-degree: what a worker aborts with is thrown by the execution of its request or is the block error
  of a failed payment.\<close>

theorem workers_abort_for_requests_only:
  assumes "prepared A s" "valid_graph A" "buildExecDag s = Inr s'"
    and "pool_reach outcome (start_pool s' k) p" "Aborted e \<in> set (pl_workers p)"
  shows "(\<exists>v < length A. outcome v (Inl e)) \<or> (e = Block_error \<and> (\<exists>v < length A. \<exists>st > 400. outcome v (Inr st)))"
  using assms(4,5)
proof (induction rule: pool_reach.induct)
  case start
  then show ?case by (simp add: start_pool_def)
next
  case (more q q')
  have safe: "safe_pool A q" by (rule reach_safe [OF more.hyps(1) start_pool_ok(1) [OF assms(1-3)]])
  then have wfq: "wf_pool A q" by (simp add: safe_pool_def)
  from more.hyps(2) obtain i res where i: "i < length (pl_workers q)" "worker_step res i q = Some q'"
    and out: "\<And>v. pl_workers q ! i = Executing v \<Longrightarrow> outcome v res"
    by (elim pool_stepE) blast
  from worker_step_cases [OF safe i] show ?case
  proof (elim disjE exE conjE)
    assume "conserved A q q'"
    then show ?case using more.IH more.prems by (auto simp: conserved_def)
  next
    fix v e' assume v: "pl_workers q ! i = Executing v" and ws: "pl_workers q' = (pl_workers q)[i := Aborted e']"
      and "res = Inl e'"
    then have "v < length A" "outcome v (Inl e')" using wf_poolD(7) [OF wfq i(1)] out by auto
    then show ?case using more.IH more.prems ws set_update_subset_insert [of "pl_workers q" i "Aborted e'"] by auto
  next
    fix v e' st nd assume v: "pl_workers q ! i = Executing v" and ws: "pl_workers q' = (pl_workers q)[i := Aborted e']"
      and "e' = Block_error" "res = Inr st" "400 < st"
    then have "v < length A" "outcome v (Inr st)" using wf_poolD(7) [OF wfq i(1)] out by auto
    then show ?case using more.IH more.prems ws \<open>e' = Block_error\<close> \<open>400 < st\<close>
      set_update_subset_insert [of "pl_workers q" i "Aborted e'"] by auto
  qed
qed

section \<open>Submitting a result without interruption\<close>

lemma pool_run_append: "pool_run (xs @ ys) p = pool_run ys (pool_run xs p)"
  by (induction xs p rule: pool_run.induct) (simp_all split: option.split)

lemma pool_run_Suc:
  "worker_step res i p = Some q \<Longrightarrow> pool_run (replicate m (i, res)) q = r \<Longrightarrow>
    pool_run (replicate (Suc m) (i, res)) p = r"
  by simp

lemma release_run:
  assumes "i < length (pl_workers p)" "pl_workers p ! i = Releasing v us"
  shows "case release_nodes (pl_sched p) us of
      Inr s' \<Rightarrow> \<exists>m. pool_run (replicate m (i, res)) p =
        p\<lparr>pl_sched := s', pl_workers := (pl_workers p)[i := Releasing v []]\<rparr>
    | Inl e \<Rightarrow> \<exists>m. pl_workers (pool_run (replicate m (i, res)) p) = (pl_workers p)[i := Aborted e]"
  using assms
proof (induction us arbitrary: p)
  case Nil
  have "pool_run (replicate 0 (i, res)) p =
      p\<lparr>pl_sched := pl_sched p, pl_workers := (pl_workers p)[i := Releasing v []]\<rparr>"
    using Nil list_update_id [of "pl_workers p" i] by simp
  then show ?case by (auto simp del: replicate_0)
next
  case (Cons u us)
  show ?case
  proof (cases "decrement_at (pl_sched p) u")
    case (Inl e)
    then have "pool_run (replicate 1 (i, res)) p = p\<lparr>pl_workers := (pl_workers p)[i := Aborted e]\<rparr>"
      using Cons.prems by (cases p) (simp add: worker_step_def)
    then have "pl_workers (pool_run (replicate 1 (i, res)) p) = (pl_workers p)[i := Aborted e]" by simp
    then show ?thesis using Inl by (auto simp del: replicate_Suc)
  next
    case (Inr zs)
    obtain zero s1 where zs: "zs = (zero, s1)" by (cases zs)
    let ?s = "if zero then enqueue_node s1 u else s1"
    let ?q = "p\<lparr>pl_sched := ?s, pl_workers := (pl_workers p)[i := Releasing v us]\<rparr>"
    have step: "\<exists>m. \<forall>n. pool_run (replicate (m + n) (i, res)) p = pool_run (replicate n (i, res)) ?q"
    proof (cases zero)
      case True
      have "pool_run (replicate (2 + n) (i, res)) p = pool_run (replicate n (i, res)) ?q" for n
        using Cons.prems Inr zs True by (simp add: worker_step_def numeral_2_eq_2)
      then show ?thesis by blast
    next
      case False
      have "pool_run (replicate (1 + n) (i, res)) p = pool_run (replicate n (i, res)) ?q" for n
        using Cons.prems Inr zs False by (simp add: worker_step_def)
      then show ?thesis by blast
    qed
    then obtain m where m: "pool_run (replicate (m + n) (i, res)) p = pool_run (replicate n (i, res)) ?q" for n
      by blast
    have q: "i < length (pl_workers ?q)" "pl_workers ?q ! i = Releasing v us" using Cons.prems by simp_all
    have rel: "release_nodes (pl_sched p) (u # us) = release_nodes ?s us" using Inr zs by simp
    from Cons.IH [OF q] show ?thesis
    proof (cases "release_nodes ?s us")
      case (Inl e)
      then obtain n where "pl_workers (pool_run (replicate n (i, res)) ?q) = (pl_workers ?q)[i := Aborted e]"
        using Cons.IH [OF q] by auto
      then show ?thesis unfolding rel Inl using m [of n] by (auto intro: exI [of _ "m + n"])
    next
      case (Inr s')
      then obtain n where "pool_run (replicate n (i, res)) ?q =
          ?q\<lparr>pl_sched := s', pl_workers := (pl_workers ?q)[i := Releasing v []]\<rparr>"
        using Cons.IH [OF q] by auto
      then show ?thesis unfolding rel Inr using m [of n] by (auto intro: exI [of _ "m + n"])
    qed
  qed
qed

text \<open>The atomic actions of a worker that is not interrupted have the effect of \<^verbatim>\<open>submitResult\<close> on the scheduler,
  or abort with what it throws.\<close>

lemma uninterrupted_submit:
  assumes "i < length (pl_workers p)" "pl_workers p ! i = Executing v"
  shows "case submitResult (pl_sched p) v st of
      Inr s' \<Rightarrow> \<exists>m. pool_run (replicate m (i, Inr st)) p =
        p\<lparr>pl_sched := s', pl_workers := (pl_workers p)[i := Fetching],
          pl_responses := (pl_responses p)[v := Some st]\<rparr>
    | Inl e \<Rightarrow> \<exists>m. pl_workers (pool_run (replicate m (i, Inr st)) p) = (pl_workers p)[i := Aborted e]"
proof -
  let ?s = "pl_sched p"
  let ?chk = "bind_result (node_at ?s v) (\<lambda>nd. bind_result (checkStatus nd st) (\<lambda>_. Inr (nd_adjList nd)))"
  show ?thesis
  proof (cases ?chk)
    case (Inl e)
    then have "submitResult ?s v st = Inl e"
      by (cases "node_at ?s v") (auto simp: submitResult_def bind_result_Inl_iff)
    moreover have "pl_workers (pool_run (replicate 1 (i, Inr st)) p) = (pl_workers p)[i := Aborted e]"
      using Inl assms by (simp add: worker_step_def)
    ultimately show ?thesis by (auto simp del: replicate_Suc)
  next
    case (Inr adj)
    let ?q = "p\<lparr>pl_workers := (pl_workers p)[i := Releasing v adj], pl_responses := (pl_responses p)[v := Some st]\<rparr>"
    have sub: "submitResult ?s v st =
      bind_result (release_nodes ?s adj) (\<lambda>s1. Inr (leave_queue (count_request (set_node s1 v None))))"
      using Inr by (auto simp: submitResult_def bind_result_Inr_iff)
    have first: "pool_run (replicate (Suc n) (i, Inr st)) p = pool_run (replicate n (i, Inr st)) ?q" for n
      using Inr assms by (simp add: worker_step_def)
    have q: "i < length (pl_workers ?q)" "pl_workers ?q ! i = Releasing v adj" using assms by simp_all
    note rel = release_run [OF q, of "Inr st"]
    show ?thesis
    proof (cases "release_nodes ?s adj")
      case (Inl e)
      then obtain n where "pl_workers (pool_run (replicate n (i, Inr st)) ?q) = (pl_workers ?q)[i := Aborted e]"
        using rel by auto
      then have "pl_workers (pool_run (replicate (Suc n) (i, Inr st)) p) = (pl_workers p)[i := Aborted e]"
        unfolding first by simp
      then show ?thesis unfolding sub Inl by (auto simp del: replicate_Suc)
    next
      case (Inr s1)
      then obtain n where n: "pool_run (replicate n (i, Inr st)) ?q =
          ?q\<lparr>pl_sched := s1, pl_workers := (pl_workers ?q)[i := Releasing v []]\<rparr>"
        using rel by auto
      have "pool_run (replicate (Suc n + 4) (i, Inr st)) p =
        pool_run (replicate 4 (i, Inr st)) (pool_run (replicate n (i, Inr st)) ?q)"
        unfolding replicate_add pool_run_append first ..
      also have "\<dots> = p\<lparr>pl_sched := leave_queue (count_request (set_node s1 v None)),
          pl_workers := (pl_workers p)[i := Fetching], pl_responses := (pl_responses p)[v := Some st]\<rparr>"
        unfolding n using assms by (simp add: worker_step_def eval_nat_numeral)
      finally show ?thesis unfolding sub Inr by auto
    qed
  qed
qed

lemma decrement_at_effect:
  assumes "node_at s u = Inr nd" "0 < nd_inDegree nd"
  shows "decrement_at s u =
    Inr (nd_inDegree nd = 1, s\<lparr>sc_nodeIndex := (sc_nodeIndex s)[u := Some (nd\<lparr>nd_inDegree := nd_inDegree nd - 1\<rparr>)]\<rparr>)"
  using assms by (simp add: decrement_at_def decrementInDegree_def set_node_def)

lemma node_at_Inr_iff: "node_at s u = Inr nd \<longleftrightarrow> u < length (sc_nodeIndex s) \<and> sc_nodeIndex s ! u = Some nd"
  by (auto simp: node_at_def split: option.splits)

text \<open>Releasing the successors of a request lowers the in-degree of each by one and hands out those that have no
  unanswered predecessor left, in the order of the adjacency list.\<close>

lemma release_nodes_effect:
  assumes "distinct us" "\<forall>u \<in> set us. \<exists>nd. node_at s u = Inr nd \<and> 0 < nd_inDegree nd"
  shows "\<exists>s'. release_nodes s us = Inr s' \<and> sc_remaining s' = sc_remaining s \<and> sc_accessMaps s' = sc_accessMaps s \<and>
    sc_zeroQueue s' = (sc_zeroQueue s)\<lparr>content := content (sc_zeroQueue s) @ filter (\<lambda>u. degree s u = 1) us\<rparr> \<and>
    length (sc_nodeIndex s') = length (sc_nodeIndex s) \<and>
    (\<forall>u. sc_nodeIndex s' ! u = (if u \<in> set us
       then map_option (\<lambda>nd. nd\<lparr>nd_inDegree := nd_inDegree nd - 1\<rparr>) (sc_nodeIndex s ! u) else sc_nodeIndex s ! u))"
  using assms
proof (induction us arbitrary: s)
  case (Cons u us)
  obtain nd where nd: "node_at s u = Inr nd" "0 < nd_inDegree nd" using Cons.prems(2) by auto
  then have u: "u < length (sc_nodeIndex s)" "sc_nodeIndex s ! u = Some nd" by (simp_all add: node_at_Inr_iff)
  let ?s1 = "s\<lparr>sc_nodeIndex := (sc_nodeIndex s)[u := Some (nd\<lparr>nd_inDegree := nd_inDegree nd - 1\<rparr>)]\<rparr>"
  let ?s2 = "if nd_inDegree nd = 1 then enqueue_node ?s1 u else ?s1"
  have idx: "sc_nodeIndex ?s2 = sc_nodeIndex ?s1" "sc_remaining ?s2 = sc_remaining s" "sc_accessMaps ?s2 = sc_accessMaps s"
    "sc_zeroQueue ?s2 = (sc_zeroQueue s)\<lparr>content := content (sc_zeroQueue s) @ (if nd_inDegree nd = 1 then [u] else [])\<rparr>"
    by (simp_all add: enqueue_node_def enqueue_def)
  have other: "sc_nodeIndex ?s2 ! x = sc_nodeIndex s ! x" if "x \<noteq> u" for x
    unfolding idx(1) using that by simp
  have deg: "degree s u = nd_inDegree nd" by (simp add: degree_def u)
  have same: "filter (\<lambda>x. degree ?s2 x = 1) us = filter (\<lambda>x. degree s x = 1) us"
  proof (rule filter_cong [OF refl])
    fix x assume "x \<in> set us"
    then have "x \<noteq> u" using Cons.prems(1) by auto
    have "degree ?s2 x = degree s x" unfolding degree_def other [OF \<open>x \<noteq> u\<close>] by (rule refl)
    then show "(degree ?s2 x = 1) = (degree s x = 1)" by (simp only:)
  qed
  have "\<forall>x \<in> set us. \<exists>nd. node_at ?s2 x = Inr nd \<and> 0 < nd_inDegree nd"
  proof
    fix x assume x: "x \<in> set us"
    then have "x \<noteq> u" using Cons.prems(1) by auto
    moreover obtain nd where "node_at s x = Inr nd" "0 < nd_inDegree nd" using Cons.prems(2) x by auto
    ultimately show "\<exists>nd. node_at ?s2 x = Inr nd \<and> 0 < nd_inDegree nd"
      unfolding node_at_Inr_iff other [OF \<open>x \<noteq> u\<close>] idx(1) by simp
  qed
  moreover have "distinct us" using Cons.prems(1) by simp
  ultimately obtain s' where s': "release_nodes ?s2 us = Inr s'" "sc_remaining s' = sc_remaining ?s2"
      "sc_accessMaps s' = sc_accessMaps ?s2"
      "sc_zeroQueue s' = (sc_zeroQueue ?s2)\<lparr>content := content (sc_zeroQueue ?s2) @ filter (\<lambda>u. degree ?s2 u = 1) us\<rparr>"
      "length (sc_nodeIndex s') = length (sc_nodeIndex ?s2)"
      "\<forall>x. sc_nodeIndex s' ! x = (if x \<in> set us
        then map_option (\<lambda>nd. nd\<lparr>nd_inDegree := nd_inDegree nd - 1\<rparr>) (sc_nodeIndex ?s2 ! x) else sc_nodeIndex ?s2 ! x)"
    using Cons.IH [of ?s2] by blast
  have "release_nodes s (u # us) = Inr s'"
    using decrement_at_effect [OF nd] s'(1) by simp
  moreover have "sc_zeroQueue s' = (sc_zeroQueue s)\<lparr>content := content (sc_zeroQueue s) @ filter (\<lambda>u. degree s u = 1) (u # us)\<rparr>"
    unfolding s'(4) same idx(4) by (simp add: deg)
  moreover have "\<forall>x. sc_nodeIndex s' ! x = (if x \<in> set (u # us)
       then map_option (\<lambda>nd. nd\<lparr>nd_inDegree := nd_inDegree nd - 1\<rparr>) (sc_nodeIndex s ! x) else sc_nodeIndex s ! x)"
  proof
    fix x
    show "sc_nodeIndex s' ! x = (if x \<in> set (u # us)
       then map_option (\<lambda>nd. nd\<lparr>nd_inDegree := nd_inDegree nd - 1\<rparr>) (sc_nodeIndex s ! x) else sc_nodeIndex s ! x)"
    proof (cases "x = u")
      case True
      have "u \<notin> set us" using Cons.prems(1) by simp
      then show ?thesis using s'(6) u True by (simp add: idx(1))
    next
      case False
      then show ?thesis using s'(6) other [OF False] by simp
    qed
  qed
  moreover have "length (sc_nodeIndex s') = length (sc_nodeIndex s)" unfolding s'(5) idx(1) by simp
  ultimately show ?case using s'(2,3) idx(2,3) by (intro exI [of _ s']) simp
qed simp

text \<open>C33: Answering a request, as one call of \<^verbatim>\<open>submitResult\<close> or as the atomic actions of a worker that no other worker
  interrupts, stores the response, deletes the node, lowers the count of open requests and the in-degree of every
  successor by one, hands out those successors, in the order of the adjacency list, that have no other unanswered
  predecessor, and takes the worker off the producers of the queue, after which it fetches again; a status above 400 of
  a request that pays for others instead makes the block invalid and aborts the worker. (A node is listed once in an
  adjacency list, which is a set, and the successors are nodes with a positive in-degree.)\<close>

theorem request_answered:
  assumes "i < length (pl_workers p)" "pl_workers p ! i = Executing v" "node_at (pl_sched p) v = Inr nd"
    and "distinct (nd_adjList nd)" "\<forall>u \<in> set (nd_adjList nd). \<exists>n. node_at (pl_sched p) u = Inr n \<and> 0 < nd_inDegree n"
  shows "if 400 < st \<and> nd_attachments nd \<noteq> [] then
      submitResult (pl_sched p) v st = Inl Block_error \<and>
      (\<exists>m. pl_workers (pool_run (replicate m (i, Inr st)) p) = (pl_workers p)[i := Aborted Block_error])
    else \<exists>m s'. submitResult (pl_sched p) v st = Inr s' \<and>
      pool_run (replicate m (i, Inr st)) p = p\<lparr>pl_sched := s', pl_workers := (pl_workers p)[i := Fetching],
        pl_responses := (pl_responses p)[v := Some st]\<rparr> \<and>
      sc_remaining s' = sc_remaining (pl_sched p) - 1 \<and> sc_accessMaps s' = sc_accessMaps (pl_sched p) \<and>
      content (sc_zeroQueue s') = content (sc_zeroQueue (pl_sched p)) @ filter (\<lambda>u. degree (pl_sched p) u = 1) (nd_adjList nd) \<and>
      producerCount (sc_zeroQueue s') = producerCount (sc_zeroQueue (pl_sched p)) - 1 \<and>
      length (sc_nodeIndex s') = length (sc_nodeIndex (pl_sched p)) \<and>
      (\<forall>u. sc_nodeIndex s' ! u =
        (if u = v then None
         else if u \<in> set (nd_adjList nd)
         then map_option (\<lambda>n. n\<lparr>nd_inDegree := nd_inDegree n - 1\<rparr>) (sc_nodeIndex (pl_sched p) ! u)
         else sc_nodeIndex (pl_sched p) ! u))"
proof (cases "400 < st \<and> nd_attachments nd \<noteq> []")
  case True
  then have "submitResult (pl_sched p) v st = Inl Block_error"
    using assms(3) by (simp add: submitResult_def checkStatus_def)
  then show ?thesis using True uninterrupted_submit [OF assms(1,2), of st] by simp
next
  case False
  let ?s = "pl_sched p"
  obtain s1 where s1: "release_nodes ?s (nd_adjList nd) = Inr s1" "sc_remaining s1 = sc_remaining ?s"
      "sc_accessMaps s1 = sc_accessMaps ?s"
      "sc_zeroQueue s1 = (sc_zeroQueue ?s)\<lparr>content := content (sc_zeroQueue ?s) @ filter (\<lambda>u. degree ?s u = 1) (nd_adjList nd)\<rparr>"
      "length (sc_nodeIndex s1) = length (sc_nodeIndex ?s)"
      "\<forall>u. sc_nodeIndex s1 ! u = (if u \<in> set (nd_adjList nd)
         then map_option (\<lambda>nd. nd\<lparr>nd_inDegree := nd_inDegree nd - 1\<rparr>) (sc_nodeIndex ?s ! u) else sc_nodeIndex ?s ! u)"
    using release_nodes_effect [OF assms(4,5)] by blast
  let ?s' = "leave_queue (count_request (set_node s1 v None))"
  have sub: "submitResult ?s v st = Inr ?s'"
    using assms(3) False s1(1) by (auto simp: submitResult_def checkStatus_def)
  obtain m where m: "pool_run (replicate m (i, Inr st)) p = p\<lparr>pl_sched := ?s', pl_workers := (pl_workers p)[i := Fetching],
        pl_responses := (pl_responses p)[v := Some st]\<rparr>"
    using uninterrupted_submit [OF assms(1,2), of st] unfolding sub by auto
  have f: "sc_remaining ?s' = sc_remaining ?s - 1" "sc_accessMaps ?s' = sc_accessMaps ?s"
    "sc_zeroQueue ?s' = removeProducer (sc_zeroQueue s1)" "sc_nodeIndex ?s' = (sc_nodeIndex s1)[v := None]"
    by (simp_all add: leave_queue_def count_request_def set_node_def s1(2,3))
  have v: "v < length (sc_nodeIndex s1)" using assms(3) s1(5) by (simp add: node_at_Inr_iff)
  have idx: "sc_nodeIndex ?s' ! u = (if u = v then None
         else if u \<in> set (nd_adjList nd)
         then map_option (\<lambda>n. n\<lparr>nd_inDegree := nd_inDegree n - 1\<rparr>) (sc_nodeIndex ?s ! u)
         else sc_nodeIndex ?s ! u)" for u
    unfolding f(4) using v s1(6) by (simp add: nth_list_update)
  have q: "content (sc_zeroQueue ?s') = content (sc_zeroQueue ?s) @ filter (\<lambda>u. degree ?s u = 1) (nd_adjList nd)"
    "producerCount (sc_zeroQueue ?s') = producerCount (sc_zeroQueue ?s) - 1"
    unfolding f(3) s1(4) by (simp_all add: removeProducer_def)
  have len: "length (sc_nodeIndex ?s') = length (sc_nodeIndex ?s)" unfolding f(4) using s1(5) by simp
  show ?thesis
    unfolding if_not_P [OF False]
    by (rule exI [of _ m], rule exI [of _ ?s'], intro conjI allI; (rule sub m f(1,2) q len idx))
qed

section \<open>Preparation and status codes\<close>

text \<open>Finalising the requests in any order gives each node its number of predecessors, and building
  the graph then enqueues exactly the requests without predecessors that precede all others; without
  one the block is rejected.\<close>

theorem requests_finalized:
  assumes "graph_nodes A (\<lambda>_. 0) s" "sc_remaining s = int (length A)" "sc_zeroQueue s = BlockingQueue"
    and "valid_graph A" "mset order = mset [0..<length A]"
    and "\<forall>i < length A. \<forall>nd. sc_nodeIndex s ! i = Some nd \<longrightarrow> set (nd_attachments nd) \<subseteq> {..<length A}"
  shows "\<exists>s1. finalizeRequests s order = Inr s1 \<and> prepared A s1 \<and>
    (if source_nodes A = [] then buildExecDag s1 = Inl Block_error
     else \<exists>s2. buildExecDag s1 = Inr s2 \<and> content (sc_zeroQueue s2) = source_nodes A \<and>
       sc_nodeIndex s2 = sc_nodeIndex s1 \<and> sc_remaining s2 = sc_remaining s1)"
proof -
  have "set order = set [0..<length A]" using assms(5) by (metis set_mset_mset)
  then have sub: "set order \<subseteq> {..<length A}" by auto
  have tot: "total (\<lambda>i. occ (A ! i) v) order = indegree A v" for v
  proof -
    have "total f order = total f [0..<length A]" for f :: "nat \<Rightarrow> int"
      using assms(5) by (simp add: total_def flip: sum_mset_sum_list)
    then have "total (\<lambda>i. occ (A ! i) v) order = total (\<lambda>adj. occ adj v) (map ((!) A) [0..<length A])"
      by (simp add: total_map comp_def)
    then show ?thesis by (simp add: map_nth indegree_def)
  qed
  from finalizeRequests_graph [OF assms(1,4) sub assms(6)] obtain s1 where
    s1: "finalizeRequests s order = Inr s1" "graph_nodes A (indegree A) s1"
      "sc_remaining s1 = sc_remaining s" "sc_zeroQueue s1 = sc_zeroQueue s"
    by (auto simp: tot)
  then have "prepared A s1" using assms(2,3) by (simp add: prepared_def)
  then show ?thesis using s1(1) buildExecDag_prepared [of A s1] by auto
qed

text \<open>A request that pays for others makes the block invalid when its status is above 400; with the
  status 400 of a bad request it is accepted like a successful one.\<close>

theorem failed_payment_status:
  assumes "node_at s v = Inr nd" "nd_attachments nd \<noteq> []"
  shows "(400 < st \<longrightarrow> submitResult s v st = Inl Block_error) \<and>
    submitResult s v 400 = submitResult s v 200"
  using assms by (simp add: submitResult_def checkStatus_def)

section \<open>A concrete block\<close>

text \<open>Three requests; the last one comes after the two others and pays for the first.\<close>

definition sample_graph :: "nat list list" where
  "sample_graph = [[2], [2], []]"

definition sample_node :: "nat list \<Rightarrow> nat list \<Rightarrow> int \<Rightarrow> unit dag_node option" where
  "sample_node adj att d =
    Some \<lparr>nd_request = (), nd_attachments = att, nd_adjList = adj, nd_inDegree = d\<rparr>"

definition sample_scheduler :: "int \<Rightarrow> unit scheduler" where
  "sample_scheduler d = \<lparr>sc_remaining = 3, sc_zeroQueue = BlockingQueue,
    sc_nodeIndex = [sample_node [2] [] 0, sample_node [2] [] 0, sample_node [] [0] d], sc_accessMaps = []\<rparr>"

definition sample_started :: "unit scheduler" where
  "sample_started = (sample_scheduler 2)\<lparr>sc_zeroQueue := \<lparr>content = [0, 1], producerCount = 0\<rparr>\<rparr>"

definition sample_outcome :: "nat \<Rightarrow> int result \<Rightarrow> bool" where
  "sample_outcome v res \<longleftrightarrow> res = Inr 200"

lemma all_less_3: "(\<forall>v < 3. P v) \<longleftrightarrow> P 0 \<and> P 1 \<and> P (2 :: nat)"
proof -
  have "v < 3 \<longleftrightarrow> v = 0 \<or> v = 1 \<or> v = (2 :: nat)" for v by auto
  then show ?thesis by auto
qed

lemma sample_graph_ok:
  "topological sample_graph" "valid_graph sample_graph" "skipped_nodes sample_graph = {}"
  "source_nodes sample_graph = [0, 1]"
proof -
  have l: "length sample_graph = 3" by (simp add: sample_graph_def)
  show t: "topological sample_graph"
    unfolding topological_def l all_less_3 by (simp add: sample_graph_def)
  show "valid_graph sample_graph" by (rule topological_valid [OF t])
  show src: "source_nodes sample_graph = [0, 1]" by code_simp
  have "indegree sample_graph 2 \<noteq> 0" by code_simp
  then have "v \<notin> skipped_nodes sample_graph" for v
    using all_less_3 [of "\<lambda>v. v \<notin> skipped_nodes sample_graph"] l src
    by (cases "v < 3") (auto simp: skipped_nodes_def)
  then show "skipped_nodes sample_graph = {}" by blast
qed

lemma sample_prepared: "prepared sample_graph (sample_scheduler 2)"
proof -
  have "indegree sample_graph 0 = 0" "indegree sample_graph 1 = 0" "indegree sample_graph 2 = 2" by code_simp+
  moreover have l: "length sample_graph = 3" by (simp add: sample_graph_def)
  ultimately show ?thesis
    unfolding prepared_def graph_nodes_def l all_less_3
    by (simp add: sample_scheduler_def sample_node_def) (simp add: sample_graph_def)
qed

lemma sample_built: "buildExecDag (sample_scheduler 2) = Inr sample_started"
  unfolding buildExecDag_prepared [OF sample_prepared] sample_graph_ok sample_started_def
  by (simp add: BlockingQueue_def)

lemma pool_run_reach:
  "(\<forall>(i, res) \<in> set es. i < length (pl_workers p) \<and> (\<forall>v. outcome v res)) \<Longrightarrow> pool_reach outcome p (pool_run es p)"
proof (induction es arbitrary: p)
  case Nil
  then show ?case by (simp add: pool_reach.start)
next
  case (Cons a es)
  obtain i res where a: "a = (i, res)" by (cases a)
  show ?case
  proof (cases "worker_step res i p")
    case None
    then show ?thesis using Cons a by simp
  next
    case (Some q)
    have ir: "i < length (pl_workers p)" "\<forall>v. outcome v res" using Cons.prems a by simp_all
    have "pool_step outcome p q" by (rule pool_step.step [OF ir(1) Some]) (use ir(2) in blast)
    then have pq: "pool_reach outcome p q" by (rule pool_reach.more [OF pool_reach.start])
    have len: "length (pl_workers q) = length (pl_workers p)" using worker_step_workers [OF Some] by auto
    have "pool_reach outcome q (pool_run es q)"
      by (rule Cons.IH) (use Cons.prems len in simp)
    from reach_trans [OF this pq] show ?thesis using a Some by simp
  qed
qed

definition sample_schedule :: "(nat \<times> int result) list" where
  "sample_schedule = replicate 2 (0, Inr 200) @ replicate 9 (1, Inr 200) @ replicate 16 (0, Inr 200) @ [(1, Inr 200)]"

definition sample_pool :: "(nat \<times> int result) list \<Rightarrow> unit pool" where
  "sample_pool es = pool_run es (start_pool sample_started 2)"

definition sample_both :: "(nat \<times> int result) list" where
  "sample_both = replicate 7 (0, Inr 200) @ replicate 8 (1, Inr 200)"

lemma sample_reach:
  "(\<forall>(i, res) \<in> set es. i < 2 \<and> (\<forall>v. outcome v res)) \<Longrightarrow>
    pool_reach outcome (start_pool sample_started 2) (sample_pool es)"
  unfolding sample_pool_def by (rule pool_run_reach) (simp add: start_pool_def)

theorem dependencies_respected_witness:
  "\<exists>p. p = sample_pool (sample_both @ [(0, Inr 200)]) \<and> pl_workers p ! 0 = Executing 2 \<and>
    pl_responses p ! 0 \<noteq> None \<and> pl_responses p ! 1 \<noteq> None"
proof -
  let ?p = "sample_pool (sample_both @ [(0, Inr 200)])"
  have r: "pool_reach sample_outcome (start_pool sample_started 2) ?p"
    by (rule sample_reach) (simp add: sample_outcome_def sample_both_def)
  have w: "0 < length (pl_workers ?p)" "pl_workers ?p ! 0 = Executing 2" by code_simp+
  from dependencies_respected [OF sample_prepared sample_graph_ok(2) sample_built r w]
  have "pl_responses ?p ! 0 \<noteq> None \<and> pl_responses ?p ! 1 \<noteq> None" by (simp add: sample_graph_def)
  then show ?thesis using w(2) by blast
qed

theorem parallel_execution_terminates_witness:
  "\<exists>p. (pool_step sample_outcome ^^ 1) (start_pool sample_started 2) p \<and>
    (1 :: nat) \<le> sum_list (map (\<lambda>adj. 2 * length adj + 6) sample_graph) + 2 * 2"
proof -
  have "worker_step (Inr 200) 0 (start_pool sample_started 2) \<noteq> None" by code_simp
  then obtain p where p: "worker_step (Inr 200) 0 (start_pool sample_started 2) = Some p" by blast
  have "pool_step sample_outcome (start_pool sample_started 2) p"
    by (rule pool_step.step [OF _ p]) (simp_all add: sample_outcome_def start_pool_def)
  then have "(pool_step sample_outcome ^^ 1) (start_pool sample_started 2) p" by auto
  with parallel_execution_terminates [OF sample_prepared sample_graph_ok(2) sample_built this]
  show ?thesis by blast
qed

theorem parallel_execution_completes_witness:
  "\<exists>p. p = sample_pool (sample_both @ replicate 7 (0, Inr 200) @ [(1, Inr 200)]) \<and>
    pl_workers p = replicate 2 Returned \<and> pl_responses p ! 2 \<noteq> None"
proof -
  let ?p = "sample_pool (sample_both @ replicate 7 (0, Inr 200) @ [(1, Inr 200)])"
  have r: "pool_reach sample_outcome (start_pool sample_started 2) ?p"
    by (rule sample_reach) (simp add: sample_outcome_def sample_both_def)
  have "pl_workers ?p = [Returned, Returned]" by code_simp
  then have "worker_step res i ?p = None" if "i < length (pl_workers ?p)" for i res
    using that by (auto simp: worker_step_def less_Suc_eq)
  then have stuck: "\<forall>q. \<not> pool_step sample_outcome ?p q" by (auto elim!: pool_stepE)
  have ok: "no_failures (sample_scheduler 2) sample_outcome"
    by (simp add: no_failures_def sample_outcome_def)
  from parallel_execution_completes [OF sample_prepared sample_graph_ok(1) sample_built ok _ r stuck]
  show ?thesis by (simp add: sample_graph_ok) (simp add: sample_graph_def)
qed

definition sample_failing :: "nat \<Rightarrow> int result \<Rightarrow> bool" where
  "sample_failing v res \<longleftrightarrow> res = Inl Block_error \<or> res = Inr 200"

definition sample_fails :: "(nat \<times> int result) list" where
  "sample_fails = [(0, Inl Block_error), (0, Inl Block_error)]"

lemma sample_fails_reach:
  "pool_reach sample_failing (start_pool sample_started 2) (sample_pool sample_fails)"
  "Aborted Block_error \<in> set (pl_workers (sample_pool sample_fails))"
proof -
  show "pool_reach sample_failing (start_pool sample_started 2) (sample_pool sample_fails)"
    by (rule sample_reach) (simp add: sample_fails_def sample_failing_def)
  show "Aborted Block_error \<in> set (pl_workers (sample_pool sample_fails))" by code_simp
qed

theorem failed_request_blocks_workers_witness:
  "\<exists>p'. pool_reach sample_failing (sample_pool sample_fails) p' \<and>
    (\<forall>q. \<not> pool_step sample_failing p' q) \<and> pl_workers p' ! 1 \<noteq> Returned \<and> pl_workers p' ! 1 \<noteq> Rejected \<and>
    sc_remaining (pl_sched p') = 2"
proof -
  let ?es = "replicate 8 (1, Inr 200)" and ?p = "sample_pool sample_fails"
  let ?p' = "pool_run ?es ?p"
  have len: "length (pl_workers ?p) = 2" by code_simp
  have r: "pool_reach sample_failing ?p ?p'"
    by (rule pool_run_reach) (simp add: len sample_failing_def)
  have ws: "pl_workers ?p' = [Aborted Block_error, Fetching]" "nextRequest (pl_sched ?p') = None"
    "sc_remaining (pl_sched ?p') = 2" by code_simp+
  have "worker_step res i ?p' = None" if "i < length (pl_workers ?p')" for i res
    using that ws by (auto simp: worker_step_def less_Suc_eq)
  then have stuck: "\<forall>q. \<not> pool_step sample_failing ?p' q" by (auto elim!: pool_stepE)
  have one: "1 < length (pl_workers ?p)" "pl_workers ?p ! 1 \<noteq> Returned" "pl_workers ?p ! 1 \<noteq> Rejected"
    by code_simp+
  from failed_request_blocks_workers
    [OF sample_prepared sample_graph_ok(2) sample_built sample_fails_reach r one]
  show ?thesis using r stuck ws(3) by blast
qed

theorem workers_abort_for_requests_only_witness:
  "\<exists>v < length sample_graph. sample_failing v (Inl Block_error) \<or> (\<exists>st > 400. sample_failing v (Inr st))"
  using workers_abort_for_requests_only
    [OF sample_prepared sample_graph_ok(2) sample_built sample_fails_reach] by blast

theorem request_answered_witness:
  "\<exists>(p :: unit pool) m s'. submitResult (pl_sched p) 1 200 = Inr s' \<and> pl_sched (pool_run (replicate m (1, Inr 200)) p) = s' \<and>
    content (sc_zeroQueue s') = [2] \<and> producerCount (sc_zeroQueue s') = 0 \<and> sc_remaining s' = 1 \<and> sc_nodeIndex s' ! 1 = None"
proof -
  define p where "p = sample_pool (replicate 7 (0, Inr 200) @ [(1, Inr 200)])"
  have w: "1 < length (pl_workers p)" "pl_workers p ! 1 = Executing 1" unfolding p_def by code_simp+
  have s: "pl_sched p = sample_started\<lparr>sc_remaining := 2, sc_zeroQueue := \<lparr>content = [], producerCount = 1\<rparr>,
      sc_nodeIndex := [None, sample_node [2] [] 0, sample_node [] [0] 1]\<rparr>"
    unfolding p_def by code_simp
  have n: "node_at (pl_sched p) 1 = Inr (the (sample_node [2] [] 0))" "nd_adjList (the (sample_node [2] [] 0)) = [2]"
    "node_at (pl_sched p) 2 = Inr (the (sample_node [] [0] 1))" "nd_inDegree (the (sample_node [] [0] 1)) = 1"
    "degree (pl_sched p) 2 = 1"
    by (simp_all add: s node_at_def sample_node_def degree_def)
  have d: "distinct (nd_adjList (the (sample_node [2] [] 0)))"
    "\<forall>u \<in> set (nd_adjList (the (sample_node [2] [] 0))). \<exists>n. node_at (pl_sched p) u = Inr n \<and> 0 < nd_inDegree n"
    using n(3,4) by (simp_all add: n(2))
  obtain m s' where r: "submitResult (pl_sched p) 1 200 = Inr s'"
    "pool_run (replicate m (1, Inr 200)) p = p\<lparr>pl_sched := s', pl_workers := (pl_workers p)[1 := Fetching],
        pl_responses := (pl_responses p)[1 := Some 200]\<rparr>"
    "sc_remaining s' = sc_remaining (pl_sched p) - 1"
    "content (sc_zeroQueue s') = content (sc_zeroQueue (pl_sched p)) @ filter (\<lambda>u. degree (pl_sched p) u = 1) [2]"
    "producerCount (sc_zeroQueue s') = producerCount (sc_zeroQueue (pl_sched p)) - 1" "sc_nodeIndex s' ! 1 = None"
    using request_answered [OF w n(1) d, of 200] n(2) by auto
  have "submitResult (pl_sched p) 1 200 = Inr s' \<and> pl_sched (pool_run (replicate m (1, Inr 200)) p) = s' \<and>
    content (sc_zeroQueue s') = [2] \<and> producerCount (sc_zeroQueue s') = 0 \<and> sc_remaining s' = 1 \<and> sc_nodeIndex s' ! 1 = None"
    using r n(5) by (simp add: s)
  then show ?thesis by blast
qed

theorem requests_finalized_witness:
  "\<exists>s1 s2. finalizeRequests (sample_scheduler 0) [1, 2, 0] = Inr s1 \<and> prepared sample_graph s1 \<and>
    buildExecDag s1 = Inr s2 \<and> content (sc_zeroQueue s2) = [0, 1]"
proof -
  have l: "length sample_graph = 3" by (simp add: sample_graph_def)
  have g: "graph_nodes sample_graph (\<lambda>_. 0) (sample_scheduler 0)"
    unfolding graph_nodes_def l all_less_3
    by (simp add: sample_scheduler_def sample_node_def) (simp add: sample_graph_def)
  have m: "mset [1, 2, 0] = mset [0..<length sample_graph]" by (simp add: l numeral_3_eq_3)
  have a: "\<forall>i < length sample_graph. \<forall>nd. sc_nodeIndex (sample_scheduler 0) ! i = Some nd \<longrightarrow>
      set (nd_attachments nd) \<subseteq> {..<length sample_graph}"
    unfolding l all_less_3 by (simp add: sample_scheduler_def sample_node_def)
  have r: "sc_remaining (sample_scheduler 0) = int (length sample_graph)"
    "sc_zeroQueue (sample_scheduler 0) = BlockingQueue" by (simp_all add: sample_scheduler_def l)
  from requests_finalized [OF g r sample_graph_ok(2) m a] show ?thesis
    unfolding sample_graph_ok by auto
qed

theorem failed_payment_status_witness:
  "submitResult sample_started 2 404 = Inl Block_error \<and>
    submitResult sample_started 2 400 = submitResult sample_started 2 200"
proof -
  have n: "node_at sample_started 2 = Inr \<lparr>nd_request = (), nd_attachments = [0], nd_adjList = [], nd_inDegree = 2\<rparr>"
    by (simp add: node_at_def sample_started_def sample_scheduler_def sample_node_def)
  show ?thesis using failed_payment_status [OF n, of 404] by simp
qed

end
