(* ===== verification/Collisions.thy ===== *)
theory Collisions
  imports Scheduler
begin

text \<open>
  The verification of the proposed execution graph, \<^verbatim>\<open>src/validator/RequestScheduler.h\<close> and
  \<^verbatim>\<open>RequestScheduler.cpp\<close>: for every chunk the access blocks of all requests, ordered by offset
  and kind of access, are searched for collisions, and each collision has to be covered by the graph.
  \<open>findCollisions\<close> compares the blocks in pairs; the cluster-product algorithm
  \<open>findCollisionCliques\<close> collects requests with the same access in clusters, whose writable ones are
  cliques that need one path through all members only; \<open>findResizingCollisions\<close> covers accesses
  behind the guaranteed size of a chunk. Offsets and sizes are integers: a block lies inside a chunk,
  so that their sums stay far below the bounds of 32-bit integers. The offsets -3, -2 and -1 stand for
  the declarations about the size of the chunk.
\<close>


section \<open>The execution graph as the clusters see it\<close>

text \<open>What \<^verbatim>\<open>dag->isAdjacent(u, v)\<close> answers.\<close>

type_synonym dag = "int \<Rightarrow> int \<Rightarrow> bool result"

definition scheduler_dag :: "'r scheduler \<Rightarrow> dag" where
  "scheduler_dag s u v =
    (if u < 0 then Inl Undefined_behaviour
     else if v < 0 then bind_result (node_at s (nat u)) (\<lambda>_. Inr False)
     else isAdjacent s (nat u) (nat v))"

definition registerAdjacency :: "dag \<Rightarrow> int \<Rightarrow> int \<Rightarrow> unit result" where
  "registerAdjacency dag u v = bind_result (dag u v) (\<lambda>b. require b Invalid_argument)"

section \<open>Clusters of requests\<close>

record cluster =
  cl_type :: AccessType
  cl_members :: "int list"

definition VerifierCluster :: cluster where
  "VerifierCluster = \<lparr>cl_type = check_only, cl_members = []\<rparr>"

definition cluster_merge :: "cluster \<Rightarrow> cluster \<Rightarrow> cluster" where
  "cluster_merge self c =
    self\<lparr>cl_members := if cl_type c = writable_access then mergeInsert 0 (cl_members self) (cl_members c)
                       else cl_members self @ cl_members c\<rparr>"

definition cluster_insert :: "cluster \<Rightarrow> int \<Rightarrow> AccessType \<Rightarrow> cluster" where
  "cluster_insert self requestID accessType =
    \<lparr>cl_type = accessType,
     cl_members = if accessType = writable_access then mergeInsert 0 (cl_members self) [requestID]
                  else cl_members self @ [requestID]\<rparr>"

fun register_chain :: "dag \<Rightarrow> int list \<Rightarrow> unit result" where
  "register_chain dag (u # v # rest) =
    bind_result (registerAdjacency dag u v) (\<lambda>_. register_chain dag (v # rest))"
| "register_chain dag _ = Inr ()"

definition cluster_finalize :: "dag \<Rightarrow> cluster \<Rightarrow> unit result" where
  "cluster_finalize dag self =
    (if cl_type self = writable_access then register_chain dag (cl_members self) else Inr ())"

definition addDependency :: "dag \<Rightarrow> int \<Rightarrow> int \<Rightarrow> unit result" where
  "addDependency dag u v = (if u < v then registerAdjacency dag u v else registerAdjacency dag v u)"

fun add_dependencies :: "dag \<Rightarrow> int list \<Rightarrow> int \<Rightarrow> unit result" where
  "add_dependencies dag [] u = Inr ()"
| "add_dependencies dag (m # ms) u = bind_result (addDependency dag m u) (\<lambda>_. add_dependencies dag ms u)"

text \<open>\<^verbatim>\<open>std::upper_bound\<close> and \<^verbatim>\<open>std::lower_bound\<close> on a sorted vector.\<close>

definition upper_bound :: "int list \<Rightarrow> int \<Rightarrow> nat" where
  "upper_bound xs u = length (takeWhile (\<lambda>x. \<not> u < x) xs)"

definition lower_bound :: "int list \<Rightarrow> int \<Rightarrow> nat" where
  "lower_bound xs u = length (takeWhile (\<lambda>x. x < u) xs)"

definition cluster_addDependency :: "dag \<Rightarrow> cluster \<Rightarrow> int \<Rightarrow> unit result" where
  "cluster_addDependency dag self u =
    (if cl_type self = writable_access then
       (let ms = cl_members self; nxt = upper_bound ms u
        in if nxt = length ms then
             (if nxt = 0 then Inl Undefined_behaviour else registerAdjacency dag (ms ! (nxt - 1)) u)
           else if nxt = 0 then registerAdjacency dag u (ms ! nxt)
           else bind_result (registerAdjacency dag (ms ! (nxt - 1)) u) (\<lambda>_. registerAdjacency dag u (ms ! nxt)))
     else add_dependencies dag (cl_members self) u)"

section \<open>The cluster-product algorithm\<close>

definition canMerge :: "AccessBlockInfo \<Rightarrow> int \<Rightarrow> AccessBlockInfo \<Rightarrow> int \<Rightarrow> bool" where
  "canMerge left leftOffset right rightOffset \<longleftrightarrow>
    abi_access left = abi_access right \<and>
    (\<not> isAdditive (abi_access left) \<or>
     (isAdditive (abi_access left) \<and> leftOffset = rightOffset \<and> abi_size left = abi_size right))"

definition block_end :: "int \<Rightarrow> AccessBlockInfo \<Rightarrow> int" where
  "block_end offset b = (if offset = - 1 \<or> offset = - 2 then 0 else offset + abi_size b)"

text \<open>The inner loop: the index of the block that the cluster is merged into, if there is one.\<close>

function scan_blocks ::
  "dag \<Rightarrow> cluster \<Rightarrow> int list \<Rightarrow> AccessBlockInfo list \<Rightarrow> nat \<Rightarrow> int \<Rightarrow> nat \<Rightarrow> nat option result" where
  "scan_blocks dag c offsets blocks i e j =
    (if j < length blocks \<and> offsets ! j < e then
       (if \<not> canMerge (blocks ! i) (offsets ! i) (blocks ! j) (offsets ! j) \<or> e > offsets ! j + abi_size (blocks ! j)
        then bind_result
               (if collides (abi_access (blocks ! i)) (abi_access (blocks ! j))
                then cluster_addDependency dag c (abi_request (blocks ! j)) else Inr ())
               (\<lambda>_. scan_blocks dag c offsets blocks i e (Suc j))
        else Inr (Some j))
     else Inr None)"
  by pat_completeness auto
termination by (relation "measure (\<lambda>(dag, c, offsets, blocks, i, e, j). length blocks - j)") auto

declare scan_blocks.simps [simp del]

text \<open>The splitting: the entries between \<open>i\<close> and \<open>k\<close> move down by one, and a new one is put before
  the entry \<open>k\<close>.\<close>

definition shift_insert :: "nat \<Rightarrow> nat \<Rightarrow> 'a \<Rightarrow> 'a list \<Rightarrow> 'a list" where
  "shift_insert i k x xs = take i xs @ drop (Suc i) (take k xs) @ x # drop k xs"

definition split_block ::
  "int \<Rightarrow> nat \<Rightarrow> nat \<Rightarrow> nat \<Rightarrow> int list \<times> AccessBlockInfo list \<times> cluster list
   \<Rightarrow> int list \<times> AccessBlockInfo list \<times> cluster list" where
  "split_block e i j k = (\<lambda>(offsets, blocks, clusters).
    (let offsets' = shift_insert i k e offsets;
         left = (blocks ! j)\<lparr>abi_size := e - offsets' ! (j - 1)\<rparr>;
         right = (blocks ! j)\<lparr>abi_size := abi_size (blocks ! j) - abi_size left\<rparr>
     in (offsets', (shift_insert i k right blocks)[j - 1 := left], shift_insert i k VerifierCluster clusters)))"

text \<open>One iteration of the outer loop, with the index of the next one.\<close>

definition clique_step ::
  "dag \<Rightarrow> nat \<Rightarrow> int list \<times> AccessBlockInfo list \<times> cluster list
   \<Rightarrow> (nat \<times> int list \<times> AccessBlockInfo list \<times> cluster list) result" where
  "clique_step dag i = (\<lambda>(offsets, blocks, clusters).
    (let b = blocks ! i; offset = offsets ! i
     in if offset = - 3 \<or> abi_access b = check_only then Inr (Suc i, offsets, blocks, clusters)
        else
          (let c = cluster_insert (clusters ! i) (abi_request b) (abi_access b);
               clusters1 = clusters[i := c];
               e = block_end offset b
           in bind_result (scan_blocks dag c offsets blocks i e (Suc i)) (\<lambda>merged.
                case merged of
                  None \<Rightarrow> bind_result (cluster_finalize dag c) (\<lambda>_. Inr (Suc i, offsets, blocks, clusters1))
                | Some j \<Rightarrow>
                    (let clusters2 = clusters1[j := cluster_merge (clusters1 ! j) c];
                         collidingEnd = offsets ! j + abi_size (blocks ! j);
                         k = Suc i + lower_bound (drop (Suc i) offsets) e
                     in if e < collidingEnd \<and> k < length offsets \<and> offsets ! k < collidingEnd
                        then Inr (i, split_block e i j k (offsets, blocks, clusters2))
                        else Inr (Suc i, offsets, blocks, clusters2))))))"

text \<open>\<open>None\<close>: the loop does not end.\<close>

partial_function (option) clique_loop ::
  "dag \<Rightarrow> nat \<Rightarrow> int list \<times> AccessBlockInfo list \<times> cluster list \<Rightarrow> unit result option" where
  "clique_loop dag i st =
    (if i < length (fst st) then
       (case clique_step dag i st of
          Inl e \<Rightarrow> Some (Inl e)
        | Inr (i', st') \<Rightarrow> clique_loop dag i' st')
     else Some (Inr ()))"

declare clique_loop.simps [code]

definition findCollisionCliques :: "dag \<Rightarrow> int list \<Rightarrow> AccessBlockInfo list \<Rightarrow> unit result option" where
  "findCollisionCliques dag sortedOffsets accessBlocks =
    clique_loop dag 0 (sortedOffsets, accessBlocks, replicate (length sortedOffsets) VerifierCluster)"

section \<open>Collisions with the size of a chunk\<close>

definition resize_collision :: "int \<Rightarrow> int \<Rightarrow> int \<Rightarrow> bool" where
  "resize_collision offset e newSize \<longleftrightarrow> (if newSize > 0 then offset < newSize else e > - newSize)"

fun register_resizers :: "dag \<Rightarrow> int \<Rightarrow> int \<Rightarrow> int \<Rightarrow> AccessBlockInfo list \<Rightarrow> unit result" where
  "register_resizers dag reqID offset e [] = Inr ()"
| "register_resizers dag reqID offset e (w # ws) =
    bind_result
      (if reqID \<noteq> abi_request w \<and> resize_collision offset e (abi_size w)
       then addDependency dag reqID (abi_request w) else Inr ())
      (\<lambda>_. register_resizers dag reqID offset e ws)"

fun resizing_loop ::
  "dag \<Rightarrow> int \<Rightarrow> AccessBlockInfo list \<Rightarrow> (int \<times> AccessBlockInfo) list \<Rightarrow> unit result" where
  "resizing_loop dag lowerBound writers [] = Inr ()"
| "resizing_loop dag lowerBound writers ((offset, b) # rest) =
    bind_result (require (offset \<ge> 0) Assert_failed) (\<lambda>_.
    bind_result
      (if offset + abi_size b > lowerBound
       then register_resizers dag (abi_request b) offset (offset + abi_size b) writers else Inr ())
      (\<lambda>_. resizing_loop dag lowerBound writers rest))"

definition findResizingCollisions ::
  "dag \<Rightarrow> int result \<Rightarrow> int list \<Rightarrow> AccessBlockInfo list \<Rightarrow> unit result" where
  "findResizingCollisions dag getSizeLowerBound sortedOffsets accessBlocks =
    (let writersEnd = upper_bound sortedOffsets (- 1);
         writersBegin = lower_bound (take writersEnd sortedOffsets) (- 1)
     in if writersEnd = length sortedOffsets then Inr ()
        else if writersBegin = writersEnd then Inr ()
        else bind_result getSizeLowerBound (\<lambda>lowerBound.
               resizing_loop dag lowerBound (drop writersBegin (take writersEnd accessBlocks))
                 (drop writersEnd (zip sortedOffsets accessBlocks))))"

definition checkCollisions ::
  "dag \<Rightarrow> int result \<Rightarrow> int list \<Rightarrow> AccessBlockInfo list \<Rightarrow> unit result option" where
  "checkCollisions dag getSizeLowerBound sortedOffsets accessBlocks =
    (case findResizingCollisions dag getSizeLowerBound sortedOffsets accessBlocks of
       Inl e \<Rightarrow> Some (Inl e)
     | Inr _ \<Rightarrow> findCollisionCliques dag sortedOffsets accessBlocks)"

section \<open>The pairwise algorithm\<close>

definition registerDependency :: "dag \<Rightarrow> int \<Rightarrow> int \<Rightarrow> unit result" where
  "registerDependency dag u v =
    bind_result (require (u \<noteq> v) Assert_failed) (\<lambda>_.
    bind_result (dag u v) (\<lambda>uv.
      if uv then Inr ()
      else bind_result (dag v u) (\<lambda>vu. require vu Block_error)))"

function pair_loop :: "dag \<Rightarrow> int list \<Rightarrow> AccessBlockInfo list \<Rightarrow> nat \<Rightarrow> int \<Rightarrow> nat \<Rightarrow> unit result" where
  "pair_loop dag offsets blocks i e j =
    (if j < length blocks \<and> offsets ! j < e then
       bind_result
         (if collides (abi_access (blocks ! i)) (abi_access (blocks ! j)) \<and>
            \<not> (isAdditive (abi_access (blocks ! i)) \<and> abi_access (blocks ! i) = abi_access (blocks ! j) \<and>
               offsets ! i = offsets ! j \<and> abi_size (blocks ! i) = abi_size (blocks ! j))
          then registerDependency dag (abi_request (blocks ! i)) (abi_request (blocks ! j)) else Inr ())
         (\<lambda>_. pair_loop dag offsets blocks i e (Suc j))
     else Inr ())"
  by pat_completeness auto
termination by (relation "measure (\<lambda>(dag, offsets, blocks, i, e, j). length blocks - j)") auto

declare pair_loop.simps [simp del]

fun register_writers :: "dag \<Rightarrow> int \<Rightarrow> int \<Rightarrow> int \<Rightarrow> AccessBlockInfo list \<Rightarrow> unit result" where
  "register_writers dag reqID offset e [] = Inr ()"
| "register_writers dag reqID offset e (w # ws) =
    bind_result
      (if reqID \<noteq> abi_request w \<and> resize_collision offset e (abi_size w)
       then registerDependency dag reqID (abi_request w) else Inr ())
      (\<lambda>_. register_writers dag reqID offset e ws)"

text \<open>The variables of the loop: begin and end of the interval of size writers, whether it is open, and
  the lower bound of the size.\<close>

fun collisions_loop ::
  "dag \<Rightarrow> int result \<Rightarrow> int list \<Rightarrow> AccessBlockInfo list \<Rightarrow> nat list \<Rightarrow> nat \<times> nat \<times> bool \<times> int \<Rightarrow> unit result" where
  "collisions_loop dag bound offsets blocks [] vars = Inr ()"
| "collisions_loop dag bound offsets blocks (i # is) (wBegin, wEnd, inList, lowerBound) =
    (let offset = offsets ! i; reqID = abi_request (blocks ! i)
     in if offset = - 3 then collisions_loop dag bound offsets blocks is (wBegin, wEnd, inList, lowerBound)
        else
          (let e = block_end offset (blocks ! i)
           in bind_result (pair_loop dag offsets blocks i e (Suc i)) (\<lambda>_.
              bind_result
                (if \<not> inList \<and> offset = - 1 then Inr (i, wEnd, True, lowerBound)
                 else if inList \<and> offset \<noteq> - 1
                 then bind_result bound (\<lambda>lb. Inr (wBegin, i, False, lb))
                 else Inr (wBegin, wEnd, inList, lowerBound))
                (\<lambda>(wBegin', wEnd', inList', lowerBound').
                   bind_result
                     (if e > lowerBound'
                      then register_writers dag reqID offset e (drop wBegin' (take wEnd' blocks)) else Inr ())
                     (\<lambda>_. collisions_loop dag bound offsets blocks is (wBegin', wEnd', inList', lowerBound'))))))"

definition findCollisions :: "dag \<Rightarrow> int result \<Rightarrow> int list \<Rightarrow> AccessBlockInfo list \<Rightarrow> unit result" where
  "findCollisions dag bound sortedOffsets accessBlocks =
    collisions_loop dag bound sortedOffsets accessBlocks [0..<length accessBlocks] (0, 0, False, 0)"


section \<open>What a graph has to provide\<close>

text \<open>The clusters only ask for edges; what a successful check shows are paths.\<close>

locale dependency_graph =
  fixes adjacent :: dag and path :: "int \<Rightarrow> int \<Rightarrow> bool"
  assumes edge: "adjacent u v = Inr True \<Longrightarrow> path u v"
    and join: "path u v \<Longrightarrow> path v w \<Longrightarrow> path u w"
begin

lemma registered: "registerAdjacency adjacent u v = Inr r \<Longrightarrow> path u v"
  by (auto simp: registerAdjacency_def bind_result_Inr_iff intro: edge)

lemma dependency_registered: "addDependency adjacent u v = Inr r \<Longrightarrow> path u v \<or> path v u"
  by (auto simp: addDependency_def dest: registered split: if_splits)

text \<open>A clique: a path leads through all members in their order.\<close>

lemma chain: "register_chain adjacent ms = Inr r \<Longrightarrow> p < q \<Longrightarrow> q < length ms \<Longrightarrow> path (ms ! p) (ms ! q)"
proof (induction ms arbitrary: p q rule: induct_list012)
  case (3 u v rest)
  from "3.prems"(1) have uv: "path u v" and rest: "register_chain adjacent (v # rest) = Inr r"
    by (auto simp: bind_result_Inr_iff dest: registered)
  have IH: "p < q \<Longrightarrow> q < length (v # rest) \<Longrightarrow> path ((v # rest) ! p) ((v # rest) ! q)" for p q
    using "3.IH"(2) [OF rest] by simp
  show ?case
  proof (cases p)
    case 0
    obtain q' where q': "q = Suc q'" using "3.prems"(2) 0 by (cases q) auto
    show ?thesis
    proof (cases q')
      case (Suc q'')
      then have "path v ((v # rest) ! q')" using IH [of 0 q'] "3.prems"(3) q' by simp
      then show ?thesis using join [OF uv] 0 q' by simp
    qed (use uv 0 q' in simp)
  next
    case (Suc p')
    then obtain q' where "q = Suc q'" "p' < q'" using "3.prems"(2) by (cases q) auto
    then show ?thesis using IH [of p' q'] "3.prems"(3) Suc by simp
  qed
qed simp_all

lemma clique:
  assumes "register_chain adjacent ms = Inr r" "x \<in> set ms" "y \<in> set ms" "x \<noteq> y"
  shows "path x y \<or> path y x"
proof -
  obtain p q where "p < length ms" "ms ! p = x" "q < length ms" "ms ! q = y"
    using assms(2,3) by (auto simp: in_set_conv_nth)
  then show ?thesis using chain [OF assms(1), of p q] chain [OF assms(1), of q p] assms(4)
    by (cases p q rule: linorder_cases) auto
qed

lemma all_dependencies: "add_dependencies adjacent ms u = Inr r \<Longrightarrow> x \<in> set ms \<Longrightarrow> path x u \<or> path u x"
  by (induction ms) (auto simp: bind_result_Inr_iff dest: dependency_registered)

text \<open>A request that collides with a clique is connected with every member, if the members are
  connected with each other.\<close>

lemma clique_dependency:
  assumes "cluster_addDependency adjacent c u = Inr r"
    and "cl_type c = writable_access \<Longrightarrow> sorted (cl_members c) \<and>
      (\<forall>x \<in> set (cl_members c). \<forall>y \<in> set (cl_members c). x < y \<longrightarrow> path x y)"
    and "x \<in> set (cl_members c)"
  shows "path x u \<or> path u x"
proof (cases "cl_type c = writable_access")
  case False
  then show ?thesis using assms(1,3) all_dependencies by (simp add: cluster_addDependency_def)
next
  case True
  let ?ms = "cl_members c" and ?n = "upper_bound (cl_members c) u"
  have sorted: "sorted ?ms" and conn: "\<And>y z. y \<in> set ?ms \<Longrightarrow> z \<in> set ?ms \<Longrightarrow> y < z \<Longrightarrow> path y z"
    using assms(2) True by auto
  obtain k where k: "k < length ?ms" "?ms ! k = x" using assms(3) by (auto simp: in_set_conv_nth)
  have le: "?n \<le> length ?ms" by (simp add: upper_bound_def length_takeWhile_le)
  show ?thesis
  proof (cases "k < ?n")
    case True
    have "path (?ms ! (?n - 1)) u"
      using assms(1) \<open>cl_type c = writable_access\<close> True le
      by (auto simp: cluster_addDependency_def Let_def bind_result_Inr_iff dest: registered split: if_splits)
    moreover have "x = ?ms ! (?n - 1) \<or> path x (?ms ! (?n - 1))"
    proof (cases "x = ?ms ! (?n - 1)")
      case False
      have "x \<le> ?ms ! (?n - 1)" using sorted_nth_mono [OF sorted, of k "?n - 1"] k True le by auto
      then have "x < ?ms ! (?n - 1)" using False by simp
      moreover have "?ms ! (?n - 1) \<in> set ?ms" using True le by (intro nth_mem) auto
      ultimately show ?thesis using conn assms(3) by blast
    qed simp
    ultimately show ?thesis using join by blast
  next
    case False
    have "path u (?ms ! ?n)"
      using assms(1) \<open>cl_type c = writable_access\<close> False k(1)
      by (auto simp: cluster_addDependency_def Let_def bind_result_Inr_iff dest: registered split: if_splits)
    moreover have "x = ?ms ! ?n \<or> path (?ms ! ?n) x"
    proof (cases "x = ?ms ! ?n")
      case False
      have "?ms ! ?n \<le> x" using sorted_nth_mono [OF sorted, of ?n k] k \<open>\<not> k < ?n\<close> by auto
      moreover have "?ms ! ?n \<in> set ?ms" using \<open>\<not> k < ?n\<close> k(1) by (intro nth_mem) auto
      ultimately show ?thesis using False conn [of "?ms ! ?n" x] assms(3) by linarith
    qed simp
    ultimately show ?thesis using join by blast
  qed
qed

end

text \<open>Paths of a graph: what its edges connect.\<close>

inductive dag_path :: "dag \<Rightarrow> int \<Rightarrow> int \<Rightarrow> bool" for dag :: dag where
  single: "dag u v = Inr True \<Longrightarrow> dag_path dag u v"
| longer: "dag_path dag u v \<Longrightarrow> dag v w = Inr True \<Longrightarrow> dag_path dag u w"

lemma dag_path_trans:
  assumes "dag_path dag v w" "dag_path dag u v"
  shows "dag_path dag u w"
  using assms by (induction rule: dag_path.induct) (auto intro: dag_path.longer)

interpretation dp: dependency_graph dag "dag_path dag" for dag
  by unfold_locales (auto intro: dag_path.single dag_path_trans)

text \<open>In the scheduler's graph a path is a chain of adjacent requests.\<close>

lemma scheduler_dag_edge:
  assumes "graph_nodes A d s" "scheduler_dag s u v = Inr True" "u < int (length A)"
  shows "\<exists>x y. u = int x \<and> v = int y \<and> y \<in> set (A ! x)"
proof -
  have "0 \<le> u" "0 \<le> v" using assms(2) by (auto simp: scheduler_dag_def bind_result_Inr_iff split: if_splits)
  moreover have "nat u < length A" using assms(3) calculation by simp
  moreover from graph_nodes_at [OF assms(1) this] obtain nd where
    "node_at s (nat u) = Inr nd" "nd_adjList nd = A ! nat u" by blast
  ultimately have "nat v \<in> set (A ! nat u)"
    using assms(2) by (simp add: scheduler_dag_def isAdjacent_def node_isAdjacent_def)
  then show ?thesis using \<open>0 \<le> u\<close> \<open>0 \<le> v\<close> by (intro exI [of _ "nat u"] exI [of _ "nat v"]) simp
qed

lemma topologicalD: "topological A \<Longrightarrow> u < length A \<Longrightarrow> v \<in> set (A ! u) \<Longrightarrow> u < v \<and> v < length A"
  unfolding topological_def by blast

lemma scheduler_path_increasing:
  assumes "graph_nodes A d s" "topological A" "dag_path (scheduler_dag s) u v" "u < int (length A)"
  shows "u < v \<and> v < int (length A)"
  using assms(3,4)
proof (induction rule: dag_path.induct)
  case (single u v)
  from scheduler_dag_edge [OF assms(1) single] obtain x y where "u = int x" "v = int y" "y \<in> set (A ! x)" by blast
  then show ?case using topologicalD [OF assms(2), of x y] single(2) by simp
next
  case (longer u v w)
  then have uv: "u < v" "v < int (length A)" by auto
  from scheduler_dag_edge [OF assms(1) longer.hyps(2) uv(2)] obtain x y where
    "v = int x" "w = int y" "y \<in> set (A ! x)" by blast
  then have "v < w" "w < int (length A)" using topologicalD [OF assms(2), of x y] uv(2) by simp_all
  then show ?case using uv(1) by simp
qed

section \<open>Members of a cluster\<close>

lemma mergeInsert_ok:
  assumes "sorted l" "sorted r"
  shows "sorted (mergeInsert d l r)" "mset (mergeInsert d l r) = mset l + mset r"
proof -
  let ?l = "l @ replicate (length r) d"
  from mergeInsert_loop_correct [of "length l" "length r" ?l r] assms obtain P where
    "mergeInsert_loop ?l r (length r) (int (length l) - 1) = P @ drop (length l + length r) ?l"
    "mset P = mset l + mset r" "sorted P" by auto
  then show "sorted (mergeInsert d l r)" "mset (mergeInsert d l r) = mset l + mset r"
    by (simp_all add: mergeInsert_def)
qed

lemma cluster_insert_members:
  assumes "t = writable_access \<longrightarrow> sorted (cl_members c)"
  shows "cl_type (cluster_insert c r t) = t" "mset (cl_members (cluster_insert c r t)) = add_mset r (mset (cl_members c))"
    "t = writable_access \<Longrightarrow> sorted (cl_members (cluster_insert c r t))"
  using assms mergeInsert_ok [of "cl_members c" "[r]" 0] by (auto simp: cluster_insert_def)

lemma cluster_merge_members:
  assumes "cl_type c = writable_access \<longrightarrow> sorted (cl_members self) \<and> sorted (cl_members c)"
  shows "mset (cl_members (cluster_merge self c)) = mset (cl_members self) + mset (cl_members c)"
    "cl_type c = writable_access \<Longrightarrow> sorted (cl_members (cluster_merge self c))"
  using assms mergeInsert_ok [of "cl_members self" "cl_members c" 0] by (auto simp: cluster_merge_def)


section \<open>Blocks of equal ranges\<close>

text \<open>Any two blocks have the same range or disjoint ranges, as when all requests declare the fields of
  the same data structure. Nothing has to be split then.\<close>

definition aligned :: "int list \<Rightarrow> AccessBlockInfo list \<Rightarrow> bool" where
  "aligned offsets blocks \<longleftrightarrow> length offsets = length blocks \<and>
    (\<forall>p < length blocks. 0 \<le> offsets ! p \<and> 0 < abi_size (blocks ! p)) \<and>
    (\<forall>q < length blocks. \<forall>p < q.
      offsets ! p = offsets ! q \<and> abi_size (blocks ! p) = abi_size (blocks ! q) \<or>
      offsets ! p + abi_size (blocks ! p) \<le> offsets ! q)"

abbreviation same_kind :: "int list \<Rightarrow> AccessBlockInfo list \<Rightarrow> nat \<Rightarrow> nat \<Rightarrow> bool" where
  "same_kind offsets blocks p q \<equiv>
    offsets ! p = offsets ! q \<and> abi_access (blocks ! p) = abi_access (blocks ! q)"

lemma aligned_le:
  assumes "aligned offsets blocks" "p \<le> q" "q < length blocks"
  shows "offsets ! p \<le> offsets ! q"
proof (cases "p = q")
  case False
  then have "p < q" using assms(2) by simp
  then have "offsets ! p = offsets ! q \<or> offsets ! p + abi_size (blocks ! p) \<le> offsets ! q" "0 < abi_size (blocks ! p)"
    using assms(1,3) unfolding aligned_def by (blast, simp)
  then show ?thesis by linarith
qed simp

lemma aligned_within:
  assumes "aligned offsets blocks" "p < q" "q < length blocks" "offsets ! q < offsets ! p + abi_size (blocks ! p)"
  shows "offsets ! q = offsets ! p" "abi_size (blocks ! q) = abi_size (blocks ! p)"
proof -
  have "offsets ! p = offsets ! q \<and> abi_size (blocks ! p) = abi_size (blocks ! q) \<or>
      offsets ! p + abi_size (blocks ! p) \<le> offsets ! q"
    using assms(1-3) unfolding aligned_def by blast
  then show "offsets ! q = offsets ! p" "abi_size (blocks ! q) = abi_size (blocks ! p)" using assms(4) by auto
qed

lemma aligned_same_size:
  assumes "aligned offsets blocks" "p < q" "q < length blocks" "offsets ! p = offsets ! q"
  shows "abi_size (blocks ! q) = abi_size (blocks ! p)"
proof -
  have "0 < abi_size (blocks ! p)" using assms(1-3) unfolding aligned_def by simp
  then show ?thesis using aligned_within(2) [OF assms(1-3)] assms(4) by simp
qed

text \<open>What the inner loop has checked when it ends.\<close>

definition checked :: "dag \<Rightarrow> cluster \<Rightarrow> AccessBlockInfo list \<Rightarrow> nat \<Rightarrow> nat \<Rightarrow> bool" where
  "checked dag c blocks i q \<longleftrightarrow> abi_access (blocks ! q) \<noteq> abi_access (blocks ! i) \<and>
    (collides (abi_access (blocks ! i)) (abi_access (blocks ! q)) \<longrightarrow>
      cluster_addDependency dag c (abi_request (blocks ! q)) = Inr ())"

lemma scan_aligned:
  assumes "aligned offsets blocks" "i < j" "j \<le> length blocks" "i < length blocks"
    and "scan_blocks dag c offsets blocks i (offsets ! i + abi_size (blocks ! i)) j = Inr r"
  shows "(case r of
      None \<Rightarrow> \<forall>q. j \<le> q \<and> q < length blocks \<and> offsets ! q = offsets ! i \<longrightarrow> checked dag c blocks i q
    | Some m \<Rightarrow> j \<le> m \<and> m < length blocks \<and> same_kind offsets blocks i m \<and>
        (\<forall>q. j \<le> q \<and> q < m \<longrightarrow> checked dag c blocks i q))"
  using assms(2,3,5)
proof (induction "length blocks - j" arbitrary: j)
  case 0
  then show ?case by (subst (asm) scan_blocks.simps) (auto split: option.splits)
next
  case (Suc n)
  then have j: "j < length blocks" by simp
  let ?e = "offsets ! i + abi_size (blocks ! i)"
  have pos: "0 < abi_size (blocks ! i)" using assms(1,4) unfolding aligned_def by simp
  show ?case
  proof (cases "offsets ! j < ?e")
    case False
    then have "r = None" using Suc.prems(3) by (subst (asm) scan_blocks.simps) simp
    moreover have "offsets ! q \<noteq> offsets ! i" if "j \<le> q" "q < length blocks" for q
      using aligned_le [OF assms(1) that] False pos by linarith
    ultimately show ?thesis by auto
  next
    case True
    note within = aligned_within [OF assms(1) Suc.prems(1) j True]
    have merge: "canMerge (blocks ! i) (offsets ! i) (blocks ! j) (offsets ! j) \<longleftrightarrow>
        abi_access (blocks ! i) = abi_access (blocks ! j)"
      using within by (auto simp: canMerge_def)
    show ?thesis
    proof (cases "abi_access (blocks ! i) = abi_access (blocks ! j)")
      case eq: True
      then have "canMerge (blocks ! i) (offsets ! i) (blocks ! j) (offsets ! j)" using merge by simp
      then have "scan_blocks dag c offsets blocks i ?e j = Inr (Some j)"
        using j True within by (subst scan_blocks.simps) simp
      then have "r = Some j" using Suc.prems(3) by simp
      then show ?thesis using j eq within(1) by (auto simp: not_le)
    next
      case False
      then have "checked dag c blocks i j \<and>
          scan_blocks dag c offsets blocks i ?e (Suc j) = Inr r"
        using Suc.prems(3) True merge j
        by (subst (asm) scan_blocks.simps) (auto simp: checked_def bind_result_Inr_iff split: if_splits)
      then have c: "checked dag c blocks i j" and rec: "scan_blocks dag c offsets blocks i ?e (Suc j) = Inr r"
        by blast+
      have "n = length blocks - Suc j" "i < Suc j" "Suc j \<le> length blocks" using Suc.hyps(2) Suc.prems(1) j by auto
      from Suc.hyps(1) [OF this rec] show ?thesis using c
        by (auto split: option.splits simp: le_Suc_eq Suc_le_eq) (metis le_neq_implies_less)+
    qed
  qed
qed

text \<open>The state of the outer loop before index \<open>i\<close>: what the clusters behind contain, and what has been
  checked for the blocks before.\<close>

definition gathered :: "int list \<Rightarrow> AccessBlockInfo list \<Rightarrow> nat \<Rightarrow> nat \<Rightarrow> int set" where
  "gathered offsets blocks n k = (\<lambda>p. abi_request (blocks ! p)) ` {p. p < n \<and> same_kind offsets blocks p k}"

definition cluster_for :: "cluster \<Rightarrow> AccessType \<Rightarrow> int set \<Rightarrow> bool" where
  "cluster_for c t rs \<longleftrightarrow> set (cl_members c) = rs \<and> (t = writable_access \<longrightarrow> sorted (cl_members c))"

definition clique_inv :: "dag \<Rightarrow> int list \<Rightarrow> AccessBlockInfo list \<Rightarrow> nat \<Rightarrow> cluster list \<Rightarrow> bool" where
  "clique_inv dag offsets blocks i clusters \<longleftrightarrow> length clusters = length blocks \<and>
    (\<forall>k < length blocks. i \<le> k \<longrightarrow> abi_access (blocks ! k) \<noteq> check_only \<longrightarrow>
      cluster_for (clusters ! k) (abi_access (blocks ! k))
        (if \<exists>k' < k. i \<le> k' \<and> same_kind offsets blocks k' k then {} else gathered offsets blocks i k)) \<and>
    (\<forall>p < i. \<forall>q < length blocks. p < q \<and> abi_access (blocks ! p) \<noteq> check_only \<and> offsets ! p = offsets ! q \<and>
      (\<forall>m. p < m \<and> m \<le> q \<longrightarrow> \<not> same_kind offsets blocks p m) \<longrightarrow>
      (\<exists>c. cl_type c = abi_access (blocks ! p) \<and>
        cluster_for c (abi_access (blocks ! p)) (gathered offsets blocks (Suc p) p) \<and> checked dag c blocks p q)) \<and>
    (\<forall>p < i. abi_access (blocks ! p) = writable_access \<and>
      (\<forall>m < length blocks. p < m \<longrightarrow> \<not> same_kind offsets blocks p m) \<longrightarrow>
      (\<exists>ms. sorted ms \<and> set ms = gathered offsets blocks (length blocks) p \<and> register_chain dag ms = Inr ()))"

lemma clique_invD:
  assumes "clique_inv dag offsets blocks i clusters"
  shows "length clusters = length blocks"
    and "k < length blocks \<Longrightarrow> i \<le> k \<Longrightarrow> abi_access (blocks ! k) \<noteq> check_only \<Longrightarrow>
      cluster_for (clusters ! k) (abi_access (blocks ! k))
        (if \<exists>k' < k. i \<le> k' \<and> same_kind offsets blocks k' k then {} else gathered offsets blocks i k)"
    and "p < i \<Longrightarrow> p < q \<Longrightarrow> q < length blocks \<Longrightarrow> abi_access (blocks ! p) \<noteq> check_only \<Longrightarrow> offsets ! p = offsets ! q \<Longrightarrow>
      (\<And>m. p < m \<Longrightarrow> m \<le> q \<Longrightarrow> \<not> same_kind offsets blocks p m) \<Longrightarrow>
      \<exists>c. cl_type c = abi_access (blocks ! p) \<and>
        cluster_for c (abi_access (blocks ! p)) (gathered offsets blocks (Suc p) p) \<and> checked dag c blocks p q"
    and "p < i \<Longrightarrow> abi_access (blocks ! p) = writable_access \<Longrightarrow>
      (\<And>m. m < length blocks \<Longrightarrow> p < m \<Longrightarrow> \<not> same_kind offsets blocks p m) \<Longrightarrow>
      \<exists>ms. sorted ms \<and> set ms = gathered offsets blocks (length blocks) p \<and> register_chain dag ms = Inr ()"
  using assms unfolding clique_inv_def by (simp, blast, blast, blast)

lemma cluster_for_insert:
  assumes "cluster_for c t rs"
  shows "cl_type (cluster_insert c r t) = t" "cluster_for (cluster_insert c r t) t (insert r rs)"
proof -
  have s: "t = writable_access \<longrightarrow> sorted (cl_members c)" using assms by (simp add: cluster_for_def)
  show "cl_type (cluster_insert c r t) = t" by (rule cluster_insert_members(1) [OF s])
  have "set (cl_members (cluster_insert c r t)) = insert r (set (cl_members c))"
    using cluster_insert_members(2) [OF s, of r] by (metis set_mset_add_mset_insert set_mset_mset)
  then show "cluster_for (cluster_insert c r t) t (insert r rs)"
    using assms cluster_insert_members(3) [OF s] by (simp add: cluster_for_def)
qed

lemma cluster_for_merge:
  assumes "cluster_for self t rs" "cluster_for c t rs'" "cl_type c = t"
  shows "cluster_for (cluster_merge self c) t (rs \<union> rs')"
proof -
  have s: "cl_type c = writable_access \<longrightarrow> sorted (cl_members self) \<and> sorted (cl_members c)"
    using assms by (simp add: cluster_for_def)
  have "set (cl_members (cluster_merge self c)) = set (cl_members self) \<union> set (cl_members c)"
    using cluster_merge_members(1) [OF s] by (metis set_mset_mset set_mset_union)
  then show ?thesis using assms cluster_merge_members(2) [OF s] by (simp add: cluster_for_def)
qed

lemma gathered_Suc:
  "gathered offsets blocks (Suc i) k =
    (if same_kind offsets blocks i k then insert (abi_request (blocks ! i)) (gathered offsets blocks i k)
     else gathered offsets blocks i k)"
  by (auto simp: gathered_def less_Suc_eq)

lemma gathered_cong: "same_kind offsets blocks k k' \<Longrightarrow> gathered offsets blocks n k = gathered offsets blocks n k'"
  by (auto simp: gathered_def)

lemma clique_step_aligned:
  assumes al: "aligned offsets blocks" and inv: "clique_inv dag offsets blocks i clusters"
    and i: "i < length blocks"
    and step: "clique_step dag i (offsets, blocks, clusters) = Inr (i', st')"
  shows "\<exists>clusters'. i' = Suc i \<and> st' = (offsets, blocks, clusters') \<and>
    clique_inv dag offsets blocks (Suc i) clusters'"
proof -
  note D = clique_invD [OF inv]
  let ?t = "abi_access (blocks ! i)" and ?e = "offsets ! i + abi_size (blocks ! i)"
  have len: "length offsets = length blocks" using al by (simp add: aligned_def)
  have off: "offsets ! i \<noteq> - 3" "block_end (offsets ! i) (blocks ! i) = ?e"
    using al i by (auto simp: aligned_def block_end_def)
  show ?thesis
  proof (cases "?t = check_only")
    case True
    then have st': "i' = Suc i" "st' = (offsets, blocks, clusters)" using step by (auto simp: clique_step_def)
    have skip: "same_kind offsets blocks i k \<Longrightarrow> abi_access (blocks ! k) = check_only" for k using True by simp
    have "clique_inv dag offsets blocks (Suc i) clusters"
      unfolding clique_inv_def
    proof (intro conjI allI impI)
      show "length clusters = length blocks" by (rule D(1))
    next
      fix k assume k: "k < length blocks" "Suc i \<le> k" "abi_access (blocks ! k) \<noteq> check_only"
      have "(\<exists>k' < k. Suc i \<le> k' \<and> same_kind offsets blocks k' k) \<longleftrightarrow>
          (\<exists>k' < k. i \<le> k' \<and> same_kind offsets blocks k' k)"
        using k skip [of k] by (metis Suc_leD Suc_leI le_neq_implies_less)
      moreover have "gathered offsets blocks (Suc i) k = gathered offsets blocks i k"
        using k skip by (auto simp: gathered_Suc)
      ultimately show "cluster_for (clusters ! k) (abi_access (blocks ! k))
          (if \<exists>k' < k. Suc i \<le> k' \<and> same_kind offsets blocks k' k then {} else gathered offsets blocks (Suc i) k)"
        using D(2) [OF k(1) Suc_leD [OF k(2)] k(3)] by (simp only:)
    next
      fix p q assume "p < Suc i" and q: "q < length blocks" "p < q \<and> abi_access (blocks ! p) \<noteq> check_only \<and>
        offsets ! p = offsets ! q \<and> (\<forall>m. p < m \<and> m \<le> q \<longrightarrow> \<not> same_kind offsets blocks p m)"
      then have "p < i" using True by (cases "p = i") auto
      then show "\<exists>c. cl_type c = abi_access (blocks ! p) \<and>
        cluster_for c (abi_access (blocks ! p)) (gathered offsets blocks (Suc p) p) \<and> checked dag c blocks p q"
        using D(3) [of p q] q by blast
    next
      fix p assume "p < Suc i" and p: "abi_access (blocks ! p) = writable_access \<and>
        (\<forall>m < length blocks. p < m \<longrightarrow> \<not> same_kind offsets blocks p m)"
      then have "p < i" using True by (cases "p = i") auto
      then show "\<exists>ms. sorted ms \<and> set ms = gathered offsets blocks (length blocks) p \<and> register_chain dag ms = Inr ()"
        using D(4) [of p] p by blast
    qed
    then show ?thesis using st' by blast
  next
    case False
    let ?c = "cluster_insert (clusters ! i) (abi_request (blocks ! i)) ?t"
    have "cluster_for (clusters ! i) ?t (gathered offsets blocks i i)"
      using D(2) [OF i _ False] by (auto split: if_splits)
    from cluster_for_insert [OF this, of "abi_request (blocks ! i)"]
    have c: "cl_type ?c = ?t" "cluster_for ?c ?t (gathered offsets blocks (Suc i) i)"
      by (simp_all add: gathered_Suc)
    from step False off obtain r where r: "scan_blocks dag ?c offsets blocks i ?e (Suc i) = Inr r"
      by (auto simp: clique_step_def Let_def bind_result_Inr_iff)
    from scan_aligned [OF al _ _ i r] i have scan: "case r of
        None \<Rightarrow> \<forall>q. Suc i \<le> q \<and> q < length blocks \<and> offsets ! q = offsets ! i \<longrightarrow> checked dag ?c blocks i q
      | Some m \<Rightarrow> Suc i \<le> m \<and> m < length blocks \<and> same_kind offsets blocks i m \<and>
          (\<forall>q. Suc i \<le> q \<and> q < m \<longrightarrow> checked dag ?c blocks i q)" by auto
    have new: "\<exists>c. cl_type c = ?t \<and> cluster_for c ?t (gathered offsets blocks (Suc i) i) \<and> checked dag c blocks i q"
      if q: "q < length blocks" "i < q" "offsets ! i = offsets ! q"
        "\<forall>m. i < m \<and> m \<le> q \<longrightarrow> \<not> same_kind offsets blocks i m" for q
    proof (cases r)
      case None
      then have "checked dag ?c blocks i q" using scan q by auto
      then show ?thesis using c by blast
    next
      case (Some m)
      have "same_kind offsets blocks i m" using scan Some by simp
      then have "\<not> (i < m \<and> m \<le> q)" using q(4) by blast
      then have "q < m" using scan Some by simp
      then have "checked dag ?c blocks i q" using scan q(2) Some by auto
      then show ?thesis using c by blast
    qed
    show ?thesis
    proof (cases r)
      case None
      then have fin: "cluster_finalize dag ?c = Inr ()" and st': "i' = Suc i" "st' = (offsets, blocks, clusters[i := ?c])"
        using step False off r by (auto simp: clique_step_def Let_def bind_result_Inr_iff)
      have last: "\<not> same_kind offsets blocks i m" if "i < m" "m < length blocks" for m
      proof
        assume k: "same_kind offsets blocks i m"
        then have "checked dag ?c blocks i m" using scan None that by simp
        then show False using k by (simp add: checked_def)
      qed
      have "clique_inv dag offsets blocks (Suc i) (clusters[i := ?c])"
        unfolding clique_inv_def
      proof (intro conjI allI impI)
        show "length (clusters[i := ?c]) = length blocks" using D(1) by simp
      next
        fix k assume k: "k < length blocks" "Suc i \<le> k" "abi_access (blocks ! k) \<noteq> check_only"
        have nk: "\<not> same_kind offsets blocks i k" using last k by simp
        have same: "clusters[i := ?c] ! k = clusters ! k" using k(2) by simp
        have "(\<exists>k' < k. Suc i \<le> k' \<and> same_kind offsets blocks k' k) \<longleftrightarrow>
            (\<exists>k' < k. i \<le> k' \<and> same_kind offsets blocks k' k)"
          using nk by (metis Suc_leD Suc_leI le_neq_implies_less)
        moreover have "gathered offsets blocks (Suc i) k = gathered offsets blocks i k"
          using nk by (simp only: gathered_Suc if_False)
        ultimately show "cluster_for (clusters[i := ?c] ! k) (abi_access (blocks ! k))
            (if \<exists>k' < k. Suc i \<le> k' \<and> same_kind offsets blocks k' k then {} else gathered offsets blocks (Suc i) k)"
          using D(2) [OF k(1) Suc_leD [OF k(2)] k(3)] same by (simp only:)
      next
        fix p q assume "p < Suc i" and q: "q < length blocks" "p < q \<and> abi_access (blocks ! p) \<noteq> check_only \<and>
          offsets ! p = offsets ! q \<and> (\<forall>m. p < m \<and> m \<le> q \<longrightarrow> \<not> same_kind offsets blocks p m)"
        then show "\<exists>c. cl_type c = abi_access (blocks ! p) \<and>
          cluster_for c (abi_access (blocks ! p)) (gathered offsets blocks (Suc p) p) \<and> checked dag c blocks p q"
          using new [of q] D(3) [of p q] by (cases "p = i") auto
      next
        fix p assume "p < Suc i" and p: "abi_access (blocks ! p) = writable_access \<and>
          (\<forall>m < length blocks. p < m \<longrightarrow> \<not> same_kind offsets blocks p m)"
        show "\<exists>ms. sorted ms \<and> set ms = gathered offsets blocks (length blocks) p \<and> register_chain dag ms = Inr ()"
        proof (cases "p = i")
          case True
          have "gathered offsets blocks (length blocks) i = gathered offsets blocks (Suc i) i"
          proof -
            have "p < length blocks \<and> same_kind offsets blocks p i \<longleftrightarrow> p < Suc i \<and> same_kind offsets blocks p i" for p
              using last [of p] i by (cases "p \<le> i") auto
            then show ?thesis unfolding gathered_def by simp
          qed
          then show ?thesis using fin c p True
            by (intro exI [of _ "cl_members ?c"]) (simp add: cluster_finalize_def cluster_for_def)
        next
          case False
          then have "p < i" using \<open>p < Suc i\<close> by simp
          then show ?thesis using D(4) [of p] p by blast
        qed
      qed
      then show ?thesis using st' by blast
    next
      case (Some m)
      then have m: "i < m" "m < length blocks" "same_kind offsets blocks i m"
        and first: "\<And>q. i < q \<Longrightarrow> q < m \<Longrightarrow> checked dag ?c blocks i q"
        using scan by auto
      let ?m = "cluster_merge (clusters ! m) ?c"
      have ce: "offsets ! m + abi_size (blocks ! m) = ?e"
        using aligned_same_size [OF al m(1,2)] m(3) by simp
      have st': "i' = Suc i" "st' = (offsets, blocks, clusters[i := ?c, m := ?m])"
        using step False off r Some ce m(1) by (auto simp: clique_step_def Let_def)
      have "cluster_for (clusters ! m) (abi_access (blocks ! m)) {}"
        using D(2) [of m] m False by (auto split: if_splits)
      then have cm: "cluster_for ?m ?t (gathered offsets blocks (Suc i) i)"
        using cluster_for_merge [of "clusters ! m" ?t "{}" ?c] c m(3) by simp
      have "clique_inv dag offsets blocks (Suc i) (clusters[i := ?c, m := ?m])"
        unfolding clique_inv_def
      proof (intro conjI allI impI)
        show "length (clusters[i := ?c, m := ?m]) = length blocks" using D(1) by simp
      next
        fix k assume k: "k < length blocks" "Suc i \<le> k" "abi_access (blocks ! k) \<noteq> check_only"
        show "cluster_for (clusters[i := ?c, m := ?m] ! k) (abi_access (blocks ! k))
            (if \<exists>k' < k. Suc i \<le> k' \<and> same_kind offsets blocks k' k then {} else gathered offsets blocks (Suc i) k)"
        proof (cases "k = m")
          case True
          have "\<not> (\<exists>k' < m. Suc i \<le> k' \<and> same_kind offsets blocks k' m)"
            using first m(3) by (auto simp: checked_def Suc_le_eq)
          moreover have "gathered offsets blocks (Suc i) m = gathered offsets blocks (Suc i) i"
            by (rule gathered_cong) (use m(3) in auto)
          ultimately show ?thesis using cm True m D(1) by auto
        next
          case False
          show ?thesis
          proof (cases "same_kind offsets blocks i k")
            case True
            then have "m < k" using first [of k] False k by (cases "k < m") (auto simp: checked_def)
            then have e: "\<exists>k' < k. Suc i \<le> k' \<and> same_kind offsets blocks k' k" using m True by (intro exI [of _ m]) auto
            have "\<exists>k' < k. i \<le> k' \<and> same_kind offsets blocks k' k" using True k by (intro exI [of _ i]) auto
            then show ?thesis using e D(2) [of k] k False by simp
          next
            case nk: False
            have "(\<exists>k' < k. Suc i \<le> k' \<and> same_kind offsets blocks k' k) \<longleftrightarrow>
                (\<exists>k' < k. i \<le> k' \<and> same_kind offsets blocks k' k)"
              using nk by (metis Suc_leD Suc_leI le_neq_implies_less)
            moreover have "gathered offsets blocks (Suc i) k = gathered offsets blocks i k"
              using nk by (simp only: gathered_Suc if_False)
            moreover have "clusters[i := ?c, m := ?m] ! k = clusters ! k" using k(2) False by simp
            ultimately show ?thesis using D(2) [OF k(1) Suc_leD [OF k(2)] k(3)] by (simp only:)
          qed
        qed
      next
        fix p q assume "p < Suc i" and q: "q < length blocks" "p < q \<and> abi_access (blocks ! p) \<noteq> check_only \<and>
          offsets ! p = offsets ! q \<and> (\<forall>m. p < m \<and> m \<le> q \<longrightarrow> \<not> same_kind offsets blocks p m)"
        then show "\<exists>c. cl_type c = abi_access (blocks ! p) \<and>
          cluster_for c (abi_access (blocks ! p)) (gathered offsets blocks (Suc p) p) \<and> checked dag c blocks p q"
          using new [of q] D(3) [of p q] by (cases "p = i") auto
      next
        fix p assume "p < Suc i" and p: "abi_access (blocks ! p) = writable_access \<and>
          (\<forall>m < length blocks. p < m \<longrightarrow> \<not> same_kind offsets blocks p m)"
        then have "p < i" using m by (cases "p = i") auto
        then show "\<exists>ms. sorted ms \<and> set ms = gathered offsets blocks (length blocks) p \<and> register_chain dag ms = Inr ()"
          using D(4) [of p] p by blast
      qed
      then show ?thesis using st' by blast
    qed
  qed
qed

lemma clique_loop_aligned:
  assumes "aligned offsets blocks" "i \<le> length blocks" "clique_inv dag offsets blocks i clusters"
  shows "\<exists>r. clique_loop dag i (offsets, blocks, clusters) = Some r \<and>
    (r = Inr () \<longrightarrow> (\<exists>clusters'. clique_inv dag offsets blocks (length blocks) clusters'))"
  using assms(2,3)
proof (induction "length blocks - i" arbitrary: i clusters)
  case 0
  then have "i = length blocks" by simp
  then show ?case using 0 assms(1) by (subst clique_loop.simps) (auto simp: aligned_def)
next
  case (Suc n)
  then have i: "i < length blocks" by simp
  have len: "i < length (fst (offsets, blocks, clusters))" using i assms(1) by (simp add: aligned_def)
  show ?case
  proof (cases "clique_step dag i (offsets, blocks, clusters)")
    case (Inl e)
    then have "clique_loop dag i (offsets, blocks, clusters) = Some (Inl e)"
      using len by (subst clique_loop.simps) simp
    then show ?thesis by simp
  next
    case (Inr x)
    obtain i' st' where x: "x = (i', st')" by (cases x)
    from clique_step_aligned [OF assms(1) Suc.prems(2) i Inr [unfolded x]] obtain cs where
      cs: "i' = Suc i" "st' = (offsets, blocks, cs)" "clique_inv dag offsets blocks (Suc i) cs" by blast
    have "clique_loop dag i (offsets, blocks, clusters) = clique_loop dag (Suc i) (offsets, blocks, cs)"
      using len Inr x cs(1,2) by (subst clique_loop.simps) simp
    moreover have "n = length blocks - Suc i" "Suc i \<le> length blocks" using Suc.hyps(2) i by simp_all
    ultimately show ?thesis using Suc.hyps(1) [OF _ _ cs(3)] by simp
  qed
qed

lemma max_of_set:
  fixes S :: "nat set"
  assumes "finite S" "p \<in> S" and thesis: "\<And>x. x \<in> S \<Longrightarrow> (\<And>m. m \<in> S \<Longrightarrow> m \<le> x) \<Longrightarrow> P"
  shows P
proof (rule thesis)
  show "Max S \<in> S" by (rule Max_in) (use assms(1,2) in auto)
  show "m \<in> S \<Longrightarrow> m \<le> Max S" for m by (rule Max_ge [OF assms(1)])
qed

lemma aligned_cliques:
  assumes "aligned offsets blocks"
  shows "\<exists>r. findCollisionCliques dag offsets blocks = Some r \<and>
    (r = Inr () \<longrightarrow> (\<forall>q < length blocks. \<forall>p < q. offsets ! p = offsets ! q \<and>
      collides (abi_access (blocks ! p)) (abi_access (blocks ! q)) \<and>
      \<not> (isAdditive (abi_access (blocks ! p)) \<and> isAdditive (abi_access (blocks ! q))) \<and>
      abi_request (blocks ! p) \<noteq> abi_request (blocks ! q) \<longrightarrow>
      dag_path dag (abi_request (blocks ! p)) (abi_request (blocks ! q)) \<or>
      dag_path dag (abi_request (blocks ! q)) (abi_request (blocks ! p))))"
proof -
  let ?c0 = "replicate (length offsets) VerifierCluster"
  have len: "length offsets = length blocks" using assms by (simp add: aligned_def)
  have "clique_inv dag offsets blocks 0 ?c0"
    unfolding clique_inv_def by (auto simp: len cluster_for_def VerifierCluster_def gathered_def)
  from clique_loop_aligned [OF assms _ this] obtain r where
    r: "findCollisionCliques dag offsets blocks = Some r"
      "r = Inr () \<longrightarrow> (\<exists>cs. clique_inv dag offsets blocks (length blocks) cs)"
    by (auto simp: findCollisionCliques_def)
  have "dag_path dag (abi_request (blocks ! p)) (abi_request (blocks ! q)) \<or>
      dag_path dag (abi_request (blocks ! q)) (abi_request (blocks ! p))"
    if "r = Inr ()" and q: "q < length blocks" and pq: "p < q" "offsets ! p = offsets ! q"
      and col: "collides (abi_access (blocks ! p)) (abi_access (blocks ! q))"
      and add: "\<not> (isAdditive (abi_access (blocks ! p)) \<and> isAdditive (abi_access (blocks ! q)))"
      and req: "abi_request (blocks ! p) \<noteq> abi_request (blocks ! q)" for p q
  proof -
    obtain cs where inv: "clique_inv dag offsets blocks (length blocks) cs" using r(2) \<open>r = Inr ()\<close> by blast
    note D = clique_invD [OF inv]
    let ?t = "abi_access (blocks ! p)"
    have nc: "?t \<noteq> check_only" using col by auto
    have chain: "\<exists>ms. sorted ms \<and> set ms = gathered offsets blocks (length blocks) p \<and> register_chain dag ms = Inr ()"
      if w: "?t = writable_access"
    proof -
      let ?S = "{m. m < length blocks \<and> same_kind offsets blocks p m}"
      have S: "finite ?S" "p \<in> ?S" using pq(1) q by auto
      obtain x where lS: "x \<in> ?S" and max: "\<And>m. m \<in> ?S \<Longrightarrow> m \<le> x"
        using max_of_set [OF S, of thesis] by blast
      have l: "x < length blocks" "same_kind offsets blocks p x" using CollectD [OF lS] by blast+
      have last: "\<not> same_kind offsets blocks x m" if "m < length blocks" "x < m" for m
      proof
        assume "same_kind offsets blocks x m"
        then have "m \<in> ?S" using l that by auto
        then show False using max [of m] that by simp
      qed
      have "abi_access (blocks ! x) = writable_access" using l w by simp
      from D(4) [OF l(1) this last] have "\<exists>ms. sorted ms \<and> set ms = gathered offsets blocks (length blocks) x \<and>
        register_chain dag ms = Inr ()" by blast
      then show ?thesis using gathered_cong [OF l(2)] by simp
    qed
    show ?thesis
    proof (cases "abi_access (blocks ! q) = ?t")
      case True
      then have "?t = writable_access" using col add by (cases ?t) (auto simp: isAdditive_def)
      from chain [OF this] obtain ms where ms: "set ms = gathered offsets blocks (length blocks) p"
        "register_chain dag ms = Inr ()" by blast
      have "abi_request (blocks ! p) \<in> set ms" "abi_request (blocks ! q) \<in> set ms"
        unfolding ms gathered_def using pq q True by auto
      from dp.clique [OF ms(2) this req] show ?thesis .
    next
      case False
      let ?S = "{m. m < q \<and> same_kind offsets blocks p m}"
      have S: "finite ?S" "p \<in> ?S" using pq(1) by auto
      obtain x where lS: "x \<in> ?S" and max: "\<And>m. m \<in> ?S \<Longrightarrow> m \<le> x"
        using max_of_set [OF S, of thesis] by blast
      have l: "x < q" "same_kind offsets blocks p x" using CollectD [OF lS] by blast+
      have "p \<le> x" by (rule max [OF S(2)])
      have last: "\<not> same_kind offsets blocks x m" if m: "x < m" "m \<le> q" for m
      proof
        assume k: "same_kind offsets blocks x m"
        then have "m \<noteq> q" using False l by auto
        then have "m \<in> ?S" using k l m by auto
        then show False using max [of m] m by simp
      qed
      have "x < length blocks" "abi_access (blocks ! x) \<noteq> check_only" "offsets ! x = offsets ! q"
        using l nc pq(2) q by auto
      from D(3) [OF this(1) l(1) q this(2,3) last] obtain c where
        c: "cl_type c = abi_access (blocks ! x)" "cluster_for c (abi_access (blocks ! x)) (gathered offsets blocks (Suc x) x)"
          "checked dag c blocks x q" by blast
      have dep: "cluster_addDependency dag c (abi_request (blocks ! q)) = Inr ()"
        using c(3) col l(2) by (simp add: checked_def)
      have mem: "abi_request (blocks ! p) \<in> set (cl_members c)"
        using c(2) l \<open>p \<le> x\<close> by (auto simp: cluster_for_def gathered_def)
      have conn: "sorted (cl_members c) \<and> (\<forall>u \<in> set (cl_members c). \<forall>y \<in> set (cl_members c). u < y \<longrightarrow> dag_path dag u y)"
        if w: "cl_type c = writable_access"
      proof -
        have "?t = writable_access" using w c(1) l(2) by simp
        from chain [OF this] obtain ms where ms: "sorted ms" "set ms = gathered offsets blocks (length blocks) p"
          "register_chain dag ms = Inr ()" by blast
        have "dag_path dag u y" if xy: "u \<in> set (cl_members c)" "y \<in> set (cl_members c)" "u < y" for u y
        proof -
          have "set (cl_members c) \<subseteq> set ms"
            using c(2) l \<open>x < length blocks\<close> unfolding ms(2) by (auto simp: cluster_for_def gathered_def)
          then obtain a b where ab: "a < length ms" "ms ! a = u" "b < length ms" "ms ! b = y"
            using xy by (meson in_set_conv_nth subsetD)
          then have "a < b" using sorted_nth_mono [OF ms(1), of b a] xy(3) by (meson leD not_le)
          then show ?thesis using dp.chain [OF ms(3)] ab by blast
        qed
        then show ?thesis using c(1,2) w by (simp add: cluster_for_def)
      qed
      from dp.clique_dependency [OF dep conn mem] show ?thesis .
    qed
  qed
  then show ?thesis using r(1) by blast
qed

text \<open>C4: For blocks of equal or disjoint ranges the cluster-product algorithm ends, and when it accepts
  the graph, any two requests whose accesses to a common range collide are connected by a path of
  the graph, so that they are executed in a fixed order.\<close>

theorem aligned_collisions_connected:
  assumes "aligned offsets blocks"
  shows "\<exists>r. findCollisionCliques dag offsets blocks = Some r \<and>
    (r = Inr () \<longrightarrow> (\<forall>q < length blocks. \<forall>p < q. offsets ! p = offsets ! q \<and>
      collides (abi_access (blocks ! p)) (abi_access (blocks ! q)) \<and>
      \<not> (isAdditive (abi_access (blocks ! p)) \<and> isAdditive (abi_access (blocks ! q))) \<and>
      abi_request (blocks ! p) \<noteq> abi_request (blocks ! q) \<longrightarrow>
      dag_path dag (abi_request (blocks ! p)) (abi_request (blocks ! q)) \<or>
      dag_path dag (abi_request (blocks ! q)) (abi_request (blocks ! p))))"
  by (rule aligned_cliques [OF assms])

section \<open>Resizing\<close>

lemma length_takeWhile_sorted:
  assumes "sorted xs" "i < length xs" "\<And>x y. x \<le> y \<Longrightarrow> P y \<Longrightarrow> P x"
  shows "i < length (takeWhile P xs) \<longleftrightarrow> P (xs ! i)"
  using assms(1,2)
proof (induction xs arbitrary: i)
  case (Cons x xs)
  show ?case
  proof (cases i)
    case (Suc k)
    then have "x \<le> xs ! k" using Cons.prems by simp
    then show ?thesis using Cons Suc assms(3) [of x "xs ! k"] by auto
  qed simp
qed simp

lemma in_set_drop_nth: "x \<in> set (drop n xs) \<longleftrightarrow> (\<exists>i. (n \<le> i \<and> i < length xs) \<and> xs ! i = x)"
proof
  assume "x \<in> set (drop n xs)"
  then obtain k where "k < length xs - n" "drop n xs ! k = x" by (auto simp: in_set_conv_nth)
  then show "\<exists>i. (n \<le> i \<and> i < length xs) \<and> xs ! i = x" by (intro exI [of _ "n + k"]) auto
next
  assume "\<exists>i. (n \<le> i \<and> i < length xs) \<and> xs ! i = x"
  then obtain i where "n \<le> i" "i < length xs" "xs ! i = x" by blast
  then show "x \<in> set (drop n xs)" by (auto simp: in_set_conv_nth intro!: exI [of _ "i - n"])
qed

lemma register_resizers_iff:
  "register_resizers dag r offset e ws = Inr () \<longleftrightarrow>
    (\<forall>w \<in> set ws. r \<noteq> abi_request w \<and> resize_collision offset e (abi_size w) \<longrightarrow>
      addDependency dag r (abi_request w) = Inr ())"
  by (induction ws) (auto simp: bind_result_Inr_iff)

lemma resizing_loop_iff:
  "resizing_loop dag lb ws xs = Inr () \<longleftrightarrow>
    (\<forall>(offset, b) \<in> set xs. 0 \<le> offset \<and> (offset + abi_size b > lb \<longrightarrow>
      register_resizers dag (abi_request b) offset (offset + abi_size b) ws = Inr ()))"
proof (induction xs)
  case (Cons x xs)
  obtain offset b where x: "x = (offset, b)" by (cases x)
  show ?case using Cons.IH unfolding x by (auto simp: bind_result_Inr_iff)
qed simp

text \<open>The check for resizing collisions succeeds exactly when the graph has an edge, from the smaller
  to the larger number, between every request that may resize the chunk and every other request that
  accesses bytes behind the guaranteed size in a way the new size matters for.\<close>

theorem resizing_collisions_registered:
  assumes "sorted offsets" "length offsets = length blocks"
  shows "findResizingCollisions dag (Inr lowerBound) offsets blocks = Inr () \<longleftrightarrow>
    (\<forall>i < length blocks. \<forall>j < length blocks. offsets ! i = - 1 \<and> offsets ! j \<ge> 0 \<and>
      offsets ! j + abi_size (blocks ! j) > lowerBound \<and> abi_request (blocks ! j) \<noteq> abi_request (blocks ! i) \<and>
      resize_collision (offsets ! j) (offsets ! j + abi_size (blocks ! j)) (abi_size (blocks ! i)) \<longrightarrow>
      addDependency dag (abi_request (blocks ! j)) (abi_request (blocks ! i)) = Inr ())"
proof -
  let ?e = "upper_bound offsets (- 1)"
  let ?b = "lower_bound (take ?e offsets) (- 1)"
  have e: "i < ?e \<longleftrightarrow> offsets ! i \<le> - 1" if "i < length offsets" for i
    unfolding upper_bound_def using length_takeWhile_sorted [OF assms(1) that, of "\<lambda>x. \<not> - 1 < x"] by auto
  have el: "?e \<le> length offsets" by (simp add: upper_bound_def length_takeWhile_le)
  have sorted: "sorted (take ?e offsets)" using assms(1) by (rule sorted_wrt_take)
  have b: "i < ?b \<longleftrightarrow> offsets ! i < - 1" if "i < ?e" for i
    unfolding lower_bound_def using length_takeWhile_sorted [OF sorted, of i "\<lambda>x. x < - 1"] that el by simp
  have bl: "?b \<le> ?e" using el by (simp add: lower_bound_def) (metis length_take length_takeWhile_le min.absorb2)
  have w: "x \<in> set (drop ?b (take ?e blocks)) \<longleftrightarrow> (\<exists>i < length blocks. offsets ! i = - 1 \<and> blocks ! i = x)" for x
  proof -
    have "?b \<le> i \<and> i < ?e \<longleftrightarrow> i < length blocks \<and> offsets ! i = - 1" for i
      using e [of i] b [of i] el assms(2) by (cases "i < ?e") auto
    moreover have "length (take ?e blocks) = ?e" using el assms(2) by simp
    ultimately show ?thesis unfolding in_set_drop_nth by (metis nth_take)
  qed
  have d: "x \<in> set (drop ?e (zip offsets blocks)) \<longleftrightarrow>
      (\<exists>j < length blocks. 0 \<le> offsets ! j \<and> (offsets ! j, blocks ! j) = x)" for x
  proof -
    have "?e \<le> j \<and> j < length blocks \<longleftrightarrow> 0 \<le> offsets ! j \<and> j < length blocks" for j
      using e [of j] assms(2) by auto
    then show ?thesis unfolding in_set_drop_nth using assms(2) by (metis length_zip min.idem nth_zip)
  qed
  have loop: "resizing_loop dag lowerBound (drop ?b (take ?e blocks)) (drop ?e (zip offsets blocks)) = Inr () \<longleftrightarrow>
    (\<forall>i < length blocks. \<forall>j < length blocks. offsets ! i = - 1 \<and> offsets ! j \<ge> 0 \<and>
      offsets ! j + abi_size (blocks ! j) > lowerBound \<and> abi_request (blocks ! j) \<noteq> abi_request (blocks ! i) \<and>
      resize_collision (offsets ! j) (offsets ! j + abi_size (blocks ! j)) (abi_size (blocks ! i)) \<longrightarrow>
      addDependency dag (abi_request (blocks ! j)) (abi_request (blocks ! i)) = Inr ())"
    unfolding resizing_loop_iff register_resizers_iff Ball_def w d by (auto split: prod.splits)
  have "offsets ! j < 0" if "?e = length offsets" "j < length blocks" for j using e [of j] that assms(2) by simp
  moreover have "offsets ! i \<noteq> - 1" if "?b = ?e" "i < length blocks" for i
    using e [of i] b [of i] that assms(2) by (cases "i < ?e") auto
  ultimately show ?thesis
    unfolding findResizingCollisions_def Let_def bind_result_simps
    using loop by (auto simp: not_le [symmetric])
qed

section \<open>The pairwise algorithm finds all collisions of blocks\<close>

lemma pair_loop_ok:
  assumes "pair_loop dag offsets blocks i e j = Inr ()" "sorted offsets" "length offsets = length blocks"
    and "j \<le> q" "q < length blocks" "offsets ! q < e"
    and "collides (abi_access (blocks ! i)) (abi_access (blocks ! q))"
    and "\<not> (isAdditive (abi_access (blocks ! i)) \<and> abi_access (blocks ! i) = abi_access (blocks ! q) \<and>
      offsets ! i = offsets ! q \<and> abi_size (blocks ! i) = abi_size (blocks ! q))"
  shows "registerDependency dag (abi_request (blocks ! i)) (abi_request (blocks ! q)) = Inr ()"
  using assms(1,4)
proof (induction "length blocks - j" arbitrary: j)
  case 0
  then show ?case using assms(5) by simp
next
  case (Suc n)
  have j: "j < length blocks" using Suc.prems(2) assms(5) by simp
  have "offsets ! j \<le> offsets ! q" using assms(2,3,5) Suc.prems(2) by (simp add: sorted_nth_mono)
  then have e: "offsets ! j < e" using assms(6) by simp
  note step = Suc.prems(1) [unfolded pair_loop.simps [of dag offsets blocks i e j]]
  show ?case
  proof (cases "j = q")
    case True
    then show ?thesis using step j e assms(7,8) by (simp add: bind_result_Inr_iff)
  next
    case False
    then have "pair_loop dag offsets blocks i e (Suc j) = Inr ()" "n = length blocks - Suc j" "Suc j \<le> q"
      using step j e Suc.hyps(2) Suc.prems(2) by (auto simp: bind_result_Inr_iff)
    then show ?thesis using Suc.hyps(1) by blast
  qed
qed

lemma collisions_loop_pairs:
  assumes "collisions_loop dag bound offsets blocks is vars = Inr ()" "i \<in> set is" "offsets ! i \<noteq> - 3"
  shows "pair_loop dag offsets blocks i (block_end (offsets ! i) (blocks ! i)) (Suc i) = Inr ()"
  using assms(1,2)
proof (induction "is" arbitrary: vars)
  case (Cons k "is")
  obtain a b c d where vars: "vars = (a, b, c, d)" by (cases vars)
  show ?case
  proof (cases "offsets ! k = - 3")
    case True
    then show ?thesis using Cons assms(3) vars by auto
  next
    case False
    then obtain vars' where
      "pair_loop dag offsets blocks k (block_end (offsets ! k) (blocks ! k)) (Suc k) = Inr ()"
      "collisions_loop dag bound offsets blocks is vars' = Inr ()"
      using Cons.prems(1) vars by (auto simp: Let_def bind_result_Inr_iff)
    then show ?thesis using Cons.IH Cons.prems(2) by (cases "i = k") auto
  qed
qed simp

text \<open>When the pairwise algorithm accepts the graph, any two colliding access blocks belong to
  different requests that are adjacent in one direction, unless they add to the same integer.\<close>

theorem pairwise_collisions_registered:
  assumes "findCollisions dag bound offsets blocks = Inr ()" "sorted offsets" "length offsets = length blocks"
    and "p < q" "q < length blocks" "offsets ! p \<noteq> - 3" "offsets ! q < block_end (offsets ! p) (blocks ! p)"
    and "collides (abi_access (blocks ! p)) (abi_access (blocks ! q))"
    and "\<not> (isAdditive (abi_access (blocks ! p)) \<and> abi_access (blocks ! p) = abi_access (blocks ! q) \<and>
      offsets ! p = offsets ! q \<and> abi_size (blocks ! p) = abi_size (blocks ! q))"
  shows "abi_request (blocks ! p) \<noteq> abi_request (blocks ! q) \<and>
    (dag (abi_request (blocks ! p)) (abi_request (blocks ! q)) = Inr True \<or>
     dag (abi_request (blocks ! q)) (abi_request (blocks ! p)) = Inr True)"
proof -
  have "pair_loop dag offsets blocks p (block_end (offsets ! p) (blocks ! p)) (Suc p) = Inr ()"
    by (rule collisions_loop_pairs) (use assms(1,4-6) in \<open>auto simp: findCollisions_def\<close>)
  from pair_loop_ok [OF this assms(2,3) _ assms(5,7-9)] assms(4)
  have "registerDependency dag (abi_request (blocks ! p)) (abi_request (blocks ! q)) = Inr ()" by simp
  then show ?thesis by (auto simp: registerDependency_def bind_result_Inr_iff split: if_splits)
qed

section \<open>Two defects of the cluster-product algorithm\<close>

definition access :: "int \<Rightarrow> AccessType \<Rightarrow> int \<Rightarrow> AccessBlockInfo" where
  "access n t r = \<lparr>abi_size = n, abi_access = t, abi_request = r\<rparr>"

definition one_edge :: dag where
  "one_edge u v = Inr (u = 2 \<and> v = 3)"

lemma one_edge_path: "dag_path one_edge u v \<Longrightarrow> u = 2 \<and> v = 3"
  by (induction rule: dag_path.induct) (auto simp: one_edge_def)

text \<open>C29: When a block is split, the part behind the splitting point loses the requests that have been
  merged into the block before: the request 0 reads the bytes 0 to 9 and the request 3 writes the bytes
  6 and 7, no path connects them, and the graph is accepted.\<close>

theorem split_loses_requests:
  "findCollisionCliques one_edge [0, 1, 2, 6]
      [access 10 read_only 0, access 4 read_only 1, access 8 read_only 2, access 2 writable_access 3] =
    Some (Inr ()) \<and>
   collides read_only writable_access \<and> \<not> dag_path one_edge 0 3 \<and> \<not> dag_path one_edge 3 0"
proof -
  have "findCollisionCliques one_edge [0, 1, 2, 6]
      [access 10 read_only 0, access 4 read_only 1, access 8 read_only 2, access 2 writable_access 3] =
    Some (Inr ())" by code_simp
  then show ?thesis using one_edge_path [of 0 3] one_edge_path [of 3 0] by auto
qed

text \<open>Two requests that may expand a chunk, the second of which also writes its first bytes, are
  rejected for every graph without loops: the declaration of the second one is split like a block of
  data, and collides with the data of its own request.\<close>

theorem second_expander_rejected:
  assumes "\<forall>u. dag u u = Inr False"
  shows "\<exists>e. findCollisionCliques dag [- 1, - 1, 0]
    [access 100 writable_access 0, access 100 writable_access 1, access 4 writable_access 1] = Some (Inl e)"
proof -
  let ?c = "\<lambda>ms. \<lparr>cl_type = writable_access, cl_members = ms\<rparr>"
  let ?cu = "\<lambda>ms. \<lparr>cl_type = check_only, cl_members = ms\<rparr>"
  let ?b = "[access 1 writable_access 1, access 99 writable_access 1, access 4 writable_access 1]"
  have m: "mergeInsert 0 [] [0] = [0 :: int]" "mergeInsert 0 [0] [1] = [0, 1 :: int]"
    "mergeInsert 0 [] [1] = [1 :: int]" by code_simp+
  have s1: "clique_step dag 0 ([- 1, - 1, 0],
      [access 100 writable_access 0, access 100 writable_access 1, access 4 writable_access 1],
      replicate 3 VerifierCluster) = Inr (0, [- 1, 0, 0], ?b, [?cu [0], VerifierCluster, VerifierCluster])"
    by code_simp
  have s2: "clique_step dag 0 ([- 1, 0, 0], ?b, [?cu [0], VerifierCluster, VerifierCluster]) =
      bind_result (registerAdjacency dag 0 1) (\<lambda>_.
        Inr (Suc 0, [- 1, 0, 0], ?b, [?c [0, 1], VerifierCluster, VerifierCluster]))"
    by (simp add: clique_step_def Let_def cluster_insert_def m access_def block_end_def scan_blocks.simps
      cluster_finalize_def) (cases "registerAdjacency dag 0 1"; simp)
  have s3: "clique_step dag (Suc 0) ([- 1, 0, 0], ?b, [?c [0, 1], VerifierCluster, VerifierCluster]) = Inl Invalid_argument"
    using assms
    by (simp add: clique_step_def Let_def cluster_insert_def VerifierCluster_def m access_def block_end_def
      scan_blocks.simps [of _ _ _ _ "Suc 0"] canMerge_def isAdditive_def cluster_addDependency_def upper_bound_def
      registerAdjacency_def require_def numeral_2_eq_2)
  show ?thesis
  proof (cases "registerAdjacency dag 0 1")
    case (Inl e)
    then show ?thesis using s1 s2
      by (simp add: findCollisionCliques_def numeral_3_eq_3 clique_loop.simps [of dag 0])
  next
    case (Inr u)
    then show ?thesis using s1 s2 s3
      by (simp add: findCollisionCliques_def numeral_3_eq_3 clique_loop.simps)
  qed
qed

theorem second_expander_rejected_witness:
  "\<exists>e. findCollisionCliques (\<lambda>u v. Inr (u < v)) [- 1, - 1, 0]
    [access 100 writable_access 0, access 100 writable_access 1, access 4 writable_access 1] = Some (Inl e)"
  by (rule second_expander_rejected) simp

theorem pairwise_collisions_registered_witness:
  "\<exists>dag :: dag. findCollisions dag (Inr 0) [0, 2] [access 4 read_only 0, access 4 writable_access 1] = Inr () \<and>
    (dag 0 1 = Inr True \<or> dag 1 0 = Inr True)"
proof -
  let ?b = "[access 4 read_only 0, access 4 writable_access 1]"
  have ok: "findCollisions (\<lambda>u v. Inr (u < v)) (Inr 0) [0, 2] ?b = Inr ()" by code_simp
  from pairwise_collisions_registered [OF ok, of 0 1]
  have "(\<lambda>u v. Inr (u < v) :: bool result) (0 :: int) 1 = Inr True \<or> (\<lambda>u v. Inr (u < v) :: bool result) (1 :: int) 0 = Inr True"
    by (simp add: block_end_def access_def)
  then show ?thesis using ok by (intro exI [of _ "\<lambda>u v. Inr (u < v)"]) simp
qed

theorem resizing_collisions_registered_witness:
  "findResizingCollisions (\<lambda>u v. Inr (u < v)) (Inr 4) [- 1, 4] [access 11 writable_access 2, access 2 read_only 4] = Inr ()
    \<longleftrightarrow> addDependency (\<lambda>u v. Inr (u < v)) 4 2 = Inr ()"
proof -
  have "sorted [- 1, 4 :: int]" "length [- 1, 4 :: int] = length [access 11 writable_access 2, access 2 read_only 4]"
    by simp_all
  from resizing_collisions_registered [OF this, of "\<lambda>u v. Inr (u < v)" 4] show ?thesis
    by (simp add: access_def less_Suc_eq all_conj_distrib numeral_2_eq_2 resize_collision_def)
qed

theorem aligned_collisions_connected_witness:
  "aligned [0, 0, 0] [access 4 writable_access 0, access 4 writable_access 2, access 4 read_only 1] \<and>
    findCollisionCliques (\<lambda>u v. Inr (v = u + 1 \<or> (u, v) = (0, 2))) [0, 0, 0]
      [access 4 writable_access 0, access 4 writable_access 2, access 4 read_only 1] = Some (Inr ()) \<and>
    (dag_path (\<lambda>u v. Inr (v = u + 1 \<or> (u, v) = (0, 2))) 0 2 \<or> dag_path (\<lambda>u v. Inr (v = u + 1 \<or> (u, v) = (0, 2))) 2 0)"
proof -
  let ?dag = "\<lambda>u v :: int. Inr (v = u + 1 \<or> (u, v) = (0, 2)) :: bool result"
  let ?b = "[access 4 writable_access 0, access 4 writable_access 2, access 4 read_only 1]"
  have al: "aligned [0, 0, 0] ?b"
    by (auto simp: aligned_def access_def less_Suc_eq)
  have ok: "findCollisionCliques ?dag [0, 0, 0] ?b = Some (Inr ())" by code_simp
  have "dag_path ?dag (abi_request (?b ! 0)) (abi_request (?b ! 1)) \<or>
      dag_path ?dag (abi_request (?b ! 1)) (abi_request (?b ! 0))"
  proof -
    from aligned_collisions_connected [OF al, of ?dag] ok have
      "\<forall>q < length ?b. \<forall>p < q. [0, 0, 0 :: int] ! p = [0, 0, 0] ! q \<and>
        collides (abi_access (?b ! p)) (abi_access (?b ! q)) \<and>
        \<not> (isAdditive (abi_access (?b ! p)) \<and> isAdditive (abi_access (?b ! q))) \<and>
        abi_request (?b ! p) \<noteq> abi_request (?b ! q) \<longrightarrow>
        dag_path ?dag (abi_request (?b ! p)) (abi_request (?b ! q)) \<or>
        dag_path ?dag (abi_request (?b ! q)) (abi_request (?b ! p))" by auto
    from this [rule_format, of 1 0] show ?thesis by (simp add: access_def isAdditive_def)
  qed
  then show ?thesis using al ok by (simp add: access_def)
qed

end
