(* ===== verification/Base64.thy ===== *)
theory Base64
  imports Std_Text
begin

text \<open>
  The base64url encoding of keys and signatures, \<^verbatim>\<open>src/util/base64url.cpp\<close>, and the fixed size
  arrays that are read from it, \<^verbatim>\<open>src/util/StaticArray.hpp\<close>. The encoder and the decoder write
  through pointers: their output is a buffer here, every write is checked against its end, and a
  write behind it is undefined behaviour. The buffer \<open>None\<close> is the null pointer. Lengths are natural
  numbers: they stay below the size of the memory.
\<close>

section \<open>The tables\<close>

definition base64urlEncTable :: string where
  "base64urlEncTable = ''ABCDEFGHIJKLMNOPQRSTUVWXYZabcdefghijklmnopqrstuvwxyz0123456789-_''"

definition base64urlDecTable :: "byte list" where
  "base64urlDecTable =
    [0xFF, 0xFF, 0xFF, 0xFF, 0xFF, 0xFF, 0xFF, 0xFF, 0xFF, 0xFF, 0xFF, 0xFF, 0xFF, 0xFF, 0xFF, 0xFF,
     0xFF, 0xFF, 0xFF, 0xFF, 0xFF, 0xFF, 0xFF, 0xFF, 0xFF, 0xFF, 0xFF, 0xFF, 0xFF, 0xFF, 0xFF, 0xFF,
     0xFF, 0xFF, 0xFF, 0xFF, 0xFF, 0xFF, 0xFF, 0xFF, 0xFF, 0xFF, 0xFF, 0xFF, 0xFF, 0x3E, 0xFF, 0xFF,
     0x34, 0x35, 0x36, 0x37, 0x38, 0x39, 0x3A, 0x3B, 0x3C, 0x3D, 0xFF, 0xFF, 0xFF, 0xFF, 0xFF, 0xFF,
     0xFF, 0x00, 0x01, 0x02, 0x03, 0x04, 0x05, 0x06, 0x07, 0x08, 0x09, 0x0A, 0x0B, 0x0C, 0x0D, 0x0E,
     0x0F, 0x10, 0x11, 0x12, 0x13, 0x14, 0x15, 0x16, 0x17, 0x18, 0x19, 0xFF, 0xFF, 0xFF, 0xFF, 0x3F,
     0xFF, 0x1A, 0x1B, 0x1C, 0x1D, 0x1E, 0x1F, 0x20, 0x21, 0x22, 0x23, 0x24, 0x25, 0x26, 0x27, 0x28,
     0x29, 0x2A, 0x2B, 0x2C, 0x2D, 0x2E, 0x2F, 0x30, 0x31, 0x32, 0x33, 0xFF, 0xFF, 0xFF, 0xFF, 0xFF]"

definition enc_char :: "byte \<Rightarrow> char" where
  "enc_char v = base64urlEncTable ! unat v"

section \<open>Encoding\<close>

text \<open>\<^verbatim>\<open>output[i] = v\<close>.\<close>

definition put :: "'a list \<Rightarrow> nat \<Rightarrow> 'a \<Rightarrow> 'a list result" where
  "put buf i v = (if i < length buf then Inr (buf[i := v]) else Inl Undefined_behaviour)"

fun put_all :: "'a list \<Rightarrow> nat \<Rightarrow> 'a list \<Rightarrow> 'a list result" where
  "put_all buf i [] = Inr buf"
| "put_all buf i (v # vs) = bind_result (put buf i v) (\<lambda>buf'. put_all buf' (Suc i) vs)"

definition base64DecodeLen :: "nat \<Rightarrow> nat" where
  "base64DecodeLen base64Len =
    (let r = base64Len mod 4 in if r = 1 then 0 else 3 * (base64Len div 4) + 3 * r div 4)"

text \<open>The last quantum: the characters behind the \<open>n\<close> full blocks.\<close>

definition final_quantum :: "byte list \<Rightarrow> nat \<Rightarrow> string" where
  "final_quantum p n =
    (if length p = n * 3 + 1 then
       [enc_char (drop_bit 2 (p ! (n * 3) AND 0xFC)),
        enc_char (push_bit 4 (p ! (n * 3) AND 0x03))]
     else if length p = n * 3 + 2 then
       [enc_char (drop_bit 2 (p ! (n * 3) AND 0xFC)),
        enc_char (push_bit 4 (p ! (n * 3) AND 0x03) OR drop_bit 4 (p ! (n * 3 + 1) AND 0xF0)),
        enc_char (push_bit 2 (p ! (n * 3 + 1) AND 0x0F))]
     else [])"

text \<open>The loop over the full blocks, from the last to the first.\<close>

fun encode_blocks :: "byte list \<Rightarrow> nat \<Rightarrow> string \<Rightarrow> string result" where
  "encode_blocks p 0 output = Inr output"
| "encode_blocks p (Suc n) output =
    (let a = drop_bit 2 (p ! (n * 3) AND 0xFC);
         b = push_bit 4 (p ! (n * 3) AND 0x03) OR drop_bit 4 (p ! (n * 3 + 1) AND 0xF0);
         c = push_bit 2 (p ! (n * 3 + 1) AND 0x0F) OR drop_bit 6 (p ! (n * 3 + 2) AND 0xC0);
         d = p ! (n * 3 + 2) AND 0x3F
     in bind_result (put_all output (n * 4) [enc_char a, enc_char b, enc_char c, enc_char d])
          (encode_blocks p n))"

definition base64urlEncode_to :: "byte list \<Rightarrow> string option \<Rightarrow> (string option \<times> nat) result" where
  "base64urlEncode_to input output =
    (let n = length input div 3; rest = final_quantum input n; outputLen = n * 4 + length rest
     in case output of
          None \<Rightarrow> Inr (None, outputLen)
        | Some buf \<Rightarrow>
            bind_result (put_all buf (n * 4) (rest @ [CHR 0x00])) (\<lambda>buf1.
            bind_result (encode_blocks input n buf1) (\<lambda>buf2. Inr (Some buf2, outputLen))))"

text \<open>The overload that returns a string. Nothing is read of its uninitialised buffer, zeros here.\<close>

definition base64urlEncode :: "byte list \<Rightarrow> string result" where
  "base64urlEncode input =
    (let buf = replicate (4 * (length input div 3) + 4) CHR 0x00
     in bind_result (base64urlEncode_to input (Some buf)) (\<lambda>(out, len).
        bind_result (require (length buf > len) Assert_failed) (\<lambda>_.
          Inr (take len (case out of Some s \<Rightarrow> s | None \<Rightarrow> [])))))"

section \<open>Decoding\<close>

datatype decode_error = NO_ERROR | ERROR_INVALID_LENGTH | ERROR_INVALID_CHARACTER

definition dec_char :: "char \<Rightarrow> byte option" where
  "dec_char ch =
    (let c = of_char ch :: nat
     in if c < 128 \<and> base64urlDecTable ! c < 64 then Some (base64urlDecTable ! c) else None)"

definition put_opt :: "byte list option \<Rightarrow> nat \<Rightarrow> byte list \<Rightarrow> byte list option result" where
  "put_opt p n bs = (case p of None \<Rightarrow> Inr None | Some buf \<Rightarrow> bind_result (put_all buf n bs) (\<lambda>b. Inr (Some b)))"

text \<open>The loop: the error, the bits of the unfinished block, the number of bytes and the output.\<close>

fun decode_loop ::
  "string \<Rightarrow> nat \<Rightarrow> uint32 \<Rightarrow> nat \<Rightarrow> byte list option
   \<Rightarrow> (decode_error \<times> uint32 \<times> nat \<times> byte list option) result" where
  "decode_loop [] i val n p = Inr (NO_ERROR, val, n, p)"
| "decode_loop (ch # input) i val n p =
    (case dec_char ch of
       None \<Rightarrow> Inr (ERROR_INVALID_CHARACTER, val, n, p)
     | Some v \<Rightarrow>
         (let val' = push_bit 6 val OR ucast v
          in if i mod 4 = 3 then
               bind_result (put_opt p n [ucast (drop_bit 16 val' AND 0xFF), ucast (drop_bit 8 val' AND 0xFF),
                                         ucast (val' AND 0xFF)]) (\<lambda>p'.
                 decode_loop input (Suc i) 0 (n + 3) p')
             else decode_loop input (Suc i) val' n p))"

definition base64urlDecodeImpl ::
  "string \<Rightarrow> byte list option \<Rightarrow> (decode_error \<times> nat \<times> byte list option) result" where
  "base64urlDecodeImpl input output =
    (if length input mod 4 = 1 then Inr (ERROR_INVALID_LENGTH, 0, output)
     else
       bind_result (decode_loop input 0 0 0 output) (\<lambda>(error, val, n, p).
         if error = NO_ERROR then
           (if length input mod 4 = 2 then
              bind_result (put_opt p n [ucast (drop_bit 4 val AND 0xFF)]) (\<lambda>p'. Inr (error, n + 1, p'))
            else if length input mod 4 = 3 then
              bind_result (put_opt p n [ucast (drop_bit 10 val AND 0xFF), ucast (drop_bit 2 val AND 0xFF)])
                (\<lambda>p'. Inr (error, n + 2, p'))
            else Inr (error, n, p))
         else Inr (error, n, p)))"

definition base64urlDecode :: "string \<Rightarrow> byte list option \<Rightarrow> (nat \<times> byte list option) result" where
  "base64urlDecode input output =
    bind_result (base64urlDecodeImpl input output) (\<lambda>(err, outputLen, p).
      if err = NO_ERROR then Inr (outputLen, p) else Inl Invalid_argument)"

section \<open>Arrays of bytes\<close>

definition memSet :: "byte list \<Rightarrow> nat \<Rightarrow> byte \<Rightarrow> nat \<Rightarrow> byte list result" where
  "memSet dest i v n = put_all dest i (replicate n v)"

text \<open>\<^verbatim>\<open>StaticArray<byte, sizeValue>(base64)\<close>.\<close>

definition StaticArray :: "nat \<Rightarrow> string \<Rightarrow> byte list result" where
  "StaticArray sizeValue base64 =
    (if base64DecodeLen (length base64) > sizeValue then Inl Out_of_range
     else
       bind_result (base64urlDecode base64 (Some (replicate sizeValue 0))) (\<lambda>(modified, content).
         case content of
           None \<Rightarrow> Inl Undefined_behaviour
         | Some c \<Rightarrow> memSet c modified 0 (sizeValue - modified)))"

definition StaticArray_binary :: "nat \<Rightarrow> byte list \<Rightarrow> byte list result" where
  "StaticArray_binary sizeValue binary =
    (if sizeValue \<le> length binary then Inr (take sizeValue binary) else Inl Undefined_behaviour)"

definition array_at :: "byte list \<Rightarrow> nat \<Rightarrow> byte result" where
  "array_at content idx = (if idx < length content then Inr (content ! idx) else Inl Out_of_range)"

definition array_toString :: "byte list \<Rightarrow> string" where
  "array_toString content = concat (map (\<lambda>elem. to_string (unat elem) @ '','') content)"

definition toBase64 :: "byte list \<Rightarrow> string result" where
  "toBase64 content = base64urlEncode content"


section \<open>The reference encoding\<close>

text \<open>Three bytes at a time, without buffers.\<close>

fun b64 :: "byte list \<Rightarrow> string" where
  "b64 [] = []"
| "b64 [x] = [enc_char (drop_bit 2 (x AND 0xFC)), enc_char (push_bit 4 (x AND 0x03))]"
| "b64 [x, y] =
    [enc_char (drop_bit 2 (x AND 0xFC)),
     enc_char (push_bit 4 (x AND 0x03) OR drop_bit 4 (y AND 0xF0)),
     enc_char (push_bit 2 (y AND 0x0F))]"
| "b64 (x # y # z # rest) =
    enc_char (drop_bit 2 (x AND 0xFC)) #
    enc_char (push_bit 4 (x AND 0x03) OR drop_bit 4 (y AND 0xF0)) #
    enc_char (push_bit 2 (y AND 0x0F) OR drop_bit 6 (z AND 0xC0)) #
    enc_char (z AND 0x3F) # b64 rest"

lemma put_all_overwrite:
  "i + length vs \<le> length buf \<Longrightarrow> put_all buf i vs = Inr (overwrite i vs buf)"
proof (induction vs arbitrary: i buf)
  case Nil
  then show ?case by simp
next
  case (Cons v vs)
  have "overwrite (Suc i) vs (buf[i := v]) = overwrite i (v # vs) buf"
    using Cons.prems by (intro nth_equalityI) (auto simp: nth_overwrite nth_list_update nth_Cons')
  then show ?case using Cons by (simp add: put_def)
qed

lemma put_all_outside:
  "i \<le> length buf \<Longrightarrow> length buf < i + length vs \<Longrightarrow> put_all buf i vs = Inl Undefined_behaviour"
  by (induction vs arbitrary: i buf) (auto simp: put_def)

lemma b64_append: "length xs mod 3 = 0 \<Longrightarrow> b64 (xs @ ys) = b64 xs @ b64 ys"
proof (induction xs rule: b64.induct)
  case (4 x y z rest)
  have "length (x # y # z # rest) = 3 + length rest" by simp
  then have "length rest mod 3 = 0" using "4.prems" by (simp only: mod_add_self1)
  then show ?case using "4.IH" by simp
qed simp_all

lemma list_of_length:
  "length xs = 1 \<Longrightarrow> xs = [xs ! 0]" "length xs = 2 \<Longrightarrow> xs = [xs ! 0, xs ! 1]"
  "length xs = 3 \<Longrightarrow> xs = [xs ! 0, xs ! 1, xs ! 2]"
  by (auto simp: numeral_eq_Suc length_Suc_conv)

lemma final_quantum_b64:
  assumes "n = length p div 3" shows "final_quantum p n = b64 (drop (3 * n) p)"
proof -
  have "length (drop (3 * n) p) = length p mod 3" using assms by (simp add: minus_mult_div_eq_mod)
  moreover have "length p = n * 3 + length p mod 3" using assms by simp
  moreover have "length p mod 3 = 0 \<or> length p mod 3 = 1 \<or> length p mod 3 = 2" by presburger
  ultimately show ?thesis
    using list_of_length(1,2) [of "drop (3 * n) p"]
    by (elim disjE) (auto simp: final_quantum_def mult.commute)
qed

lemma drop_overwrite_run: "i \<le> length buf \<Longrightarrow> drop i (overwrite i vs buf) = vs @ drop (i + length vs) buf"
  by (simp add: overwrite_def)

lemma encode_blocks_b64:
  "3 * n \<le> length p \<Longrightarrow> 4 * n \<le> length outp \<Longrightarrow>
    encode_blocks p n outp = Inr (b64 (take (3 * n) p) @ drop (4 * n) outp)"
proof (induction n arbitrary: outp)
  case 0
  then show ?case by simp
next
  case (Suc n)
  define x y z where xyz: "x = p ! (n * 3)" "y = p ! (n * 3 + 1)" "z = p ! (n * 3 + 2)"
  have t: "take (3 * Suc n) p = take (3 * n) p @ [x, y, z]"
  proof -
    have "take (3 * Suc n) p = take (3 * n) p @ take 3 (drop (3 * n) p)"
      by (simp add: take_add [symmetric] add.commute)
    moreover have "take 3 (drop (3 * n) p) = [x, y, z]"
      using list_of_length(3) [of "take 3 (drop (3 * n) p)"] Suc.prems xyz by (simp add: mult.commute)
    ultimately show ?thesis by simp
  qed
  have "b64 (take (3 * Suc n) p) = b64 (take (3 * n) p) @ b64 [x, y, z]"
    unfolding t using Suc.prems by (intro b64_append) simp
  moreover have "put_all outp (n * 4) (b64 [x, y, z]) = Inr (overwrite (n * 4) (b64 [x, y, z]) outp)"
    using Suc.prems by (intro put_all_overwrite) simp
  moreover have "drop (4 * n) (overwrite (n * 4) (b64 [x, y, z]) outp) = b64 [x, y, z] @ drop (4 * Suc n) outp"
    using drop_overwrite_run [of "n * 4" outp "b64 [x, y, z]"] Suc.prems
    by (simp add: mult.commute add.commute) (simp add: numeral_eq_Suc)
  moreover have "encode_blocks p (Suc n) outp = bind_result (put_all outp (n * 4) (b64 [x, y, z])) (encode_blocks p n)"
    by (simp only: encode_blocks.simps b64.simps Let_def xyz)
  moreover have "encode_blocks p n (overwrite (n * 4) (b64 [x, y, z]) outp) =
      Inr (b64 (take (3 * n) p) @ drop (4 * n) (overwrite (n * 4) (b64 [x, y, z]) outp))"
    using Suc.prems by (intro Suc.IH) simp_all
  ultimately show ?case by (simp only: bind_result_simps append_assoc)
qed

lemma length_b64: "length (b64 bs) = 4 * (length bs div 3) + (if length bs mod 3 = 0 then 0 else length bs mod 3 + 1)"
  proof (induction bs rule: b64.induct)
  case (4 x y z rest)
  have "length (x # y # z # rest) = 3 + length rest" by simp
  then have "length (x # y # z # rest) div 3 = Suc (length rest div 3)"
    "length (x # y # z # rest) mod 3 = length rest mod 3" by (simp_all only: mod_add_self1 div_add_self1)
  then show ?case using 4 by simp
qed simp_all

lemma base64urlEncode_b64: "base64urlEncode bs = Inr (b64 bs)"
proof -
  let ?n = "length bs div 3"
  let ?rest = "final_quantum bs ?n"
  let ?buf = "replicate (4 * ?n + 4) CHR 0x00"
  have r: "?rest = b64 (drop (3 * ?n) bs)" by (rule final_quantum_b64) simp
  have l: "length ?rest \<le> 3" by (simp add: final_quantum_def)
  have b: "b64 bs = b64 (take (3 * ?n) bs) @ ?rest"
    using b64_append [of "take (3 * ?n) bs" "drop (3 * ?n) bs"] r by simp
  have len: "length (b64 (take (3 * ?n) bs)) = 4 * ?n" by (simp add: length_b64)
  have p: "put_all ?buf (?n * 4) (?rest @ [CHR 0x00]) = Inr (overwrite (?n * 4) (?rest @ [CHR 0x00]) ?buf)"
    using l by (intro put_all_overwrite) simp
  have "take (?n * 4 + length ?rest) (b64 (take (3 * ?n) bs) @ drop (4 * ?n) (overwrite (?n * 4) (?rest @ [CHR 0x00]) ?buf)) = b64 bs"
    unfolding b using len by (simp add: overwrite_def mult.commute)
  moreover have "encode_blocks bs ?n (overwrite (?n * 4) (?rest @ [CHR 0x00]) ?buf) =
      Inr (b64 (take (3 * ?n) bs) @ drop (4 * ?n) (overwrite (?n * 4) (?rest @ [CHR 0x00]) ?buf))"
    using l by (intro encode_blocks_b64) simp_all
  ultimately show ?thesis
    using l by (simp add: base64urlEncode_def base64urlEncode_to_def Let_def p)
qed


section \<open>Decoding what was encoded\<close>

lemma dec_enc_table: "map dec_char base64urlEncTable = map (\<lambda>i. Some (word_of_nat i)) [0..<64]"
  by (simp add: base64urlEncTable_def dec_char_def base64urlDecTable_def upt_rec)

lemma dec_enc_nat: "i < 64 \<Longrightarrow> dec_char (base64urlEncTable ! i) = Some (word_of_nat i)"
proof -
  assume i: "i < 64"
  moreover have "length base64urlEncTable = 64" by (simp add: base64urlEncTable_def)
  ultimately show ?thesis using arg_cong [OF dec_enc_table, of "\<lambda>xs. xs ! i"] by simp
qed

lemma dec_enc: "v < 64 \<Longrightarrow> dec_char (enc_char v) = Some v"
  using dec_enc_nat by (simp add: enc_char_def word_less_nat_alt)

lemma byte_cases: "n < LENGTH(8) \<Longrightarrow> n = 0 \<or> n = 1 \<or> n = 2 \<or> n = 3 \<or> n = 4 \<or> n = 5 \<or> n = 6 \<or> n = 7"
  by auto

lemma byteI:
  fixes v w :: byte
  assumes "bit v 0 = bit w 0" "bit v 1 = bit w 1" "bit v 2 = bit w 2" "bit v 3 = bit w 3"
    "bit v 4 = bit w 4" "bit v 5 = bit w 5" "bit v 6 = bit w 6" "bit v 7 = bit w 7"
  shows "v = w"
  using assms by (intro bit_word_eqI) (drule byte_cases, elim disjE, simp_all only:)

lemma sextet:
  fixes v :: byte assumes "\<not> bit v 6" "\<not> bit v 7" shows "v < 64"
proof -
  have "v = take_bit 6 v" by (rule byteI) (use assms in \<open>simp_all add: bit_simps\<close>)
  then have "v = v AND mask 6" by (simp add: take_bit_eq_mask)
  also have "\<dots> < 2 ^ 6" by (rule and_mask_less') simp
  finally show ?thesis by simp
qed

lemma sextets:
  fixes x y z :: byte
  shows "drop_bit 2 (x AND 0xFC) < 64" "push_bit 4 (x AND 0x03) < 64"
    "push_bit 4 (x AND 0x03) OR drop_bit 4 (y AND 0xF0) < 64" "push_bit 2 (y AND 0x0F) < 64"
    "push_bit 2 (y AND 0x0F) OR drop_bit 6 (z AND 0xC0) < 64" "z AND 0x3F < 64"
  by (rule sextet; simp add: bit_simps)+

lemma word32_block:
  fixes x y z :: byte
  defines "v1 \<equiv> (ucast (drop_bit 2 (x AND 0xFC)) :: uint32)"
    and "v2 \<equiv> (ucast (push_bit 4 (x AND 0x03) OR drop_bit 4 (y AND 0xF0)) :: uint32)"
    and "v3 \<equiv> (ucast (push_bit 2 (y AND 0x0F) OR drop_bit 6 (z AND 0xC0)) :: uint32)"
    and "v4 \<equiv> (ucast (z AND 0x3F) :: uint32)"
  defines "val \<equiv> push_bit 6 (push_bit 6 (push_bit 6 v1 OR v2) OR v3) OR v4"
  shows "ucast (drop_bit 16 val AND 0xFF) = x" "ucast (drop_bit 8 val AND 0xFF) = y" "ucast (val AND 0xFF) = z"
  unfolding val_def v1_def v2_def v3_def v4_def
  by (rule byteI; simp add: bit_simps)+

lemma word32_tail:
  fixes x y :: byte
  defines "v1 \<equiv> (ucast (drop_bit 2 (x AND 0xFC)) :: uint32)"
    and "v2 \<equiv> (ucast (push_bit 4 (x AND 0x03)) :: uint32)"
    and "v2' \<equiv> (ucast (push_bit 4 (x AND 0x03) OR drop_bit 4 (y AND 0xF0)) :: uint32)"
    and "v3 \<equiv> (ucast (push_bit 2 (y AND 0x0F)) :: uint32)"
  shows "ucast (drop_bit 4 (push_bit 6 v1 OR v2) AND 0xFF) = x"
    "ucast (drop_bit 10 (push_bit 6 (push_bit 6 v1 OR v2') OR v3) AND 0xFF) = x"
    "ucast (drop_bit 2 (push_bit 6 (push_bit 6 v1 OR v2') OR v3) AND 0xFF) = y"
  unfolding v1_def v2_def v2'_def v3_def
  by (rule byteI; simp add: bit_simps)+

lemma overwrite_consecutive:
  "i + length vs + length ws \<le> length buf \<Longrightarrow>
    overwrite (i + length vs) ws (overwrite i vs buf) = overwrite i (vs @ ws) buf"
  by (intro nth_equalityI) (auto simp: nth_overwrite nth_append)

lemma overwrite_block:
  "n + 3 + length ws \<le> length buf \<Longrightarrow>
    overwrite (n + 3) ws (overwrite n [x, y, z] buf) = overwrite n (x # y # z # ws) buf"
proof -
  assume "n + 3 + length ws \<le> length buf"
  moreover have "length [x, y, z] = 3" by simp
  ultimately show ?thesis using overwrite_consecutive [of n "[x, y, z]" ws buf] by (metis append_Cons append_Nil)
qed

text \<open>The bits left in \<open>val\<close> behind the last full block.\<close>

fun b64_rest :: "byte list \<Rightarrow> uint32" where
  "b64_rest [] = 0"
| "b64_rest [x] = push_bit 6 (ucast (drop_bit 2 (x AND 0xFC))) OR ucast (push_bit 4 (x AND 0x03))"
| "b64_rest [x, y] =
    push_bit 6 (push_bit 6 (ucast (drop_bit 2 (x AND 0xFC))) OR
      ucast (push_bit 4 (x AND 0x03) OR drop_bit 4 (y AND 0xF0))) OR ucast (push_bit 2 (y AND 0x0F))"
| "b64_rest (x # y # z # rest) = b64_rest rest"

lemma decode_step:
  assumes "v < 64" "i mod 4 \<noteq> 3"
  shows "decode_loop (enc_char v # s) i val n p = decode_loop s (Suc i) (push_bit 6 val OR ucast v) n p"
  using assms dec_enc by simp

lemma decode_last:
  assumes "v < 64" "i mod 4 = 3"
    and "put_opt p n [ucast (drop_bit 16 (push_bit 6 val OR ucast v) AND 0xFF),
           ucast (drop_bit 8 (push_bit 6 val OR ucast v) AND 0xFF), ucast ((push_bit 6 val OR ucast v) AND 0xFF)] = Inr p'"
  shows "decode_loop (enc_char v # s) i val n p = decode_loop s (Suc i) 0 (n + 3) p'"
  by (simp only: decode_loop.simps dec_enc [OF assms(1)] option.simps Let_def assms(2,3) simp_thms if_True bind_result_simps)

lemma three_more:
  "take (3 * Suc k) (x # y # z # rest) = x # y # z # take (3 * k) rest"
  "drop (3 * Suc k) (x # y # z # rest) = drop (3 * k) rest"
  by (simp_all add: numeral_3_eq_3)

lemma decode_block:
  fixes x y z :: byte
  assumes "i mod 4 = 0" "n + 3 \<le> length buf"
  shows "decode_loop (b64 (x # y # z # bs)) i 0 n (Some buf) =
    decode_loop (b64 bs) (i + 4) 0 (n + 3) (Some (overwrite n [x, y, z] buf))"
proof -
  have m: "i mod 4 \<noteq> 3" "Suc i mod 4 \<noteq> 3" "Suc (Suc i) mod 4 \<noteq> 3" "Suc (Suc (Suc i)) mod 4 = 3"
    using assms(1) by presburger+
  have p: "put_opt (Some buf) n [x, y, z] = Inr (Some (overwrite n [x, y, z] buf))"
    using put_all_overwrite [of n "[x, y, z]" buf] assms(2) by (simp only: put_opt_def) simp
  have "decode_loop (b64 (x # y # z # bs)) i 0 n (Some buf) =
    decode_loop (b64 bs) (Suc (Suc (Suc (Suc i)))) 0 (n + 3) (Some (overwrite n [x, y, z] buf))"
    unfolding b64.simps decode_step [OF sextets(1) m(1)] decode_step [OF sextets(3) m(2)]
      decode_step [OF sextets(5) m(3)] push_bit_of_0 or.left_neutral
    by (rule decode_last [OF sextets(6) m(4)]) (simp only: word32_block p)
  moreover have "Suc (Suc (Suc (Suc i))) = i + 4" by simp
  ultimately show ?thesis by (simp only:)
qed

lemma decode_b64:
  assumes "i mod 4 = 0" "n + length bs \<le> length buf"
  shows "decode_loop (b64 bs) i 0 n (Some buf) =
    Inr (NO_ERROR, b64_rest bs, n + 3 * (length bs div 3),
         Some (overwrite n (take (3 * (length bs div 3)) bs) buf))"
  using assms
proof (induction bs arbitrary: i n buf rule: b64.induct)
  case 1
  then show ?case by simp
next
  case (2 x)
  have m: "i mod 4 \<noteq> 3" "Suc i mod 4 \<noteq> 3" using "2.prems"(1) by presburger+
  show ?case
    by (simp only: b64.simps decode_step [OF sextets(1) m(1)] decode_step [OF sextets(2) m(2)]) simp
next
  case (3 x y)
  have m: "i mod 4 \<noteq> 3" "Suc i mod 4 \<noteq> 3" "Suc (Suc i) mod 4 \<noteq> 3" using "3.prems"(1) by presburger+
  show ?case
    by (simp only: b64.simps decode_step [OF sextets(1) m(1)] decode_step [OF sextets(3) m(2)]
        decode_step [OF sextets(4) m(3)]) simp
next
  case (4 x y z rest)
  let ?k = "3 * (length rest div 3)"
  have d: "length (x # y # z # rest) div 3 = Suc (length rest div 3)" by simp
  have "overwrite (n + 3) (take ?k rest) (overwrite n [x, y, z] buf) =
      overwrite n (take (3 * (length (x # y # z # rest) div 3)) (x # y # z # rest)) buf"
    unfolding d three_more by (rule overwrite_block) (use "4.prems"(2) in simp)
  moreover have "decode_loop (b64 rest) (i + 4) 0 (n + 3) (Some (overwrite n [x, y, z] buf)) =
      Inr (NO_ERROR, b64_rest rest, n + 3 + ?k, Some (overwrite (n + 3) (take ?k rest) (overwrite n [x, y, z] buf)))"
    using "4.prems" by (intro "4.IH") simp_all
  moreover have "decode_loop (b64 (x # y # z # rest)) i 0 n (Some buf) =
      decode_loop (b64 rest) (i + 4) 0 (n + 3) (Some (overwrite n [x, y, z] buf))"
    using "4.prems" by (intro decode_block) simp_all
  moreover have "n + 3 + ?k = n + 3 * (length (x # y # z # rest) div 3)" unfolding d by simp
  ultimately show ?case by (simp only: b64_rest.simps)
qed

lemma b64_rest_bytes:
  "length bs mod 3 = 1 \<Longrightarrow> [ucast (drop_bit 4 (b64_rest bs) AND 0xFF)] = drop (3 * (length bs div 3)) bs"
  "length bs mod 3 = 2 \<Longrightarrow> [ucast (drop_bit 10 (b64_rest bs) AND 0xFF), ucast (drop_bit 2 (b64_rest bs) AND 0xFF)]
    = drop (3 * (length bs div 3)) bs"
proof (induction bs rule: b64.induct)
  case (2 x)
  { case 1 then show ?case by (simp only: b64_rest.simps word32_tail) simp }
  { case 2 then show ?case by simp }
next
  case (3 x y)
  { case 1 then show ?case by simp }
  { case 2 then show ?case by (simp only: b64_rest.simps word32_tail) simp }
next
  case (4 x y z rest)
  have d: "length (x # y # z # rest) div 3 = Suc (length rest div 3)" "length (x # y # z # rest) mod 3 = length rest mod 3"
    by (simp_all add: mod_Suc) presburger+
  { case 1 then show ?case using 4(1) d(2) unfolding b64_rest.simps d(1) three_more by metis }
  { case 2 then show ?case using 4(2) d(2) unfolding b64_rest.simps d(1) three_more by metis }
qed simp_all

lemma length_b64_mod:
  "length (b64 bs) mod 4 = (if length bs mod 3 = 0 then 0 else length bs mod 3 + 1)"
  "base64DecodeLen (length (b64 bs)) = length bs"
proof -
  have r: "length bs mod 3 = 0 \<or> length bs mod 3 = 1 \<or> length bs mod 3 = 2" by presburger
  have l: "length bs = 3 * (length bs div 3) + length bs mod 3" by simp
  show m: "length (b64 bs) mod 4 = (if length bs mod 3 = 0 then 0 else length bs mod 3 + 1)"
    using r by (elim disjE) (simp_all add: length_b64, presburger+)
  have "length (b64 bs) div 4 = length bs div 3"
    using r by (elim disjE) (simp_all add: length_b64)
  then show "base64DecodeLen (length (b64 bs)) = length bs"
    using r l by (elim disjE) (simp_all add: base64DecodeLen_def m)
qed

lemma base64urlDecode_b64:
  assumes "length bs \<le> length buf"
  shows "base64urlDecode (b64 bs) (Some buf) = Inr (length bs, Some (overwrite 0 bs buf))"
proof -
  let ?k = "3 * (length bs div 3)"
  let ?buf = "overwrite 0 (take ?k bs) buf"
  have loop: "decode_loop (b64 bs) 0 0 0 (Some buf) = Inr (NO_ERROR, b64_rest bs, ?k, Some ?buf)"
    using decode_b64 [of 0 0 bs buf] assms by simp
  have app: "put_opt (Some ?buf) ?k (drop ?k bs) = Inr (Some (overwrite 0 bs buf))"
  proof -
    have "put_all ?buf ?k (drop ?k bs) = Inr (overwrite (0 + length (take ?k bs)) (drop ?k bs) ?buf)"
      using assms by (subst put_all_overwrite) simp_all
    also have "overwrite (0 + length (take ?k bs)) (drop ?k bs) ?buf = overwrite 0 (take ?k bs @ drop ?k bs) buf"
      by (rule overwrite_consecutive) (use assms in simp)
    finally show ?thesis by (simp add: put_opt_def)
  qed
  have l: "length bs = ?k + length bs mod 3" by simp
  have "length bs mod 3 = 0 \<or> length bs mod 3 = 1 \<or> length bs mod 3 = 2" by presburger
  then have "base64urlDecodeImpl (b64 bs) (Some buf) = Inr (NO_ERROR, length bs, Some (overwrite 0 bs buf))"
  proof (elim disjE)
    assume m: "length bs mod 3 = 0"
    then have "take ?k bs = bs" using l by simp
    then show ?thesis using m l by (simp add: base64urlDecodeImpl_def length_b64_mod loop)
  next
    assume m: "length bs mod 3 = 1"
    show ?thesis
      using m l app unfolding b64_rest_bytes(1) [OF m, symmetric]
      by (simp add: base64urlDecodeImpl_def length_b64_mod loop)
  next
    assume m: "length bs mod 3 = 2"
    show ?thesis
      using m l app unfolding b64_rest_bytes(2) [OF m, symmetric]
      by (simp add: base64urlDecodeImpl_def length_b64_mod loop)
  qed
  then show ?thesis by (simp add: base64urlDecode_def)
qed

lemma memSet_rest:
  "k \<le> length buf \<Longrightarrow> memSet buf k 0 (length buf - k) = Inr (take k buf @ replicate (length buf - k) 0)"
  unfolding memSet_def by (subst put_all_overwrite) (simp_all add: overwrite_def)

section \<open>Arbitrary input\<close>

definition b64_text :: "string \<Rightarrow> bool" where
  "b64_text s \<longleftrightarrow> length s mod 4 \<noteq> 1 \<and> (\<forall>c \<in> set s. dec_char c \<noteq> None)"

lemma put_opt_ok:
  "n + length bs \<le> length buf \<Longrightarrow> \<exists>buf'. put_opt (Some buf) n bs = Inr (Some buf') \<and> length buf' = length buf"
  by (simp add: put_opt_def put_all_overwrite)

lemma decode_loop_safe:
  assumes "3 * ((i + length s) div 4) \<le> length buf"
  shows "\<exists>e val' n' buf'. decode_loop s i val (3 * (i div 4)) (Some buf) = Inr (e, val', n', Some buf') \<and>
    length buf' = length buf \<and> e \<noteq> ERROR_INVALID_LENGTH \<and>
    (e = NO_ERROR \<longleftrightarrow> (\<forall>c \<in> set s. dec_char c \<noteq> None)) \<and>
    (e = NO_ERROR \<longrightarrow> n' = 3 * ((i + length s) div 4))"
  using assms
proof (induction s arbitrary: i val buf)
  case Nil
  then show ?case by simp
next
  case (Cons ch s)
  show ?case
  proof (cases "dec_char ch")
    case None
    then show ?thesis by simp
  next
    case (Some v)
    let ?val = "push_bit 6 val OR ucast v"
    let ?bs = "[ucast (drop_bit 16 ?val AND 0xFF), ucast (drop_bit 8 ?val AND 0xFF), ucast (?val AND 0xFF)] :: byte list"
    show ?thesis
    proof (cases "i mod 4 = 3")
      case True
      then have d: "Suc i div 4 = Suc (i div 4)" by presburger
      have le: "Suc i div 4 \<le> (i + length (ch # s)) div 4" by (rule div_le_mono) simp
      have "3 * (i div 4) + length ?bs \<le> length buf" using Cons.prems le d by simp
      then obtain buf' where p: "put_opt (Some buf) (3 * (i div 4)) ?bs = Inr (Some buf')"
        and len: "length buf' = length buf" using put_opt_ok by blast
      have eq: "decode_loop (ch # s) i val (3 * (i div 4)) (Some buf) =
          decode_loop s (Suc i) 0 (3 * (Suc i div 4)) (Some buf')"
        using Some True p d by (simp add: Let_def add.commute)
      have "3 * ((Suc i + length s) div 4) \<le> length buf'" using Cons.prems len by simp
      from Cons.IH [OF this, of 0] show ?thesis unfolding eq using len Some by simp
    next
      case False
      then have d: "Suc i div 4 = i div 4" by presburger
      have eq: "decode_loop (ch # s) i val (3 * (i div 4)) (Some buf) =
          decode_loop s (Suc i) ?val (3 * (Suc i div 4)) (Some buf)"
        using Some False d by (simp add: Let_def)
      have "3 * ((Suc i + length s) div 4) \<le> length buf" using Cons.prems by simp
      from Cons.IH [OF this, of ?val] show ?thesis unfolding eq using Some by simp
    qed
  qed
qed

lemma base64urlDecode_safe:
  assumes "base64DecodeLen (length s) \<le> length buf"
  shows "if b64_text s
    then \<exists>buf'. base64urlDecode s (Some buf) = Inr (base64DecodeLen (length s), Some buf') \<and> length buf' = length buf
    else base64urlDecode s (Some buf) = Inl Invalid_argument"
proof (cases "length s mod 4 = 1")
  case True
  then show ?thesis by (simp add: b64_text_def base64urlDecode_def base64urlDecodeImpl_def)
next
  case False
  let ?k = "3 * (length s div 4)"
  have m: "length s mod 4 = 0 \<or> length s mod 4 = 2 \<or> length s mod 4 = 3" using False by presburger
  then have k: "base64DecodeLen (length s) = ?k + (if length s mod 4 = 0 then 0 else length s mod 4 - 1)"
    by (elim disjE) (simp_all add: base64DecodeLen_def)
  then have "3 * ((0 + length s) div 4) \<le> length buf" using assms by simp
  from decode_loop_safe [OF this, of 0, unfolded div_0 mult_0_right add_0] obtain e val n buf1 where
    loop: "decode_loop s 0 0 0 (Some buf) = Inr (e, val, n, Some buf1)" and len: "length buf1 = length buf"
    and e: "e = NO_ERROR \<longleftrightarrow> (\<forall>c \<in> set s. dec_char c \<noteq> None)" "e = NO_ERROR \<longrightarrow> n = ?k"
    by blast
  show ?thesis
  proof (cases "e = NO_ERROR")
    case False
    then have "base64urlDecode s (Some buf) = Inl Invalid_argument"
      using m loop by (auto simp: base64urlDecode_def base64urlDecodeImpl_def)
    then show ?thesis using False e(1) by (simp add: b64_text_def)
  next
    case True
    then have n: "n = ?k" and t: "b64_text s" using e False by (simp_all add: b64_text_def)
    note ok = put_opt_ok [of ?k _ buf1]
    have "\<exists>buf'. base64urlDecode s (Some buf) = Inr (base64DecodeLen (length s), Some buf') \<and> length buf' = length buf"
      using m
    proof (elim disjE)
      assume "length s mod 4 = 0"
      then show ?thesis using loop True n k len by (simp add: base64urlDecode_def base64urlDecodeImpl_def)
    next
      assume m2: "length s mod 4 = 2"
      then show ?thesis
        using loop True n k len assms ok [of "[ucast (drop_bit 4 val AND 0xFF)]"]
        by (auto simp: base64urlDecode_def base64urlDecodeImpl_def)
    next
      assume m3: "length s mod 4 = 3"
      then show ?thesis
        using loop True n k len assms ok [of "[ucast (drop_bit 10 val AND 0xFF), ucast (drop_bit 2 val AND 0xFF)]"]
        by (auto simp: base64urlDecode_def base64urlDecodeImpl_def)
    qed
    then show ?thesis using t by simp
  qed
qed

section \<open>The properties\<close>

text \<open>C39: Reading the base64url text of an array gives the array back, in a longer array followed by
  zeros; the text has the length the reader computes, and no write leaves a buffer.\<close>

theorem base64_roundtrip:
  assumes "length content \<le> sizeValue"
  shows "\<exists>s. toBase64 content = Inr s \<and> base64DecodeLen (length s) = length content \<and>
    StaticArray sizeValue s = Inr (content @ replicate (sizeValue - length content) 0)"
proof (intro exI conjI)
  let ?s = "b64 content" and ?zero = "replicate sizeValue 0 :: byte list"
  show "toBase64 content = Inr ?s" by (simp add: toBase64_def base64urlEncode_b64)
  show l: "base64DecodeLen (length ?s) = length content" by (rule length_b64_mod)
  have "length (overwrite 0 content ?zero) = sizeValue" using assms by simp
  then have "memSet (overwrite 0 content ?zero) (length content) 0 (sizeValue - length content) =
      Inr (take (length content) (overwrite 0 content ?zero) @ replicate (sizeValue - length content) 0)"
    using memSet_rest [of "length content" "overwrite 0 content ?zero"] assms by (simp only:)
  then show "StaticArray sizeValue ?s = Inr (content @ replicate (sizeValue - length content) 0)"
    using assms l base64urlDecode_b64 [of content ?zero] by (simp add: StaticArray_def overwrite_def)
qed

theorem base64_roundtrip_witness:
  "\<exists>s. toBase64 [0xde, 0xad, 0xbe, 0xef, 0x01] = Inr s \<and> base64DecodeLen (length s) = length [0xde, 0xad, 0xbe, 0xef, 0x01 :: byte] \<and>
    StaticArray 8 s = Inr ([0xde, 0xad, 0xbe, 0xef, 0x01] @ replicate (8 - length [0xde, 0xad, 0xbe, 0xef, 0x01 :: byte]) 0)"
  by (rule base64_roundtrip) simp

text \<open>An array is read from a text exactly when the decoded bytes fit into it, the length is one an
  encoder can produce and every character belongs to the alphabet. Every other text is refused with an
  exception, and no input makes the decoder write outside the array.\<close>

theorem base64_reader_total:
  "if base64DecodeLen (length s) > sizeValue then StaticArray sizeValue s = Inl Out_of_range
   else if \<not> b64_text s then StaticArray sizeValue s = Inl Invalid_argument
   else \<exists>a. StaticArray sizeValue s = Inr a \<and> length a = sizeValue"
proof (cases "base64DecodeLen (length s) > sizeValue")
  case True
  then show ?thesis by (simp add: StaticArray_def)
next
  case False
  let ?zero = "replicate sizeValue 0 :: byte list"
  have safe: "if b64_text s
    then \<exists>buf'. base64urlDecode s (Some ?zero) = Inr (base64DecodeLen (length s), Some buf') \<and> length buf' = sizeValue
    else base64urlDecode s (Some ?zero) = Inl Invalid_argument"
  proof -
    have "base64DecodeLen (length s) \<le> length ?zero" using False by simp
    from base64urlDecode_safe [OF this] show ?thesis by (simp only: length_replicate)
  qed
  show ?thesis
  proof (cases "b64_text s")
    case True
    then obtain buf' where "base64urlDecode s (Some ?zero) = Inr (base64DecodeLen (length s), Some buf')"
      and l: "length buf' = sizeValue" using safe by auto
    moreover have "memSet buf' (base64DecodeLen (length s)) 0 (sizeValue - base64DecodeLen (length s)) =
        Inr (take (base64DecodeLen (length s)) buf' @ replicate (sizeValue - base64DecodeLen (length s)) 0)"
      using memSet_rest [of "base64DecodeLen (length s)" buf'] False l by simp
    ultimately show ?thesis using True False by (simp add: StaticArray_def)
  next
    case False
    then show ?thesis using safe by (simp add: StaticArray_def)
  qed
qed

end
