(* ===== verification/Text_Buffer.thy ===== *)
theory Text_Buffer
  imports Base64 Identifiers
begin

text \<open>
  The strings of smart contracts, \<^verbatim>\<open>src/ascee/argc/StringBuffer.h\<close>, \<^verbatim>\<open>StringBuffer.cpp\<close> and
  \<^verbatim>\<open>functions/string.cpp\<close>: views that are searched for patterns, and buffers of a fixed size that
  grow by appending; and the status codes and the text of an error response,
  \<^verbatim>\<open>src/ascee/argc/types.h\<close> and \<^verbatim>\<open>src/ascee/executor/Executor.h\<close>. A view is the list of its
  characters and a buffer the list of the characters before its end. Integers are unbounded, the
  conversions to \<^verbatim>\<open>int\<close> and \<^verbatim>\<open>size_t\<close> are written out. Text of floating point numbers is not modelled.
\<close>

section \<open>String views\<close>

definition INT_MAX :: int where
  "INT_MAX = 2 ^ 31 - 1"

definition to_int32 :: "int \<Rightarrow> int" where
  "to_int32 i = (i + 2 ^ 31) mod 2 ^ 32 - 2 ^ 31"

definition to_int16 :: "int \<Rightarrow> int" where
  "to_int16 i = (i + 2 ^ 15) mod 2 ^ 16 - 2 ^ 15"

definition to_size_t :: "int \<Rightarrow> nat" where
  "to_size_t i = nat (i mod 2 ^ 64)"

definition sv_size :: "string \<Rightarrow> int result" where
  "sv_size view = (if int (length view) > INT_MAX then Inl Runtime_error else Inr (int (length view)))"

text \<open>\<^verbatim>\<open>std::string_view::find\<close>: the first place at or behind \<open>pos\<close>.\<close>

fun find_in :: "string \<Rightarrow> string \<Rightarrow> nat option" where
  "find_in pat [] = (if pat = [] then Some 0 else None)"
| "find_in pat (c # cs) =
    (if take (length pat) (c # cs) = pat then Some 0 else map_option Suc (find_in pat cs))"

definition sv_find :: "string \<Rightarrow> string \<Rightarrow> nat \<Rightarrow> nat option" where
  "sv_find view pat pos =
    (if pos > length view then None else map_option (\<lambda>i. i + pos) (find_in pat (drop pos view)))"

text \<open>\<^verbatim>\<open>matchPattern\<close> with the parser of its result type: the outcome, and the place that \<open>pos\<close> has then.\<close>

definition matchPattern :: "(string \<Rightarrow> 'a result) \<Rightarrow> string \<Rightarrow> string \<Rightarrow> string \<Rightarrow> int \<Rightarrow> 'a result \<times> int" where
  "matchPattern parse view start stop pos =
    (case sv_find view start (to_size_t pos) of
       None \<Rightarrow> (Inl Invalid_argument, pos)
     | Some foundPos \<Rightarrow>
         (case sv_size start of
            Inl e \<Rightarrow> (Inl e, pos)
          | Inr startSize \<Rightarrow>
              (let startPos = foundPos + nat startSize
               in case sv_find view stop startPos of
                    None \<Rightarrow> (Inl Invalid_argument, pos)
                  | Some foundEnd \<Rightarrow>
                      (case sv_size stop of
                         Inl e \<Rightarrow> (Inl e, pos)
                       | Inr stopSize \<Rightarrow>
                           (parse (take (foundEnd - startPos) (drop startPos view)),
                            to_int32 (int foundEnd + stopSize))))))"

definition max_num64_length :: nat where
  "max_num64_length = 32"

definition parse_int64 :: "string \<Rightarrow> int result" where
  "parse_int64 str = bind_result (stoll (take max_num64_length str)) (\<lambda>(i, _). Inr i)"

definition parse_long_id :: "string \<Rightarrow> uint64 result" where
  "parse_long_id str = uncheckedParse str"

section \<open>Scanning in contracts\<close>

definition bad_request :: nat where
  "bad_request = 400"

definition argc_p_scan :: "(string \<Rightarrow> 'a result) \<Rightarrow> string \<Rightarrow> string \<Rightarrow> string \<Rightarrow> int \<Rightarrow> 'a result \<times> int" where
  "argc_p_scan parse str start stop pos =
    (case matchPattern parse str start stop pos of
       (Inr v, pos') \<Rightarrow> (Inr v, pos')
     | (Inl e, pos') \<Rightarrow>
         (Inl (if e = Undefined_behaviour \<or> e = Assert_failed then e else Ascee_error bad_request), pos'))"

definition signature_size_k :: nat where
  "signature_size_k = 65"

definition public_key_size_k :: nat where
  "public_key_size_k = 65"

definition p_scan_sig :: "string \<Rightarrow> string \<Rightarrow> string \<Rightarrow> int \<Rightarrow> byte list result \<times> int" where
  "p_scan_sig = argc_p_scan (StaticArray signature_size_k)"

definition p_scan_pk :: "string \<Rightarrow> string \<Rightarrow> string \<Rightarrow> int \<Rightarrow> byte list result \<times> int" where
  "p_scan_pk = argc_p_scan (StaticArray public_key_size_k)"

definition p_scan_int64 :: "string \<Rightarrow> string \<Rightarrow> string \<Rightarrow> int \<Rightarrow> int result \<times> int" where
  "p_scan_int64 = argc_p_scan parse_int64"

definition p_scan_int16 :: "string \<Rightarrow> string \<Rightarrow> string \<Rightarrow> int \<Rightarrow> int result \<times> int" where
  "p_scan_int16 str start stop pos =
    (case argc_p_scan parse_int64 str start stop pos of
       (r, pos') \<Rightarrow> (bind_result r (\<lambda>i. Inr (to_int16 i)), pos'))"

definition p_scan_long_id :: "string \<Rightarrow> string \<Rightarrow> string \<Rightarrow> int \<Rightarrow> uint64 result \<times> int" where
  "p_scan_long_id = argc_p_scan parse_long_id"

definition p_scan_str :: "string \<Rightarrow> string \<Rightarrow> string \<Rightarrow> int \<Rightarrow> string result \<times> int" where
  "p_scan_str = argc_p_scan Inr"

text \<open>\<^verbatim>\<open>scan\<close>: what is left of the view and of the pattern when the loop ends.\<close>

function scan_loop :: "string \<Rightarrow> string \<Rightarrow> string \<times> string" where
  "scan_loop [] pat = ([], pat)"
| "scan_loop (v # vs) [] = (v # vs, [])"
| "scan_loop (v # vs) (p # ps) =
    (if \<not> is_space v then
       (if is_space p then scan_loop (v # vs) ps
        else if v = p then scan_loop vs ps
        else (v # vs, p # ps))
     else if is_space p then
       (if v = p then scan_loop vs (p # ps) else scan_loop (v # vs) ps)
     else (v # vs, p # ps))"
  by pat_completeness auto
termination
  by (relation "measure (\<lambda>(vs, ps). length vs + length ps)") auto

text \<open>\<^verbatim>\<open>scan_int64\<close>: the rest of the view and the output.\<close>

definition scan_int64 :: "string \<Rightarrow> string \<Rightarrow> (string \<times> int) result" where
  "scan_int64 input pattern =
    (case scan_loop input pattern of
       (vs, ps) \<Rightarrow>
         if vs = [] \<or> ps \<noteq> [] then Inr ([], 0)
         else (case stoll (take 32 vs) of
                 Inl Invalid_argument \<Rightarrow> Inr ([], 0)
               | Inl e \<Rightarrow> Inl e
               | Inr (v, pos) \<Rightarrow> Inr (drop pos vs, v)))"

section \<open>Buffers\<close>

definition buffer_append :: "int \<Rightarrow> string \<Rightarrow> string \<Rightarrow> string result" where
  "buffer_append maxSize buf str =
    bind_result (sv_size str) (\<lambda>n.
      if int (length buf) + n > INT_MAX then Inl Undefined_behaviour
      else if maxSize < int (length buf) + n then Inl Out_of_range
      else Inr (buf @ str))"

definition put_number :: "int \<Rightarrow> string \<Rightarrow> uint64 \<Rightarrow> string result" where
  "put_number maxSize buf v = buffer_append maxSize buf (to_string (unat v))"

definition put_id :: "int \<Rightarrow> string \<Rightarrow> uint64 \<Rightarrow> string result" where
  "put_id maxSize buf v = buffer_append maxSize buf (LongID_string v)"

definition append_int64 :: "int \<Rightarrow> string \<Rightarrow> int \<Rightarrow> string result" where
  "append_int64 maxSize buf i = buffer_append maxSize buf (to_string_int i)"

definition append_long_id :: "int \<Rightarrow> string \<Rightarrow> uint64 \<Rightarrow> string result" where
  "append_long_id maxSize buf i = buffer_append maxSize buf (LongID_string i)"

definition append_str :: "int \<Rightarrow> string \<Rightarrow> string \<Rightarrow> string result" where
  "append_str maxSize buf str = buffer_append maxSize buf str"

definition clear_buffer :: "string \<Rightarrow> string" where
  "clear_buffer buf = []"

definition buf_to_string :: "string \<Rightarrow> string" where
  "buf_to_string buf = buf"

fun append_all :: "int \<Rightarrow> string \<Rightarrow> string list \<Rightarrow> string result" where
  "append_all maxSize buf [] = Inr buf"
| "append_all maxSize buf (s # ss) = bind_result (buffer_append maxSize buf s) (\<lambda>b. append_all maxSize b ss)"

section \<open>Error responses\<close>

definition gReasonByStatusCode :: "nat \<Rightarrow> string" where
  "gReasonByStatusCode code =
    (if code = 400 then ''Bad Request''
     else if code = 404 then ''Not Found''
     else if code = 420 then ''Declared Limits Violated''
     else if code = 421 then ''Execution Timeout''
     else if code = 500 then ''Internal Error''
     else if code = 520 then ''Resource Limit Reached''
     else if code = 521 then ''Invalid Operation''
     else if code = 522 then ''Arithmetic Error''
     else if code = 523 then ''Reentrancy Attempt''
     else if code = 403 then ''Forbidden''
     else if code = 524 then ''Internal Memory Fault''
     else if code = 525 then ''Out of Range Access''
     else ''Unknown Reason'')"

definition CRLF :: string where
  "CRLF = [CHR 0x0D, CHR 0x0A]"

definition response_size :: int where
  "response_size = 8 * 1024"

definition toHttpResponse :: "nat \<Rightarrow> uint64 \<Rightarrow> string \<Rightarrow> string \<Rightarrow> string result" where
  "toHttpResponse code app message response =
    bind_result (append_all response_size response
      [''HTTP/1.1 '', to_string code, '' '', gReasonByStatusCode code, CRLF, ''Server: '']) (\<lambda>r1.
    bind_result (toDecimalStr app_trie_g app) (\<lambda>server.
      append_all response_size r1
        [server, CRLF, ''Content-Length: '', to_string (length message + 8), CRLF @ CRLF,
         ''Error: '', message, ''.'']))"


section \<open>Searching\<close>

lemma find_in_Some:
  "find_in pat s = Some i \<longleftrightarrow>
    i \<le> length s \<and> take (length pat) (drop i s) = pat \<and> (\<forall>j < i. take (length pat) (drop j s) \<noteq> pat)"
proof (induction s arbitrary: i)
  case Nil
  then show ?case by auto
next
  case (Cons c cs)
  show ?case
  proof (cases "take (length pat) (c # cs) = pat")
    case True
    then show ?thesis by (cases i) auto
  next
    case False
    show ?thesis
    proof (cases i)
      case 0
      then show ?thesis using False by auto
    next
      case (Suc k)
      have "(\<forall>j < Suc k. take (length pat) (drop j (c # cs)) \<noteq> pat) \<longleftrightarrow>
          (\<forall>j < k. take (length pat) (drop j cs) \<noteq> pat)"
        using False by (auto simp: less_Suc_eq_0_disj)
      then show ?thesis using False Cons.IH [of k] Suc by auto
    qed
  qed
qed

lemma sv_find_Some:
  "sv_find s pat p = Some i \<longleftrightarrow>
    p \<le> i \<and> i \<le> length s \<and> take (length pat) (drop i s) = pat \<and>
    (\<forall>j. p \<le> j \<longrightarrow> j < i \<longrightarrow> take (length pat) (drop j s) \<noteq> pat)"
proof -
  have shift: "(\<forall>j < k. take (length pat) (drop j (drop p s)) \<noteq> pat) \<longleftrightarrow>
      (\<forall>j. p \<le> j \<longrightarrow> j < k + p \<longrightarrow> take (length pat) (drop j s) \<noteq> pat)" for k
    by (auto simp: add.commute) (metis add.commute le_add_diff_inverse less_diff_conv2)
  show ?thesis
  proof (cases "p \<le> length s \<and> p \<le> i")
    case True
    then have "sv_find s pat p = Some i \<longleftrightarrow> find_in pat (drop p s) = Some (i - p)"
      by (auto simp: sv_find_def)
    also have "\<dots> \<longleftrightarrow> i - p \<le> length (drop p s) \<and> take (length pat) (drop (i - p) (drop p s)) = pat \<and>
        (\<forall>j < i - p. take (length pat) (drop j (drop p s)) \<noteq> pat)"
      by (rule find_in_Some)
    also have "\<dots> \<longleftrightarrow> i \<le> length s \<and> take (length pat) (drop i s) = pat \<and>
        (\<forall>j. p \<le> j \<longrightarrow> j < i \<longrightarrow> take (length pat) (drop j s) \<noteq> pat)"
      unfolding shift using True by auto
    finally show ?thesis using True by blast
  next
    case False
    then show ?thesis by (auto simp: sv_find_def)
  qed
qed

lemma find_after_clean:
  assumes "stop \<noteq> []" "\<forall>c \<in> set mid. c \<noteq> hd stop"
  shows "sv_find (pre @ mid @ stop @ rest) stop (length pre) = Some (length pre + length mid)"
proof -
  have "take (length stop) (drop j (pre @ mid @ stop @ rest)) \<noteq> stop"
    if "length pre \<le> j" "j < length pre + length mid" for j
  proof
    assume eq: "take (length stop) (drop j (pre @ mid @ stop @ rest)) = stop"
    let ?k = "j - length pre"
    have "drop j (pre @ mid @ stop @ rest) = drop ?k mid @ stop @ rest" using that by simp
    moreover have "drop ?k mid = mid ! ?k # drop (Suc ?k) mid"
      using that by (simp add: Cons_nth_drop_Suc)
    ultimately have "take (length stop) (mid ! ?k # drop (Suc ?k) mid @ stop @ rest) = stop"
      using eq by simp
    then have "hd stop = mid ! ?k" using assms(1) by (cases stop) auto
    then show False using assms(2) that by (metis add_diff_inverse_nat nat_add_left_cancel_less not_le nth_mem)
  qed
  then show ?thesis by (simp add: sv_find_Some)
qed

section \<open>Printed numbers\<close>

lemma digits_of_length: "n < 10 ^ Suc k \<Longrightarrow> length (digits_of 10 n) \<le> Suc k"
proof (induction k arbitrary: n)
  case 0
  then show ?case by (simp add: digits_of_small)
next
  case (Suc k)
  show ?case
  proof (cases "n < 10")
    case True
    then show ?thesis by (simp add: digits_of_small)
  next
    case False
    then have "n div 10 < 10 ^ Suc k" using Suc.prems by (simp add: div_less_iff_less_mult)
    from Suc.IH [OF this] show ?thesis using False by (simp add: digits_of_big)
  qed
qed

lemma length_int64:
  assumes "- (2 ^ 63) \<le> i" "i < 2 ^ 63" shows "length (to_string_int i) \<le> 32"
proof -
  have "nat i < 10 ^ Suc 18" "nat (- i) < 10 ^ Suc 18" using assms by auto
  from this [THEN digits_of_length] show ?thesis by (auto simp: to_string_int_def to_string_def)
qed

lemma to_string_int_chars:
  "c \<in> set (to_string_int i) \<Longrightarrow> c = CHR ''-'' \<or> digit_val c \<noteq> None"
proof -
  have "c \<in> set (to_string n) \<Longrightarrow> digit_val c \<noteq> None" for n
    using digits_of_digits [of 10 n] by (fastforce simp: to_string_def)
  then show "c \<in> set (to_string_int i) \<Longrightarrow> c = CHR ''-'' \<or> digit_val c \<noteq> None"
    by (auto simp: to_string_int_def split: if_splits)
qed

lemma parse_int64_printed:
  assumes "- (2 ^ 63) \<le> i" "i < 2 ^ 63" shows "parse_int64 (to_string_int i) = Inr i"
  using stoll_to_string_int [OF number_end_Nil assms] length_int64 [OF assms]
  by (simp add: parse_int64_def max_num64_length_def)

section \<open>Appending\<close>

lemma buffer_append_Inr:
  "buffer_append maxSize buf str = Inr buf' \<longleftrightarrow>
    buf' = buf @ str \<and> int (length buf + length str) \<le> maxSize \<and> int (length buf + length str) \<le> INT_MAX"
  by (auto simp: buffer_append_def bind_result_Inr_iff sv_size_def split: if_splits)

section \<open>The property\<close>

text \<open>C40: A number appended to a buffer between two patterns is read back when the buffer is scanned
  for them, and the scan goes on behind the second pattern; read as a 16-bit number it is truncated
  without an error. (The second pattern starts with neither a digit nor a letter nor a minus sign.)\<close>

theorem number_roundtrip:
  assumes "append_str maxSize pre start = Inr b1" "append_int64 maxSize b1 i = Inr b2"
    and "append_str maxSize b2 stop = Inr buf"
    and "- (2 ^ 63) \<le> i" "i < 2 ^ 63"
    and "sv_find buf start (to_size_t pos) = Some (length pre)"
    and "stop \<noteq> []" "number_end stop" "hd stop \<noteq> CHR ''-''"
  shows "p_scan_int64 (buf_to_string buf) start stop pos = (Inr i, int (length buf)) \<and>
    p_scan_int16 (buf_to_string buf) start stop pos = (Inr (to_int16 i), int (length buf))"
proof -
  let ?d = "to_string_int i"
  have buf: "buf = (pre @ start) @ ?d @ stop @ []" and len: "int (length buf) \<le> INT_MAX"
    using assms(1-3) by (auto simp: append_str_def append_int64_def buffer_append_Inr)
  have "\<forall>c \<in> set ?d. c \<noteq> hd stop"
    using to_string_int_chars assms(7-9) by (fastforce simp: number_end_def)
  from find_after_clean [OF assms(7) this, of "pre @ start" "[]"]
  have stop_at: "sv_find buf stop (length pre + length start) = Some (length pre + length start + length ?d)"
    unfolding buf by (simp only: length_append)
  have sizes: "sv_size start = Inr (int (length start))" "sv_size stop = Inr (int (length stop))"
    using len buf by (simp_all add: sv_size_def)
  have cut: "take (length ?d) (drop (length pre + length start) buf) = ?d" unfolding buf by simp
  have end_pos: "to_int32 (int (length pre + length start + length ?d) + int (length stop)) = int (length buf)"
    using len unfolding buf by (simp add: to_int32_def INT_MAX_def)
  have "matchPattern parse_int64 buf start stop pos = (Inr i, int (length buf))"
    using assms(6) sizes stop_at cut end_pos parse_int64_printed [OF assms(4,5)]
    by (simp add: matchPattern_def Let_def add.assoc)
  then show ?thesis by (simp add: p_scan_int64_def p_scan_int16_def argc_p_scan_def buf_to_string_def)
qed

theorem number_roundtrip_witness:
  "p_scan_int64 (buf_to_string ''{amount:-70,'') ''amount:'' '','' 0 = (Inr (-70), int (length ''{amount:-70,'')) \<and>
   p_scan_int16 (buf_to_string ''{amount:-70,'') ''amount:'' '','' 0 =
     (Inr (to_int16 (-70)), int (length ''{amount:-70,''))"
proof (rule number_roundtrip)
  show "append_str 40 ''{'' ''amount:'' = Inr ''{amount:''" by code_simp
  show "append_int64 40 ''{amount:'' (-70) = Inr ''{amount:-70''" by code_simp
  show "append_str 40 ''{amount:-70'' '','' = Inr ''{amount:-70,''" by code_simp
  show "sv_find ''{amount:-70,'' ''amount:'' (to_size_t 0) = Some (length ''{'')" by code_simp
  show "number_end '',''" "hd '','' \<noteq> CHR ''-''" by code_simp+
qed simp_all

end
