(* ===== verification/Session.thy ===== *)
theory Session
  imports Modifier Text_Buffer
begin

text \<open>
  The state in which the calls of a request run, \<^verbatim>\<open>Executor::SessionInfo\<close> with the managers it
  refers to (\<^verbatim>\<open>FailureManager\<close>, \<^verbatim>\<open>VirtualSignatureManager\<close>), and the functions of
  \<^verbatim>\<open>src/ascee/argc/functions\<close> that contracts call.

  The session is threaded through every function. A function ends by returning, by throwing an
  exception, by a signal that jumps back to the \<^verbatim>\<open>sigsetjmp\<close> of the running call, or by stopping the
  process (\<^verbatim>\<open>std::terminate\<close>, a failed assertion), undefined behaviour included. The chain of
  \<^verbatim>\<open>CallContext\<close> objects behind \<^verbatim>\<open>currentCall\<close> is a list whose head is the current one; so is the
  chain of \<^verbatim>\<open>CallResourceHandler\<close> objects, in which an object whose construction has failed after
  \<^verbatim>\<open>currentResources\<close> was set to it stays as a dead entry.
\<close>

section \<open>The failure manager\<close>

record failure_manager =
  fm_stackFailures :: "int list"
  fm_cpuTimeFailures :: "int list"
  fm_callDepth :: int
  fm_lastGeneratedID :: int

definition MAX_CALL_DEPTH :: int where
  "MAX_CALL_DEPTH = 16"

definition FailureManager :: "int list \<Rightarrow> int list \<Rightarrow> failure_manager" where
  "FailureManager stackFailures cpuTimeFailures =
    \<lparr>fm_stackFailures = stackFailures, fm_cpuTimeFailures = cpuTimeFailures,
     fm_callDepth = 0, fm_lastGeneratedID = 0\<rparr>"

definition nextInvocation :: "failure_manager \<Rightarrow> int \<times> failure_manager" where
  "nextInvocation fm =
    (fm_lastGeneratedID fm + 1,
     fm\<lparr>fm_lastGeneratedID := fm_lastGeneratedID fm + 1, fm_callDepth := fm_callDepth fm + 1\<rparr>)"

definition completeInvocation :: "failure_manager \<Rightarrow> failure_manager" where
  "completeInvocation fm = fm\<lparr>fm_callDepth := fm_callDepth fm - 1\<rparr>"

definition getExecTime :: "failure_manager \<Rightarrow> int \<Rightarrow> int \<Rightarrow> int" where
  "getExecTime fm ident gas = (if ident \<in> set (fm_cpuTimeFailures fm) then 150000 * gas else 300000 * gas)"

definition getStackSize :: "failure_manager \<Rightarrow> int \<Rightarrow> int result" where
  "getStackSize fm ident =
    (if fm_callDepth fm > MAX_CALL_DEPTH then Inl (Ascee_error limit_exceeded)
     else if ident \<in> set (fm_stackFailures fm) then Inr (1024 * 1024)
     else Inr (2 * 1024 * 1024))"

section \<open>Virtual signatures\<close>

record signed_message =
  sm_issuer :: uint64
  sm_message :: string

record sig_manager =
  sg_cost :: uint64
  sg_messages :: "signed_message list"

definition SIG_CONSTANT_COST :: uint64 where
  "SIG_CONSTANT_COST = 8"

definition MAX_COST :: uint64 where
  "MAX_COST = 128 * 1024"

definition VirtualSignatureManager :: "signed_message list \<Rightarrow> sig_manager" where
  "VirtualSignatureManager messages = \<lparr>sg_cost = 0, sg_messages = messages\<rparr>"

definition sign :: "sig_manager \<Rightarrow> string \<Rightarrow> uint64 \<Rightarrow> int result \<times> sig_manager" where
  "sign sm msg issuer =
    (let sm1 = sm\<lparr>sg_cost := sg_cost sm + (word_of_nat (length msg) + SIG_CONSTANT_COST)\<rparr>
     in if sg_cost sm1 > MAX_COST then (Inl (Ascee_error limit_exceeded), sm1)
        else (Inr (int (length (sg_messages sm))),
              sm1\<lparr>sg_messages := sg_messages sm @ [\<lparr>sm_issuer = issuer, sm_message = msg\<rparr>]\<rparr>))"

definition verify :: "sig_manager \<Rightarrow> string \<Rightarrow> uint64 \<Rightarrow> int \<Rightarrow> bool" where
  "verify sm msg issuer index =
    (let i = to_size_t index
     in i < length (sg_messages sm) \<and>
        sm_message (sg_messages sm ! i) = msg \<and> sm_issuer (sg_messages sm ! i) = issuer)"

definition verifyAndInvalidate :: "sig_manager \<Rightarrow> string \<Rightarrow> uint64 \<Rightarrow> int \<Rightarrow> bool \<times> sig_manager" where
  "verifyAndInvalidate sm msg issuer index =
    (if verify sm msg issuer index then
       (True,
        sm\<lparr>sg_messages := (sg_messages sm)[to_size_t index := (sg_messages sm ! to_size_t index)\<lparr>sm_message := []\<rparr>],
           sg_cost := sg_cost sm - (word_of_nat (length msg) + SIG_CONSTANT_COST)\<rparr>)
     else (False, sm))"

section \<open>Outcomes\<close>

text \<open>\<^verbatim>\<open>Executor::Error\<close> with its status, application and message, another \<^verbatim>\<open>AsceeError\<close>, or an
  exception of the standard library.\<close>

datatype call_exn =
    Executor_error nat uint64 string
  | Ascee_exn nat string
  | Std_exn exn

datatype signal = SIGSEGV | SIGUSR1 | SIGFPE | SIGILL | SIGBUS

datatype halt = Terminated | Undefined | Out_of_fuel

datatype 'a outcome =
    Returned 'a
  | Thrown call_exn
  | Signalled signal
  | Stopped halt

record call_context =
  cc_appID :: uint64
  cc_hasLock :: bool
  cc_deferredCalls :: "(uint64 \<times> string) list"

record call_resources =
  cr_id :: int
  cr_caller :: uint64
  cr_gas :: int
  cr_remainingExternalGas :: int
  cr_heapVersion :: int
  cr_alive :: bool

record session =
  ss_controlled :: bool
  ss_guardedArea :: bool
  ss_modifier :: modifier
  ss_failureManager :: failure_manager
  ss_isLocked :: "uint64 \<Rightarrow> bool"
  ss_sigManager :: sig_manager
  ss_calls :: "call_context list"
  ss_resources :: "call_resources list"

type_synonym 'a act = "session \<Rightarrow> 'a outcome \<times> session"

section \<open>Sequencing\<close>

definition ret :: "'a \<Rightarrow> 'a act" where
  "ret x s = (Returned x, s)"

definition throw :: "call_exn \<Rightarrow> 'a act" where
  "throw e s = (Thrown e, s)"

definition stop :: "halt \<Rightarrow> 'a act" where
  "stop h s = (Stopped h, s)"

definition modify :: "(session \<Rightarrow> session) \<Rightarrow> unit act" where
  "modify f s = (Returned (), f s)"

definition bind_act :: "'a act \<Rightarrow> ('a \<Rightarrow> 'b act) \<Rightarrow> 'b act" where
  "bind_act m f s =
    (case m s of
       (Returned x, s') \<Rightarrow> f x s'
     | (Thrown e, s') \<Rightarrow> (Thrown e, s')
     | (Signalled g, s') \<Rightarrow> (Signalled g, s')
     | (Stopped h, s') \<Rightarrow> (Stopped h, s'))"

text \<open>A local object of a function: its destructor \<open>d\<close> runs when the body returns or throws; it gets
  the result of the body, if there is one. An exception that leaves a destructor ends the process.\<close>

definition with_destructor :: "'a act \<Rightarrow> ('a option \<Rightarrow> unit act) \<Rightarrow> 'a act" where
  "with_destructor m d s =
    (let close = (\<lambda>r x s1. case d x s1 of
                    (Returned _, s2) \<Rightarrow> (r, s2)
                  | (Stopped h, s2) \<Rightarrow> (Stopped h, s2)
                  | (_, s2) \<Rightarrow> (Stopped Terminated, s2))
     in case m s of
          (Returned x, s1) \<Rightarrow> close (Returned x) (Some x) s1
        | (Thrown e, s1) \<Rightarrow> close (Thrown e) None s1
        | (Signalled g, s1) \<Rightarrow> (Signalled g, s1)
        | (Stopped h, s1) \<Rightarrow> (Stopped h, s1))"

definition catch :: "'a act \<Rightarrow> (call_exn \<Rightarrow> 'a act) \<Rightarrow> 'a act" where
  "catch m f s = (case m s of (Thrown e, s') \<Rightarrow> f e s' | r \<Rightarrow> r)"

definition lift_result :: "'a result \<Rightarrow> 'a act" where
  "lift_result r =
    (case r of
       Inr x \<Rightarrow> ret x
     | Inl Undefined_behaviour \<Rightarrow> stop Undefined
     | Inl Assert_failed \<Rightarrow> stop Terminated
     | Inl e \<Rightarrow> throw (Std_exn e))"

definition on_modifier :: "(modifier \<Rightarrow> ('a \<times> modifier) result) \<Rightarrow> 'a act" where
  "on_modifier f s =
    bind_act (lift_result (f (ss_modifier s))) (\<lambda>(x, md) s'. (Returned x, s'\<lparr>ss_modifier := md\<rparr>)) s"

definition on_modifier_only :: "(modifier \<Rightarrow> modifier result) \<Rightarrow> unit act" where
  "on_modifier_only f = on_modifier (\<lambda>md. bind_result (f md) (\<lambda>md'. Inr ((), md')))"

text \<open>\<^verbatim>\<open>session->currentCall\<close> dereferenced.\<close>

definition current_call :: "call_context act" where
  "current_call s = (case ss_calls s of [] \<Rightarrow> (Stopped Undefined, s) | c # _ \<Rightarrow> (Returned c, s))"

definition set_current_call :: "(call_context \<Rightarrow> call_context) \<Rightarrow> unit act" where
  "set_current_call f s =
    (case ss_calls s of [] \<Rightarrow> (Stopped Undefined, s) | c # cs \<Rightarrow> (Returned (), s\<lparr>ss_calls := f c # cs\<rparr>))"

text \<open>\<^verbatim>\<open>throw Executor::Error(msg, code)\<close>: the application is the current one.\<close>

definition throw_error :: "nat \<Rightarrow> string \<Rightarrow> 'a act" where
  "throw_error code msg = bind_act current_call (\<lambda>c. throw (Executor_error code (cc_appID c) msg))"

text \<open>The guarded area; the functions of the optimistic caller do nothing.\<close>

definition controlled_guardArea :: "unit act" where
  "controlled_guardArea = modify (\<lambda>s. s\<lparr>ss_guardedArea := True\<rparr>)"

definition controlled_unGuard :: "unit act" where
  "controlled_unGuard = modify (\<lambda>s. s\<lparr>ss_guardedArea := False\<rparr>)"

definition guardArea :: "unit act" where
  "guardArea s = (if ss_controlled s then controlled_guardArea s else (Returned (), s))"

definition unGuard :: "unit act" where
  "unGuard s = (if ss_controlled s then controlled_unGuard s else (Returned (), s))"

text \<open>An operation between \<^verbatim>\<open>guardArea()\<close> and \<^verbatim>\<open>unGuard()\<close>; an exception leaves the area guarded.\<close>

definition guarded :: "'a act \<Rightarrow> 'a act" where
  "guarded m = bind_act guardArea (\<lambda>_. bind_act m (\<lambda>x. bind_act unGuard (\<lambda>_. ret x)))"

section \<open>Access to the heap\<close>

definition to_uint32 :: "int \<Rightarrow> nat" where
  "to_uint32 i = nat (i mod 2 ^ 32)"

definition first_valid_acc :: uint64 where
  "first_valid_acc = 0x400000000000000"

definition load_int64 :: "heap \<Rightarrow> int \<Rightarrow> int act" where
  "load_int64 h offset =
    guarded (bind_act (on_modifier (\<lambda>md. modifier_load md h (to_uint32 offset) 0 8)) (\<lambda>bytes. ret (le_int bytes)))"

definition invalid :: "heap \<Rightarrow> int \<Rightarrow> int \<Rightarrow> bool act" where
  "invalid h offset sz =
    guarded (bind_act (on_modifier (\<lambda>md. isValid md h (to_uint32 offset) (to_uint32 sz))) (\<lambda>b. ret (\<not> b)))"

definition load_local_chunk :: "uint64 \<Rightarrow> unit act" where
  "load_local_chunk ident = on_modifier_only (\<lambda>md. loadLocalChunk md ident)"

definition load_account_chunk :: "uint64 \<Rightarrow> uint64 \<Rightarrow> unit act" where
  "load_account_chunk acc_id local_id =
    bind_act (if acc_id < first_valid_acc then throw_error 400 ''invalid account id'' else ret ()) (\<lambda>_.
      on_modifier_only (\<lambda>md. loadChunk md acc_id local_id))"

definition store_int64 :: "heap \<Rightarrow> int \<Rightarrow> int \<Rightarrow> unit act" where
  "store_int64 h offset v =
    guarded (on_modifier_only (\<lambda>md. modifier_store md h (to_uint32 offset) 0 (le_int_bytes 8 v)))"

definition store_int16 :: "heap \<Rightarrow> int \<Rightarrow> int \<Rightarrow> unit act" where
  "store_int16 h offset v =
    guarded (on_modifier_only (\<lambda>md. modifier_store md h (to_uint32 offset) 0 (le_int_bytes 2 v)))"

definition store_pk :: "heap \<Rightarrow> int \<Rightarrow> int \<Rightarrow> byte list \<Rightarrow> unit act" where
  "store_pk h offset index v =
    guarded (on_modifier_only (\<lambda>md. modifier_store md h (to_uint32 offset) (to_uint32 index) v))"

definition add_int64_to :: "heap \<Rightarrow> int \<Rightarrow> int \<Rightarrow> unit act" where
  "add_int64_to h offset amount =
    guarded (on_modifier_only (\<lambda>md. modifier_addInt md h (to_uint32 offset) 8 amount))"

definition resize_chunk :: "heap \<Rightarrow> int \<Rightarrow> unit act" where
  "resize_chunk h new_size = guarded (on_modifier_only (\<lambda>md. updateChunkSize md h (to_uint32 new_size)))"

definition get_chunk_size :: "heap \<Rightarrow> int act" where
  "get_chunk_size h = guarded (bind_act (on_modifier (\<lambda>md. getChunkSize md h)) (\<lambda>n. ret (to_int32 (int n))))"

section \<open>Entrance locks and deferred calls\<close>

definition enter_area :: "unit act" where
  "enter_area =
    bind_act current_call (\<lambda>c.
      if cc_hasLock c then ret ()
      else (\<lambda>s.
        if ss_isLocked s (cc_appID c) then throw_error 523 ''reentrancy is not allowed'' s
        else guarded (bind_act (modify (\<lambda>s. s\<lparr>ss_isLocked := (ss_isLocked s)(cc_appID c := True)\<rparr>)) (\<lambda>_.
               set_current_call (\<lambda>c. c\<lparr>cc_hasLock := True\<rparr>))) s))"

definition exit_area :: "unit act" where
  "exit_area =
    guarded (bind_act current_call (\<lambda>c.
      if cc_hasLock c then
        bind_act (modify (\<lambda>s. s\<lparr>ss_isLocked := (ss_isLocked s)(cc_appID c := False)\<rparr>)) (\<lambda>_.
          set_current_call (\<lambda>c. c\<lparr>cc_hasLock := False\<rparr>))
      else ret ()))"

definition invoke_deferred :: "uint64 \<Rightarrow> string \<Rightarrow> unit act" where
  "invoke_deferred app_id request =
    set_current_call (\<lambda>c. c\<lparr>cc_deferredCalls := cc_deferredCalls c @ [(app_id, request)]\<rparr>)"

definition revert :: "string \<Rightarrow> 'a act" where
  "revert msg = bind_act guardArea (\<lambda>_. throw_error 400 msg)"

section \<open>Authorisation by accounts\<close>

text \<open>
  \<^verbatim>\<open>functions/auth.cpp\<close>. An account is a chunk of the application \<open>arg_app_id_g\<close>; the first two bytes of
  its nonce chunk decide how it is owned. A message is a buffer passed by reference: the functions
  give back its content, and the place of the balance where they set it.
\<close>

definition nonce16_max :: nat where
  "nonce16_max = 65535"

definition arg_app_id_g :: uint64 where
  "arg_app_id_g = 0x100000000000000"

definition nonce_chunk_local_id_g :: uint64 where
  "nonce_chunk_local_id_g = 0"

definition nonce16_size_g :: nat where
  "nonce16_size_g = 2"

definition min_nonce_g :: nat where
  "min_nonce_g = 8"

definition decision_nonce_size_g :: nat where
  "decision_nonce_size_g = 2"

definition arg_balance_size_g :: nat where
  "arg_balance_size_g = 8"

definition message_size :: int where
  "message_size = 2 * 1024"

definition quoted :: "string \<Rightarrow> string" where
  "quoted s = CHR 0x22 # s @ [CHR 0x22]"

definition appendNonceToMsg :: "string \<Rightarrow> uint64 \<Rightarrow> nat \<Rightarrow> string result" where
  "appendNonceToMsg msg spender nonce =
    append_all message_size msg
      ['','' @ quoted ''forApp'' @ '':'', LongID_string spender, '','' @ quoted ''nonce'' @ '':'', to_string nonce, ''}'']"

definition appendSpenderToMsg :: "string \<Rightarrow> uint64 \<Rightarrow> string result" where
  "appendSpenderToMsg msg spender =
    append_all message_size msg ['','' @ quoted ''forApp'' @ '':'', LongID_string spender, ''}'']"

definition load_uint16 :: "heap \<Rightarrow> nat \<Rightarrow> nat act" where
  "load_uint16 h offset =
    bind_act (on_modifier (\<lambda>md. modifier_load md h offset 0 2)) (\<lambda>bytes. ret (le_value bytes))"

definition store_uint16 :: "heap \<Rightarrow> nat \<Rightarrow> nat \<Rightarrow> unit act" where
  "store_uint16 h offset v = on_modifier_only (\<lambda>md. modifier_store md h offset 0 (le_bytes 2 v))"

definition sig_verify :: "string \<Rightarrow> uint64 \<Rightarrow> int \<Rightarrow> bool act" where
  "sig_verify msg issuer index s = (Returned (verify (ss_sigManager s) msg issuer index), s)"

definition sig_verifyAndInvalidate :: "string \<Rightarrow> uint64 \<Rightarrow> int \<Rightarrow> bool act" where
  "sig_verifyAndInvalidate msg issuer index s =
    (case verifyAndInvalidate (ss_sigManager s) msg issuer index of
       (b, sm) \<Rightarrow> (Returned b, s\<lparr>ss_sigManager := sm\<rparr>))"

definition sig_sign :: "string \<Rightarrow> uint64 \<Rightarrow> int act" where
  "sig_sign msg issuer s =
    (case sign (ss_sigManager s) msg issuer of
       (Inr i, sm) \<Rightarrow> (Returned i, s\<lparr>ss_sigManager := sm\<rparr>)
     | (Inl _, sm) \<Rightarrow> (Thrown (Ascee_exn 520 ''too many virtual signatures''), s\<lparr>ss_sigManager := sm\<rparr>))"

text \<open>\<^verbatim>\<open>verifyWithMultiwayNonce\<close>: the answer and the message; \<open>balance_place\<close> is what it sets.\<close>

definition balance_place :: nat where
  "balance_place = decision_nonce_size_g + public_key_size_k"

definition verifyWithMultiwayNonce ::
  "heap \<Rightarrow> nat \<Rightarrow> uint64 \<Rightarrow> uint64 \<Rightarrow> string \<Rightarrow> int \<Rightarrow> bool \<Rightarrow> (bool \<times> string) act" where
  "verifyWithMultiwayNonce h nonceCount issuer spender msg sigIndex invalidate =
    (if msg = [] then ret (True, msg)
     else if \<not> invalidate then bind_act (sig_verify msg issuer sigIndex) (\<lambda>b. ret (b, msg))
     else
       (let nonceIndex = (if nonceCount > 1
              then balance_place + arg_balance_size_g + (length msg mod nonceCount) * nonce16_size_g else 0)
        in bind_act (load_uint16 h nonceIndex) (\<lambda>nonce.
           if nonce \<ge> nonce16_max then ret (False, msg)
           else
             bind_act (lift_result (appendNonceToMsg msg spender nonce)) (\<lambda>msg'.
             bind_act (sig_verify msg' issuer sigIndex) (\<lambda>valid.
             bind_act (if valid then store_uint16 h nonceIndex (nonce + 1) else ret ()) (\<lambda>_.
               ret (valid, msg')))))))"

definition load_context :: "uint64 \<Rightarrow> unit act" where
  "load_context app = modify (\<lambda>s. s\<lparr>ss_modifier := loadContext (ss_modifier s) app\<rparr>)"

text \<open>The body of a function with a local \<^verbatim>\<open>Context\<close> object.\<close>

definition in_context :: "(uint64 \<Rightarrow> 'a act) \<Rightarrow> 'a act" where
  "in_context body =
    bind_act current_call (\<lambda>c.
    bind_act (load_context arg_app_id_g) (\<lambda>_.
      with_destructor (body (cc_appID c)) (\<lambda>_. load_context (cc_appID c))))"

definition verifyByApp :: "uint64 \<Rightarrow> uint64 \<Rightarrow> string \<Rightarrow> int \<Rightarrow> bool \<Rightarrow> (bool \<times> string) act" where
  "verifyByApp issuer spender msg sigIndex invalidateMsg =
    (if msg = [] then ret (True, msg)
     else if \<not> invalidateMsg then bind_act (sig_verify msg issuer sigIndex) (\<lambda>b. ret (b, msg))
     else
       bind_act (lift_result (appendSpenderToMsg msg spender)) (\<lambda>msg'.
       bind_act (sig_verifyAndInvalidate msg' issuer sigIndex) (\<lambda>b. ret (b, msg'))))"

definition verifyByAccount ::
  "heap \<Rightarrow> uint64 \<Rightarrow> string \<Rightarrow> int \<Rightarrow> int \<Rightarrow> bool \<Rightarrow> (bool \<times> string \<times> int) act" where
  "verifyByAccount h issuerAccount msg sigIndex balanceIndex invalidateMsg =
    in_context (\<lambda>spender.
      bind_act (on_modifier_only (\<lambda>md. loadChunk md issuerAccount nonce_chunk_local_id_g)) (\<lambda>_.
      bind_act (on_modifier (\<lambda>md. isValid md h 0 nonce16_size_g)) (\<lambda>valid.
        if \<not> valid then ret (False, msg, balanceIndex)
        else
          bind_act (load_uint16 h 0) (\<lambda>decisionNonce.
            let multiway = (\<lambda>n. bind_act
                  (verifyWithMultiwayNonce h n issuerAccount spender msg sigIndex invalidateMsg)
                  (\<lambda>(b, msg'). ret (b, msg', int balance_place)))
            in if decisionNonce = 0 then
                 bind_act (verifyByApp issuerAccount spender msg sigIndex invalidateMsg)
                   (\<lambda>(b, msg'). ret (b, msg', int decision_nonce_size_g))
               else if decisionNonce = 1 then multiway 5
               else if decisionNonce = 2 then multiway 11
               else if decisionNonce \<ge> min_nonce_g then multiway 1
               else ret (False, msg, balanceIndex)))))"

definition virtual_sign_error :: "string \<Rightarrow> 'a act" where
  "virtual_sign_error msg = throw_error 500 (''[virtual_sign]-> '' @ msg)"

definition virtual_sign :: "heap \<Rightarrow> uint64 \<Rightarrow> string \<Rightarrow> int act" where
  "virtual_sign h issuer_account msg =
    bind_act guardArea (\<lambda>_.
    in_context (\<lambda>signer.
      bind_act (on_modifier_only (\<lambda>md. loadChunk md issuer_account nonce_chunk_local_id_g)) (\<lambda>_.
      bind_act (on_modifier (\<lambda>md. isValid md h 0 nonce16_size_g)) (\<lambda>valid.
      bind_act (if valid then ret () else virtual_sign_error (LongID_string issuer_account @ '' is not valid'')) (\<lambda>_.
      bind_act (load_uint16 h 0) (\<lambda>decisionNonce.
      bind_act (if decisionNonce = 0 then ret ()
                else virtual_sign_error (LongID_string issuer_account @ '' does not belong to an app'')) (\<lambda>_.
      bind_act (on_modifier (\<lambda>md. loadIdentifier app_trie_g md h (decision_nonce_size_g + arg_balance_size_g) 0)) (\<lambda>r.
      bind_act (lift_result r) (\<lambda>(owner, _).
      bind_act (if signer = owner then ret ()
                else virtual_sign_error (LongID_string owner @ '' is not owner of:'' @ LongID_string issuer_account)) (\<lambda>_.
      bind_act (sig_sign msg issuer_account) (\<lambda>i.
      bind_act unGuard (\<lambda>_. ret (to_int16 i)))))))))))))"

definition verify_by_acc_once :: "heap \<Rightarrow> uint64 \<Rightarrow> string \<Rightarrow> int \<Rightarrow> int \<Rightarrow> (bool \<times> string \<times> int) act" where
  "verify_by_acc_once h issuer_account msg sigIndex balance_offset =
    guarded (verifyByAccount h issuer_account msg sigIndex balance_offset True)"

definition verify_by_acc :: "heap \<Rightarrow> uint64 \<Rightarrow> string \<Rightarrow> int \<Rightarrow> (bool \<times> string \<times> int) act" where
  "verify_by_acc h issuer_account msg sigIndex = verifyByAccount h issuer_account msg sigIndex 0 False"

definition validate_pk :: "byte list \<Rightarrow> byte list \<Rightarrow> bool" where
  "validate_pk pk prf = True"

end
