(* ===== verification/Executor.thy ===== *)
theory Executor
  imports Session
begin

text \<open>
  Calls between contracts, \<^verbatim>\<open>src/ascee/executor/Executor.cpp\<close>, \<^verbatim>\<open>AppTable.cpp\<close> and
  \<^verbatim>\<open>src/ascee/argc/functions/invoke.cpp\<close>. The code of a contract is not part of the repository: it is
  any computation that calls the functions of the runtime and ends by returning, throwing or
  raising a signal. Contracts may call each other without end, so that \<open>dependant_call\<close> takes fuel, which
  every nested call uses up; running out of it is an outcome of its own.
\<close>

section \<open>Contracts\<close>

datatype argc_call =
    Load_int64 int
  | Invalid int int
  | Load_local_chunk uint64
  | Load_account_chunk uint64 uint64
  | Store_int64 int int
  | Store_int16 int int
  | Store_pk int int "byte list"
  | Add_int64_to int int
  | Resize_chunk int
  | Get_chunk_size
  | Enter_area
  | Exit_area
  | Invoke_deferred uint64 string
  | Revert string
  | Verify_by_acc_once uint64 string int int
  | Verify_by_acc uint64 string int
  | Virtual_sign uint64 string

datatype argc_value =
    Nothing
  | Int_value int
  | Bool_value bool
  | Verified bool string int

datatype app =
    App_return int string
  | App_throw call_exn
  | App_signal signal
  | Call argc_call "argc_value \<Rightarrow> app"
  | Invoke byte uint64 string string "int \<Rightarrow> string \<Rightarrow> app"

text \<open>A dispatcher gets the content of the response buffer and the request.\<close>

type_synonym dispatcher = "string \<Rightarrow> string \<Rightarrow> app"

record environment =
  en_heap :: heap
  en_callTable :: "(uint64, dispatcher option) ordered_map"
  en_what :: "exn \<Rightarrow> string"

definition map_act :: "('a \<Rightarrow> 'b) \<Rightarrow> 'a act \<Rightarrow> 'b act" where
  "map_act f m = bind_act m (\<lambda>x. ret (f x))"

fun run_argc :: "heap \<Rightarrow> argc_call \<Rightarrow> argc_value act" where
  "run_argc h (Load_int64 offset) = map_act Int_value (load_int64 h offset)"
| "run_argc h (Invalid offset sz) = map_act Bool_value (invalid h offset sz)"
| "run_argc h (Load_local_chunk ident) = map_act (\<lambda>_. Nothing) (load_local_chunk ident)"
| "run_argc h (Load_account_chunk acc loc) = map_act (\<lambda>_. Nothing) (load_account_chunk acc loc)"
| "run_argc h (Store_int64 offset v) = map_act (\<lambda>_. Nothing) (store_int64 h offset v)"
| "run_argc h (Store_int16 offset v) = map_act (\<lambda>_. Nothing) (store_int16 h offset v)"
| "run_argc h (Store_pk offset index v) = map_act (\<lambda>_. Nothing) (store_pk h offset index v)"
| "run_argc h (Add_int64_to offset v) = map_act (\<lambda>_. Nothing) (add_int64_to h offset v)"
| "run_argc h (Resize_chunk n) = map_act (\<lambda>_. Nothing) (resize_chunk h n)"
| "run_argc h Get_chunk_size = map_act Int_value (get_chunk_size h)"
| "run_argc h Enter_area = map_act (\<lambda>_. Nothing) enter_area"
| "run_argc h Exit_area = map_act (\<lambda>_. Nothing) exit_area"
| "run_argc h (Invoke_deferred app request) = map_act (\<lambda>_. Nothing) (invoke_deferred app request)"
| "run_argc h (Revert msg) = revert msg"
| "run_argc h (Verify_by_acc_once issuer msg i b) =
    map_act (\<lambda>(r, msg', b'). Verified r msg' b') (verify_by_acc_once h issuer msg i b)"
| "run_argc h (Verify_by_acc issuer msg i) =
    map_act (\<lambda>(r, msg', b'). Verified r msg' b') (verify_by_acc h issuer msg i)"
| "run_argc h (Virtual_sign issuer msg) = map_act Int_value (virtual_sign h issuer msg)"

section \<open>The table of contracts\<close>

definition checkApp :: "environment \<Rightarrow> uint64 \<Rightarrow> call_exn option" where
  "checkApp env appID =
    (case osm_at (en_callTable env) appID of
       Inr None \<Rightarrow> Some (Ascee_exn 404 ''app does not exist'')
     | Inr (Some _) \<Rightarrow> None
     | Inl _ \<Rightarrow> Some (Ascee_exn 420 (''app/'' @ LongID_string appID @ '' was not declared in the call list'')))"

text \<open>Running a contract. A signal in the guarded area ends the process.\<close>

type_synonym invoker = "byte \<Rightarrow> uint64 \<Rightarrow> string \<Rightarrow> string \<Rightarrow> (int \<times> string) act"

definition raise_signal :: "signal \<Rightarrow> 'a act" where
  "raise_signal g s = (if ss_guardedArea s then (Stopped Terminated, s) else (Signalled g, s))"

primrec run_app :: "heap \<Rightarrow> invoker \<Rightarrow> app \<Rightarrow> (int \<times> string) act" where
  "run_app h invoke (App_return r response) = ret (r, response)"
| "run_app h invoke (App_throw e) = throw e"
| "run_app h invoke (App_signal g) = raise_signal g"
| "run_app h invoke (Call c k) = bind_act (run_argc h c) (\<lambda>v. run_app h invoke (k v))"
| "run_app h invoke (Invoke gas app_id response request k) =
    bind_act (invoke gas app_id response request) (\<lambda>(r, response'). run_app h invoke (k r response'))"

definition callApp :: "environment \<Rightarrow> invoker \<Rightarrow> uint64 \<Rightarrow> string \<Rightarrow> string \<Rightarrow> (int \<times> string) act" where
  "callApp env invoke appID response request =
    (case osm_at (en_callTable env) appID of
       Inl e \<Rightarrow> throw (Std_exn e)
     | Inr None \<Rightarrow> stop Undefined
     | Inr (Some d) \<Rightarrow> run_app (en_heap env) invoke (d response request))"

section \<open>Contexts\<close>

definition open_context :: "uint64 \<Rightarrow> unit act" where
  "open_context app =
    bind_act current_call (\<lambda>prev.
    bind_act (if cc_appID prev = app then throw (Executor_error 521 app ''calling self'') else ret ()) (\<lambda>_.
    bind_act (load_context app) (\<lambda>_.
      modify (\<lambda>s. s\<lparr>ss_calls := \<lparr>cc_appID = app, cc_hasLock = False, cc_deferredCalls = []\<rparr> # ss_calls s\<rparr>))))"

definition root_context :: "unit act" where
  "root_context =
    modify (\<lambda>s. s\<lparr>ss_calls := [\<lparr>cc_appID = 0, cc_hasLock = False, cc_deferredCalls = []\<rparr>]\<rparr>)"

definition close_context :: "unit act" where
  "close_context =
    guarded (bind_act exit_area (\<lambda>_ s.
      case ss_calls s of
        [] \<Rightarrow> (Stopped Undefined, s)
      | c # rest \<Rightarrow>
          bind_act (case rest of [] \<Rightarrow> ret () | prev # _ \<Rightarrow> load_context (cc_appID prev)) (\<lambda>_.
            modify (\<lambda>s. s\<lparr>ss_calls := rest\<rparr>)) s))"

section \<open>A call\<close>

definition signal_status :: "signal \<Rightarrow> nat" where
  "signal_status sig =
    (case sig of SIGSEGV \<Rightarrow> 524 | SIGUSR1 \<Rightarrow> 421 | SIGFPE \<Rightarrow> 522 | SIGILL \<Rightarrow> 522 | SIGBUS \<Rightarrow> 500)"

text \<open>The part of \<^verbatim>\<open>dependant_call\<close> up to the \<^verbatim>\<open>switch\<close>: the code of the contract, its response and the
  value \<^verbatim>\<open>sigsetjmp\<close> has returned last.\<close>

definition enter_app :: "environment \<Rightarrow> invoker \<Rightarrow> uint64 \<Rightarrow> string \<Rightarrow> string \<Rightarrow> (int \<times> string \<times> nat) act" where
  "enter_app env invoke app_id response request s =
    (case bind_act unGuard (\<lambda>_. callApp env invoke app_id response request) s of
       (Returned (r, response'), s1) \<Rightarrow> bind_act guardArea (\<lambda>_. ret (r, response', 0)) s1
     | (Thrown e, s1) \<Rightarrow>
         bind_act guardArea (\<lambda>_.
           if e = Std_exn Out_of_range then throw_error 525 (en_what env Out_of_range) else throw e) s1
     | (Signalled g, s1) \<Rightarrow> bind_act guardArea (\<lambda>_. ret (0, response, signal_status g)) s1
     | (Stopped h, s1) \<Rightarrow> (Stopped h, s1))"

definition check_jump :: "nat \<Rightarrow> unit act" where
  "check_jump jmpRet =
    (if jmpRet = 524 then throw_error 524 ''segmentation fault (possibly stack overflow)''
     else if jmpRet = 421 then throw_error 421 ''cpu timer expired''
     else if jmpRet = 522 then throw_error 522 ''SIGFPE was caught''
     else if jmpRet \<noteq> 0 then throw_error 500 ''a signal was caught''
     else ret ())"

type_synonym caller = "uint64 \<Rightarrow> string \<Rightarrow> string \<Rightarrow> (int \<times> string) act"

fun run_deferred :: "caller \<Rightarrow> (uint64 \<times> string) list \<Rightarrow> unit act" where
  "run_deferred dep [] = ret ()"
| "run_deferred dep ((app, request) # rest) = bind_act (dep app [] request) (\<lambda>_. run_deferred dep rest)"

definition check_app :: "environment \<Rightarrow> uint64 \<Rightarrow> unit act" where
  "check_app env app_id =
    (case checkApp env app_id of
       None \<Rightarrow> ret ()
     | Some (Ascee_exn code msg) \<Rightarrow> throw_error code msg
     | Some e \<Rightarrow> throw e)"

definition dependant_call_body ::
  "environment \<Rightarrow> invoker \<Rightarrow> caller \<Rightarrow> uint64 \<Rightarrow> string \<Rightarrow> string \<Rightarrow> (int \<times> string) act" where
  "dependant_call_body env invoke dep app_id response request =
    bind_act guardArea (\<lambda>_.
    bind_act (check_app env app_id) (\<lambda>_.
    bind_act (open_context app_id) (\<lambda>_.
    with_destructor
      (bind_act guardArea (\<lambda>_.
       bind_act (enter_app env invoke app_id response request) (\<lambda>(r, response', jmpRet).
       bind_act (if r \<ge> 400 then throw_error 521 ''returning a revert code normally'' else ret ()) (\<lambda>_.
       bind_act (check_jump jmpRet) (\<lambda>_.
       bind_act exit_area (\<lambda>_.
       bind_act current_call (\<lambda>c.
       bind_act (run_deferred dep (cc_deferredCalls c)) (\<lambda>_.
       bind_act unGuard (\<lambda>_. ret (r, response'))))))))))
      (\<lambda>_. close_context))))"

section \<open>The callers\<close>

definition min_clocks :: int where
  "min_clocks = 1"

definition calculateExternalGas :: "int \<Rightarrow> int" where
  "calculateExternalGas currentGas = 2 * currentGas div 3"

text \<open>The constructor and the destructor of \<^verbatim>\<open>ControlledCaller::CallResourceHandler\<close>. An object whose
  construction fails in \<^verbatim>\<open>saveVersion\<close> is not destroyed, but \<^verbatim>\<open>currentResources\<close> keeps its address.\<close>

definition open_resources :: "byte \<Rightarrow> unit act" where
  "open_resources forwardedGas s =
    (case (ss_resources s, ss_calls s) of
       (prev # rest, call # _) \<Rightarrow>
         if \<not> cr_alive prev then (Stopped Undefined, s)
         else
           (let gas = cr_remainingExternalGas prev * int (unat forwardedGas) div 256
            in if gas \<le> min_clocks then (Thrown (Ascee_exn 521 ''forwarded gas is too low''), s)
               else
                 (let (ident, fm) = nextInvocation (ss_failureManager s);
                      new = (\<lambda>v ok. \<lparr>cr_id = ident, cr_caller = cc_appID call, cr_gas = gas,
                              cr_remainingExternalGas = calculateExternalGas gas, cr_heapVersion = v, cr_alive = ok\<rparr>);
                      prev' = prev\<lparr>cr_remainingExternalGas := cr_remainingExternalGas prev - gas\<rparr>
                  in case saveVersion (ss_modifier s) of
                       Inr (v, md) \<Rightarrow>
                         (Returned (), s\<lparr>ss_failureManager := fm, ss_modifier := md,
                                         ss_resources := new v True # prev' # rest\<rparr>)
                     | Inl _ \<Rightarrow>
                         (Thrown (Ascee_exn limit_exceeded ''version limit reached''),
                          s\<lparr>ss_failureManager := fm, ss_resources := new 0 False # prev' # rest\<rparr>)))
     | _ \<Rightarrow> (Stopped Undefined, s))"

definition root_resources :: "int \<Rightarrow> unit act" where
  "root_resources initialGas =
    modify (\<lambda>s. let (ident, fm) = nextInvocation (ss_failureManager s)
      in s\<lparr>ss_failureManager := fm,
           ss_resources := [\<lparr>cr_id = ident, cr_caller = 0, cr_gas = 0,
             cr_remainingExternalGas = initialGas, cr_heapVersion = 0, cr_alive = True\<rparr>]\<rparr>)"

definition live :: "call_resources list \<Rightarrow> call_resources list" where
  "live = dropWhile (\<lambda>r. \<not> cr_alive r)"

definition close_resources :: "bool \<Rightarrow> unit act" where
  "close_resources completed =
    guarded (\<lambda>s.
      case live (ss_resources s) of
        [] \<Rightarrow> (Stopped Undefined, s)
      | r # prev \<Rightarrow>
          bind_act (modify (\<lambda>s. s\<lparr>ss_resources := prev,
                      ss_failureManager := completeInvocation (ss_failureManager s)\<rparr>)) (\<lambda>_.
          bind_act (if completed then ret ()
                    else on_modifier_only (\<lambda>md. restoreVersion md (cr_heapVersion r))) (\<lambda>_.
            load_context (cr_caller r))) s)"

text \<open>The thread of a call: only an \<^verbatim>\<open>Executor::Error\<close> is caught in it.\<close>

definition invoke_noexcept :: "caller \<Rightarrow> uint64 \<Rightarrow> string \<Rightarrow> string \<Rightarrow> (int \<times> string) act" where
  "invoke_noexcept dep app_id response request s =
    (case dep app_id response request s of
       (Returned r, s1) \<Rightarrow> (Returned r, s1)
     | (Thrown (Executor_error code app msg), s1) \<Rightarrow>
         (case toHttpResponse code app msg [] of
            Inr response' \<Rightarrow> (Returned (int code, response'), s1)
          | Inl Undefined_behaviour \<Rightarrow> (Stopped Undefined, s1)
          | Inl _ \<Rightarrow> (Stopped Terminated, s1))
     | (Stopped h, s1) \<Rightarrow> (Stopped h, s1)
     | (_, s1) \<Rightarrow> (Stopped Terminated, s1))"

text \<open>The stack and the time the thread gets decide whether the operating system stops it; here
  only the depth of the calls matters, which \<^verbatim>\<open>getStackSize\<close> checks.\<close>

definition thread_limits :: "(int \<times> int) act" where
  "thread_limits s =
    (case ss_resources s of
       [] \<Rightarrow> (Stopped Undefined, s)
     | r # _ \<Rightarrow>
         (case getStackSize (ss_failureManager s) (cr_id r) of
            Inl _ \<Rightarrow> (Thrown (Ascee_exn limit_exceeded ''max call depth reached''), s)
          | Inr stack \<Rightarrow> (Returned (stack, getExecTime (ss_failureManager s) (cr_id r) (cr_gas r)), s)))"

text \<open>\<^verbatim>\<open>catch (const AsceeError&)\<close>.\<close>

definition catch_ascee :: "'a act \<Rightarrow> (nat \<Rightarrow> string \<Rightarrow> 'a act) \<Rightarrow> 'a act" where
  "catch_ascee m f =
    catch m (\<lambda>e. case e of
      Executor_error code _ msg \<Rightarrow> f code msg
    | Ascee_exn code msg \<Rightarrow> f code msg
    | Std_exn x \<Rightarrow> throw e)"

definition error_response :: "nat \<Rightarrow> string \<Rightarrow> (int \<times> string) act" where
  "error_response code msg s =
    bind_act current_call (\<lambda>c.
      bind_act (lift_result (toHttpResponse code (cc_appID c) msg [])) (\<lambda>response. ret (int code, response))) s"

definition succeeded :: "(int \<times> string) option \<Rightarrow> bool" where
  "succeeded r = (case r of Some (status, _) \<Rightarrow> status < 400 | None \<Rightarrow> False)"

definition controlled_executeApp :: "caller \<Rightarrow> invoker" where
  "controlled_executeApp dep forwarded_gas app_id response request =
    bind_act controlled_guardArea (\<lambda>_.
    bind_act
      (catch_ascee
        (bind_act (open_resources forwarded_gas) (\<lambda>_.
          with_destructor
            (bind_act thread_limits (\<lambda>_. invoke_noexcept dep app_id response request))
            (\<lambda>r. close_resources (succeeded r))))
        error_response) (\<lambda>r.
    bind_act controlled_unGuard (\<lambda>_. ret r)))"

text \<open>\<^verbatim>\<open>OptimisticCaller\<close>: its handler only keeps the caller and the version.\<close>

definition open_optimistic :: "(uint64 \<times> int) act" where
  "open_optimistic =
    bind_act current_call (\<lambda>c s.
      case saveVersion (ss_modifier s) of
        Inr (v, md) \<Rightarrow> (Returned (cc_appID c, v), s\<lparr>ss_modifier := md\<rparr>)
      | Inl _ \<Rightarrow> (Thrown (Ascee_exn limit_exceeded ''version limit reached''), s))"

definition close_optimistic :: "uint64 \<Rightarrow> int \<Rightarrow> bool \<Rightarrow> unit act" where
  "close_optimistic caller v completed =
    guarded (bind_act (if completed then ret () else on_modifier_only (\<lambda>md. restoreVersion md v)) (\<lambda>_.
      load_context caller))"

definition optimistic_executeApp :: "caller \<Rightarrow> invoker" where
  "optimistic_executeApp dep forwarded_gas app_id response request =
    catch_ascee
      (bind_act open_optimistic (\<lambda>(caller, v).
        with_destructor (dep app_id response request) (\<lambda>r. close_optimistic caller v (succeeded r))))
      (\<lambda>_ _. throw (Std_exn Block_error))"

definition executeApp :: "caller \<Rightarrow> invoker" where
  "executeApp dep forwarded_gas app_id response request s =
    (if ss_controlled s then controlled_executeApp dep forwarded_gas app_id response request s
     else optimistic_executeApp dep forwarded_gas app_id response request s)"

fun dependant_call :: "nat \<Rightarrow> environment \<Rightarrow> caller" where
  "dependant_call 0 env app_id response request = stop Out_of_fuel"
| "dependant_call (Suc n) env app_id response request =
    dependant_call_body env (executeApp (dependant_call n env)) (dependant_call n env) app_id response request"

section \<open>A request\<close>

record app_request =
  ar_calledAppID :: uint64
  ar_httpRequest :: string
  ar_maxClocks :: int
  ar_modifier :: modifier
  ar_useControlledExecution :: bool
  ar_failureManager :: failure_manager
  ar_signatureManager :: sig_manager

definition start_session :: "app_request \<Rightarrow> session" where
  "start_session req =
    \<lparr>ss_controlled = ar_useControlledExecution req, ss_guardedArea = False, ss_modifier = ar_modifier req,
     ss_failureManager = ar_failureManager req, ss_isLocked = (\<lambda>_. False),
     ss_sigManager = ar_signatureManager req, ss_calls = [], ss_resources = []\<rparr>"

definition execute_request :: "nat \<Rightarrow> environment \<Rightarrow> app_request \<Rightarrow> (int \<times> string) act" where
  "execute_request fuel env req =
    (let call = executeApp (dependant_call fuel env) 255 (ar_calledAppID req) [] (ar_httpRequest req)
     in if ar_useControlledExecution req then
          bind_act (root_resources (ar_maxClocks req)) (\<lambda>_.
            with_destructor
              (bind_act root_context (\<lambda>_. with_destructor call (\<lambda>_. close_context)))
              (\<lambda>r. close_resources (r \<noteq> None)))
        else bind_act root_context (\<lambda>_. with_destructor call (\<lambda>_. close_context)))"

text \<open>\<^verbatim>\<open>executeOne\<close>: the response, the modifier of the request and the heap behind it. An
  \<^verbatim>\<open>out_of_range\<close> that gets here is replaced by a \<^verbatim>\<open>runtime_error\<close>.\<close>

definition executeOne ::
  "nat \<Rightarrow> environment \<Rightarrow> app_request \<Rightarrow> (int \<times> string) outcome \<times> modifier \<times> heap" where
  "executeOne fuel env req =
    (let replace = (\<lambda>e. if e = Std_exn Out_of_range then Std_exn Runtime_error else e);
         h = en_heap env
     in case execute_request fuel env req (start_session req) of
          (Returned r, s) \<Rightarrow>
            (case writeToHeap (ss_modifier s) h of
               Inr (md, h') \<Rightarrow> (Returned r, md, h')
             | Inl Undefined_behaviour \<Rightarrow> (Stopped Undefined, ss_modifier s, h)
             | Inl Assert_failed \<Rightarrow> (Stopped Terminated, ss_modifier s, h)
             | Inl e \<Rightarrow> (Thrown (replace (Std_exn e)), ss_modifier s, h))
        | (Thrown e, s) \<Rightarrow> (Thrown (replace e), ss_modifier s, h)
        | (Signalled g, s) \<Rightarrow> (Signalled g, ss_modifier s, h)
        | (Stopped x, s) \<Rightarrow> (Stopped x, ss_modifier s, h))"

end
