(* ===== verification/Call_Contract.thy ===== *)
theory Call_Contract
  imports Executor
begin

text \<open>
  What the functions of the runtime leave of a session, as a contract: laws for the elementary steps
  and for the brackets around a nested call (its context, its resources, its version of the heap), from
  which every function, every contract and every nested call is shown to keep a relation between the
  states before and after it. The laws are discharged in \<open>Calls\<close>.
\<close>

section \<open>What every function of the runtime keeps\<close>

text \<open>
  \<open>keeps ok eff m\<close>: whatever way \<open>m\<close> ends in, short of stopping the process, its final state is
  related to the initial one by \<open>eff\<close>.
\<close>

definition keeps :: "(session \<Rightarrow> bool) \<Rightarrow> (session \<Rightarrow> session \<Rightarrow> bool) \<Rightarrow> 'a act \<Rightarrow> bool" where
  "keeps ok eff m \<longleftrightarrow> (\<forall>s r s'. ok s \<longrightarrow> m s = (r, s') \<longrightarrow> (\<forall>x. r \<noteq> Stopped x) \<longrightarrow> eff s s')"

lemma keepsI:
  "(\<And>s r s'. ok s \<Longrightarrow> m s = (r, s') \<Longrightarrow> (\<And>x. r \<noteq> Stopped x) \<Longrightarrow> eff s s') \<Longrightarrow> keeps ok eff m"
  by (auto simp: keeps_def)

lemma keepsD:
  "keeps ok eff m \<Longrightarrow> ok s \<Longrightarrow> m s = (r, s') \<Longrightarrow> (\<And>x. r \<noteq> Stopped x) \<Longrightarrow> eff s s'"
  by (auto simp: keeps_def)

text \<open>Only the code of a contract raises signals, and the call it runs in catches them.\<close>

definition no_signal :: "'a act \<Rightarrow> bool" where
  "no_signal m \<longleftrightarrow> (\<forall>s g s'. m s \<noteq> (Signalled g, s'))"

lemma no_signal_basic:
  "no_signal (ret x)" "no_signal (throw e)" "no_signal (stop y)" "no_signal (modify f)"
  "no_signal guardArea" "no_signal unGuard" "no_signal current_call" "no_signal (set_current_call f')"
  "no_signal (lift_result r)" "no_signal (load_context app)"
  by (auto simp: no_signal_def ret_def throw_def stop_def modify_def guardArea_def unGuard_def
      controlled_guardArea_def controlled_unGuard_def current_call_def set_current_call_def
      lift_result_def load_context_def split: list.splits sum.splits exn.splits)

lemma no_signal_bind: "no_signal m \<Longrightarrow> (\<And>x. no_signal (f x)) \<Longrightarrow> no_signal (bind_act m f)"
  by (auto simp: no_signal_def bind_act_def split: prod.splits outcome.splits)

lemma no_signal_destructor: "no_signal m \<Longrightarrow> no_signal (with_destructor m d)"
  by (auto simp: no_signal_def with_destructor_def Let_def split: prod.splits outcome.splits)

lemma no_signal_on_modifier: "no_signal (on_modifier f)"
  unfolding no_signal_def on_modifier_def
  by (auto simp: bind_act_def lift_result_def ret_def throw_def stop_def split: sum.splits exn.splits prod.splits)

lemma no_signal_functions:
  "no_signal (throw_error code msg)" "no_signal (on_modifier_only f)" "no_signal (check_jump j)"
  "no_signal (check_app env app)" "no_signal (open_context app)" "no_signal exit_area"
  unfolding throw_error_def on_modifier_only_def check_jump_def check_app_def open_context_def exit_area_def
    guarded_def
  by (auto intro!: no_signal_basic no_signal_bind no_signal_on_modifier simp: throw_error_def
      split: option.splits call_exn.splits)

lemma no_signal_guarded: "no_signal m \<Longrightarrow> no_signal (guarded m)"
  unfolding guarded_def by (intro no_signal_basic no_signal_bind)

lemma no_signal_enter_app: "no_signal (enter_app env invoke app resp req)"
proof -
  have "no_signal (bind_act guardArea (\<lambda>_. ret x))"
    "no_signal (bind_act guardArea (\<lambda>_. throw_error 525 (en_what env Out_of_range)) :: (int \<times> string \<times> nat) act)"
    "no_signal (bind_act guardArea (\<lambda>_. throw e) :: (int \<times> string \<times> nat) act)"
    for x :: "int \<times> string \<times> nat" and e
    by (auto intro!: no_signal_basic no_signal_bind no_signal_functions)
  then show ?thesis
    by (auto simp: no_signal_def enter_app_def split: prod.splits outcome.splits)
qed

lemma no_signal_deferred: "(\<And>app resp req. no_signal (dep app resp req)) \<Longrightarrow> no_signal (run_deferred dep ds)"
  by (induction dep ds rule: run_deferred.induct) (auto intro: no_signal_basic no_signal_bind)

lemma no_signal_body:
  assumes "\<And>app resp req. no_signal (dep app resp req)"
  shows "no_signal (dependant_call_body env invoke dep app resp req)"
  unfolding dependant_call_body_def
  by (intro no_signal_bind no_signal_basic no_signal_functions no_signal_destructor)
    (auto intro!: no_signal_bind no_signal_basic no_signal_functions no_signal_enter_app no_signal_deferred assms)

lemma no_signal_dependant_call: "no_signal (dependant_call n env app resp req)"
  by (induction n arbitrary: app resp req) (auto intro: no_signal_basic no_signal_body)

text \<open>An operation on the modifier that neither saves nor restores a version.\<close>

definition plain_op :: "mod_op \<Rightarrow> bool" where
  "plain_op oper \<longleftrightarrow> (case oper of OpSave \<Rightarrow> False | OpRestore _ \<Rightarrow> False | _ \<Rightarrow> True)"

definition new_context :: "uint64 \<Rightarrow> call_context" where
  "new_context app = \<lparr>cc_appID = app, cc_hasLock = False, cc_deferredCalls = []\<rparr>"

lemma exit_area_unlocks:
  "exit_area s = (Returned u, s') \<Longrightarrow> ss_calls s = c # cs \<Longrightarrow> \<exists>c'. ss_calls s' = c' # cs \<and> \<not> cc_hasLock c'"
  by (auto simp: exit_area_def guarded_def bind_act_def guardArea_def unGuard_def controlled_guardArea_def
      controlled_unGuard_def current_call_def modify_def set_current_call_def ret_def split: if_splits)

lemma exit_area_keeps_calls:
  "exit_area s = (r, s') \<Longrightarrow> ss_calls s = c # cs \<Longrightarrow> \<exists>u. r = Returned u"
  by (auto simp: exit_area_def guarded_def bind_act_def guardArea_def unGuard_def controlled_guardArea_def
      controlled_unGuard_def current_call_def modify_def set_current_call_def ret_def split: if_splits)

lemma no_signal_thread: "no_signal (bind_act thread_limits (\<lambda>_. invoke_noexcept dep app resp req))"
proof (rule no_signal_bind)
  show "no_signal thread_limits" "no_signal (invoke_noexcept dep app resp req)"
    by (auto simp: no_signal_def thread_limits_def invoke_noexcept_def
        split: prod.splits outcome.splits list.splits sum.splits call_exn.splits exn.splits)
qed

lemma error_response_eq:
  "error_response = (\<lambda>code msg. bind_act current_call (\<lambda>c.
    bind_act (lift_result (toHttpResponse code (cc_appID c) msg [])) (\<lambda>response. ret (int code, response))))"
  by (intro ext) (simp add: error_response_def)

text \<open>
  A relation between states that the elementary steps establish; what is built from them keeps it.
\<close>

locale session_relation =
  fixes h :: heap and ok :: "session \<Rightarrow> bool" and eff :: "session \<Rightarrow> session \<Rightarrow> bool"
  assumes eff_refl: "ok s \<Longrightarrow> eff s s"
    and eff_trans: "eff s s1 \<Longrightarrow> eff s1 s2 \<Longrightarrow> eff s s2"
    and eff_ok: "eff s s' \<Longrightarrow> ok s'"
    and guard_step: "ok s \<Longrightarrow> eff s (s\<lparr>ss_guardedArea := b\<rparr>)"
    and sig_step: "ok s \<Longrightarrow> eff s (s\<lparr>ss_sigManager := sm\<rparr>)"
    and heap_step: "ok s \<Longrightarrow> plain_op oper \<Longrightarrow> mod_step h oper (ss_modifier s) = Inr md \<Longrightarrow>
      eff s (s\<lparr>ss_modifier := md\<rparr>)"
begin

lemma keeps_ret: "keeps ok eff (ret x)"
  by (rule keepsI) (auto simp: ret_def eff_refl)

lemma keeps_throw: "keeps ok eff (throw e)"
  by (rule keepsI) (auto simp: throw_def eff_refl)

lemma keeps_stop: "keeps ok eff (stop x)"
  by (rule keepsI) (auto simp: stop_def)

lemma keeps_bind:
  assumes m: "keeps ok eff m" and f: "\<And>x. keeps ok eff (f x)"
  shows "keeps ok eff (bind_act m f)"
proof (rule keepsI)
  fix s r s' assume s: "ok s" and run: "bind_act m f s = (r, s')" and r: "\<And>x. r \<noteq> Stopped x"
  obtain r1 s1 where m1: "m s = (r1, s1)" by (cases "m s")
  show "eff s s'"
  proof (cases r1)
    case (Returned x)
    then have e: "eff s s1" using keepsD [OF m s m1] by simp
    have "f x s1 = (r, s')" using run m1 Returned by (simp add: bind_act_def)
    then have "eff s1 s'" using keepsD [OF f eff_ok [OF e]] r by blast
    then show ?thesis using e eff_trans by blast
  qed (use run m1 r keepsD [OF m s m1] in \<open>auto simp: bind_act_def\<close>)
qed

lemma keeps_if: "keeps ok eff m \<Longrightarrow> keeps ok eff m' \<Longrightarrow> keeps ok eff (if b then m else m')"
  by simp

lemma keeps_destructor:
  assumes m: "keeps ok eff m" and d: "\<And>x. keeps ok eff (d x)"
  shows "keeps ok eff (with_destructor m d)"
proof (rule keepsI)
  fix s r s' assume s: "ok s" and run: "with_destructor m d s = (r, s')" and r: "\<And>x. r \<noteq> Stopped x"
  obtain r1 s1 where m1: "m s = (r1, s1)" by (cases "m s")
  have close: "eff s s'" if "eff s s1" "d x s1 = (Returned u, s')" for x u
    using that keepsD [OF d eff_ok [OF that(1)] that(2)] eff_trans by simp
  show "eff s s'"
  proof (cases r1)
    case (Returned x)
    then show ?thesis using run m1 r keepsD [OF m s m1] close [of "Some x"]
      by (auto simp: with_destructor_def Let_def split: prod.splits outcome.splits)
  next
    case (Thrown e)
    then show ?thesis using run m1 r keepsD [OF m s m1] close [of None]
      by (auto simp: with_destructor_def Let_def split: prod.splits outcome.splits)
  qed (use run m1 r keepsD [OF m s m1] in \<open>auto simp: with_destructor_def\<close>)
qed

lemma keeps_lift_result: "keeps ok eff (lift_result r)"
  by (auto simp: lift_result_def intro: keeps_ret keeps_stop keeps_throw split: sum.splits exn.splits)

lemma keeps_on_modifier:
  assumes "\<And>md x md'. f md = Inr (x, md') \<Longrightarrow> \<exists>oper. plain_op oper \<and> mod_step h oper md = Inr md'"
  shows "keeps ok eff (on_modifier f)"
proof (rule keepsI)
  fix s r s' assume s: "ok s" and run: "on_modifier f s = (r, s')"
  show "eff s s'"
  proof (cases "f (ss_modifier s)")
    case (Inl e)
    then show ?thesis using run eff_refl [OF s]
      by (auto simp: on_modifier_def bind_act_def lift_result_def stop_def throw_def split: exn.splits)
  next
    case (Inr y)
    obtain x md where y: "y = (x, md)" by (cases y)
    then obtain oper where "plain_op oper" "mod_step h oper (ss_modifier s) = Inr md" using assms Inr by blast
    moreover have "s' = s\<lparr>ss_modifier := md\<rparr>"
      using run Inr y by (simp add: on_modifier_def bind_act_def lift_result_def ret_def)
    ultimately show ?thesis using heap_step [OF s] by simp
  qed
qed

lemma keeps_on_modifier_only:
  "(\<And>md md'. f md = Inr md' \<Longrightarrow> \<exists>oper. plain_op oper \<and> mod_step h oper md = Inr md') \<Longrightarrow>
    keeps ok eff (on_modifier_only f)"
  unfolding on_modifier_only_def by (rule keeps_on_modifier) (auto simp: bind_result_Inr_iff)

lemma keeps_guard: "keeps ok eff guardArea" "keeps ok eff unGuard"
    "keeps ok eff controlled_guardArea" "keeps ok eff controlled_unGuard"
  by (rule keepsI; auto simp: guardArea_def unGuard_def controlled_guardArea_def controlled_unGuard_def
    modify_def eff_refl guard_step split: if_splits)+

lemma keeps_guarded: "keeps ok eff m \<Longrightarrow> keeps ok eff (guarded m)"
  unfolding guarded_def by (intro keeps_bind keeps_guard keeps_ret)

lemma keeps_current_call: "keeps ok eff current_call"
  by (rule keepsI) (auto simp: current_call_def eff_refl split: list.splits)

lemma keeps_throw_error: "keeps ok eff (throw_error code msg)"
  unfolding throw_error_def by (intro keeps_bind keeps_current_call keeps_throw)

lemma keeps_load_context: "keeps ok eff (load_context app)"
proof (rule keepsI)
  fix s r s' assume "ok s" "load_context app s = (r, s')"
  then show "eff s s'" using heap_step [of s "OpContext app"]
    by (simp add: load_context_def modify_def plain_op_def)
qed

lemmas keeps_basic = keeps_ret keeps_throw keeps_stop keeps_bind keeps_guard keeps_guarded
  keeps_current_call keeps_throw_error keeps_load_context keeps_lift_result keeps_destructor

lemma keeps_heap:
  "keeps ok eff (load_int64 h off)" "keeps ok eff (invalid h off sz)"
  "keeps ok eff (load_local_chunk i)" "keeps ok eff (load_account_chunk acc i)"
  "keeps ok eff (store_int64 h off v)" "keeps ok eff (store_int16 h off v)"
  "keeps ok eff (store_pk h off j w)" "keeps ok eff (add_int64_to h off v)"
  "keeps ok eff (resize_chunk h n)" "keeps ok eff (get_chunk_size h)"
  "keeps ok eff (load_uint16 h o')" "keeps ok eff (store_uint16 h o' n')"
proof -
  have load: "keeps ok eff (on_modifier (\<lambda>md. modifier_load md h off i n))" for off i n
    by (rule keeps_on_modifier) (rule exI [of _ "OpLoad off i n"], simp add: plain_op_def)
  have store: "keeps ok eff (on_modifier_only (\<lambda>md. modifier_store md h off i bs))" for off i bs
    by (rule keeps_on_modifier_only) (rule exI [of _ "OpStore off i bs"], simp add: plain_op_def)
  have chunk: "keeps ok eff (on_modifier_only (\<lambda>md. loadChunk md acc loc))" for acc loc
    by (rule keeps_on_modifier_only) (rule exI [of _ "OpChunk acc loc"], simp add: plain_op_def)
  have valid: "keeps ok eff (on_modifier (\<lambda>md. isValid md h off n))" for off n
    by (rule keeps_on_modifier) (rule exI [of _ "OpValid off n"], simp add: plain_op_def)
  have add: "keeps ok eff (on_modifier_only (\<lambda>md. modifier_addInt md h off n v))" for off n v
    by (rule keeps_on_modifier_only) (rule exI [of _ "OpAddInt off n v"], simp add: plain_op_def)
  have resize: "keeps ok eff (on_modifier_only (\<lambda>md. updateChunkSize md h n))" for n
    by (rule keeps_on_modifier_only) (rule exI [of _ "OpResize n"], simp add: plain_op_def)
  have size: "keeps ok eff (on_modifier (\<lambda>md. getChunkSize md h))"
    by (rule keeps_on_modifier) (rule exI [of _ OpGetSize], simp add: plain_op_def)
  show "keeps ok eff (load_int64 h off)" "keeps ok eff (invalid h off sz)"
    "keeps ok eff (load_local_chunk i)" "keeps ok eff (load_account_chunk acc i)"
    "keeps ok eff (store_int64 h off v)" "keeps ok eff (store_int16 h off v)"
    "keeps ok eff (store_pk h off j w)" "keeps ok eff (add_int64_to h off v)"
    "keeps ok eff (resize_chunk h n)" "keeps ok eff (get_chunk_size h)"
    "keeps ok eff (load_uint16 h o')" "keeps ok eff (store_uint16 h o' n')"
    unfolding load_int64_def invalid_def load_local_chunk_def loadLocalChunk_def load_account_chunk_def
      store_int64_def store_int16_def store_pk_def add_int64_to_def resize_chunk_def get_chunk_size_def
      load_uint16_def store_uint16_def
    by (intro keeps_basic keeps_if load store chunk valid add resize size)+
qed

lemma keeps_signatures:
  "keeps ok eff (sig_verify msg issuer i)" "keeps ok eff (sig_verifyAndInvalidate msg issuer i)"
  "keeps ok eff (sig_sign msg issuer)"
  by (rule keepsI; auto simp: sig_verify_def sig_verifyAndInvalidate_def sig_sign_def eff_refl sig_step
      split: prod.splits sum.splits)+

lemma keeps_in_context: "(\<And>c. keeps ok eff (body c)) \<Longrightarrow> keeps ok eff (in_context body)"
  unfolding in_context_def by (intro keeps_basic)

lemma keeps_chunk: "keeps ok eff (on_modifier_only (\<lambda>md. loadChunk md acc loc))"
  by (rule keeps_on_modifier_only) (rule exI [of _ "OpChunk acc loc"], simp add: plain_op_def)

lemma keeps_valid: "keeps ok eff (on_modifier (\<lambda>md. isValid md h off n))"
  by (rule keeps_on_modifier) (rule exI [of _ "OpValid off n"], simp add: plain_op_def)

lemma keeps_identifier: "keeps ok eff (on_modifier (\<lambda>md. loadIdentifier app_trie_g md h off i))"
  by (rule keeps_on_modifier) (rule exI [of _ "OpLoadIdentifier app_trie_g off i"], simp add: plain_op_def)

lemma keeps_multiway: "keeps ok eff (verifyWithMultiwayNonce h n issuer spender msg i inval)"
  unfolding verifyWithMultiwayNonce_def Let_def
  by (intro keeps_basic keeps_if keeps_signatures keeps_heap)

lemma keeps_byApp: "keeps ok eff (verifyByApp issuer spender msg i inval)"
  unfolding verifyByApp_def by (auto intro!: keeps_basic keeps_signatures split: prod.splits)

lemma keeps_byAccount: "keeps ok eff (verifyByAccount h issuer msg i b inval)"
  unfolding verifyByAccount_def Let_def
  by (intro keeps_in_context keeps_bind keeps_if keeps_chunk keeps_valid keeps_ret keeps_heap keeps_multiway keeps_byApp)
    (auto intro!: keeps_basic keeps_if keeps_multiway keeps_byApp split: prod.splits)

lemma keeps_virtual_sign: "keeps ok eff (virtual_sign h issuer msg)"
  unfolding virtual_sign_def virtual_sign_error_def
  by (auto intro!: keeps_in_context keeps_basic keeps_chunk keeps_valid keeps_identifier keeps_heap keeps_signatures
      split: prod.splits)

lemma keeps_check: "keeps ok eff (check_app env app)" "keeps ok eff (check_jump j)"
  unfolding check_app_def check_jump_def
  by (auto intro!: keeps_basic split: option.splits call_exn.splits)

lemma keeps_catch_ascee:
  fixes m :: "(int \<times> string) act"
  assumes "keeps ok eff m" "\<And>c x. keeps ok eff (f c x)"
  shows "keeps ok eff (catch_ascee m f)"
proof (rule keepsI)
  fix s r s' assume s: "ok s" and run: "catch_ascee m f s = (r, s')" and r: "\<And>x. r \<noteq> Stopped x"
  obtain r1 s1 where m1: "m s = (r1, s1)" by (cases "m s")
  have nostop: "r1 \<noteq> Stopped x" for x using run m1 r [of x] by (auto simp: catch_ascee_def catch_def)
  have e1: "eff s s1" by (rule keepsD [OF assms(1) s m1 nostop])
  have "s' = s1 \<or> (\<exists>c x. f c x s1 = (r, s'))"
    using run m1 by (auto simp: catch_ascee_def catch_def throw_def split: outcome.splits call_exn.splits)
  then show "eff s s'" using e1 keepsD [OF assms(2) eff_ok [OF e1]] r eff_trans by blast
qed

lemma keeps_noexcept:
  assumes dep: "keeps ok eff (dep app resp req)" shows "keeps ok eff (invoke_noexcept dep app resp req)"
proof (rule keepsI)
  fix s r s' assume s: "ok s" and run: "invoke_noexcept dep app resp req s = (r, s')" and r: "\<And>x. r \<noteq> Stopped x"
  obtain r1 s1 where d: "dep app resp req s = (r1, s1)" by (cases "dep app resp req s")
  have "s' = s1 \<and> (\<forall>x. r1 \<noteq> Stopped x)"
    using run d r by (auto simp: invoke_noexcept_def split: outcome.splits call_exn.splits sum.splits exn.splits)
  then show "eff s s'" using keepsD [OF dep s d] by blast
qed

lemma keeps_thread_limits: "keeps ok eff thread_limits"
  by (rule keepsI) (auto simp: thread_limits_def eff_refl split: list.splits sum.splits)

end

text \<open>
  The contract of a call: \<open>eff\<close> relates the states of one call, which may change its own context,
  and \<open>out\<close> the states before and after a nested one. The brackets around a nested call, its context
  and its resources, turn what holds inside into what holds outside.
\<close>

locale call_contract = session_relation h ok eff + outer: session_relation h ok out
  for h :: heap and ok :: "session \<Rightarrow> bool" and eff out :: "session \<Rightarrow> session \<Rightarrow> bool" +
  assumes out_eff: "out s s' \<Longrightarrow> eff s s'"
    and lock_step: "ok s \<Longrightarrow> ss_calls s = c # cs \<Longrightarrow> \<not> cc_hasLock c \<Longrightarrow> \<not> ss_isLocked s (cc_appID c) \<Longrightarrow>
      eff s (s\<lparr>ss_isLocked := (ss_isLocked s)(cc_appID c := True), ss_calls := c\<lparr>cc_hasLock := True\<rparr> # cs\<rparr>)"
    and unlock_step: "ok s \<Longrightarrow> ss_calls s = c # cs \<Longrightarrow> cc_hasLock c \<Longrightarrow>
      eff s (s\<lparr>ss_isLocked := (ss_isLocked s)(cc_appID c := False), ss_calls := c\<lparr>cc_hasLock := False\<rparr> # cs\<rparr>)"
    and deferred_step: "ok s \<Longrightarrow> ss_calls s = c # cs \<Longrightarrow>
      eff s (s\<lparr>ss_calls := c\<lparr>cc_deferredCalls := ds\<rparr> # cs\<rparr>)"
    and context_open: "ok s \<Longrightarrow> ss_calls s = c # cs \<Longrightarrow> cc_appID c \<noteq> app \<Longrightarrow>
      ok (s\<lparr>ss_calls := new_context app # c # cs\<rparr>)"
    and context_close: "ok s \<Longrightarrow> ss_calls s = c # cs \<Longrightarrow> cc_appID c \<noteq> app \<Longrightarrow>
      eff (s\<lparr>ss_calls := new_context app # c # cs\<rparr>) s1 \<Longrightarrow>
      (\<exists>c1. ss_calls s1 = c1 # c # cs \<and>
        (\<not> cc_hasLock c1 \<longrightarrow> out s (s1\<lparr>ss_calls := c # cs\<rparr>)))"
    and resources_open: "ok s \<Longrightarrow> open_resources fg s = (Returned u, s1) \<Longrightarrow> ok s1"
    and resources_failed: "ok s \<Longrightarrow> open_resources fg s = (Thrown e, s1) \<Longrightarrow> out s s1"
    and resources_close: "ok s \<Longrightarrow> open_resources fg s = (Returned u, s1) \<Longrightarrow> out s1 s2 \<Longrightarrow>
      close_resources completed s2 = (Returned u', s3) \<Longrightarrow> out s s3"
    and optimistic_open: "ok s \<Longrightarrow> saveVersion (ss_modifier s) = Inr (v, md) \<Longrightarrow> ok (s\<lparr>ss_modifier := md\<rparr>)"
    and optimistic_close: "ok s \<Longrightarrow> saveVersion (ss_modifier s) = Inr (v, md) \<Longrightarrow>
      out (s\<lparr>ss_modifier := md\<rparr>) s1 \<Longrightarrow> out s s1"
    and optimistic_restore: "ok s \<Longrightarrow> saveVersion (ss_modifier s) = Inr (v, md) \<Longrightarrow>
      out (s\<lparr>ss_modifier := md\<rparr>) s1 \<Longrightarrow> restoreVersion (ss_modifier s1) v = Inr md1 \<Longrightarrow>
      out s (s1\<lparr>ss_modifier := md1\<rparr>)"
begin

lemma keeps_weaken: "keeps ok out m \<Longrightarrow> keeps ok eff m"
  by (auto simp: keeps_def intro: out_eff)

lemma keeps_current: "(\<And>s c cs. ok s \<Longrightarrow> ss_calls s = c # cs \<Longrightarrow> eff s (s\<lparr>ss_calls := f c # cs\<rparr>)) \<Longrightarrow>
    keeps ok eff (set_current_call f)"
  by (rule keepsI) (auto simp: set_current_call_def split: list.splits)

lemma keeps_enter_area: "keeps ok eff enter_area"
proof (rule keepsI)
  fix s r s' assume s: "ok s" and run: "enter_area s = (r, s')" and r: "\<And>x. r \<noteq> Stopped x"
  show "eff s s'"
  proof (cases "ss_calls s")
    case Nil
    then have "r = Stopped Undefined" using run by (simp add: enter_area_def bind_act_def current_call_def)
    then show ?thesis using r by blast
  next
    case (Cons c cs)
    show ?thesis
    proof (cases "cc_hasLock c \<or> ss_isLocked s (cc_appID c)")
      case True
      then show ?thesis using run Cons eff_refl [OF s]
        by (auto simp: enter_area_def bind_act_def current_call_def ret_def throw_error_def throw_def split: if_splits)
    next
      case False
      let ?s1 = "if ss_controlled s then s\<lparr>ss_guardedArea := True\<rparr> else s"
      let ?s2 = "?s1\<lparr>ss_isLocked := (ss_isLocked ?s1)(cc_appID c := True), ss_calls := c\<lparr>cc_hasLock := True\<rparr> # cs\<rparr>"
      have e1: "eff s ?s1" using guard_step [OF s] eff_refl [OF s] by simp
      have e2: "eff ?s1 ?s2" by (rule lock_step [OF eff_ok [OF e1]]) (use Cons False in auto)
      have "s' = (if ss_controlled s then ?s2\<lparr>ss_guardedArea := False\<rparr> else ?s2)"
        using run Cons False
        by (auto simp: enter_area_def bind_act_def current_call_def ret_def guarded_def guardArea_def unGuard_def
            controlled_guardArea_def controlled_unGuard_def modify_def set_current_call_def)
      then have "eff ?s2 s'" using guard_step [OF eff_ok [OF e2], of False] eff_refl [OF eff_ok [OF e2]]
        by (cases "ss_controlled s") simp_all
      then show ?thesis using e1 e2 eff_trans by blast
    qed
  qed
qed

lemma keeps_exit_area: "keeps ok eff exit_area"
  unfolding exit_area_def
proof (rule keeps_guarded, rule keepsI)
  fix s r s'
  assume s: "ok s" and r: "\<And>x. r \<noteq> Stopped x"
    and run: "bind_act current_call (\<lambda>c. if cc_hasLock c then
        bind_act (modify (\<lambda>s. s\<lparr>ss_isLocked := (ss_isLocked s)(cc_appID c := False)\<rparr>)) (\<lambda>_.
          set_current_call (\<lambda>c. c\<lparr>cc_hasLock := False\<rparr>)) else ret ()) s = (r, s')"
  show "eff s s'"
  proof (cases "ss_calls s")
    case Nil
    then have "r = Stopped Undefined" using run by (simp add: bind_act_def current_call_def)
    then show ?thesis using r by blast
  next
    case (Cons c cs)
    then show ?thesis
      using run eff_refl [OF s] unlock_step [OF s Cons]
      by (auto simp: bind_act_def current_call_def modify_def set_current_call_def ret_def split: if_splits)
  qed
qed

lemma keeps_invoke_deferred: "keeps ok eff (invoke_deferred app req)"
  unfolding invoke_deferred_def by (rule keeps_current) (rule deferred_step)

lemma keeps_run_argc: "keeps ok eff (run_argc h c)"
  by (cases c) (auto simp: map_act_def revert_def verify_by_acc_once_def verify_by_acc_def
      intro!: keeps_basic keeps_heap keeps_enter_area keeps_exit_area keeps_invoke_deferred keeps_byAccount
      keeps_virtual_sign split: prod.splits)

lemma keeps_run_app:
  assumes "\<And>gas app resp req. keeps ok eff (invoke gas app resp req)"
  shows "keeps ok eff (run_app h invoke p)"
proof (induction p)
  case (App_signal g)
  show ?case by (rule keepsI) (auto simp: raise_signal_def eff_refl split: if_splits)
qed (auto intro!: keeps_basic keeps_run_argc assms split: prod.splits)

lemma keeps_enter_app:
  assumes inv: "\<And>gas app resp req. keeps ok eff (invoke gas app resp req)" and h: "en_heap env = h"
  shows "keeps ok eff (enter_app env invoke app resp req)"
proof -
  let ?m = "bind_act unGuard (\<lambda>_. callApp env invoke app resp req)"
  have m: "keeps ok eff ?m"
    unfolding callApp_def h
    by (auto intro!: keeps_basic keeps_run_app inv split: sum.splits option.splits)
  show ?thesis
  proof (rule keepsI)
    fix s r s' assume s: "ok s" and run: "enter_app env invoke app resp req s = (r, s')" and r: "\<And>x. r \<noteq> Stopped x"
    obtain r1 s1 where m1: "?m s = (r1, s1)" by (cases "?m s")
    have go: "eff s s'" if "keeps ok eff m'" "m' s1 = (r, s')" "\<And>x. r1 \<noteq> Stopped x" for m' :: "(int \<times> string \<times> nat) act"
      using that keepsD [OF m s m1] keepsD [OF that(1) eff_ok that(2)] r eff_trans by blast
    show "eff s s'"
    proof (cases r1)
      case (Returned x)
      obtain a b where x: "x = (a, b)" by (cases x)
      show ?thesis
        by (rule go [of "bind_act guardArea (\<lambda>_. ret (a, b, 0))"])
          (use run m1 Returned x in \<open>auto simp: enter_app_def intro!: keeps_basic\<close>)
    next
      case (Thrown e)
      show ?thesis
        by (rule go [of "bind_act guardArea (\<lambda>_. if e = Std_exn Out_of_range
            then throw_error 525 (en_what env Out_of_range) else throw e)"])
          (use run m1 Thrown in \<open>auto simp: enter_app_def intro!: keeps_basic keeps_if\<close>)
    next
      case (Signalled g)
      show ?thesis
        by (rule go [of "bind_act guardArea (\<lambda>_. ret (0, resp, signal_status g))"])
          (use run m1 Signalled in \<open>auto simp: enter_app_def intro!: keeps_basic\<close>)
    next
      case (Stopped x)
      then have "r = Stopped x" using run m1 by (simp add: enter_app_def)
      then show ?thesis using r by blast
    qed
  qed
qed

lemma keeps_deferred:
  "(\<And>app resp req. keeps ok eff (dep app resp req)) \<Longrightarrow> keeps ok eff (run_deferred dep ds)"
  by (induction dep ds rule: run_deferred.induct) (auto intro: keeps_basic)

text \<open>What is done between opening and closing a context keeps the relation.\<close>

lemma context_bracket:
  assumes s: "ok s" and calls: "ss_calls s = c # cs" and app: "cc_appID c \<noteq> app"
    and inner: "eff (s\<lparr>ss_calls := new_context app # c # cs\<rparr>) s1"
    and close: "close_context s1 = (Returned u, s2)"
  shows "out s s2"
proof -
  let ?s0 = "s\<lparr>ss_calls := new_context app # c # cs\<rparr>"
  note open' = context_close [OF s calls app]
  obtain s1' where g: "guardArea s1 = (Returned (), s1')" and e1: "eff s1 s1'"
    using keepsD [OF keeps_guard(1) eff_ok [OF inner]]
    by (cases "guardArea s1") (auto simp: guardArea_def controlled_guardArea_def modify_def split: if_splits)
  have i1: "eff ?s0 s1'" using inner e1 eff_trans by blast
  obtain c1 where c1: "ss_calls s1' = c1 # c # cs" using open' [OF i1] by blast
  obtain s1'' v where x: "exit_area s1' = (Returned v, s1'')"
    using exit_area_keeps_calls [OF _ c1] by (cases "exit_area s1'") auto
  then have i2: "eff ?s0 s1''" using keepsD [OF keeps_exit_area eff_ok [OF i1] x] i1 eff_trans by blast
  obtain c2 where c2: "ss_calls s1'' = c2 # c # cs" "\<not> cc_hasLock c2"
    using exit_area_unlocks [OF x c1] by blast
  obtain s3 where l: "load_context (cc_appID c) s1'' = (Returned (), s3)" and e3: "eff s1'' s3"
    and c3: "ss_calls s3 = ss_calls s1''"
    using keepsD [OF keeps_load_context eff_ok [OF i2], of "cc_appID c"]
    by (cases "load_context (cc_appID c) s1''") (auto simp: load_context_def modify_def)
  have i3: "eff ?s0 s3" using i2 e3 eff_trans by blast
  then have o3: "out s (s3\<lparr>ss_calls := c # cs\<rparr>)" using open' [OF i3] c3 c2 by auto
  have "unGuard (s3\<lparr>ss_calls := c # cs\<rparr>) = (Returned u, s2)"
    using close g x l c2 unfolding close_context_def guarded_def
    by (auto simp: bind_act_def modify_def ret_def split: prod.splits outcome.splits)
  then have "out (s3\<lparr>ss_calls := c # cs\<rparr>) s2"
    using keepsD [OF outer.keeps_guard(2) outer.eff_ok [OF o3]] by blast
  then show ?thesis using o3 outer.eff_trans by blast
qed

lemma keeps_in_new_context:
  assumes m: "keeps ok eff m" and nos: "no_signal m"
  shows "keeps ok out (bind_act (open_context app) (\<lambda>_. with_destructor m (\<lambda>_. close_context)))"
proof (rule keepsI)
  fix s r s'
  assume s: "ok s" and r: "\<And>x. r \<noteq> Stopped x"
    and run: "bind_act (open_context app) (\<lambda>_. with_destructor m (\<lambda>_. close_context)) s = (r, s')"
  show "out s s'"
  proof (cases "ss_calls s")
    case Nil
    then have "r = Stopped Undefined"
      using run by (simp add: open_context_def bind_act_def current_call_def)
    then show ?thesis using r by blast
  next
    case (Cons c cs)
    show ?thesis
    proof (cases "cc_appID c = app")
      case True
      then have "s' = s" using run Cons
        by (auto simp: open_context_def bind_act_def current_call_def throw_def)
      then show ?thesis using outer.eff_refl [OF s] by simp
    next
      case False
      let ?s0 = "s\<lparr>ss_modifier := loadContext (ss_modifier s) app\<rparr>"
      let ?s1 = "?s0\<lparr>ss_calls := new_context app # c # cs\<rparr>"
      have e0: "out s ?s0" using outer.heap_step [OF s, of "OpContext app"] by (simp add: plain_op_def)
      have c0: "ss_calls ?s0 = c # cs" using Cons by simp
      have o1: "ok ?s1" by (rule context_open [OF outer.eff_ok [OF e0] c0 False])
      have run1: "with_destructor m (\<lambda>_. close_context) ?s1 = (r, s')"
        using run Cons False
        by (simp add: open_context_def bind_act_def current_call_def ret_def load_context_def modify_def new_context_def)
      obtain r2 s2 where m2: "m ?s1 = (r2, s2)" by (cases "m ?s1")
      have nostop: "r2 \<noteq> Stopped x" for x
        using run1 m2 r [of x] by (auto simp: with_destructor_def)
      have e2: "eff ?s1 s2" by (rule keepsD [OF m o1 m2 nostop])
      have "\<exists>u. close_context s2 = (Returned u, s')"
        using run1 m2 r nostop nos
        by (auto simp: with_destructor_def no_signal_def Let_def split: outcome.splits prod.splits)
      then have "out ?s0 s'" using context_bracket [OF outer.eff_ok [OF e0] c0 False e2] by blast
      then show ?thesis using e0 outer.eff_trans by blast
    qed
  qed
qed

lemma keeps_body:
  assumes inv: "\<And>gas app resp req. keeps ok eff (invoke gas app resp req)"
    and dep: "\<And>app resp req. keeps ok eff (dep app resp req)" "\<And>app resp req. no_signal (dep app resp req)"
    and h: "en_heap env = h"
  shows "keeps ok out (dependant_call_body env invoke dep app resp req)"
  unfolding dependant_call_body_def
  by (intro outer.keeps_bind outer.keeps_guard outer.keeps_check keeps_in_new_context no_signal_bind no_signal_basic;
      auto intro!: keeps_basic keeps_enter_app keeps_check keeps_exit_area keeps_deferred inv dep h
        no_signal_bind no_signal_basic no_signal_functions no_signal_enter_app no_signal_deferred
        split: prod.splits)

lemma keeps_with_resources:
  assumes m: "keeps ok out m" and nos: "no_signal m"
  shows "keeps ok out (bind_act (open_resources fg) (\<lambda>_. with_destructor m (\<lambda>r. close_resources (f r))))"
proof (rule keepsI)
  fix s r s'
  assume s: "ok s" and r: "\<And>x. r \<noteq> Stopped x"
    and run: "bind_act (open_resources fg) (\<lambda>_. with_destructor m (\<lambda>r. close_resources (f r))) s = (r, s')"
  obtain r1 s1 where o: "open_resources fg s = (r1, s1)" by (cases "open_resources fg s")
  show "out s s'"
  proof (cases r1)
    case (Returned u)
    then have o1: "open_resources fg s = (Returned u, s1)" using o by simp
    have run1: "with_destructor m (\<lambda>r. close_resources (f r)) s1 = (r, s')"
      using run o1 by (simp add: bind_act_def)
    obtain r2 s2 where m2: "m s1 = (r2, s2)" by (cases "m s1")
    have nostop: "r2 \<noteq> Stopped x" for x using run1 m2 r [of x] by (auto simp: with_destructor_def)
    have e2: "out s1 s2" by (rule keepsD [OF m resources_open [OF s o1] m2 nostop])
    have "\<exists>b u. close_resources b s2 = (Returned u, s')"
      using run1 m2 r nostop nos
      by (auto simp: with_destructor_def no_signal_def Let_def split: outcome.splits prod.splits)
    then show ?thesis using resources_close [OF s o1 e2] by blast
  next
    case (Thrown e)
    then show ?thesis using run o resources_failed [OF s] by (auto simp: bind_act_def)
  next
    case (Stopped x)
    then have "r = Stopped x" using run o by (simp add: bind_act_def)
    then show ?thesis using r by blast
  next
    case (Signalled g)
    then show ?thesis using o
      by (auto simp: open_resources_def Let_def split: list.splits if_splits sum.splits prod.splits)
  qed
qed

lemma keeps_controlled:
  assumes dep: "\<And>app resp req. keeps ok out (dep app resp req)"
  shows "keeps ok out (controlled_executeApp dep fg app resp req)"
  unfolding controlled_executeApp_def error_response_eq
  by (intro outer.keeps_bind outer.keeps_guard outer.keeps_ret outer.keeps_catch_ascee keeps_with_resources outer.keeps_thread_limits
      outer.keeps_noexcept no_signal_thread outer.keeps_current_call outer.keeps_lift_result dep)

lemma keeps_optimistic:
  assumes dep: "\<And>app resp req. keeps ok out (dep app resp req)" "\<And>app resp req. no_signal (dep app resp req)"
  shows "keeps ok out (optimistic_executeApp dep fg app resp req)"
proof -
  have "keeps ok out (bind_act open_optimistic (\<lambda>(caller, v).
        with_destructor (dep app resp req) (\<lambda>r. close_optimistic caller v (succeeded r))))"
  proof (rule keepsI)
    fix s r s'
    assume s: "ok s" and r: "\<And>x. r \<noteq> Stopped x"
      and run: "bind_act open_optimistic (\<lambda>(caller, v).
        with_destructor (dep app resp req) (\<lambda>r. close_optimistic caller v (succeeded r))) s = (r, s')"
    show "out s s'"
    proof (cases "ss_calls s")
      case Nil
      then have "r = Stopped Undefined"
        using run by (simp add: open_optimistic_def bind_act_def current_call_def)
      then show ?thesis using r by blast
    next
      case (Cons c cs)
      show ?thesis
      proof (cases "saveVersion (ss_modifier s)")
        case (Inl e)
        then have "s' = s" using run Cons by (auto simp: open_optimistic_def bind_act_def current_call_def)
        then show ?thesis using outer.eff_refl [OF s] by simp
      next
        case (Inr y)
        obtain v md where sv: "saveVersion (ss_modifier s) = Inr (v, md)" using Inr by (cases y) auto
        let ?s1 = "s\<lparr>ss_modifier := md\<rparr>"
        have run1: "with_destructor (dep app resp req) (\<lambda>r. close_optimistic (cc_appID c) v (succeeded r)) ?s1 = (r, s')"
          using run Cons sv by (simp add: open_optimistic_def bind_act_def current_call_def)
        obtain r2 s2 where m2: "dep app resp req ?s1 = (r2, s2)" by (cases "dep app resp req ?s1")
        have nostop: "r2 \<noteq> Stopped x" for x using run1 m2 r [of x] by (auto simp: with_destructor_def)
        have e2: "out ?s1 s2" by (rule keepsD [OF dep(1) optimistic_open [OF s sv] m2 nostop])
        obtain b u where cl: "close_optimistic (cc_appID c) v b s2 = (Returned u, s')"
          using run1 m2 r nostop dep(2)
          by (auto simp: with_destructor_def no_signal_def Let_def split: outcome.splits prod.splits)
        let ?g = "if ss_controlled s2 then s2\<lparr>ss_guardedArea := True\<rparr> else s2"
        have eg: "out s2 ?g" using outer.guard_step [OF outer.eff_ok [OF e2]] outer.eff_refl [OF outer.eff_ok [OF e2]] by simp
        have e3: "out ?s1 ?g" using e2 eg outer.eff_trans by blast
        have mid: "\<exists>s3. out s s3 \<and> bind_act (load_context (cc_appID c)) (\<lambda>x. bind_act unGuard (\<lambda>_. ret x)) s3 = (Returned u, s')"
        proof (cases b)
          case True
          then show ?thesis using cl optimistic_close [OF s sv e3]
            by (intro exI [of _ ?g])
              (auto simp: close_optimistic_def guarded_def bind_act_def guardArea_def controlled_guardArea_def modify_def ret_def
                split: if_splits)
        next
          case False
          obtain md1 where md1: "restoreVersion (ss_modifier ?g) v = Inr md1"
            using cl False
            by (cases "restoreVersion (ss_modifier ?g) v")
              (auto simp: close_optimistic_def guarded_def bind_act_def guardArea_def controlled_guardArea_def modify_def
                on_modifier_only_def on_modifier_def lift_result_def stop_def throw_def split: if_splits exn.splits)
          then show ?thesis using cl False optimistic_restore [OF s sv e3 md1]
            by (intro exI [of _ "?g\<lparr>ss_modifier := md1\<rparr>"])
              (auto simp: close_optimistic_def guarded_def bind_act_def guardArea_def controlled_guardArea_def modify_def
                on_modifier_only_def on_modifier_def lift_result_def ret_def split: if_splits)
        qed
        then obtain s3 where s3: "out s s3"
          "bind_act (load_context (cc_appID c)) (\<lambda>x. bind_act unGuard (\<lambda>_. ret x)) s3 = (Returned u, s')" by blast
        have "keeps ok out (bind_act (load_context (cc_appID c)) (\<lambda>x. bind_act unGuard (\<lambda>_. ret x)))"
          by (intro outer.keeps_basic)
        from keepsD [OF this outer.eff_ok [OF s3(1)] s3(2)] show ?thesis using s3(1) outer.eff_trans by blast
      qed
    qed
  qed
  then show ?thesis unfolding optimistic_executeApp_def by (intro outer.keeps_catch_ascee outer.keeps_throw)
qed

lemma keeps_executeApp:
  assumes dep: "\<And>app resp req. keeps ok out (dep app resp req)" "\<And>app resp req. no_signal (dep app resp req)"
  shows "keeps ok out (executeApp dep fg app resp req)"
  using keepsD [OF keeps_controlled [OF dep(1)]] keepsD [OF keeps_optimistic [OF dep]]
  by (intro keepsI) (auto simp: executeApp_def split: if_splits)

lemma keeps_dependant_call:
  assumes h: "en_heap env = h" shows "keeps ok out (dependant_call n env app resp req)"
proof (induction n arbitrary: app resp req)
  case 0
  then show ?case by (simp add: outer.keeps_stop)
next
  case (Suc n)
  show ?case unfolding dependant_call.simps
    by (intro keeps_body keeps_weaken keeps_executeApp no_signal_dependant_call h Suc.IH)
qed

end

end
