(* ===== verification/Calls.thy ===== *)
theory Calls
  imports Call_Contract
begin

text \<open>
  Calls between contracts: the laws of \<open>Call_Contract\<close> hold for the session of
  \<^verbatim>\<open>src/ascee/executor/Executor.cpp\<close>, and what follows for its calls. A call leaves the contexts and the
  entrance locks of its callers as they are, pays for every invocation with gas, and when it fails
  the heap of the request reads as before it.
\<close>

section \<open>Opening and closing the resources of a call\<close>

definition forwarded :: "call_resources \<Rightarrow> byte \<Rightarrow> int" where
  "forwarded prev fg = cr_remainingExternalGas prev * int (unat fg) div 256"

definition charged :: "call_resources \<Rightarrow> byte \<Rightarrow> call_resources" where
  "charged prev fg = prev\<lparr>cr_remainingExternalGas := cr_remainingExternalGas prev - forwarded prev fg\<rparr>"

definition new_resources :: "session \<Rightarrow> call_resources \<Rightarrow> byte \<Rightarrow> call_context \<Rightarrow> int \<Rightarrow> bool \<Rightarrow> call_resources" where
  "new_resources s prev fg call v ok =
    \<lparr>cr_id = fm_lastGeneratedID (ss_failureManager s) + 1, cr_caller = cc_appID call, cr_gas = forwarded prev fg,
     cr_remainingExternalGas = calculateExternalGas (forwarded prev fg), cr_heapVersion = v, cr_alive = ok\<rparr>"

lemma open_resources_cases:
  assumes "open_resources fg s = (r, s1)" "\<And>x. r \<noteq> Stopped x"
  obtains (low) "r = Thrown (Ascee_exn 521 ''forwarded gas is too low'')" "s1 = s"
  | (opened) prev rest call calls v md where
      "ss_resources s = prev # rest" "cr_alive prev" "ss_calls s = call # calls" "min_clocks < forwarded prev fg"
      "saveVersion (ss_modifier s) = Inr (v, md)" "r = Returned ()"
      "s1 = s\<lparr>ss_failureManager := snd (nextInvocation (ss_failureManager s)), ss_modifier := md,
              ss_resources := new_resources s prev fg call v True # charged prev fg # rest\<rparr>"
  | (failed) prev rest call calls e where
      "ss_resources s = prev # rest" "cr_alive prev" "ss_calls s = call # calls" "min_clocks < forwarded prev fg"
      "saveVersion (ss_modifier s) = Inl e" "r = Thrown (Ascee_exn limit_exceeded ''version limit reached'')"
      "s1 = s\<lparr>ss_failureManager := snd (nextInvocation (ss_failureManager s)),
              ss_resources := new_resources s prev fg call 0 False # charged prev fg # rest\<rparr>"
proof (cases "ss_resources s")
  case Nil
  then have "r = Stopped Undefined" using assms(1) by (simp add: open_resources_def)
  then show ?thesis using assms(2) by blast
next
  case prev: (Cons prev rest)
  show ?thesis
  proof (cases "ss_calls s")
    case Nil
    then have "r = Stopped Undefined" using assms(1) prev by (simp add: open_resources_def)
    then show ?thesis using assms(2) by blast
  next
    case call: (Cons call calls)
    show ?thesis
    proof (cases "cr_alive prev")
      case False
      then have "r = Stopped Undefined" using assms(1) prev call by (simp add: open_resources_def)
      then show ?thesis using assms(2) by blast
    next
      case alive: True
      show ?thesis
      proof (cases "min_clocks < forwarded prev fg")
        case False
        then have "r = Thrown (Ascee_exn 521 ''forwarded gas is too low'') \<and> s1 = s"
          using assms(1) prev call alive by (auto simp: open_resources_def forwarded_def Let_def)
        then show ?thesis using low by blast
      next
        case gas: True
        show ?thesis
        proof (cases "saveVersion (ss_modifier s)")
          case (Inl e)
          show ?thesis
            by (rule failed [OF prev alive call gas Inl])
              (use assms(1) prev call alive gas Inl in \<open>auto simp: open_resources_def forwarded_def Let_def
                nextInvocation_def new_resources_def charged_def\<close>)
        next
          case (Inr y)
          obtain v md where y: "saveVersion (ss_modifier s) = Inr (v, md)" using Inr by (cases y) auto
          show ?thesis
            by (rule opened [OF prev alive call gas y])
              (use assms(1) prev call alive gas y in \<open>auto simp: open_resources_def forwarded_def Let_def
                nextInvocation_def new_resources_def charged_def\<close>)
        qed
      qed
    qed
  qed
qed

lemma close_resources_Returned:
  assumes "close_resources completed s = (Returned u, s3)"
  obtains r prev md where "live (ss_resources s) = r # prev"
    "if completed then md = ss_modifier s else restoreVersion (ss_modifier s) (cr_heapVersion r) = Inr md"
    "s3 = s\<lparr>ss_guardedArea := (if ss_controlled s then False else ss_guardedArea s), ss_resources := prev,
            ss_failureManager := completeInvocation (ss_failureManager s),
            ss_modifier := loadContext md (cr_caller r)\<rparr>"
proof (cases "live (ss_resources s)")
  case Nil
  then have False using assms
    by (auto simp: close_resources_def guarded_def bind_act_def guardArea_def controlled_guardArea_def modify_def split: if_splits)
  then show ?thesis ..
next
  case (Cons r prev)
  show ?thesis
  proof (cases completed)
    case True
    show ?thesis
      by (rule that [OF Cons, of "ss_modifier s"])
        (use assms Cons True in \<open>auto simp: close_resources_def guarded_def bind_act_def guardArea_def unGuard_def
          controlled_guardArea_def controlled_unGuard_def modify_def ret_def load_context_def split: if_splits\<close>)
  next
    case False
    obtain md where md: "restoreVersion (ss_modifier s) (cr_heapVersion r) = Inr md"
      using assms Cons False
      by (cases "restoreVersion (ss_modifier s) (cr_heapVersion r)")
        (auto simp: close_resources_def guarded_def bind_act_def guardArea_def controlled_guardArea_def
          modify_def on_modifier_only_def on_modifier_def lift_result_def stop_def throw_def split: if_splits exn.splits)
    show ?thesis
      by (rule that [OF Cons, of md])
        (use assms Cons False md in \<open>auto simp: close_resources_def guarded_def bind_act_def guardArea_def unGuard_def
          controlled_guardArea_def controlled_unGuard_def modify_def ret_def load_context_def
          on_modifier_only_def on_modifier_def lift_result_def split: if_splits\<close>)
  qed
qed

section \<open>Contexts and entrance locks\<close>

definition locks_held :: "call_context list \<Rightarrow> uint64 \<Rightarrow> nat" where
  "locks_held cs a = length (filter (\<lambda>c. cc_hasLock c \<and> cc_appID c = a) cs)"

lemma locks_held_simps [simp]:
  "locks_held [] a = 0"
  "locks_held (c # cs) a = (if cc_hasLock c \<and> cc_appID c = a then Suc (locks_held cs a) else locks_held cs a)"
  by (simp_all add: locks_held_def)

text \<open>A lock is set exactly while one context of its application holds it.\<close>

definition locks_ok :: "session \<Rightarrow> bool" where
  "locks_ok s \<longleftrightarrow> (\<forall>a. locks_held (ss_calls s) a = of_bool (ss_isLocked s a))"

definition same_calls :: "session \<Rightarrow> session \<Rightarrow> bool" where
  "same_calls s s' \<longleftrightarrow> ss_calls s' = ss_calls s \<and> ss_isLocked s' = ss_isLocked s"

definition same_frames :: "session \<Rightarrow> session \<Rightarrow> bool" where
  "same_frames s s' \<longleftrightarrow>
    (case ss_calls s of
       [] \<Rightarrow> ss_calls s' = []
     | c # cs \<Rightarrow> \<exists>c'. ss_calls s' = c' # cs \<and> cc_appID c' = cc_appID c)"

lemma same_calls_frames: "same_calls s s' \<Longrightarrow> same_frames s s'"
  by (auto simp: same_calls_def same_frames_def split: list.splits)

lemma locks_ok_determined:
  "locks_ok s \<Longrightarrow> locks_ok s' \<Longrightarrow> ss_calls s' = ss_calls s \<Longrightarrow> ss_isLocked s' = ss_isLocked s"
  by (rule ext) (auto simp: locks_ok_def of_bool_def split: if_splits)

lemma locks_ok_eq: "locks_ok s \<Longrightarrow> same_calls s s' \<Longrightarrow> locks_ok s'"
  by (simp add: locks_ok_def same_calls_def)

section \<open>Gas, depth and versions\<close>

definition accounts_ok :: "heap \<Rightarrow> session \<Rightarrow> bool" where
  "accounts_ok h s \<longleftrightarrow> wf_modifier (ss_modifier s) \<and> sized_heap h \<and> 0 \<le> md_version (ss_modifier s) \<and>
    (\<forall>r \<in> set (ss_resources s). 0 \<le> cr_remainingExternalGas r)"

text \<open>The gas a call has forwarded pays for all invocations below it, two thirds of it each.\<close>

definition paid :: "session \<Rightarrow> session \<Rightarrow> bool" where
  "paid s s' \<longleftrightarrow>
    (case live (ss_resources s) of
       [] \<Rightarrow> live (ss_resources s') = [] \<and>
         fm_lastGeneratedID (ss_failureManager s') = fm_lastGeneratedID (ss_failureManager s)
     | r # rs \<Rightarrow> \<exists>g. live (ss_resources s') = r\<lparr>cr_remainingExternalGas := g\<rparr> # rs \<and>
         2 * (fm_lastGeneratedID (ss_failureManager s') - fm_lastGeneratedID (ss_failureManager s))
           \<le> 3 * (cr_remainingExternalGas r - g)) \<and>
    fm_lastGeneratedID (ss_failureManager s) \<le> fm_lastGeneratedID (ss_failureManager s')"

text \<open>The depth comes back to what it was, unless a version could not be saved: then it stays higher.\<close>

definition depth_kept :: "session \<Rightarrow> session \<Rightarrow> bool" where
  "depth_kept s s' \<longleftrightarrow> fm_callDepth (ss_failureManager s) \<le> fm_callDepth (ss_failureManager s')"

definition older_kept :: "heap \<Rightarrow> session \<Rightarrow> session \<Rightarrow> bool" where
  "older_kept h s s' \<longleftrightarrow> md_version (ss_modifier s) \<le> md_version (ss_modifier s') \<and>
    (\<forall>v. v < md_version (ss_modifier s) \<longrightarrow> snapshot h (ss_modifier s') v = snapshot h (ss_modifier s) v)"

definition session_ok :: "heap \<Rightarrow> session \<Rightarrow> bool" where
  "session_ok h s \<longleftrightarrow> locks_ok s \<and> accounts_ok h s"

definition around :: "heap \<Rightarrow> session \<Rightarrow> session \<Rightarrow> bool" where
  "around h s s' \<longleftrightarrow> session_ok h s' \<and> ss_controlled s' = ss_controlled s \<and> same_calls s s' \<and>
    paid s s' \<and> depth_kept s s' \<and> older_kept h s s'"

definition within :: "heap \<Rightarrow> session \<Rightarrow> session \<Rightarrow> bool" where
  "within h s s' \<longleftrightarrow> session_ok h s' \<and> ss_controlled s' = ss_controlled s \<and> same_frames s s' \<and>
    paid s s' \<and> depth_kept s s' \<and> older_kept h s s'"

lemma paid_trans: "paid s s1 \<Longrightarrow> paid s1 s2 \<Longrightarrow> paid s s2"
  by (fastforce simp: paid_def split: list.splits)

lemma paid_refl: "paid s s"
  by (auto simp: paid_def intro!: exI [of _ "cr_remainingExternalGas _"] split: list.splits)

lemma paid_same:
  "ss_resources s' = ss_resources s \<Longrightarrow> ss_failureManager s' = ss_failureManager s \<Longrightarrow> paid s s'"
  using paid_refl [of s] by (cases "live (ss_resources s)") (simp_all add: paid_def)

lemma older_trans: "older_kept h s s1 \<Longrightarrow> older_kept h s1 s2 \<Longrightarrow> older_kept h s s2"
  by (auto simp: older_kept_def)

lemma frames_trans: "same_frames s s1 \<Longrightarrow> same_frames s1 s2 \<Longrightarrow> same_frames s s2"
  by (auto simp: same_frames_def split: list.splits)

lemma around_trans: "around h s s1 \<Longrightarrow> around h s1 s2 \<Longrightarrow> around h s s2"
  using paid_trans older_trans by (auto simp: around_def same_calls_def depth_kept_def)

lemma within_trans: "within h s s1 \<Longrightarrow> within h s1 s2 \<Longrightarrow> within h s s2"
  using paid_trans older_trans frames_trans by (auto simp: within_def depth_kept_def)

lemma around_within: "around h s s' \<Longrightarrow> within h s s'"
  using same_calls_frames by (auto simp: around_def within_def)

text \<open>Steps that touch neither the gas nor the versions.\<close>

lemma accounts_unchanged:
  assumes "session_ok h s" "locks_ok s'" "ss_controlled s' = ss_controlled s" "ss_modifier s' = ss_modifier s"
    "ss_failureManager s' = ss_failureManager s" "ss_resources s' = ss_resources s"
  shows "session_ok h s'" "ss_controlled s' = ss_controlled s" "paid s s'" "depth_kept s s'" "older_kept h s s'"
proof -
  show "session_ok h s'" using assms by (simp add: session_ok_def accounts_ok_def)
  show "paid s s'" using assms by (intro paid_same)
qed (use assms in \<open>simp_all add: depth_kept_def older_kept_def\<close>)

lemma around_simple:
  assumes "session_ok h s"
    "ss_controlled s' = ss_controlled s" "ss_modifier s' = ss_modifier s" "ss_calls s' = ss_calls s"
    "ss_isLocked s' = ss_isLocked s" "ss_failureManager s' = ss_failureManager s" "ss_resources s' = ss_resources s"
  shows "around h s s'"
proof -
  have "same_calls s s'" using assms by (simp add: same_calls_def)
  moreover have "locks_ok s'" using locks_ok_eq calculation assms(1) by (auto simp: session_ok_def)
  ultimately show ?thesis using accounts_unchanged [OF assms(1)] assms by (simp add: around_def)
qed

lemma around_modifier:
  assumes s: "session_ok h s" and wf: "wf_modifier md"
    and v: "md_version (ss_modifier s) \<le> md_version md"
    and old: "\<And>v. v < md_version (ss_modifier s) \<Longrightarrow> snapshot h md v = snapshot h (ss_modifier s) v"
  shows "around h s (s\<lparr>ss_modifier := md\<rparr>)"
proof -
  have "session_ok h (s\<lparr>ss_modifier := md\<rparr>)"
    using s wf v by (auto simp: session_ok_def accounts_ok_def locks_ok_def)
  moreover have "paid s (s\<lparr>ss_modifier := md\<rparr>)" by (rule paid_same) simp_all
  moreover have "older_kept h s (s\<lparr>ss_modifier := md\<rparr>)" using v old by (simp add: older_kept_def)
  ultimately show ?thesis by (simp add: around_def same_calls_def depth_kept_def)
qed


section \<open>The laws of the contract\<close>

lemma around_heap_step:
  assumes s: "session_ok h s" and oper: "plain_op oper" "mod_step h oper (ss_modifier s) = Inr md"
  shows "around h s (s\<lparr>ss_modifier := md\<rparr>)"
proof -
  have wf: "wf_modifier (ss_modifier s) \<and> sized_heap h" using s by (simp add: session_ok_def accounts_ok_def)
  have r: "restores_above v oper" for v using oper(1) by (simp add: plain_op_def restores_above_def split: mod_op.splits)
  note step = mv.step_see [OF wf oper(2)] mv.step_ver [OF wf oper(2) _ r] mv.step_inv [OF wf oper(2)]
  have "md_version (ss_modifier s) - 1 < md_version md" by (rule step(2)) simp
  then have "md_version (ss_modifier s) \<le> md_version md" by linarith
  then show ?thesis using step by (intro around_modifier [OF s]) auto
qed

lemma within_lock:
  assumes s: "session_ok h s" and calls: "ss_calls s = c # cs"
    and other: "\<And>a. a \<noteq> cc_appID c \<Longrightarrow> ss_isLocked s' a = ss_isLocked s a"
    and s': "ss_calls s' = c' # cs" "cc_appID c' = cc_appID c"
    and own: "locks_held (c' # cs) (cc_appID c) = of_bool (ss_isLocked s' (cc_appID c))"
    and rest: "ss_controlled s' = ss_controlled s" "ss_modifier s' = ss_modifier s"
      "ss_failureManager s' = ss_failureManager s" "ss_resources s' = ss_resources s"
  shows "within h s s'"
proof -
  have "locks_held (ss_calls s') a = of_bool (ss_isLocked s' a)" for a
  proof (cases "a = cc_appID c")
    case True
    then show ?thesis using own s' by simp
  next
    case False
    moreover have "locks_held (c # cs) a = of_bool (ss_isLocked s a)"
      using s calls by (simp add: session_ok_def locks_ok_def)
    ultimately show ?thesis using other s' by simp
  qed
  then have "locks_ok s'" by (simp add: locks_ok_def)
  moreover have "same_frames s s'" using calls s' by (simp add: same_frames_def)
  ultimately show ?thesis using accounts_unchanged [OF s _ rest] by (simp add: within_def)
qed

lemma held_current:
  assumes "session_ok h s" "ss_calls s = c # cs"
  shows "locks_held (c # cs) (cc_appID c) = of_bool (ss_isLocked s (cc_appID c))"
  using assms(1) unfolding session_ok_def locks_ok_def assms(2) by blast

lemma context_opened:
  assumes s: "session_ok h s" and calls: "ss_calls s = c # cs"
  shows "session_ok h (s\<lparr>ss_calls := new_context app # c # cs\<rparr>)"
  using assms by (simp add: session_ok_def accounts_ok_def locks_ok_def new_context_def)

lemma context_closed:
  assumes s: "session_ok h s" and calls: "ss_calls s = c # cs"
    and inner: "within h (s\<lparr>ss_calls := new_context app # c # cs\<rparr>) s1"
  shows "\<exists>c1. ss_calls s1 = c1 # c # cs \<and> (\<not> cc_hasLock c1 \<longrightarrow> around h s (s1\<lparr>ss_calls := c # cs\<rparr>))"
proof -
  obtain c1 where c1: "ss_calls s1 = c1 # c # cs" using inner by (auto simp: within_def same_frames_def)
  have "around h s (s1\<lparr>ss_calls := c # cs\<rparr>)" if "\<not> cc_hasLock c1"
  proof -
    let ?s = "s1\<lparr>ss_calls := c # cs\<rparr>"
    have "locks_held (c1 # c # cs) a = locks_held (c # cs) a" for a using that by simp
    then have ok: "locks_ok ?s" using inner c1 by (simp add: within_def session_ok_def locks_ok_def)
    then have "ss_isLocked ?s = ss_isLocked s"
      using s calls by (intro locks_ok_determined) (simp_all add: session_ok_def)
    moreover have "paid s ?s" using inner by (cases "live (ss_resources s)") (simp_all add: within_def paid_def)
    ultimately show ?thesis
      using inner ok calls
      by (simp add: around_def within_def session_ok_def accounts_ok_def same_calls_def depth_kept_def older_kept_def)
  qed
  then show ?thesis using c1 by blast
qed

lemma forwarded_bounds:
  assumes "0 \<le> cr_remainingExternalGas prev"
  shows "0 \<le> forwarded prev fg" "forwarded prev fg \<le> cr_remainingExternalGas prev"
proof -
  let ?g = "cr_remainingExternalGas prev"
  have "0 \<le> ?g * int (unat fg)" using assms by (intro mult_nonneg_nonneg) simp_all
  then show "0 \<le> forwarded prev fg"
    unfolding forwarded_def by (simp only: pos_imp_zdiv_nonneg_iff zero_less_numeral)
  have "int (unat fg) \<le> 256" using unat_byte_lt [of fg] by linarith
  then have "?g * int (unat fg) \<le> ?g * 256" using assms by (intro mult_left_mono)
  then have "?g * int (unat fg) div 256 \<le> ?g * 256 div 256" by (intro zdiv_mono1) simp_all
  then show "forwarded prev fg \<le> ?g" by (simp add: forwarded_def)
qed

lemma saved_version:
  assumes "saveVersion md = Inr (v, md')"
  shows "v = md_version md" "md' = md\<lparr>md_version := md_version md + 1\<rparr>"
  using assms by (auto simp: saveVersion_def split: if_splits)

text \<open>The state in which the new call runs.\<close>

lemma resources_opened:
  assumes s: "session_ok h s" and o: "open_resources fg s = (Returned u, s1)"
  obtains prev rest call calls where
    "ss_resources s = prev # rest" "cr_alive prev" "ss_calls s = call # calls" "1 < forwarded prev fg"
    "s1 = s\<lparr>ss_failureManager := snd (nextInvocation (ss_failureManager s)),
            ss_modifier := (ss_modifier s)\<lparr>md_version := md_version (ss_modifier s) + 1\<rparr>,
            ss_resources := new_resources s prev fg call (md_version (ss_modifier s)) True # charged prev fg # rest\<rparr>"
    "session_ok h s1"
proof -
  have nostop: "Returned u \<noteq> Stopped x" for x by simp
  obtain prev rest call calls v md where f: "ss_resources s = prev # rest" "cr_alive prev" "ss_calls s = call # calls"
      "min_clocks < forwarded prev fg" "saveVersion (ss_modifier s) = Inr (v, md)"
      "s1 = s\<lparr>ss_failureManager := snd (nextInvocation (ss_failureManager s)), ss_modifier := md,
              ss_resources := new_resources s prev fg call v True # charged prev fg # rest\<rparr>"
    by (rule open_resources_cases [OF o nostop]) simp_all
  have prev: "0 \<le> cr_remainingExternalGas prev" "\<forall>r \<in> set rest. 0 \<le> cr_remainingExternalGas r"
    using s f(1) by (simp_all add: session_ok_def accounts_ok_def)
  have "session_ok h s1"
    using s f prev forwarded_bounds [OF prev(1), of fg] saved_version [OF f(5)]
    by (simp add: session_ok_def accounts_ok_def locks_ok_def new_resources_def charged_def calculateExternalGas_def)
  then show ?thesis using that f saved_version [OF f(5)] by (simp add: min_clocks_def)
qed

lemma resources_not_opened:
  assumes s: "session_ok h s" and o: "open_resources fg s = (Thrown e, s1)"
  shows "around h s s1"
proof -
  consider "s1 = s" | prev rest call where "ss_resources s = prev # rest" "cr_alive prev"
      "min_clocks < forwarded prev fg"
      "s1 = s\<lparr>ss_failureManager := snd (nextInvocation (ss_failureManager s)),
              ss_resources := new_resources s prev fg call 0 False # charged prev fg # rest\<rparr>"
    by (rule open_resources_cases [OF o]) simp_all
  then show ?thesis
  proof cases
    case 1
    then show ?thesis using around_simple [OF s] by simp
  next
    case 2
    have prev: "0 \<le> cr_remainingExternalGas prev" "\<forall>r \<in> set rest. 0 \<le> cr_remainingExternalGas r"
      using s 2(1) by (simp_all add: session_ok_def accounts_ok_def)
    note b = forwarded_bounds [OF prev(1), of fg]
    have "session_ok h s1" using s 2 prev b
      by (simp add: session_ok_def accounts_ok_def locks_ok_def new_resources_def charged_def calculateExternalGas_def)
    moreover have "paid s s1" using 2 b
      by (auto simp: paid_def live_def new_resources_def charged_def nextInvocation_def min_clocks_def)
    ultimately show ?thesis using 2
      by (simp add: around_def same_calls_def depth_kept_def older_kept_def new_resources_def charged_def nextInvocation_def)
  qed
qed

text \<open>Closing the resources of a call: the version of an abandoned call is the one before it.\<close>

lemma resources_closed:
  assumes s: "session_ok h s" and o: "open_resources fg s = (Returned u, s1)" and inner: "around h s1 s2"
    and cl: "close_resources completed s2 = (Returned u', s3)"
  shows "around h s s3"
    "\<not> completed \<Longrightarrow> md_version (ss_modifier s3) = md_version (ss_modifier s)"
    "snapshot h (ss_modifier s3) (md_version (ss_modifier s)) = snapshot h (ss_modifier s) (md_version (ss_modifier s))"
proof -
  let ?v = "md_version (ss_modifier s)"
  obtain prev rest call calls where f: "ss_resources s = prev # rest" "cr_alive prev" "ss_calls s = call # calls"
      "1 < forwarded prev fg"
      "s1 = s\<lparr>ss_failureManager := snd (nextInvocation (ss_failureManager s)),
            ss_modifier := (ss_modifier s)\<lparr>md_version := ?v + 1\<rparr>,
            ss_resources := new_resources s prev fg call ?v True # charged prev fg # rest\<rparr>"
    by (rule resources_opened [OF s o])
  let ?new = "new_resources s prev fg call ?v True"
  have l1: "live (ss_resources s1) = ?new # charged prev fg # rest"
    using f(5) by (simp add: live_def new_resources_def)
  obtain g where l2: "live (ss_resources s2) = ?new\<lparr>cr_remainingExternalGas := g\<rparr> # charged prev fg # rest"
    and paid2: "2 * (fm_lastGeneratedID (ss_failureManager s2) - fm_lastGeneratedID (ss_failureManager s1))
      \<le> 3 * (cr_remainingExternalGas ?new - g)"
      "fm_lastGeneratedID (ss_failureManager s1) \<le> fm_lastGeneratedID (ss_failureManager s2)"
    using inner l1 by (auto simp: around_def paid_def)
  have live_set: "set (live rs) \<subseteq> set rs" for rs by (auto simp: live_def dest: set_dropWhileD)
  have res: "\<forall>r \<in> set (live (ss_resources s2)). 0 \<le> cr_remainingExternalGas r"
    using inner live_set by (auto simp: around_def session_ok_def accounts_ok_def)
  then have g: "0 \<le> g" using l2 by simp
  obtain r p md where lr: "live (ss_resources s2) = r # p"
    and md0: "if completed then md = ss_modifier s2 else restoreVersion (ss_modifier s2) (cr_heapVersion r) = Inr md"
    and s30: "s3 = s2\<lparr>ss_guardedArea := (if ss_controlled s2 then False else ss_guardedArea s2),
        ss_resources := p, ss_failureManager := completeInvocation (ss_failureManager s2),
        ss_modifier := loadContext md (cr_caller r)\<rparr>"
    by (rule close_resources_Returned [OF cl])
  have rp: "r = ?new\<lparr>cr_remainingExternalGas := g\<rparr>" "p = charged prev fg # rest" using lr l2 by simp_all
  have md: "if completed then md = ss_modifier s2 else restoreVersion (ss_modifier s2) ?v = Inr md"
    and s3: "s3 = s2\<lparr>ss_guardedArea := (if ss_controlled s2 then False else ss_guardedArea s2),
        ss_resources := charged prev fg # rest, ss_failureManager := completeInvocation (ss_failureManager s2),
        ss_modifier := loadContext md (cr_caller ?new)\<rparr>"
    using md0 s30 unfolding rp by (auto simp: new_resources_def split: if_splits)
  have md2: "wf_modifier (ss_modifier s2)" "?v + 1 \<le> md_version (ss_modifier s2)"
      "\<And>v. v < ?v + 1 \<Longrightarrow> snapshot h (ss_modifier s2) v = snapshot h (ss_modifier s1) v"
    using inner f(5) by (auto simp: around_def session_ok_def accounts_ok_def older_kept_def)
  have md3: "wf_modifier md" "?v \<le> md_version md" "\<And>v. snapshot h md v = snapshot h (ss_modifier s2) v"
      "\<not> completed \<Longrightarrow> md_version md = ?v"
    using md md2 by (auto simp: restoreVersion_def bind_result_Inr_iff split: if_splits)
  obtain x where m3: "ss_modifier s3 = md\<lparr>md_context := x, md_chunk := None\<rparr>"
    using s3 loadContext_only [of md "cr_caller ?new"] by auto
  have wf3: "wf_modifier (ss_modifier s3)" "?v \<le> md_version (ss_modifier s3)"
      "\<And>v. v < ?v + 1 \<Longrightarrow> snapshot h (ss_modifier s3) v = snapshot h (ss_modifier s) v"
    using m3 md3 md2(3) f(5) by simp_all
  have prev: "0 \<le> cr_remainingExternalGas prev" "\<forall>r \<in> set rest. 0 \<le> cr_remainingExternalGas r"
    using s f(1) by (simp_all add: session_ok_def accounts_ok_def)
  note fb = forwarded_bounds [OF prev(1), of fg]
  have v0: "0 \<le> ?v" using s by (simp add: session_ok_def accounts_ok_def)
  have "session_ok h s3"
    using inner s3 wf3(1,2) fb prev v0
    by (simp add: around_def session_ok_def accounts_ok_def locks_ok_def charged_def)
  moreover have "paid s s3"
  proof -
    have "2 * (2 * forwarded prev fg div 3) \<le> 2 * forwarded prev fg * 2 div 3" by linarith
    moreover have "3 * (2 * forwarded prev fg div 3) \<le> 2 * forwarded prev fg" by linarith
    ultimately show ?thesis
      using paid2 g f s3
      by (auto simp: paid_def live_def charged_def new_resources_def calculateExternalGas_def
          nextInvocation_def completeInvocation_def intro!: exI [of _ "cr_remainingExternalGas prev - forwarded prev fg"])
  qed
  moreover have "depth_kept s s3"
    using inner l1 f s3
    by (simp add: around_def depth_kept_def new_resources_def charged_def nextInvocation_def completeInvocation_def)
  moreover have "same_calls s s3" "ss_controlled s3 = ss_controlled s"
    using inner f(5) s3 by (simp_all add: around_def same_calls_def)
  moreover have "older_kept h s s3" using wf3 by (simp add: older_kept_def)
  ultimately show "around h s s3" by (simp add: around_def)
  show "snapshot h (ss_modifier s3) ?v = snapshot h (ss_modifier s) ?v" using wf3 by simp
  show "\<not> completed \<Longrightarrow> md_version (ss_modifier s3) = ?v" using m3 md3(4) by simp
qed


lemma optimistic_opened:
  assumes "session_ok h s" "saveVersion (ss_modifier s) = Inr (v, md)"
  shows "session_ok h (s\<lparr>ss_modifier := md\<rparr>)"
  using assms saved_version [OF assms(2)] by (simp add: session_ok_def accounts_ok_def locks_ok_def)

lemma optimistic_closed:
  assumes s: "session_ok h s" and sv: "saveVersion (ss_modifier s) = Inr (v, md)"
    and inner: "around h (s\<lparr>ss_modifier := md\<rparr>) s1"
  shows "around h s s1"
    "restoreVersion (ss_modifier s1) v = Inr md1 \<Longrightarrow> around h s (s1\<lparr>ss_modifier := md1\<rparr>)"
proof -
  note sv' = saved_version [OF sv]
  have p: "paid s s1" using inner by (cases "live (ss_resources s)") (simp_all add: around_def paid_def)
  have o: "v + 1 \<le> md_version (ss_modifier s1)"
      "\<And>w. w < v + 1 \<Longrightarrow> snapshot h (ss_modifier s1) w = snapshot h (ss_modifier s) w"
    using inner sv' by (auto simp: around_def older_kept_def)
  show a: "around h s s1"
    using inner p o sv' by (auto simp: around_def older_kept_def same_calls_def depth_kept_def)
  show "around h s (s1\<lparr>ss_modifier := md1\<rparr>)" if "restoreVersion (ss_modifier s1) v = Inr md1"
  proof -
    have md1: "md1 = (ss_modifier s1)\<lparr>md_version := v\<rparr>" "0 \<le> v"
      using that by (auto simp: restoreVersion_def bind_result_Inr_iff split: if_splits)
    have "paid s (s1\<lparr>ss_modifier := md1\<rparr>)" using p by (cases "live (ss_resources s)") (simp_all add: paid_def)
    then show ?thesis using a md1 o sv'
      by (auto simp: around_def older_kept_def same_calls_def depth_kept_def session_ok_def accounts_ok_def locks_ok_def)
  qed
qed

interpretation rt: call_contract h "session_ok h" "within h" "around h" for h
proof
  fix s assume "session_ok h s"
  then show "within h s s" "around h s s" using around_simple [of h s s] around_within by simp_all
next
  fix s s1 s2
  show "within h s s1 \<Longrightarrow> within h s1 s2 \<Longrightarrow> within h s s2" by (rule within_trans)
  show "around h s s1 \<Longrightarrow> around h s1 s2 \<Longrightarrow> around h s s2" by (rule around_trans)
next
  fix s s'
  show "within h s s' \<Longrightarrow> session_ok h s'" by (simp add: within_def)
  show "around h s s' \<Longrightarrow> session_ok h s'" by (simp add: around_def)
  show "around h s s' \<Longrightarrow> within h s s'" by (rule around_within)
next
  fix s b assume s: "session_ok h s"
  show a: "around h s (s\<lparr>ss_guardedArea := b\<rparr>)" by (rule around_simple [OF s]) simp_all
  then show "within h s (s\<lparr>ss_guardedArea := b\<rparr>)" by (rule around_within)
next
  fix s sm assume s: "session_ok h s"
  show a: "around h s (s\<lparr>ss_sigManager := sm\<rparr>)" by (rule around_simple [OF s]) simp_all
  then show "within h s (s\<lparr>ss_sigManager := sm\<rparr>)" by (rule around_within)
next
  fix s oper md assume s: "session_ok h s" and o: "plain_op oper" "mod_step h oper (ss_modifier s) = Inr md"
  show a: "around h s (s\<lparr>ss_modifier := md\<rparr>)" by (rule around_heap_step [OF s o])
  then show "within h s (s\<lparr>ss_modifier := md\<rparr>)" by (rule around_within)
next
  fix s c cs assume s: "session_ok h s" and calls: "ss_calls s = c # cs"
  note held = held_current [OF s calls]
  show "within h s (s\<lparr>ss_isLocked := (ss_isLocked s)(cc_appID c := True), ss_calls := c\<lparr>cc_hasLock := True\<rparr> # cs\<rparr>)"
    if "\<not> cc_hasLock c" "\<not> ss_isLocked s (cc_appID c)"
    by (rule within_lock [OF s calls, where c' = "c\<lparr>cc_hasLock := True\<rparr>"]) (use that held in auto)
  show "within h s (s\<lparr>ss_isLocked := (ss_isLocked s)(cc_appID c := False), ss_calls := c\<lparr>cc_hasLock := False\<rparr> # cs\<rparr>)"
    if "cc_hasLock c"
    by (rule within_lock [OF s calls, where c' = "c\<lparr>cc_hasLock := False\<rparr>"]) (use that held in \<open>auto simp: of_bool_def split: if_splits\<close>)
  fix ds
  show "within h s (s\<lparr>ss_calls := c\<lparr>cc_deferredCalls := ds\<rparr> # cs\<rparr>)"
    by (rule within_lock [OF s calls, where c' = "c\<lparr>cc_deferredCalls := ds\<rparr>"]) (use held in auto)
next
  fix s c cs app assume s: "session_ok h s" and calls: "ss_calls s = c # cs" and app: "cc_appID c \<noteq> app"
  show "session_ok h (s\<lparr>ss_calls := new_context app # c # cs\<rparr>)" by (rule context_opened [OF s calls])
  fix s1 assume "within h (s\<lparr>ss_calls := new_context app # c # cs\<rparr>) s1"
  then show "\<exists>c1. ss_calls s1 = c1 # c # cs \<and> (\<not> cc_hasLock c1 \<longrightarrow> around h s (s1\<lparr>ss_calls := c # cs\<rparr>))"
    by (rule context_closed [OF s calls])
next
  fix s fg u s1 assume s: "session_ok h s" and o: "open_resources fg s = (Returned u, s1)"
  show "session_ok h s1" using resources_opened [OF s o] by blast
  fix s2 b u' s3 assume "around h s1 s2" "close_resources b s2 = (Returned u', s3)"
  then show "around h s s3" by (rule resources_closed(1) [OF s o])
next
  fix s fg e s1 assume "session_ok h s" "open_resources fg s = (Thrown e, s1)"
  then show "around h s s1" by (rule resources_not_opened)
next
  fix s v md assume s: "session_ok h s" and sv: "saveVersion (ss_modifier s) = Inr (v, md)"
  show "session_ok h (s\<lparr>ss_modifier := md\<rparr>)" by (rule optimistic_opened [OF s sv])
  fix s1 assume i: "around h (s\<lparr>ss_modifier := md\<rparr>) s1"
  show "around h s s1" by (rule optimistic_closed(1) [OF s sv i])
  fix md1 assume "restoreVersion (ss_modifier s1) v = Inr md1"
  then show "around h s (s1\<lparr>ss_modifier := md1\<rparr>)" by (rule optimistic_closed(2) [OF s sv i])
qed

text \<open>Every call keeps the session around it.\<close>

lemma executeApp_around:
  assumes "session_ok (en_heap env) s"
    and "executeApp (dependant_call n env) fg app resp req s = (r, s')" "\<And>x. r \<noteq> Stopped x"
  shows "around (en_heap env) s s'"
proof -
  have "keeps (session_ok (en_heap env)) (around (en_heap env)) (executeApp (dependant_call n env) fg app resp req)"
    by (intro rt.keeps_executeApp rt.keeps_dependant_call no_signal_dependant_call refl)
  from keepsD [OF this assms] show ?thesis .
qed

lemma dependant_call_around:
  assumes "session_ok (en_heap env) s"
    and "dependant_call n env app resp req s = (r, s')" "\<And>x. r \<noteq> Stopped x"
  shows "around (en_heap env) s s'"
  using keepsD [OF rt.keeps_dependant_call [OF refl] assms] .

lemma invoke_noexcept_around:
  assumes "session_ok (en_heap env) s"
    and "bind_act thread_limits (\<lambda>_. invoke_noexcept (dependant_call n env) app resp req) s = (r, s')"
    and "\<And>x. r \<noteq> Stopped x"
  shows "around (en_heap env) s s'"
proof -
  have "keeps (session_ok (en_heap env)) (around (en_heap env))
      (bind_act thread_limits (\<lambda>_. invoke_noexcept (dependant_call n env) app resp req))"
    by (intro rt.outer.keeps_bind rt.outer.keeps_thread_limits rt.outer.keeps_noexcept rt.keeps_dependant_call refl)
  from keepsD [OF this assms] show ?thesis .
qed

section \<open>What the caller reads after a failed call\<close>

definition heap_at :: "heap \<Rightarrow> session \<Rightarrow> session \<Rightarrow> bool" where
  "heap_at h s s' \<longleftrightarrow> md_version (ss_modifier s') = md_version (ss_modifier s) \<and>
    snapshot h (ss_modifier s') (md_version (ss_modifier s)) = snapshot h (ss_modifier s) (md_version (ss_modifier s))"

lemma heap_at_refl [simp]: "heap_at h s s"
  by (simp add: heap_at_def)

lemma controlled_failed:
  assumes s: "session_ok (en_heap env) s"
    and run: "controlled_executeApp (dependant_call n env) fg app resp req s = (Returned (r, resp'), s')" and r: "400 \<le> r"
  shows "heap_at (en_heap env) s s'"
proof -
  let ?m = "bind_act thread_limits (\<lambda>_. invoke_noexcept (dependant_call n env) app resp req)"
  let ?s = "s\<lparr>ss_guardedArea := True\<rparr>"
  let ?body = "bind_act (open_resources fg) (\<lambda>_. with_destructor ?m (\<lambda>r. close_resources (succeeded r)))"
  have ok: "session_ok (en_heap env) ?s" using rt.outer.eff_ok [OF rt.outer.guard_step [OF s]] .
  obtain r1 s1 where body: "?body ?s = (r1, s1)" by (cases "?body ?s")
  have err: "s2 = s1" if "error_response code msg s1 = (x, s2)" for code msg x s2
    using that by (auto simp: error_response_def bind_act_def current_call_def ret_def lift_result_def stop_def throw_def
        split: list.splits sum.splits exn.splits)
  have catch': "catch_ascee ?body error_response ?s = (Returned (r, resp'), s1)"
    and s': "s' = s1\<lparr>ss_guardedArea := False\<rparr>"
  proof -
    obtain r2 s2 where c: "catch_ascee ?body error_response ?s = (r2, s2)" by (cases "catch_ascee ?body error_response ?s")
    have "r2 = Returned (r, resp') \<and> s' = s2\<lparr>ss_guardedArea := False\<rparr>"
      using run c unfolding controlled_executeApp_def
      by (cases r2) (auto simp: bind_act_def controlled_guardArea_def controlled_unGuard_def modify_def ret_def)
    moreover have "s2 = s1"
      using c body err by (auto simp: catch_ascee_def catch_def throw_def split: outcome.splits call_exn.splits)
    ultimately show "catch_ascee ?body error_response ?s = (Returned (r, resp'), s1)" "s' = s1\<lparr>ss_guardedArea := False\<rparr>"
      using c by simp_all
  qed
  have failed: "r1 \<noteq> Stopped x" "r1 = Returned y \<Longrightarrow> \<not> succeeded (Some y)" for x y
    using catch' body r by (auto simp: catch_ascee_def catch_def succeeded_def)
  obtain r0 s0 where o: "open_resources fg ?s = (r0, s0)" by (cases "open_resources fg ?s")
  have nostop: "r0 \<noteq> Stopped x" for x using o body failed(1) [of x] by (auto simp: bind_act_def)
  have "heap_at (en_heap env) ?s s1"
  proof (cases rule: open_resources_cases [OF o nostop])
    case 1
    then show ?thesis using o body by (simp add: bind_act_def)
  next
    case (2 prev rest call calls v md)
    have o': "open_resources fg ?s = (Returned (), s0)" using o 2(6) by simp
    obtain r2 s2 where m: "?m s0 = (r2, s2)" by (cases "?m s0")
    have w: "with_destructor ?m (\<lambda>r. close_resources (succeeded r)) s0 = (r1, s1)"
      using body o' by (simp add: bind_act_def)
    have ns: "r2 \<noteq> Stopped x" for x using w m failed(1) [of x] by (auto simp: with_destructor_def)
    have sig: "r2 \<noteq> Signalled g" for g using no_signal_thread m by (auto simp: no_signal_def)
    have "session_ok (en_heap env) s0" using resources_opened [OF ok o'] by blast
    then have inner: "around (en_heap env) s0 s2" by (rule invoke_noexcept_around [OF _ m ns])
    obtain b u where cl: "close_resources b s2 = (Returned u, s1)" and "\<not> b"
    proof (cases r2)
      case (Returned y)
      have "\<exists>u. close_resources (succeeded (Some y)) s2 = (Returned u, s1) \<and> r1 = Returned y"
        using w m Returned failed(1)
        by (auto simp: with_destructor_def Let_def split: outcome.splits prod.splits)
      then show ?thesis using that failed(2) by blast
    next
      case (Thrown e)
      have "\<exists>u. close_resources (succeeded None) s2 = (Returned u, s1)"
        using w m Thrown failed(1)
        by (auto simp: with_destructor_def Let_def split: outcome.splits prod.splits)
      then show ?thesis using that by (auto simp: succeeded_def)
    qed (use ns sig in auto)
    then show ?thesis using resources_closed(2,3) [OF ok o' inner cl] by (simp add: heap_at_def)
  next
    case (3 prev rest call calls e)
    then show ?thesis using o body by (auto simp: bind_act_def heap_at_def)
  qed
  then show ?thesis using s' by (simp add: heap_at_def)
qed

end
