(* ===== verification/Requests.thy ===== *)
theory Requests
  imports Calls
begin

text \<open>
  What a request can rely on: a failed call is rolled back, its gas bounds the number of invocations, the
  depth of calls bounds the recursion unless contracts defer calls to each other, entrance locks
  exclude each other, a virtual signature is used once; and the ways in which contracts can go on for
  ever or stop the whole process.
\<close>

section \<open>A request\<close>

lemma close_root:
  assumes "close_context s = (r, s')" "ss_calls s = [c]"
  shows "ss_calls s' = []" "ss_failureManager s' = ss_failureManager s" "ss_resources s' = ss_resources s"
    "ss_modifier s' = ss_modifier s" "\<exists>u. r = Returned u"
  using assms
  by (auto simp: close_context_def exit_area_def guarded_def bind_act_def guardArea_def unGuard_def
      controlled_guardArea_def controlled_unGuard_def current_call_def modify_def set_current_call_def ret_def
      split: if_splits)

definition root_session :: "app_request \<Rightarrow> session" where
  "root_session req =
    (start_session req)\<lparr>
      ss_failureManager := snd (nextInvocation (ar_failureManager req)),
      ss_resources := [\<lparr>cr_id = fm_lastGeneratedID (ar_failureManager req) + 1, cr_caller = 0, cr_gas = 0,
        cr_remainingExternalGas = ar_maxClocks req, cr_heapVersion = 0, cr_alive = True\<rparr>],
      ss_calls := [new_context 0]\<rparr>"

definition request_ok :: "heap \<Rightarrow> app_request \<Rightarrow> bool" where
  "request_ok h req \<longleftrightarrow> wf_modifier (ar_modifier req) \<and> sized_heap h \<and> 0 \<le> md_version (ar_modifier req) \<and>
    0 \<le> ar_maxClocks req \<and> ar_useControlledExecution req"

lemma root_session_ok: "request_ok h req \<Longrightarrow> session_ok h (root_session req)"
  by (simp add: request_ok_def session_ok_def accounts_ok_def locks_ok_def root_session_def start_session_def
      new_context_def)

lemma execute_request_root:
  assumes "ar_useControlledExecution req"
  shows "execute_request n env req (start_session req) =
    with_destructor
      (with_destructor (executeApp (dependant_call n env) 255 (ar_calledAppID req) [] (ar_httpRequest req)) (\<lambda>_. close_context))
      (\<lambda>r. close_resources (r \<noteq> None)) (root_session req)"
proof -
  have "bind_act root_context f s = f () (s\<lparr>ss_calls := [new_context 0]\<rparr>)" for f :: "unit \<Rightarrow> (int \<times> string) act" and s
    by (simp add: bind_act_def root_context_def modify_def new_context_def)
  then have wd: "with_destructor (bind_act root_context f) d s = with_destructor (f ()) d (s\<lparr>ss_calls := [new_context 0]\<rparr>)"
    for f :: "unit \<Rightarrow> (int \<times> string) act" and d s
    by (simp add: with_destructor_def)
  show ?thesis
    using assms
    by (simp add: execute_request_def)
      (simp add: wd bind_act_def root_resources_def modify_def root_session_def start_session_def nextInvocation_def)
qed

text \<open>The first call of a request and what is left of it when the request has returned.\<close>

lemma request_returned:
  assumes ok: "request_ok (en_heap env) req"
    and run: "execute_request n env req (start_session req) = (Returned r, s')"
  obtains s1 where
    "executeApp (dependant_call n env) 255 (ar_calledAppID req) [] (ar_httpRequest req) (root_session req) = (Returned r, s1)"
    "around (en_heap env) (root_session req) s1"
    "fm_lastGeneratedID (ss_failureManager s') = fm_lastGeneratedID (ss_failureManager s1)"
    "ss_calls s' = []"
proof -
  let ?m = "executeApp (dependant_call n env) 255 (ar_calledAppID req) [] (ar_httpRequest req)"
  have run': "with_destructor (with_destructor ?m (\<lambda>_. close_context)) (\<lambda>r. close_resources (r \<noteq> None)) (root_session req)
      = (Returned r, s')"
    using run ok execute_request_root by (simp add: request_ok_def)
  obtain r1 s1 where m: "?m (root_session req) = (r1, s1)" by (cases "?m (root_session req)")
  have r1: "r1 = Returned r"
    using run' m by (cases r1) (auto simp: with_destructor_def Let_def split: outcome.splits prod.splits)
  have a: "around (en_heap env) (root_session req) s1"
    using executeApp_around [OF root_session_ok [OF ok] m] r1 by simp
  then have calls: "ss_calls s1 = [new_context 0]" by (simp add: around_def same_calls_def root_session_def)
  obtain u2 s2 where c: "close_context s1 = (Returned u2, s2)"
    using close_root(5) [OF _ calls] by (cases "close_context s1") auto
  note c' = close_root [OF c calls]
  have cl: "\<exists>u. close_resources True s2 = (Returned u, s')"
    using run' m r1 c by (auto simp: with_destructor_def Let_def split: outcome.splits prod.splits)
  then obtain u3 where "close_resources True s2 = (Returned u3, s')" by blast
  then have "fm_lastGeneratedID (ss_failureManager s') = fm_lastGeneratedID (ss_failureManager s2)" "ss_calls s' = ss_calls s2"
    by (auto elim!: close_resources_Returned simp: completeInvocation_def)
  then show ?thesis using that m r1 a c' by simp
qed

section \<open>Samples\<close>

text \<open>Contract 7 writes to its chunk and reverts with its request; contract 8 calls contract 7 and
  returns its response; contract 9 enters its area and calls itself through contract 10.\<close>

definition demo_env :: environment where
  "demo_env =
    \<lparr>en_heap = sample_heap,
     en_callTable = \<lparr>osm_keys = [7, 8, 9, 10], osm_values =
       [Some (\<lambda>_ request. Call (Load_local_chunk 9) (\<lambda>_. Call (Store_int16 0 99) (\<lambda>_. Call (Revert request) (\<lambda>_. App_return 200 [])))),
        Some (\<lambda>_ request. Invoke 128 7 [] request (\<lambda>_ response. App_return 200 response)),
        Some (\<lambda>_ request. Call Enter_area (\<lambda>_. Invoke 200 10 [] [] (\<lambda>_ response. App_return 200 response))),
        Some (\<lambda>_ request. Invoke 200 9 [] [] (\<lambda>_ response. App_return 200 response))]\<rparr>,
     en_what = (\<lambda>_. [])\<rparr>"

definition demo_request :: "uint64 \<Rightarrow> string \<Rightarrow> app_request" where
  "demo_request app text =
    \<lparr>ar_calledAppID = app, ar_httpRequest = text, ar_maxClocks = 1000,
     ar_modifier = sample_modifier\<lparr>md_version := 0, md_chunk := None, md_context := None\<rparr>,
     ar_useControlledExecution = True, ar_failureManager = FailureManager [] [],
     ar_signatureManager = VirtualSignatureManager []\<rparr>"

lemma demo_ok: "request_ok sample_heap (demo_request app text)"
  using wf_sample_modifier wf_chunk_sized wf_sample_heap
  by (simp add: request_ok_def demo_request_def)

section \<open>The properties\<close>

text \<open>C3: When a controlled call fails, whatever the called contract and the contracts it has called did,
  the caller finds every byte and every chunk size as before the call, the same version, the same
  chain of contexts and the same entrance locks. (Versions that the failed call has added stay in the blocks, unseen at
  the version of the caller.)\<close>

theorem failed_call_rolled_back:
  assumes "session_ok (en_heap env) s" "ss_controlled s"
    and "executeApp (dependant_call n env) fg app resp req s = (Returned (status, resp'), s')" "400 \<le> status"
  shows "ss_calls s' = ss_calls s \<and> ss_isLocked s' = ss_isLocked s \<and>
    md_version (ss_modifier s') = md_version (ss_modifier s) \<and>
    (\<forall>p offset i k. bytes_at (ss_modifier s') (en_heap env) p offset i k = bytes_at (ss_modifier s) (en_heap env) p offset i k) \<and>
    (\<forall>p. size_at (ss_modifier s') (en_heap env) p = size_at (ss_modifier s) (en_heap env) p)"
proof -
  let ?h = "en_heap env"
  have a: "around ?h s s'" using executeApp_around [OF assms(1,3)] by simp
  have at: "heap_at ?h s s'"
    by (rule controlled_failed [OF assms(1) _ assms(4)]) (use assms(2,3) in \<open>simp add: executeApp_def\<close>)
  have wf: "wf_modifier (ss_modifier s)" "wf_modifier (ss_modifier s')" "sized_heap ?h"
    using assms(1) a by (simp_all add: around_def session_ok_def accounts_ok_def)
  have see: "snapshot ?h (ss_modifier s') (md_version (ss_modifier s')) = snapshot ?h (ss_modifier s) (md_version (ss_modifier s))"
    using at by (simp add: heap_at_def)
  have ver: "md_version (ss_modifier s') = md_version (ss_modifier s)" using at by (simp add: heap_at_def)
  have "bytes_at (ss_modifier s') ?h p offset i k = bytes_at (ss_modifier s) ?h p offset i k" for p offset i k
    unfolding bytes_at_snapshot [OF wf(1)] bytes_at_snapshot [OF wf(2)] see unfolding ver ..
  moreover have "size_at (ss_modifier s') ?h p = size_at (ss_modifier s) ?h p" for p
    unfolding size_at_snapshot [OF wf(1,3)] size_at_snapshot [OF wf(2,3)] see unfolding ver ..
  ultimately show ?thesis using a ver by (auto simp: around_def same_calls_def)
qed

text \<open>C13: A request in controlled execution makes at most one and a half times as many calls with gas as it has clocks,
  and it leaves no context behind. (A deferred call gets no gas and no identifier of its own and is not counted, and an
  optimistic request, which calls without charging gas, is not bounded.)\<close>

theorem invocations_bounded_by_gas:
  assumes "request_ok (en_heap env) req"
    and "execute_request n env req (start_session req) = (Returned r, s')"
  shows "2 * (fm_lastGeneratedID (ss_failureManager s') - (fm_lastGeneratedID (ar_failureManager req) + 1))
      \<le> 3 * ar_maxClocks req \<and> ss_calls s' = []"
proof -
  obtain s1 where a: "around (en_heap env) (root_session req) s1"
    and ident: "fm_lastGeneratedID (ss_failureManager s') = fm_lastGeneratedID (ss_failureManager s1)"
    and calls: "ss_calls s' = []"
    by (rule request_returned [OF assms])
  let ?r = "\<lparr>cr_id = fm_lastGeneratedID (ar_failureManager req) + 1, cr_caller = 0, cr_gas = 0,
        cr_remainingExternalGas = ar_maxClocks req, cr_heapVersion = 0, cr_alive = True\<rparr>"
  have "live (ss_resources (root_session req)) = [?r]" by (simp add: root_session_def live_def)
  then obtain g where g: "live (ss_resources s1) = [?r\<lparr>cr_remainingExternalGas := g\<rparr>]"
    "2 * (fm_lastGeneratedID (ss_failureManager s1) - fm_lastGeneratedID (ss_failureManager (root_session req)))
      \<le> 3 * (ar_maxClocks req - g)"
    using a by (auto simp: around_def paid_def)
  have "?r\<lparr>cr_remainingExternalGas := g\<rparr> \<in> set (ss_resources s1)"
    using g(1) by (metis list.set_intros(1) live_def set_dropWhileD)
  then have "0 \<le> g" using a by (force simp: around_def session_ok_def accounts_ok_def)
  then show ?thesis using g(2) ident calls by (simp add: root_session_def nextInvocation_def)
qed

section \<open>Enough fuel\<close>

text \<open>The contract never defers a call.\<close>

primrec no_deferral :: "app \<Rightarrow> bool" where
  "no_deferral (App_return r response) = True"
| "no_deferral (App_throw e) = True"
| "no_deferral (App_signal g) = True"
| "no_deferral (Call c k) = ((case c of Invoke_deferred _ _ \<Rightarrow> False | _ \<Rightarrow> True) \<and> (\<forall>v. no_deferral (k v)))"
| "no_deferral (Invoke gas app_id response request k) = (\<forall>r response'. no_deferral (k r response'))"

definition deferral_free :: "environment \<Rightarrow> bool" where
  "deferral_free env \<longleftrightarrow> (\<forall>app d response request.
    osm_at (en_callTable env) app = Inr (Some d) \<longrightarrow> no_deferral (d response request))"

text \<open>Functions that do not use fuel.\<close>

definition fuel_free :: "'a act \<Rightarrow> bool" where
  "fuel_free m \<longleftrightarrow> (\<forall>s s'. m s \<noteq> (Stopped Out_of_fuel, s'))"

lemma fuel_free_basic:
  "fuel_free (ret x)" "fuel_free (throw e)" "y \<noteq> Out_of_fuel \<Longrightarrow> fuel_free (stop y)" "fuel_free (modify f)"
  "fuel_free guardArea" "fuel_free unGuard" "fuel_free current_call" "fuel_free (set_current_call f')"
  "fuel_free (lift_result r)" "fuel_free (load_context app)"
  by (auto simp: fuel_free_def ret_def throw_def stop_def modify_def guardArea_def unGuard_def
      controlled_guardArea_def controlled_unGuard_def current_call_def set_current_call_def
      lift_result_def load_context_def split: list.splits sum.splits exn.splits)

lemma fuel_free_bind: "fuel_free m \<Longrightarrow> (\<And>x. fuel_free (f x)) \<Longrightarrow> fuel_free (bind_act m f)"
  by (auto simp: fuel_free_def bind_act_def split: prod.splits outcome.splits)

lemma fuel_free_destructor: "fuel_free m \<Longrightarrow> (\<And>x. fuel_free (d x)) \<Longrightarrow> fuel_free (with_destructor m d)"
  by (auto simp: fuel_free_def with_destructor_def Let_def split: prod.splits outcome.splits)

lemma fuel_free_on_modifier: "fuel_free (on_modifier f)"
  by (auto simp: fuel_free_def on_modifier_def bind_act_def lift_result_def ret_def throw_def stop_def
      split: sum.splits exn.splits prod.splits)

lemma fuel_free_on_modifier_only: "fuel_free (on_modifier_only f)"
  unfolding on_modifier_only_def by (rule fuel_free_on_modifier)

lemma fuel_free_guarded: "fuel_free m \<Longrightarrow> fuel_free (guarded m)"
  unfolding guarded_def by (intro fuel_free_basic fuel_free_bind)

lemma fuel_free_throw_error: "fuel_free (throw_error code msg)"
  unfolding throw_error_def by (intro fuel_free_basic fuel_free_bind)

lemma fuel_free_signatures:
  "fuel_free (sig_verify msg issuer i)" "fuel_free (sig_verifyAndInvalidate msg issuer i)" "fuel_free (sig_sign msg issuer)"
  by (auto simp: fuel_free_def sig_verify_def sig_verifyAndInvalidate_def sig_sign_def split: prod.splits sum.splits)

lemmas fuel_free_intros = fuel_free_basic fuel_free_bind fuel_free_destructor fuel_free_on_modifier
  fuel_free_on_modifier_only fuel_free_guarded fuel_free_throw_error fuel_free_signatures

lemma fuel_free_enter_area: "fuel_free enter_area"
proof -
  have "fuel_free (guarded (bind_act (modify f) (\<lambda>_. set_current_call g)))" for f g
    by (intro fuel_free_intros)
  then have "(\<lambda>s. if ss_isLocked s a then throw_error c m s else guarded (bind_act (modify f) (\<lambda>_. set_current_call g)) s) t
      \<noteq> (Stopped Out_of_fuel, s')" for a c m f g t s'
    using fuel_free_throw_error [of c m] by (auto simp: fuel_free_def)
  then have "fuel_free (\<lambda>s. if ss_isLocked s a then throw_error c m s else guarded (bind_act (modify f) (\<lambda>_. set_current_call g)) s)"
    for a c m f g by (simp add: fuel_free_def)
  then show ?thesis unfolding enter_area_def by (auto intro!: fuel_free_intros)
qed

lemma fuel_free_exit_area: "fuel_free exit_area"
  unfolding exit_area_def by (auto intro!: fuel_free_intros)

lemma fuel_free_auth:
  "fuel_free (load_uint16 h o')" "fuel_free (store_uint16 h o' v)"
  "fuel_free (verifyWithMultiwayNonce h n issuer spender msg i inval)"
  "fuel_free (verifyByApp issuer spender msg i inval)"
  unfolding load_uint16_def store_uint16_def verifyWithMultiwayNonce_def verifyByApp_def Let_def
  by (auto intro!: fuel_free_intros)

lemma fuel_free_in_context: "(\<And>c. fuel_free (body c)) \<Longrightarrow> fuel_free (in_context body)"
  unfolding in_context_def by (intro fuel_free_intros)

lemma fuel_free_byAccount: "fuel_free (verifyByAccount h issuer msg i b inval)"
  unfolding verifyByAccount_def Let_def
  by (auto intro!: fuel_free_in_context fuel_free_intros fuel_free_auth)

lemma fuel_free_virtual_sign: "fuel_free (virtual_sign h issuer msg)"
  unfolding virtual_sign_def virtual_sign_error_def
  by (auto intro!: fuel_free_in_context fuel_free_intros fuel_free_auth)

lemma fuel_free_run_argc: "fuel_free (run_argc h c)"
  by (cases c) (auto simp: map_act_def revert_def verify_by_acc_once_def verify_by_acc_def load_int64_def invalid_def
      load_local_chunk_def load_account_chunk_def store_int64_def store_int16_def store_pk_def add_int64_to_def
      resize_chunk_def get_chunk_size_def invoke_deferred_def
      intro!: fuel_free_intros fuel_free_enter_area fuel_free_exit_area fuel_free_byAccount fuel_free_virtual_sign)

lemma fuel_free_call_parts:
  "fuel_free (check_app env app)" "fuel_free (check_jump j)" "fuel_free (open_context app)" "fuel_free close_context"
  "fuel_free (open_resources fg)" "fuel_free (close_resources b)" "fuel_free thread_limits" "fuel_free (error_response c m)"
  "fuel_free controlled_guardArea" "fuel_free controlled_unGuard"
proof -
  show "fuel_free (check_app env app)" "fuel_free (check_jump j)" "fuel_free (open_context app)" "fuel_free (error_response c m)"
    "fuel_free controlled_guardArea" "fuel_free controlled_unGuard"
    unfolding check_app_def check_jump_def open_context_def error_response_eq controlled_guardArea_def controlled_unGuard_def
    by (auto intro!: fuel_free_intros split: option.splits call_exn.splits)
  show "fuel_free (open_resources fg)" "fuel_free thread_limits"
    by (auto simp: fuel_free_def open_resources_def thread_limits_def Let_def nextInvocation_def
        split: list.splits sum.splits prod.splits if_splits)
  have c: "fuel_free (bind_act (ret ()) (\<lambda>_. modify f))" "fuel_free (bind_act (load_context a) (\<lambda>_. modify f))" for f a
    by (auto intro!: fuel_free_intros)
  have "fuel_free (\<lambda>s. case ss_calls s of
        [] \<Rightarrow> (Stopped Undefined, s)
      | c # rest \<Rightarrow>
          bind_act (case rest of [] \<Rightarrow> ret () | prev # _ \<Rightarrow> load_context (cc_appID prev)) (\<lambda>_.
            modify (\<lambda>s. s\<lparr>ss_calls := rest\<rparr>)) s)"
    unfolding fuel_free_def
    by (intro allI) (use c in \<open>auto simp: fuel_free_def split: list.splits\<close>)
  then show "fuel_free close_context"
    unfolding close_context_def by (intro fuel_free_guarded fuel_free_bind fuel_free_exit_area)
  have r: "fuel_free (bind_act (modify f) (\<lambda>_. bind_act (if b then ret () else on_modifier_only g) (\<lambda>_. load_context a)))"
    for f g a
    by (auto intro!: fuel_free_intros)
  show "fuel_free (close_resources b)"
    unfolding close_resources_def
    by (rule fuel_free_guarded, unfold fuel_free_def) (use r in \<open>auto simp: fuel_free_def split: list.splits\<close>)
qed

text \<open>Only \<^verbatim>\<open>invoke_deferred\<close> adds to the deferred calls.\<close>

definition same_deferred :: "session \<Rightarrow> session \<Rightarrow> bool" where
  "same_deferred s s' \<longleftrightarrow> map cc_deferredCalls (ss_calls s') = map cc_deferredCalls (ss_calls s)"

interpretation df: session_relation h "\<lambda>_. True" same_deferred for h
  by unfold_locales (simp_all add: same_deferred_def)

lemma same_deferred_locks: "keeps (\<lambda>_. True) same_deferred enter_area" "keeps (\<lambda>_. True) same_deferred exit_area"
  by (rule keepsI; auto simp: same_deferred_def enter_area_def exit_area_def guarded_def bind_act_def guardArea_def unGuard_def
      controlled_guardArea_def controlled_unGuard_def current_call_def modify_def set_current_call_def ret_def
      throw_error_def throw_def split: list.splits if_splits)+

lemma run_argc_deferred:
  "(case c of Invoke_deferred _ _ \<Rightarrow> False | _ \<Rightarrow> True) \<Longrightarrow> keeps (\<lambda>_. True) same_deferred (run_argc h c)"
  by (cases c) (auto simp: map_act_def revert_def verify_by_acc_once_def verify_by_acc_def
      intro!: df.keeps_basic df.keeps_heap same_deferred_locks df.keeps_byAccount df.keeps_virtual_sign split: prod.splits)

text \<open>The states in which a call at depth at least \<open>d\<close> runs.\<close>

definition at_depth :: "heap \<Rightarrow> int \<Rightarrow> session \<Rightarrow> bool" where
  "at_depth h d s \<longleftrightarrow> session_ok h s \<and> ss_controlled s \<and> d \<le> fm_callDepth (ss_failureManager s) \<and>
    (\<exists>c cs. ss_calls s = c # cs \<and> cc_deferredCalls c = [])"

lemma at_depth_within:
  assumes "at_depth h d s" "within h s s'" "same_deferred s s'"
  shows "at_depth h d s'"
  using assms by (auto simp: at_depth_def within_def same_frames_def depth_kept_def same_deferred_def)

lemma at_depth_around:
  assumes "at_depth h d s" "around h s s'" shows "at_depth h d s'"
  using assms by (auto simp: at_depth_def around_def same_calls_def depth_kept_def)

lemma run_app_returns:
  assumes inv: "\<And>gas app resp req s. at_depth h d s \<Longrightarrow> fst (invoke gas app resp req s) \<noteq> Stopped Out_of_fuel"
    and keep: "\<And>gas app resp req. keeps (session_ok h) (around h) (invoke gas app resp req)"
    and p: "no_deferral p" and s: "at_depth h d s"
  shows "fst (run_app h invoke p s) \<noteq> Stopped Out_of_fuel \<and>
    (\<forall>r s'. run_app h invoke p s = (r, s') \<longrightarrow> (\<forall>x. r \<noteq> Stopped x) \<longrightarrow> at_depth h d s')"
  using p s
proof (induction p arbitrary: s)
  case (App_return r response)
  then show ?case by (simp add: ret_def)
next
  case (App_throw e)
  then show ?case by (simp add: throw_def)
next
  case (App_signal g)
  then show ?case by (simp add: raise_signal_def)
next
  case (Call c k)
  obtain r1 s1 where run: "run_argc h c s = (r1, s1)" by (cases "run_argc h c s")
  have ff: "r1 \<noteq> Stopped Out_of_fuel" using fuel_free_run_argc run by (auto simp: fuel_free_def)
  have s1: "at_depth h d s1" if "\<And>x. r1 \<noteq> Stopped x"
  proof (rule at_depth_within [OF Call.prems(2)])
    show "within h s s1"
      using keepsD [OF rt.keeps_run_argc _ run that] Call.prems(2) by (simp add: at_depth_def)
    show "same_deferred s s1"
      using keepsD [OF run_argc_deferred _ run that] Call.prems(1) by simp
  qed
  have IH: "fst (run_app h invoke (k v) s1) \<noteq> Stopped Out_of_fuel \<and>
      (\<forall>r s'. run_app h invoke (k v) s1 = (r, s') \<longrightarrow> (\<forall>x. r \<noteq> Stopped x) \<longrightarrow> at_depth h d s')"
    if "r1 = Returned v" for v
    by (rule Call.IH) (use Call.prems s1 that in auto)
  show ?case
  proof (cases r1)
    case (Returned v)
    then show ?thesis using IH run by (simp add: bind_act_def)
  qed (use run ff s1 in \<open>auto simp: bind_act_def\<close>)
next
  case (Invoke gas app_id response request k)
  obtain r1 s1 where run: "invoke gas app_id response request s = (r1, s1)"
    by (cases "invoke gas app_id response request s")
  have ff: "r1 \<noteq> Stopped Out_of_fuel" using inv [OF Invoke.prems(2), of gas app_id response request] run by simp
  have s1: "at_depth h d s1" if "\<And>x. r1 \<noteq> Stopped x"
    using at_depth_around [OF Invoke.prems(2)] keepsD [OF keep _ run that] Invoke.prems(2) by (simp add: at_depth_def)
  have IH: "fst (run_app h invoke (k a b) s1) \<noteq> Stopped Out_of_fuel \<and>
      (\<forall>r s'. run_app h invoke (k a b) s1 = (r, s') \<longrightarrow> (\<forall>x. r \<noteq> Stopped x) \<longrightarrow> at_depth h d s')"
    if "r1 = Returned (a, b)" for a b
    by (rule Invoke.IH) (use Invoke.prems s1 that in auto)
  show ?case
  proof (cases r1)
    case (Returned v)
    obtain a b where "v = (a, b)" by (cases v)
    then show ?thesis using IH run Returned by (simp add: bind_act_def)
  qed (use run ff s1 in \<open>auto simp: bind_act_def\<close>)
qed

text \<open>Running \<open>m\<close> in one state does not use up the fuel.\<close>

definition returns_at :: "'a act \<Rightarrow> session \<Rightarrow> bool" where
  "returns_at m s \<longleftrightarrow> fst (m s) \<noteq> Stopped Out_of_fuel"

lemma returns_fuel_free: "fuel_free m \<Longrightarrow> returns_at m s"
  by (cases "m s") (auto simp: fuel_free_def returns_at_def)

lemma returns_bind:
  assumes "returns_at m s" "\<And>x s'. m s = (Returned x, s') \<Longrightarrow> returns_at (f x) s'"
  shows "returns_at (bind_act m f) s"
  using assms by (auto simp: returns_at_def bind_act_def split: prod.splits outcome.splits)

lemma returns_destructor:
  assumes "returns_at m s" "\<And>x. fuel_free (d x)"
  shows "returns_at (with_destructor m d) s"
  using assms by (auto simp: returns_at_def with_destructor_def fuel_free_def Let_def split: prod.splits outcome.splits)

lemma returns_catch:
  assumes "returns_at m s" "\<And>c x. fuel_free (f c x)"
  shows "returns_at (catch_ascee m f) s"
proof -
  have f: "fst (f c x s') \<noteq> Stopped Out_of_fuel" for c x s'
    using returns_fuel_free [OF assms(2)] by (simp add: returns_at_def)
  show ?thesis
  proof (cases "m s")
    case (Pair r s1)
    then show ?thesis
      using assms(1) f by (cases r) (auto simp: returns_at_def catch_ascee_def catch_def throw_def split: call_exn.splits)
  qed
qed

lemma returns_noexcept: "returns_at (dep app resp req) s \<Longrightarrow> returns_at (invoke_noexcept dep app resp req) s"
  by (auto simp: returns_at_def invoke_noexcept_def split: prod.splits outcome.splits call_exn.splits sum.splits exn.splits)


lemma returns_top: "\<lbrakk>ss_calls s = c # cs; cc_deferredCalls c = []\<rbrakk> \<Longrightarrow>
  returns_at (bind_act current_call (\<lambda>c. bind_act (run_deferred dep (cc_deferredCalls c)) (\<lambda>_. bind_act unGuard (\<lambda>_. ret x)))) s"
  using returns_fuel_free [OF fuel_free_bind [OF fuel_free_basic(6) fuel_free_basic(1)], of _ s]
  by (simp add: returns_at_def bind_act_def [of current_call] current_call_def ret_def [of "()"] bind_act_def [of "ret ()"])

lemma fuel_free_lets: "fuel_free (if b then throw_error code msg else ret ())"
  by (simp add: fuel_free_basic fuel_free_throw_error)

lemma run_resources_returns:
  assumes A: "\<And>s. session_ok h s \<Longrightarrow> ss_controlled s \<Longrightarrow> fm_callDepth (ss_failureManager s) = d + 1 \<Longrightarrow>
      d + 1 \<le> MAX_CALL_DEPTH \<Longrightarrow> returns_at m s"
    and s: "session_ok h s" "ss_controlled s" "fm_callDepth (ss_failureManager s) = d"
  shows "returns_at (bind_act (open_resources fg) (\<lambda>_. with_destructor (bind_act thread_limits (\<lambda>_. m)) (\<lambda>r. close_resources (f r)))) s"
proof (rule returns_bind)
  show "returns_at (open_resources fg) s" by (rule returns_fuel_free [OF fuel_free_call_parts(5)])
  fix u s1 assume o: "open_resources fg s = (Returned u, s1)"
  have s1: "session_ok h s1" "ss_controlled s1" "fm_callDepth (ss_failureManager s1) = d + 1"
    by (rule resources_opened [OF s(1) o]; use s in \<open>simp add: nextInvocation_def\<close>)+
  show "returns_at (with_destructor (bind_act thread_limits (\<lambda>_. m)) (\<lambda>r. close_resources (f r))) s1"
  proof (rule returns_destructor)
    show "fuel_free (close_resources (f r))" for r by (rule fuel_free_call_parts(6))
    show "returns_at (bind_act thread_limits (\<lambda>_. m)) s1"
    proof (rule returns_bind)
      show "returns_at thread_limits s1" by (rule returns_fuel_free [OF fuel_free_call_parts(7)])
      fix x s2 assume l: "thread_limits s1 = (Returned x, s2)"
      have "s2 = s1" "fm_callDepth (ss_failureManager s1) \<le> MAX_CALL_DEPTH"
        using l by (auto simp: thread_limits_def getStackSize_def split: list.splits sum.splits if_splits)
      then show "returns_at m s2" using A [OF s1] s1(3) by simp
    qed
  qed
qed

lemma returns_rest:
  assumes c: "ss_calls s = c # cs" "cc_deferredCalls c = []"
  shows "returns_at (bind_act (if b then throw_error code msg else ret ()) (\<lambda>_.
       bind_act (check_jump j) (\<lambda>_. bind_act exit_area (\<lambda>_. bind_act current_call (\<lambda>c.
       bind_act (run_deferred dep (cc_deferredCalls c)) (\<lambda>_. bind_act unGuard (\<lambda>_. ret x))))))) s"
proof -
  let ?top = "\<lambda>s. \<exists>c cs. ss_calls s = c # cs \<and> cc_deferredCalls c = []"
  have keep: "?top s'" if "?top s" "keeps (\<lambda>_. True) same_deferred m" "m s = (Returned y, s')" for s s' y and m :: "'b act"
    using keepsD [OF that(2) TrueI that(3)] that(1) by (auto simp: same_deferred_def)
  show ?thesis
  proof (rule returns_bind)
    show "returns_at (if b then throw_error code msg else ret ()) s" by (rule returns_fuel_free [OF fuel_free_lets])
    fix u s1 assume "(if b then throw_error code msg else ret ()) s = (Returned u, s1)"
    then have t1: "?top s1" using c by (auto simp: ret_def throw_error_def bind_act_def current_call_def throw_def split: if_splits)
    show "returns_at (bind_act (check_jump j) (\<lambda>_. bind_act exit_area (\<lambda>_. bind_act current_call (\<lambda>c.
       bind_act (run_deferred dep (cc_deferredCalls c)) (\<lambda>_. bind_act unGuard (\<lambda>_. ret x)))))) s1"
    proof (rule returns_bind)
      show "returns_at (check_jump j) s1" by (rule returns_fuel_free [OF fuel_free_call_parts(2)])
      fix v s2 assume "check_jump j s1 = (Returned v, s2)"
      then have t2: "?top s2"
        using t1 by (auto simp: check_jump_def ret_def throw_error_def bind_act_def current_call_def throw_def split: if_splits)
      show "returns_at (bind_act exit_area (\<lambda>_. bind_act current_call (\<lambda>c.
         bind_act (run_deferred dep (cc_deferredCalls c)) (\<lambda>_. bind_act unGuard (\<lambda>_. ret x))))) s2"
      proof (rule returns_bind)
        show "returns_at exit_area s2" by (rule returns_fuel_free [OF fuel_free_exit_area])
        fix w s3 assume e: "exit_area s2 = (Returned w, s3)"
        then have "same_deferred s2 s3" using keepsD [OF same_deferred_locks(2) TrueI e] by simp
        then obtain c cs where "ss_calls s3 = c # cs" "cc_deferredCalls c = []"
          using t2 by (auto simp: same_deferred_def)
        then show "returns_at (bind_act current_call (\<lambda>c.
           bind_act (run_deferred dep (cc_deferredCalls c)) (\<lambda>_. bind_act unGuard (\<lambda>_. ret x)))) s3"
          by (rule returns_top)
      qed
    qed
  qed
qed

lemma controlled_returns:
  assumes A: "\<And>app resp req s. session_ok h s \<Longrightarrow> ss_controlled s \<Longrightarrow> MAX_CALL_DEPTH < fm_callDepth (ss_failureManager s) + n \<Longrightarrow>
      fm_callDepth (ss_failureManager s) \<le> MAX_CALL_DEPTH \<Longrightarrow> returns_at (dep app resp req) s"
    and s: "session_ok h s" "ss_controlled s" "MAX_CALL_DEPTH \<le> fm_callDepth (ss_failureManager s) + n"
  shows "returns_at (executeApp dep fg app resp req) s"
proof -
  let ?d = "fm_callDepth (ss_failureManager s)"
  let ?s0 = "s\<lparr>ss_guardedArea := True\<rparr>"
  have s0: "session_ok h ?s0" "ss_controlled ?s0" "fm_callDepth (ss_failureManager ?s0) = ?d"
    using rt.outer.eff_ok [OF rt.outer.guard_step [OF s(1)]] s(2) by simp_all
  have thread: "returns_at (invoke_noexcept dep app resp req) t"
    if "session_ok h t" "ss_controlled t" "fm_callDepth (ss_failureManager t) = ?d + 1" "?d + 1 \<le> MAX_CALL_DEPTH" for t
    by (rule returns_noexcept [OF A]) (use that s(3) in auto)
  note catch = returns_catch [OF run_resources_returns [OF thread s0] fuel_free_call_parts(8)]
  have "returns_at (controlled_executeApp dep fg app resp req) s"
    unfolding controlled_executeApp_def
  proof (rule returns_bind)
    show "returns_at controlled_guardArea s" by (rule returns_fuel_free [OF fuel_free_call_parts(9)])
  next
    fix u s1 assume "controlled_guardArea s = (Returned u, s1)"
    then have s1: "s1 = ?s0" by (simp add: controlled_guardArea_def modify_def)
    show "returns_at (bind_act (catch_ascee (bind_act (open_resources fg) (\<lambda>_.
          with_destructor (bind_act thread_limits (\<lambda>_. invoke_noexcept dep app resp req))
            (\<lambda>r. close_resources (succeeded r)))) error_response) (\<lambda>r. bind_act controlled_unGuard (\<lambda>_. ret r))) s1"
      unfolding s1
      by (rule returns_bind [OF catch]; assumption?)
        (rule returns_fuel_free [OF fuel_free_bind [OF fuel_free_call_parts(10) fuel_free_basic(1)]])
  qed
  then show ?thesis using s(2) by (simp add: returns_at_def executeApp_def)
qed


text \<open>Running the contract between opening and closing its context.\<close>

lemma at_depth_guard: "at_depth h d s \<Longrightarrow> at_depth h d (s\<lparr>ss_guardedArea := b\<rparr>)"
  using rt.outer.eff_ok [OF rt.outer.guard_step [of h s b]] by (simp add: at_depth_def)

lemma at_depth_guards:
  "at_depth h d s \<Longrightarrow> guardArea s = (Returned u, s') \<Longrightarrow> at_depth h d s'"
  "at_depth h d s \<Longrightarrow> unGuard s = (Returned u, s') \<Longrightarrow> at_depth h d s'"
  using at_depth_guard [of h d s]
  by (auto simp: guardArea_def unGuard_def controlled_guardArea_def controlled_unGuard_def modify_def split: if_splits)

lemma returns_enter_app:
  assumes env: "deferral_free env"
    and inv: "\<And>gas app resp req s. at_depth (en_heap env) d s \<Longrightarrow> fst (invoke gas app resp req s) \<noteq> Stopped Out_of_fuel"
    and keep: "\<And>gas app resp req. keeps (session_ok (en_heap env)) (around (en_heap env)) (invoke gas app resp req)"
    and t: "at_depth (en_heap env) d t"
  shows "returns_at (enter_app env invoke app resp req) t"
    and "enter_app env invoke app resp req t = (Returned x, t') \<Longrightarrow> at_depth (en_heap env) d t'"
proof -
  obtain t0 where t0: "unGuard t = (Returned (), t0)" "at_depth (en_heap env) d t0"
    using at_depth_guard [OF t, of False] t
    by (auto simp: at_depth_def unGuard_def controlled_unGuard_def modify_def)
  obtain r1 t1 where c: "callApp env invoke app resp req t0 = (r1, t1)" by (cases "callApp env invoke app resp req t0")
  have r1: "r1 \<noteq> Stopped Out_of_fuel \<and> ((\<forall>x. r1 \<noteq> Stopped x) \<longrightarrow> at_depth (en_heap env) d t1)"
  proof (cases "osm_at (en_callTable env) app")
    case (Inl e)
    then show ?thesis using c t0 by (auto simp: callApp_def throw_def)
  next
    case (Inr od)
    show ?thesis
    proof (cases od)
      case None
      then show ?thesis using c Inr by (auto simp: callApp_def stop_def)
    next
      case (Some D)
      have "no_deferral (D resp req)" using env Inr Some by (auto simp: deferral_free_def)
      from run_app_returns [of "en_heap env" d invoke, OF inv keep this t0(2)] show ?thesis
        using c Inr Some by (auto simp: callApp_def)
    qed
  qed
  have b: "bind_act unGuard (\<lambda>_. callApp env invoke app resp req) t = (r1, t1)"
    using t0 c by (simp add: bind_act_def)
  obtain t2 where t2: "guardArea t1 = (Returned (), t2)"
    by (cases "ss_controlled t1") (simp_all add: guardArea_def controlled_guardArea_def modify_def)
  note defs = enter_app_def returns_at_def bind_act_def ret_def throw_def throw_error_def current_call_def
  show "returns_at (enter_app env invoke app resp req) t"
    using r1 t2 by (cases r1; simp add: enter_app_def b returns_at_def)
      (auto simp: bind_act_def ret_def throw_def throw_error_def current_call_def split: list.splits)
  assume e: "enter_app env invoke app resp req t = (Returned x, t')"
  then have "(\<forall>x. r1 \<noteq> Stopped x) \<and> t' = t2" using t2
    by (cases r1; simp add: enter_app_def b)
      (auto simp: bind_act_def ret_def throw_def throw_error_def current_call_def split: list.splits if_splits)
  then show "at_depth (en_heap env) d t'" using r1 at_depth_guards(1) [OF _ t2] by simp
qed

lemma at_depth_opened:
  assumes s: "session_ok h s" "ss_controlled s" "d \<le> fm_callDepth (ss_failureManager s)"
    and o: "open_context app s = (Returned u, s')"
  shows "at_depth h d s'"
proof -
  obtain c cs where c: "ss_calls s = c # cs"
    using o by (auto simp: open_context_def bind_act_def current_call_def split: list.splits)
  let ?t = "s\<lparr>ss_modifier := loadContext (ss_modifier s) app\<rparr>"
  have app: "cc_appID c \<noteq> app" and s': "s' = ?t\<lparr>ss_calls := new_context app # c # cs\<rparr>"
    using o c by (auto simp: open_context_def bind_act_def current_call_def ret_def throw_def load_context_def modify_def
        new_context_def split: if_splits)
  have t: "around h s ?t"
    using rt.outer.heap_step [OF s(1), of "OpContext app"] by (simp add: plain_op_def)
  have "session_ok h s'"
    using rt.context_open [OF rt.outer.eff_ok [OF t], of c cs app] c app s' by simp
  then show ?thesis using s s' by (simp add: at_depth_def new_context_def)
qed

lemma dependant_call_returns:
  assumes env: "deferral_free env"
    and "session_ok (en_heap env) s" "ss_controlled s" "MAX_CALL_DEPTH < fm_callDepth (ss_failureManager s) + int n"
      "fm_callDepth (ss_failureManager s) \<le> MAX_CALL_DEPTH"
  shows "returns_at (dependant_call n env app resp req) s"
  using assms(2-)
proof (induction n arbitrary: s app resp req)
  case 0
  then show ?case by simp
next
  case (Suc n)
  let ?h = "en_heap env" and ?d = "fm_callDepth (ss_failureManager s)"
  let ?invoke = "executeApp (dependant_call n env)"
  have inv: "fst (?invoke fg a b c t) \<noteq> Stopped Out_of_fuel" if "at_depth ?h ?d t" for fg a b c t
  proof -
    have t: "session_ok ?h t" "ss_controlled t" "?d \<le> fm_callDepth (ss_failureManager t)"
      using that by (simp_all add: at_depth_def)
    have "returns_at (?invoke fg a b c) t"
      by (rule controlled_returns [where n = "int n", OF Suc.IH t(1,2)]) (use t(3) Suc.prems(3) in simp_all)
    then show ?thesis by (simp add: returns_at_def)
  qed
  have keep: "keeps (session_ok ?h) (around ?h) (?invoke fg a b c)" for fg a b c
    by (intro rt.keeps_executeApp rt.keeps_dependant_call no_signal_dependant_call refl)
  note enter = returns_enter_app [OF env inv keep]
  have kept: "session_ok ?h s' \<and> ss_controlled s' \<and> ?d \<le> fm_callDepth (ss_failureManager s')" if "around ?h s s'" for s'
    using that Suc.prems(2) by (auto simp: around_def depth_kept_def)
  show ?case
    unfolding dependant_call.simps dependant_call_body_def
  proof (rule returns_bind)
    show "returns_at guardArea s" by (rule returns_fuel_free [OF fuel_free_basic(5)])
    fix u s1 assume 1: "guardArea s = (Returned u, s1)"
    have s1: "around ?h s s1" using keepsD [OF rt.outer.keeps_guard(1) Suc.prems(1) 1] by simp
    let ?rest = "\<lambda>(r, response', jmpRet).
         bind_act (if r \<ge> 400 then throw_error 521 ''returning a revert code normally'' else ret ()) (\<lambda>_.
         bind_act (check_jump jmpRet) (\<lambda>_. bind_act exit_area (\<lambda>_. bind_act current_call (\<lambda>c.
         bind_act (run_deferred (dependant_call n env) (cc_deferredCalls c)) (\<lambda>_.
         bind_act unGuard (\<lambda>_. ret (r, response'))))))) :: (int \<times> string) act"
    let ?in = "bind_act guardArea (\<lambda>_. bind_act (enter_app env ?invoke app resp req) ?rest)"
    have inside: "returns_at ?in s3" if s3: "at_depth ?h ?d s3" for s3
    proof (rule returns_bind)
      show "returns_at guardArea s3" by (rule returns_fuel_free [OF fuel_free_basic(5)])
      fix z s4 assume "guardArea s3 = (Returned z, s4)"
      then have s4: "at_depth ?h ?d s4" by (rule at_depth_guards(1) [OF s3])
      show "returns_at (bind_act (enter_app env ?invoke app resp req) ?rest) s4"
      proof (rule returns_bind)
        show "returns_at (enter_app env ?invoke app resp req) s4" by (rule enter(1) [OF _ s4])
        fix x s5 assume e: "enter_app env ?invoke app resp req s4 = (Returned x, s5)"
        have "at_depth ?h ?d s5" by (rule enter(2) [OF _ s4 e])
        then obtain c cs where c: "ss_calls s5 = c # cs" "cc_deferredCalls c = []" by (auto simp: at_depth_def)
        obtain r resp' j where x: "x = (r, resp', j)" by (cases x)
        show "returns_at (?rest x) s5" unfolding x prod.case by (rule returns_rest [OF c])
      qed
    qed
    show "returns_at (bind_act (check_app env app) (\<lambda>_. bind_act (open_context app) (\<lambda>_.
        with_destructor ?in (\<lambda>_. close_context)))) s1"
    proof (rule returns_bind)
      show "returns_at (check_app env app) s1" by (rule returns_fuel_free [OF fuel_free_call_parts(1)])
      fix v s2 assume 2: "check_app env app s1 = (Returned v, s2)"
      have s2: "around ?h s s2"
        using keepsD [OF rt.outer.keeps_check(1) rt.outer.eff_ok [OF s1] 2] s1 around_trans by blast
      show "returns_at (bind_act (open_context app) (\<lambda>_. with_destructor ?in (\<lambda>_. close_context))) s2"
      proof (rule returns_bind)
        show "returns_at (open_context app) s2" by (rule returns_fuel_free [OF fuel_free_call_parts(3)])
        fix w s3 assume "open_context app s2 = (Returned w, s3)"
        then have "at_depth ?h ?d s3" using at_depth_opened kept [OF s2] by blast
        then show "returns_at (with_destructor ?in (\<lambda>_. close_context)) s3"
          by (rule returns_destructor [OF inside fuel_free_call_parts(4)])
      qed
    qed
  qed
qed

text \<open>C14: A controlled request ends, with a response or an exception, or it ends the process: no sequence
  of nested calls of contracts that do not defer calls is longer than the maximum depth.\<close>

theorem requests_return:
  assumes "request_ok (en_heap env) req" "deferral_free env" "0 \<le> fm_callDepth (ar_failureManager req)"
  shows "fst (execute_request 16 env req (start_session req)) \<noteq> Stopped Out_of_fuel"
proof -
  have c: "ar_useControlledExecution req" using assms(1) by (simp add: request_ok_def)
  note ok = root_session_ok [OF assms(1)]
  have dep: "returns_at (dependant_call 16 env app resp r) s"
    if "session_ok (en_heap env) s" "ss_controlled s" "MAX_CALL_DEPTH < fm_callDepth (ss_failureManager s) + 16"
      "fm_callDepth (ss_failureManager s) \<le> MAX_CALL_DEPTH" for app resp r s
    by (rule dependant_call_returns [OF assms(2) that(1,2)]) (use that(3,4) in simp_all)
  have "returns_at (executeApp (dependant_call 16 env) 255 (ar_calledAppID req) [] (ar_httpRequest req)) (root_session req)"
    by (rule controlled_returns [where n = 16, OF dep ok])
      (use c assms(3) in \<open>simp_all add: root_session_def start_session_def nextInvocation_def MAX_CALL_DEPTH_def\<close>)
  then have "returns_at (with_destructor (with_destructor
      (executeApp (dependant_call 16 env) 255 (ar_calledAppID req) [] (ar_httpRequest req)) (\<lambda>_. close_context))
      (\<lambda>r. close_resources (r \<noteq> None))) (root_session req)"
    by (rule returns_destructor [OF returns_destructor [OF _ fuel_free_call_parts(4)] fuel_free_call_parts(6)])
  then show ?thesis unfolding execute_request_root [OF c] returns_at_def .
qed
text \<open>If the first call of a request stops the process, so does the request.\<close>

lemma first_call_stops:
  assumes "\<And>s. ss_calls s = [new_context 0] \<Longrightarrow> \<exists>t. invoke_noexcept (dependant_call n env) app [] text s = (Stopped x, t)"
  shows "fst (execute_request n env (demo_request app text) (start_session (demo_request app text))) = Stopped x"
proof -
  let ?req = "demo_request app text"
  let ?s = "(root_session ?req)\<lparr>ss_guardedArea := True\<rparr>"
  obtain md where save: "saveVersion (ss_modifier ?s) = Inr (0, md)"
    by (simp add: saveVersion_def root_session_def start_session_def demo_request_def MAX_VERSION_def)
  obtain s1 where o: "open_resources 255 ?s = (Returned (), s1)" "ss_calls s1 = [new_context 0]"
      "ss_resources s1 \<noteq> []" "fm_callDepth (ss_failureManager s1) = 2"
    using save
    by (simp add: open_resources_def root_session_def start_session_def demo_request_def nextInvocation_def
        min_clocks_def FailureManager_def Let_def)
  obtain t where t: "invoke_noexcept (dependant_call n env) app [] text s1 = (Stopped x, t)"
    using assms [OF o(2)] by blast
  have "\<exists>l. thread_limits s1 = (Returned l, s1)"
    using o by (cases "ss_resources s1") (auto simp: thread_limits_def getStackSize_def MAX_CALL_DEPTH_def)
  then obtain l where l: "thread_limits s1 = (Returned l, s1)" by blast
  have c: "ss_controlled (root_session ?req)" "controlled_guardArea (root_session ?req) = (Returned (), ?s)"
    by (simp_all add: root_session_def start_session_def demo_request_def controlled_guardArea_def modify_def)
  have "fst (executeApp (dependant_call n env) 255 app [] text (root_session ?req)) = Stopped x"
    using o l t c
    by (simp add: executeApp_def controlled_executeApp_def bind_act_def catch_ascee_def catch_def with_destructor_def)
  then show ?thesis
    by (subst execute_request_root) (auto simp: demo_request_def with_destructor_def split: prod.splits)
qed

section \<open>Contracts that call each other for ever\<close>

text \<open>Two contracts, each of which defers a call to the other one.\<close>

definition ping_env :: environment where
  "ping_env =
    \<lparr>en_heap = sample_heap,
     en_callTable = \<lparr>osm_keys = [21, 22], osm_values =
       [Some (\<lambda>_ _. Call (Invoke_deferred 22 []) (\<lambda>_. App_return 200 [])),
        Some (\<lambda>_ _. Call (Invoke_deferred 21 []) (\<lambda>_. App_return 200 []))]\<rparr>,
     en_what = (\<lambda>_. [])\<rparr>"

definition other :: "uint64 \<Rightarrow> uint64" where
  "other app = (if app = 21 then 22 else 21)"

lemma ping_keys: "osm_find [21, 22 :: uint64] 21 = Inr 0" "osm_find [21, 22 :: uint64] 22 = Inr 1"
  by code_simp+

lemma ping_table: "app = 21 \<or> app = 22 \<Longrightarrow>
    osm_at (en_callTable ping_env) app = Inr (Some (\<lambda>_ _. Call (Invoke_deferred (other app) []) (\<lambda>_. App_return 200 [])))"
  by (auto simp: ping_env_def other_def osm_at_def ping_keys)

lemma ping_runs_out:
  "app = 21 \<or> app = 22 \<Longrightarrow> ss_calls s = c # cs \<Longrightarrow> cc_appID c \<noteq> app \<Longrightarrow>
    fst (dependant_call n ping_env app resp req s) = Stopped Out_of_fuel"
proof (induction n arbitrary: app resp req s c cs)
  case 0
  then show ?case by (simp add: stop_def)
next
  case (Suc n)
  let ?o = "other app"
  have o: "?o = 21 \<or> ?o = 22" "app \<noteq> ?o" using Suc.prems(1) by (auto simp: other_def)
  have deferred: "fst (run_deferred (dependant_call n ping_env) [(?o, [])] s) = Stopped Out_of_fuel"
    if "ss_calls s = \<lparr>cc_appID = app, cc_hasLock = b, cc_deferredCalls = l\<rparr> # cs" for s b l cs
    using Suc.IH [OF o(1) that, of "[]" "[]"] o(2)
    by (auto simp: bind_act_def split: prod.splits outcome.splits)
  have deferred': "\<exists>t. run_deferred (dependant_call n ping_env) [(?o, [])] s = (Stopped Out_of_fuel, t)"
    if "ss_calls s = \<lparr>cc_appID = app, cc_hasLock = b, cc_deferredCalls = l\<rparr> # cs" for s b l cs
    using deferred [OF that] by (metis prod.collapse)
  show ?case
    apply (insert Suc.prems(2,3) ping_table [OF Suc.prems(1)])
    apply (cases "ss_controlled s")
    apply (simp_all add: dependant_call_body_def bind_act_def guardArea_def unGuard_def controlled_guardArea_def
        controlled_unGuard_def modify_def check_app_def checkApp_def open_context_def current_call_def ret_def
        load_context_def with_destructor_def enter_app_def callApp_def map_act_def invoke_deferred_def
        set_current_call_def check_jump_def exit_area_def guarded_def Let_def del: run_deferred.simps)
    using deferred' [where b=False and s="s\<lparr>ss_modifier := loadContext (ss_modifier s) app,
        ss_calls := \<lparr>cc_appID = app, cc_hasLock = False, cc_deferredCalls = [(?o, [])]\<rparr> # c # cs, ss_guardedArea := False\<rparr>"]
      deferred' [where b=False and s="s\<lparr>ss_modifier := loadContext (ss_modifier s) app,
        ss_calls := \<lparr>cc_appID = app, cc_hasLock = False, cc_deferredCalls = [(?o, [])]\<rparr> # c # cs\<rparr>"]
    by (auto simp del: run_deferred.simps)
qed

text \<open>The depth and the gas do not bound deferred calls: two contracts that defer calls to each other go on for
  ever, whatever the number of nested calls that is allowed for; only the timer or the end of the stack stops them.\<close>

theorem deferred_calls_unbounded:
  "fst (execute_request n ping_env (demo_request 21 text) (start_session (demo_request 21 text))) = Stopped Out_of_fuel"
proof (rule first_call_stops)
  fix s :: session assume "ss_calls s = [new_context 0]"
  then have "fst (dependant_call n ping_env 21 [] text s) = Stopped Out_of_fuel"
    by (intro ping_runs_out [where c = "new_context 0" and cs = "[]"]) (simp_all add: new_context_def)
  then show "\<exists>t. invoke_noexcept (dependant_call n ping_env) 21 [] text s = (Stopped Out_of_fuel, t)"
    by (cases "dependant_call n ping_env 21 [] text s") (simp add: invoke_noexcept_def)
qed

section \<open>Errors that end the process\<close>

text \<open>A contract that reverts with the text of the request.\<close>

definition revert_env :: environment where
  "revert_env =
    \<lparr>en_heap = sample_heap,
     en_callTable = \<lparr>osm_keys = [31], osm_values = [Some (\<lambda>_ request. Call (Revert request) (\<lambda>_. App_return 200 []))]\<rparr>,
     en_what = (\<lambda>_. [])\<rparr>"

lemma append_all_Inr: "append_all maxSize b ss = Inr x \<Longrightarrow> x = b @ concat ss \<and> (ss \<noteq> [] \<longrightarrow> int (length x) \<le> maxSize)"
proof (induction maxSize b ss rule: append_all.induct)
  case (2 maxSize buf s ss)
  then obtain y where y: "buffer_append maxSize buf s = Inr y" by (cases "buffer_append maxSize buf s") auto
  then have "y = buf @ s" "int (length y) \<le> maxSize" by (simp_all add: buffer_append_Inr)
  then show ?case using 2 y by (cases ss) auto
qed simp

lemma append_all_Undefined: "append_all maxSize b ss = Inl e \<Longrightarrow> int (length b + length (concat ss)) \<le> INT_MAX \<Longrightarrow> e = Out_of_range"
proof (induction maxSize b ss rule: append_all.induct)
  case (2 maxSize buf s ss)
  show ?case
  proof (cases "buffer_append maxSize buf s")
    case (Inl e')
    then show ?thesis using 2(2,3) by (auto simp: buffer_append_def sv_size_def split: if_splits)
  next
    case (Inr y)
    then have "y = buf @ s"  by (auto simp: buffer_append_def sv_size_def split: if_splits)
    then show ?thesis using 2 Inr by simp
  qed
qed simp


lemma long_message_response:
  assumes "8192 < int (length msg)" "int (length msg) \<le> INT_MAX - 8192"
  shows "toHttpResponse 400 31 msg [] = Inl Out_of_range"
proof -
  have d: "toDecimalStr app_trie_g 31 = Inr ''0''" by code_simp
  have len: "length (to_string (length msg + 8)) \<le> 20"
  proof -
    have "length msg + 8 < 10 ^ Suc 9" using assms(2) by (simp add: INT_MAX_def)
    then show ?thesis using digits_of_length [of "length msg + 8" 9] by (simp add: to_string_def)
  qed
  let ?r1 = "''HTTP/1.1 400 Bad Request'' @ CRLF @ ''Server: ''"
  have r1: "append_all response_size [] [''HTTP/1.1 '', to_string 400, '' '', gReasonByStatusCode 400, CRLF, ''Server: ''] = Inr ?r1"
    by code_simp
  let ?tail = "[''0'', CRLF, ''Content-Length: '', to_string (length msg + 8), CRLF @ CRLF, ''Error: '', msg, ''.'']"
  show ?thesis
  proof (cases "append_all response_size ?r1 ?tail")
    case (Inl e)
    have "e = Out_of_range"
      by (rule append_all_Undefined [OF Inl]) (use assms(2) len in \<open>simp add: CRLF_def\<close>)
    then show ?thesis using Inl d r1 by (simp add: toHttpResponse_def)
  next
    case (Inr x)
    have "int (length x) \<le> response_size" "length msg \<le> length x"
      using append_all_Inr [OF Inr] by auto
    then show ?thesis using assms(1) by (simp add: response_size_def)
  qed
qed

text \<open>C34: A contract can end the whole process with its error message: when it reverts with a message that does not fit into
  the response buffer, writing the response throws where exceptions of this kind are not caught.\<close>

theorem long_revert_message_terminates:
  assumes "8192 < int (length text)" "int (length text) \<le> INT_MAX - 8192"
  shows "fst (execute_request (Suc n) revert_env (demo_request 31 text) (start_session (demo_request 31 text))) = Stopped Terminated"
proof (rule first_call_stops)
  fix s :: session assume s: "ss_calls s = [new_context 0]"
  have "osm_find [31 :: uint64] 31 = Inr 0" by code_simp
  then have at: "osm_at (en_callTable revert_env) 31 = Inr (Some (\<lambda>_ request. Call (Revert request) (\<lambda>_. App_return 200 [])))"
    by (simp add: revert_env_def osm_at_def)
  have "\<exists>t. dependant_call (Suc n) revert_env 31 [] text s = (Thrown (Executor_error 400 31 text), t)"
    using s at
    by (cases "ss_controlled s"; simp add: dependant_call_body_def bind_act_def guardArea_def unGuard_def controlled_guardArea_def
        controlled_unGuard_def modify_def check_app_def checkApp_def open_context_def current_call_def ret_def throw_def throw_error_def
        load_context_def with_destructor_def enter_app_def callApp_def map_act_def revert_def close_context_def
        set_current_call_def check_jump_def exit_area_def guarded_def Let_def new_context_def)
  then show "\<exists>t. invoke_noexcept (dependant_call (Suc n) revert_env) 31 [] text s = (Stopped Terminated, t)"
    using long_message_response [OF assms] by (auto simp: invoke_noexcept_def)
qed

theorem long_revert_message_terminates_witness:
  "fst (execute_request 1 revert_env (demo_request 31 (replicate 9000 CHR ''a'')) (start_session (demo_request 31 (replicate 9000 CHR ''a''))))
    = Stopped Terminated"
  using long_revert_message_terminates [of "replicate 9000 CHR ''a''" 0] by (simp add: INT_MAX_def)

section \<open>Entrance locks\<close>

text \<open>C15: However a contract has run, at most one context of each application holds its entrance lock, and while
  an outer context of the current application holds it, entering the area again is refused.\<close>

theorem entrance_locks_exclude:
  assumes "session_ok h s" "en_heap env = h"
    and "run_app h (executeApp (dependant_call n env)) p s = (r, s')" "\<forall>x. r \<noteq> Stopped x"
  shows "locks_held (ss_calls s') a \<le> 1 \<and>
    (\<forall>c cs c'. ss_calls s' = c # cs \<longrightarrow> c' \<in> set cs \<longrightarrow> cc_hasLock c' \<longrightarrow> cc_appID c' = cc_appID c \<longrightarrow>
      run_argc h Enter_area s' = (Thrown (Executor_error 523 (cc_appID c) ''reentrancy is not allowed''), s'))"
proof -
  have "keeps (session_ok h) (within h) (run_app h (executeApp (dependant_call n env)) p)"
    by (intro rt.keeps_run_app rt.keeps_weaken rt.keeps_executeApp rt.keeps_dependant_call no_signal_dependant_call assms(2))
  then have ok: "session_ok h s'" using keepsD assms(1,3,4) rt.eff_ok by blast
  then have held: "locks_held (ss_calls s') a = of_bool (ss_isLocked s' a)" for a
    by (simp add: session_ok_def locks_ok_def)
  have "run_argc h Enter_area s' = (Thrown (Executor_error 523 (cc_appID c) ''reentrancy is not allowed''), s')"
    if c: "ss_calls s' = c # cs" "c' \<in> set cs" "cc_hasLock c'" "cc_appID c' = cc_appID c" for c cs c'
  proof -
    have "0 < locks_held cs (cc_appID c)"
      using c by (auto simp: locks_held_def filter_empty_conv)
    moreover have "locks_held (c # cs) (cc_appID c) \<le> 1" using held [of "cc_appID c"] c(1) by simp
    ultimately have "\<not> cc_hasLock c" by (auto split: if_splits)
    moreover have "ss_isLocked s' (cc_appID c)"
      using held [of "cc_appID c"] \<open>0 < locks_held cs (cc_appID c)\<close> c(1)
      by (cases "ss_isLocked s' (cc_appID c)") (auto split: if_splits)
    ultimately show ?thesis
      using c(1) by (simp add: map_act_def enter_area_def bind_act_def current_call_def throw_error_def throw_def)
  qed
  then show ?thesis using held [of a] by auto
qed


definition locked_session :: session where
  "locked_session = (root_session (demo_request 9 []))\<lparr>
     ss_isLocked := (\<lambda>a. a = 9),
     ss_calls := [new_context 9, new_context 10, \<lparr>cc_appID = 9, cc_hasLock = True, cc_deferredCalls = []\<rparr>, new_context 0]\<rparr>"

theorem entrance_locks_exclude_witness:
  "run_argc sample_heap Enter_area locked_session = (Thrown (Executor_error 523 9 ''reentrancy is not allowed''), locked_session)"
proof -
  have ok: "session_ok sample_heap locked_session"
    using root_session_ok [OF demo_ok, of 9 "[]"]
    by (simp add: session_ok_def accounts_ok_def locks_ok_def locked_session_def root_session_def new_context_def)
  have "run_app sample_heap (executeApp (dependant_call 0 demo_env)) (App_return 200 []) locked_session = (Returned (200, []), locked_session)"
    by (simp add: ret_def)
  from entrance_locks_exclude [OF ok _ this] show ?thesis
    by (simp add: demo_env_def locked_session_def new_context_def)
qed

theorem requests_return_witness:
  "fst (execute_request 16 demo_env (demo_request 8 []) (start_session (demo_request 8 []))) \<noteq> Stopped Out_of_fuel"
proof (rule requests_return)
  show "request_ok (en_heap demo_env) (demo_request 8 [])" using demo_ok by (simp add: demo_env_def)
  have "d \<in> set (osm_values (en_callTable demo_env))" if "osm_at (en_callTable demo_env) a = Inr d" for a d
    using that by (auto simp: osm_at_def bind_result_Inr_iff split: if_splits)
  then show "deferral_free demo_env"
    by (fastforce simp: deferral_free_def demo_env_def)
  show "0 \<le> fm_callDepth (ar_failureManager (demo_request 8 []))" by (simp add: demo_request_def FailureManager_def)
qed

definition status_is :: "int \<Rightarrow> (int \<times> string) outcome \<Rightarrow> bool" where
  "status_is st r \<longleftrightarrow> (case r of Returned (st', _) \<Rightarrow> st' = st | _ \<Rightarrow> False)"

lemma status_isD: "status_is st (fst p) \<Longrightarrow> \<exists>text s'. p = (Returned (st, text), s')"
  by (cases p) (auto simp: status_is_def split: outcome.splits)

theorem failed_call_rolled_back_witness:
  "\<exists>reply s'. executeApp (dependant_call 2 demo_env) 255 7 [] ''no'' (root_session (demo_request 8 [])) = (Returned (400, reply), s') \<and>
    (\<forall>p. bytes_at (ss_modifier s') sample_heap p 0 0 2 = bytes_at (ss_modifier (root_session (demo_request 8 []))) sample_heap p 0 0 2)"
proof -
  let ?s = "root_session (demo_request 8 [])"
  have "status_is 400 (fst (executeApp (dependant_call 2 demo_env) 255 7 [] ''no'' ?s))" by code_simp
  then obtain reply s' where run: "executeApp (dependant_call 2 demo_env) 255 7 [] ''no'' ?s = (Returned (400, reply), s')"
    using status_isD by blast
  have ok: "session_ok (en_heap demo_env) ?s" "ss_controlled ?s"
    using root_session_ok [OF demo_ok] by (simp_all add: demo_env_def root_session_def start_session_def demo_request_def)
  have "(400 :: int) \<le> 400" by simp
  from failed_call_rolled_back [OF ok run this] show ?thesis using run by (simp add: demo_env_def)
qed

theorem invocations_bounded_by_gas_witness:
  "\<exists>reply s'. execute_request 2 demo_env (demo_request 8 ''no'') (start_session (demo_request 8 ''no'')) = (Returned (200, reply), s') \<and>
    fm_lastGeneratedID (ss_failureManager s') \<le> 1501 \<and> ss_calls s' = []"
proof -
  let ?req = "demo_request 8 ''no''"
  have "status_is 200 (fst (execute_request 2 demo_env ?req (start_session ?req)))" by code_simp
  then obtain reply s' where run: "execute_request 2 demo_env ?req (start_session ?req) = (Returned (200, reply), s')"
    using status_isD by blast
  have ok: "request_ok (en_heap demo_env) ?req" using demo_ok by (simp add: demo_env_def)
  from invocations_bounded_by_gas [OF ok run] show ?thesis using run
    by (simp add: demo_request_def FailureManager_def)
qed


section \<open>Virtual signatures\<close>

lemma small_size_t: "n < 2 ^ 63 \<Longrightarrow> to_size_t (int n) = n"
  by (simp add: to_size_t_def)

text \<open>C35: A message that was signed is verified with the index of its signature, its cost is given back and other
  signatures are as before. When it is not empty it is verified once. A message is invalidated by making it empty, so that
  an empty message goes on being verified, and each time its cost is taken off again.\<close>

theorem signature_used_once:
  assumes "sign sm msg issuer = (Inr i, sm1)" "length (sg_messages sm) < 2 ^ 63"
    and "verifyAndInvalidate sm1 msg issuer i = (b, sm2)"
  shows "b \<and> sg_cost sm2 = sg_cost sm \<and> i = int (length (sg_messages sm)) \<and>
    (\<forall>k m a. k < length (sg_messages sm) \<longrightarrow> verify sm2 m a (int k) = verify sm m a (int k)) \<and>
    (if msg = [] then verifyAndInvalidate sm2 msg issuer i = (True, sm2\<lparr>sg_cost := sg_cost sm - SIG_CONSTANT_COST\<rparr>)
     else \<not> verify sm2 msg issuer i)"
proof -
  let ?n = "length (sg_messages sm)"
  have s: "i = int ?n" "sm1 = sm\<lparr>sg_cost := sg_cost sm + (word_of_nat (length msg) + SIG_CONSTANT_COST),
      sg_messages := sg_messages sm @ [\<lparr>sm_issuer = issuer, sm_message = msg\<rparr>]\<rparr>"
    using assms(1) by (auto simp: sign_def Let_def split: if_splits)
  have "verify sm1 msg issuer i" using s small_size_t [OF assms(2)] by (simp add: verify_def)
  then have v: "b" "sm2 = sm\<lparr>sg_cost := sg_cost sm,
      sg_messages := sg_messages sm @ [\<lparr>sm_issuer = issuer, sm_message = []\<rparr>]\<rparr>"
    using assms(3) s small_size_t [OF assms(2)] by (simp_all add: verifyAndInvalidate_def list_update_append)
  have "verify sm2 m a (int k) = verify sm m a (int k)" if "k < ?n" for k m a
    using v(2) that small_size_t [of k] assms(2) by (simp add: verify_def nth_append)
  moreover have "if msg = [] then verifyAndInvalidate sm2 msg issuer i = (True, sm2\<lparr>sg_cost := sg_cost sm - SIG_CONSTANT_COST\<rparr>)
     else \<not> verify sm2 msg issuer i"
    using v(2) s small_size_t [OF assms(2)] by (simp add: verifyAndInvalidate_def verify_def list_update_append)
  ultimately show ?thesis using v s by simp
qed

theorem signature_used_once_witness:
  "\<not> verify (snd (verifyAndInvalidate (snd (sign (VirtualSignatureManager []) ''pay'' 5)) ''pay'' 5 0)) ''pay'' 5 0 \<and>
    sg_cost (snd (verifyAndInvalidate (snd (verifyAndInvalidate (snd (sign (VirtualSignatureManager []) [] 5)) [] 5 0)) [] 5 0))
      = - SIG_CONSTANT_COST"
proof -
  have s: "sign (VirtualSignatureManager []) ''pay'' 5 = (Inr 0, snd (sign (VirtualSignatureManager []) ''pay'' 5))"
    "sign (VirtualSignatureManager []) [] 5 = (Inr 0, snd (sign (VirtualSignatureManager []) [] 5))"
    by code_simp+
  show ?thesis
    using signature_used_once [OF s(1) _ prod.collapse [symmetric]] signature_used_once [OF s(2) _ prod.collapse [symmetric]]
    by (simp add: VirtualSignatureManager_def)
qed

text \<open>A signature manager that starts with given messages counts no cost for them, but it takes off their cost when
  they are invalidated: after the first one every shorter message is refused as too expensive.\<close>

theorem preset_message_blocks_signing:
  assumes "sm_message m \<noteq> []" "length (sm_message m) < 2 ^ 62" "length msg < length (sm_message m)"
  shows "fst (sign (snd (verifyAndInvalidate (VirtualSignatureManager [m]) (sm_message m) (sm_issuer m) 0)) msg issuer)
    = Inl (Ascee_error limit_exceeded)"
proof -
  let ?k = "length (sm_message m)"
  have "snd (verifyAndInvalidate (VirtualSignatureManager [m]) (sm_message m) (sm_issuer m) 0) =
      \<lparr>sg_cost = - (word_of_nat ?k + SIG_CONSTANT_COST), sg_messages = [m\<lparr>sm_message := []\<rparr>]\<rparr>"
    by (simp add: verifyAndInvalidate_def verify_def VirtualSignatureManager_def to_size_t_def)
  moreover have "- (word_of_nat ?k + SIG_CONSTANT_COST) + (word_of_nat (length msg) + SIG_CONSTANT_COST)
      = - (word_of_nat (?k - length msg) :: uint64)"
    using assms(3) by (simp add: of_nat_diff)
  moreover have "MAX_COST < - (word_of_nat (?k - length msg) :: uint64)"
  proof -
    let ?d = "?k - length msg"
    have d: "0 < ?d" "?d < 2 ^ 62" using assms by auto
    have "(2 :: uint64) ^ 64 = 0" by simp
    then have "- word_of_nat ?d = (word_of_nat (2 ^ 64 - ?d) :: uint64)" using d(2) by (subst of_nat_diff) simp_all
    then have "unat (- (word_of_nat ?d :: uint64)) = 2 ^ 64 - ?d"
      using d by (simp only: unat_of_nat) (simp add: take_bit_nat_eq_self)
    then show ?thesis using d by (simp add: word_less_nat_alt MAX_COST_def)
  qed
  ultimately show ?thesis by (simp add: sign_def Let_def)
qed

theorem preset_message_blocks_signing_witness:
  "fst (sign (snd (verifyAndInvalidate (VirtualSignatureManager [\<lparr>sm_issuer = 5, sm_message = ''pay''\<rparr>]) ''pay'' 5 0)) [] 6)
    = Inl (Ascee_error limit_exceeded)"
  using preset_message_blocks_signing [of "\<lparr>sm_issuer = 5, sm_message = ''pay''\<rparr>" "[]" 6] by simp

end
