(* ===== verification/Storage.thy ===== *)
theory Storage
  imports Executor
begin

text \<open>
  The storage behind the execution of a block: pages of chunks with the deltas that bring them up to
  date and the migration of chunks between pages (\<^verbatim>\<open>src/storage/Page.cpp\<close>, \<^verbatim>\<open>PageCache.cpp\<close>), the
  index of the chunks of a block and the access tables built from it (\<^verbatim>\<open>ChunkIndex.cpp\<close>), and the
  index of the applications (\<^verbatim>\<open>AppIndex.cpp\<close>).

  A chunk is an object on the heap; pages own their chunks by address. The downloading of deltas and
  the loading of the code of applications are arguments. What a failed delta leaves behind in the page is
  not modelled: it is the error alone.
\<close>

section \<open>Pages\<close>

record store =
  st_heap :: heap
  st_next :: nat

definition make_chunk :: "chunk \<Rightarrow> store \<Rightarrow> nat \<times> store" where
  "make_chunk c st = (st_next st, \<lparr>st_heap = (st_heap st)(st_next st := c), st_next = st_next st + 1\<rparr>)"

text \<open>A null pointer is \<open>None\<close>; the identifier of a page or a migrant is its bytes, none of them after it has been
  moved from.\<close>

record page =
  pg_version :: int
  pg_native :: "nat option"
  pg_migrants :: "(byte list \<times> nat option) list"

definition Page :: "int \<Rightarrow> store \<Rightarrow> page \<times> store" where
  "Page blockNumber st =
    (case make_chunk Chunk_default st of
       (p, st') \<Rightarrow> (\<lparr>pg_version = blockNumber, pg_native = Some p, pg_migrants = []\<rparr>, st'))"

definition getNative :: "page \<Rightarrow> nat option" where
  "getNative pg = pg_native pg"

definition getMigrants :: "page \<Rightarrow> (byte list \<times> nat option) list" where
  "getMigrants pg = pg_migrants pg"

definition getBlockNumber :: "page \<Rightarrow> int" where
  "getBlockNumber pg = pg_version pg"

definition addMigrant :: "page \<Rightarrow> byte list \<times> nat option \<Rightarrow> page" where
  "addMigrant pg m = pg\<lparr>pg_migrants := pg_migrants pg @ [m]\<rparr>"

definition remove_nth :: "nat \<Rightarrow> 'a list \<Rightarrow> 'a list" where
  "remove_nth i xs = take i xs @ drop (Suc i) xs"

definition extractMigrant :: "page \<Rightarrow> int \<Rightarrow> ((byte list \<times> nat option) \<times> page) result" where
  "extractMigrant pg index =
    (if 0 \<le> index \<and> nat index < length (pg_migrants pg)
     then Inr (pg_migrants pg ! nat index, pg\<lparr>pg_migrants := remove_nth (nat index) (pg_migrants pg)\<rparr>)
     else Inl Block_error)"

definition extractNative :: "page \<Rightarrow> (nat option \<times> page) result" where
  "extractNative pg =
    (if pg_migrants pg \<noteq> [] then Inl Block_error else Inr (pg_native pg, pg\<lparr>pg_native := None\<rparr>))"

section \<open>Deltas of pages\<close>

text \<open>The first part of a delta names the migrants that are new or get another identifier, by the differences of
  their indices.\<close>

function delta_migrants ::
  "byte list \<Rightarrow> nat \<Rightarrow> nat \<Rightarrow> int \<Rightarrow> (byte list \<times> nat option) list \<Rightarrow> store
   \<Rightarrow> (nat \<times> (byte list \<times> nat option) list \<times> store) result" where
  "delta_migrants buf e p index ms st =
    (case decodeVarUInt_reader var_uint_trie_g buf p e of
       Inl x \<Rightarrow> Inl x
     | Inr (d, p1) \<Rightarrow>
         if d = 0 then Inr (p1, ms, st)
         else
           (let i = index + int (unat d)
            in if i = int (length ms) then
                 (case VarLenFullID_read buf p1 e of
                    Inl x \<Rightarrow> Inl x
                  | Inr (ident, p2) \<Rightarrow>
                      (case make_chunk Chunk_default st of
                         (q, st') \<Rightarrow> delta_migrants buf e p2 i (ms @ [(ident, Some q)]) st'))
               else if p1 \<ge> length buf then Inl Undefined_behaviour
               else if buf ! p1 = 0 then Inl Runtime_error
               else
                 (case VarLenFullID_read buf p1 e of
                    Inl x \<Rightarrow> Inl x
                  | Inr (ident, p2) \<Rightarrow>
                      if nat i < length ms
                      then delta_migrants buf e p2 i (ms[nat i := (ident, snd (ms ! nat i))]) st
                      else Inl Out_of_range)))"
  by pat_completeness auto
termination
proof (relation "measure (\<lambda>(buf, e, p, index, ms, st). e - p)")
  show "wf (measure (\<lambda>(buf, e, p, index, ms, st). e - p))" by simp
qed (use decode_progress full_id_read(2,3) in \<open>fastforce+\<close>)


declare delta_migrants.simps [simp del]

text \<open>The second part holds the deltas of the chunks, the native one first.\<close>

definition delta_chunk :: "byte list \<Rightarrow> nat \<Rightarrow> nat option \<Rightarrow> nat \<Rightarrow> store \<Rightarrow> (nat \<times> store) result" where
  "delta_chunk buf e ptr p st =
    (case ptr of
       None \<Rightarrow> Inl Undefined_behaviour
     | Some q \<Rightarrow>
         bind_result (applyDelta (st_heap st q) buf p e) (\<lambda>(c, p').
         bind_result (calculateDigest_input c) (\<lambda>_. Inr (p', st\<lparr>st_heap := (st_heap st)(q := c)\<rparr>))))"

fun delta_chunks :: "byte list \<Rightarrow> nat \<Rightarrow> nat option list \<Rightarrow> nat \<Rightarrow> store \<Rightarrow> (nat \<times> store) result" where
  "delta_chunks buf e [] p st = Inr (p, st)"
| "delta_chunks buf e (ptr # ptrs) p st =
    bind_result (delta_chunk buf e ptr p st) (\<lambda>(p', st'). delta_chunks buf e ptrs p' st')"

text \<open>\<^verbatim>\<open>DigestCalculator::CalculateDigest\<close> gives the zero digest whatever it was fed with.\<close>

definition CalculateDigest :: int where
  "CalculateDigest = 0"

definition Page_applyDelta ::
  "byte list \<Rightarrow> byte list \<Rightarrow> int \<Rightarrow> int \<Rightarrow> page \<times> store \<Rightarrow> (page \<times> store) result" where
  "Page_applyDelta pageID content finalDigest blockNumber ps =
    (if content = [] then Inr ps
     else
       (let e = length content
        in case ps of (pg, st) \<Rightarrow>
           bind_result (delta_migrants content e 0 (- 1) (pg_migrants pg) st) (\<lambda>(p, ms, st1).
           bind_result (delta_chunks content e (pg_native pg # map snd ms) p st1) (\<lambda>(_, st2).
           bind_result (VarLenFullID_getLen pageID) (\<lambda>_.
           bind_result (require (CalculateDigest = finalDigest) Invalid_argument) (\<lambda>_.
           bind_result (require (blockNumber \<ge> pg_version pg) Assert_failed) (\<lambda>_.
             Inr (pg\<lparr>pg_version := blockNumber, pg_migrants := ms\<rparr>, st2))))))))"

section \<open>The cache of pages\<close>

text \<open>Identifiers of pages are compared by their bytes.\<close>

type_synonym page_cache = "byte list \<rightharpoonup> page"

record migration_info =
  mg_chunkIndex :: int
  mg_fromIndex :: int
  mg_toIndex :: int

text \<open>\<^verbatim>\<open>result.at(i)\<close>.\<close>

definition list_at :: "'a list \<Rightarrow> int \<Rightarrow> 'a result" where
  "list_at xs i = (if 0 \<le> i \<and> nat i < length xs then Inr (xs ! nat i) else Inl Out_of_range)"

definition cached :: "page_cache \<Rightarrow> byte list \<Rightarrow> page result" where
  "cached cache k = (case cache k of None \<Rightarrow> Inl Undefined_behaviour | Some pg \<Rightarrow> Inr pg)"

fun emplace_pages :: "int \<Rightarrow> byte list list \<Rightarrow> page_cache \<times> store \<Rightarrow> page_cache \<times> store" where
  "emplace_pages blockNumber [] cs = cs"
| "emplace_pages blockNumber (k # ks) cs =
    (case cs of (cache, st) \<Rightarrow>
       emplace_pages blockNumber ks
         (case cache k of
            Some _ \<Rightarrow> (cache, st)
          | None \<Rightarrow> (case Page blockNumber st of (pg, st') \<Rightarrow> (cache(k \<mapsto> pg), st'))))"

fun page_keys :: "byte list list \<Rightarrow> (FullID \<times> byte list) list result" where
  "page_keys [] = Inr []"
| "page_keys (k # ks) =
    bind_result (VarLenFullID_FullID k) (\<lambda>i. bind_result (page_keys ks) (\<lambda>r. Inr ((i, k) # r)))"

text \<open>\<^verbatim>\<open>loader.updatePage\<close> is the argument \<open>update\<close>.\<close>

fun update_pages ::
  "(byte list \<Rightarrow> page \<times> store \<Rightarrow> (page \<times> store) result) \<Rightarrow> byte list list \<Rightarrow> page_cache \<times> store \<Rightarrow> (page_cache \<times> store) result" where
  "update_pages update [] cs = Inr cs"
| "update_pages update (k # ks) cs =
    (case cs of (cache, st) \<Rightarrow>
       bind_result (cached cache k) (\<lambda>pg.
       bind_result (update k (pg, st)) (\<lambda>(pg', st'). update_pages update ks (cache(k \<mapsto> pg'), st'))))"

text \<open>One migration: the identifiers of the access list, of which those moved from are empty, the keys of the pages in
  the result, and the cache.\<close>

definition migrate ::
  "byte list list \<Rightarrow> migration_info \<Rightarrow> byte list list \<times> page_cache \<Rightarrow> (byte list list \<times> page_cache) result" where
  "migrate keys mg ac =
    (case ac of (accessList, cache) \<Rightarrow>
       bind_result (list_at keys (mg_fromIndex mg)) (\<lambda>fromKey.
       bind_result (list_at keys (mg_toIndex mg)) (\<lambda>toKey.
       bind_result (cached cache fromKey) (\<lambda>from.
       bind_result
         (if mg_chunkIndex mg = - 1
          then Inr ((accessList ! nat (mg_fromIndex mg), getNative from), accessList[nat (mg_fromIndex mg) := []], cache)
          else bind_result (extractMigrant from (mg_chunkIndex mg)) (\<lambda>(m, from').
                 Inr (m, accessList, cache(fromKey \<mapsto> from'))))
         (\<lambda>(m, accessList', cache').
            bind_result (cached cache' toKey) (\<lambda>dest.
              Inr (accessList', cache'(toKey \<mapsto> addMigrant dest m))))))))"

fun migrate_all ::
  "byte list list \<Rightarrow> migration_info list \<Rightarrow> byte list list \<times> page_cache \<Rightarrow> (byte list list \<times> page_cache) result" where
  "migrate_all keys [] ac = Inr ac"
| "migrate_all keys (mg # mgs) ac = bind_result (migrate keys mg ac) (\<lambda>ac'. migrate_all keys mgs ac')"

definition preparePages ::
  "(byte list \<Rightarrow> page \<times> store \<Rightarrow> (page \<times> store) result) \<Rightarrow> int \<Rightarrow> byte list list \<Rightarrow> migration_info list
   \<Rightarrow> page_cache \<times> store \<Rightarrow> ((FullID \<times> byte list) list \<times> page_cache \<times> store) result" where
  "preparePages update blockNumber pageAccessList migrations cs =
    bind_result (page_keys pageAccessList) (\<lambda>r.
    bind_result (update_pages update pageAccessList (emplace_pages blockNumber pageAccessList cs)) (\<lambda>(cache, st).
    bind_result (migrate_all pageAccessList migrations (pageAccessList, cache)) (\<lambda>(_, cache').
      Inr (r, cache', st))))"

section \<open>The index of chunks\<close>

record ChunkBoundsInfo =
  cb_sizeUpperBound :: int
  cb_sizeLowerBound :: int

record chunk_index =
  ix_writablePages :: "(FullID \<times> page) list"
  ix_chunks :: "FullID \<rightharpoonup> nat"
  ix_sizeBounds :: "(FullID, ChunkBoundsInfo) ordered_map"

definition getChunk :: "chunk_index \<Rightarrow> FullID \<Rightarrow> nat result" where
  "getChunk ix k = (case ix_chunks ix k of None \<Rightarrow> Inl Block_error | Some p \<Rightarrow> Inr p)"

definition getSizeLowerBound :: "chunk_index \<Rightarrow> FullID \<Rightarrow> int result" where
  "getSizeLowerBound ix k =
    (case osm_at (ix_sizeBounds ix) k of
       Inr b \<Rightarrow> Inr (cb_sizeLowerBound b)
     | Inl _ \<Rightarrow> Inl Block_error)"

definition getModifiedPages :: "chunk_index \<Rightarrow> (FullID \<times> page) list" where
  "getModifiedPages ix = ix_writablePages ix"

text \<open>\<^verbatim>\<open>chunkIndex.emplace(id, chunk->setWritable(writable))\<close>: an identifier that is there already keeps its chunk.\<close>

definition index_chunk ::
  "bool \<Rightarrow> FullID \<Rightarrow> nat option \<Rightarrow> (FullID \<rightharpoonup> nat) \<times> heap \<Rightarrow> ((FullID \<rightharpoonup> nat) \<times> heap) result" where
  "index_chunk writable k ptr mh =
    (case (ptr, mh) of
       (None, _) \<Rightarrow> Inl Undefined_behaviour
     | (Some q, m, h) \<Rightarrow>
         Inr (case m k of None \<Rightarrow> m(k \<mapsto> q) | Some _ \<Rightarrow> m, h(q := setWritable (h q) writable)))"

fun index_migrants ::
  "bool \<Rightarrow> (byte list \<times> nat option) list \<Rightarrow> (FullID \<rightharpoonup> nat) \<times> heap \<Rightarrow> ((FullID \<rightharpoonup> nat) \<times> heap) result" where
  "index_migrants writable [] mh = Inr mh"
| "index_migrants writable ((ident, ptr) # ms) mh =
    bind_result (VarLenFullID_FullID ident) (\<lambda>k.
    bind_result (index_chunk writable k ptr mh) (\<lambda>mh'. index_migrants writable ms mh'))"

definition indexPage ::
  "bool \<Rightarrow> FullID \<times> page \<Rightarrow> (FullID \<rightharpoonup> nat) \<times> heap \<Rightarrow> ((FullID \<rightharpoonup> nat) \<times> heap) result" where
  "indexPage writable pageInfo mh =
    bind_result (index_chunk writable (fst pageInfo) (getNative (snd pageInfo)) mh) (\<lambda>mh'.
      index_migrants writable (getMigrants (snd pageInfo)) mh')"

fun index_pages ::
  "bool \<Rightarrow> (FullID \<times> page) list \<Rightarrow> (FullID \<rightharpoonup> nat) \<times> heap \<Rightarrow> ((FullID \<rightharpoonup> nat) \<times> heap) result" where
  "index_pages writable [] mh = Inr mh"
| "index_pages writable (pg # pgs) mh =
    bind_result (indexPage writable pg mh) (\<lambda>mh'. index_pages writable pgs mh')"

fun reserve_chunks :: "chunk_index \<Rightarrow> (FullID \<times> ChunkBoundsInfo) list \<Rightarrow> heap \<Rightarrow> heap result" where
  "reserve_chunks ix [] h = Inr h"
| "reserve_chunks ix ((k, b) # rest) h =
    bind_result (getChunk ix k) (\<lambda>q.
    bind_result (reserveSpace (h q) (word_of_int (cb_sizeUpperBound b))) (\<lambda>(c, _).
      reserve_chunks ix rest (h(q := c))))"

definition ChunkIndex ::
  "(FullID \<times> page) list \<Rightarrow> (FullID \<times> page) list \<Rightarrow> (FullID, ChunkBoundsInfo) ordered_map \<Rightarrow> heap
   \<Rightarrow> (chunk_index \<times> heap) result" where
  "ChunkIndex readonlyPages writablePages chunkBounds h =
    bind_result (index_pages False readonlyPages (Map.empty, h)) (\<lambda>mh.
    bind_result (index_pages True writablePages mh) (\<lambda>(m, h1).
      let ix = \<lparr>ix_writablePages = writablePages, ix_chunks = m, ix_sizeBounds = chunkBounds\<rparr>
      in bind_result (reserve_chunks ix (zip (osm_keys chunkBounds) (osm_values chunkBounds)) h1) (\<lambda>h2.
           Inr (ix, h2))))"

section \<open>The access tables of a request\<close>

text \<open>The kind of resizing and the bound of the size that the first block of a chunk declares.\<close>

definition declared_resizing :: "int \<Rightarrow> int \<Rightarrow> (ResizingType \<times> int) result" where
  "declared_resizing offset chunkNewSize =
    (if offset = - 2 then Inr (size_read_only, chunkNewSize)
     else if offset = - 1 \<and> chunkNewSize > 0 then Inr (expandable, chunkNewSize)
     else if offset = - 1 then
       (if chunkNewSize = - (2 ^ 31) then Inl Undefined_behaviour else Inr (shrinkable, - chunkNewSize))
     else Inr (non_accessible, chunkNewSize))"

text \<open>The size of a chunk is unsigned: it is compared with the bounds as unsigned numbers.\<close>

definition bounds_violated :: "nat \<Rightarrow> int \<Rightarrow> ChunkBoundsInfo \<Rightarrow> bool" where
  "bounds_violated sz chunkNewSize b \<longleftrightarrow>
    sz < to_uint32 (cb_sizeLowerBound b) \<or> sz > to_uint32 (cb_sizeUpperBound b) \<or>
    (chunkNewSize > 0 \<and> chunkNewSize > cb_sizeUpperBound b) \<or>
    (chunkNewSize \<le> 0 \<and> - chunkNewSize < cb_sizeLowerBound b)"

definition check_bounds :: "chunk_index \<Rightarrow> heap \<Rightarrow> FullID \<Rightarrow> nat \<Rightarrow> int \<Rightarrow> unit result" where
  "check_bounds ix h k ptr chunkNewSize =
    (case osm_at (ix_sizeBounds ix) k of
       Inl _ \<Rightarrow> Inl Block_error
     | Inr b \<Rightarrow> require (\<not> bounds_violated (unat (getsize (h ptr))) chunkNewSize b) Block_error)"

definition build_chunk_info ::
  "chunk_index \<Rightarrow> heap \<Rightarrow> uint64 \<Rightarrow> LongLongID \<Rightarrow> (int, AccessBlockInfo) ordered_map \<Rightarrow> chunk_info result" where
  "build_chunk_info ix h appID chunkLocalID blocks =
    bind_result (getChunk ix (FullID appID chunkLocalID)) (\<lambda>ptr.
      case (osm_keys blocks, osm_values blocks) of
        (offset # _, b # _) \<Rightarrow>
          bind_result (declared_resizing offset (abi_size b)) (\<lambda>(resizingType, chunkNewSize).
          bind_result (if offset = - 1 then check_bounds ix h (FullID appID chunkLocalID) ptr chunkNewSize else Inr ())
            (\<lambda>_. ChunkInfo h ptr resizingType (to_uint32 chunkNewSize) (osm_keys blocks) (osm_values blocks)))
      | _ \<Rightarrow> Inl Undefined_behaviour)"

fun build_chunk_infos ::
  "chunk_index \<Rightarrow> heap \<Rightarrow> uint64 \<Rightarrow> (LongLongID \<times> (int, AccessBlockInfo) ordered_map) list \<Rightarrow> chunk_info list result" where
  "build_chunk_infos ix h appID [] = Inr []"
| "build_chunk_infos ix h appID ((k, blocks) # rest) =
    bind_result (build_chunk_info ix h appID k blocks) (\<lambda>ci.
    bind_result (build_chunk_infos ix h appID rest) (\<lambda>cis. Inr (ci # cis)))"

fun build_chunk_maps ::
  "chunk_index \<Rightarrow> heap \<Rightarrow> (uint64 \<times> (LongLongID, (int, AccessBlockInfo) ordered_map) ordered_map) list \<Rightarrow> chunk_map list result" where
  "build_chunk_maps ix h [] = Inr []"
| "build_chunk_maps ix h ((appID, chunks) # rest) =
    bind_result (build_chunk_infos ix h appID (zip (osm_keys chunks) (osm_values chunks))) (\<lambda>cis.
    bind_result (OrderedStaticMap (osm_keys chunks) cis) (\<lambda>m.
    bind_result (build_chunk_maps ix h rest) (\<lambda>ms. Inr (m # ms))))"

definition buildModifier :: "chunk_index \<Rightarrow> heap \<Rightarrow> AccessMapType \<Rightarrow> modifier result" where
  "buildModifier ix h rawAccessMap =
    bind_result (build_chunk_maps ix h (zip (osm_keys rawAccessMap) (osm_values rawAccessMap))) (\<lambda>ms.
      RestrictedModifier (osm_keys rawAccessMap) ms)"

section \<open>Applications\<close>

type_synonym app_index = "uint64 \<rightharpoonup> dispatcher option"

fun collect_dispatchers :: "app_index \<Rightarrow> uint64 list \<Rightarrow> dispatcher option list result" where
  "collect_dispatchers cache [] = Inr []"
| "collect_dispatchers cache (a # as) =
    (case cache a of
       None \<Rightarrow> Inl Block_error
     | Some d \<Rightarrow> bind_result (collect_dispatchers cache as) (\<lambda>ds. Inr (d # ds)))"

definition buildAppTable :: "app_index \<Rightarrow> uint64 list \<Rightarrow> (uint64, dispatcher option) ordered_map result" where
  "buildAppTable cache sortedAppList =
    bind_result (collect_dispatchers cache sortedAppList) (\<lambda>ds. OrderedStaticMap sortedAppList ds)"

text \<open>\<^verbatim>\<open>loader->load\<close> is the argument \<open>load_app\<close>; an application that cannot be loaded gets a null dispatcher.\<close>

fun add_handles :: "app_index \<Rightarrow> (uint64 \<times> dispatcher result) list \<Rightarrow> app_index result" where
  "add_handles cache [] = Inr cache"
| "add_handles cache ((a, r) # rest) =
    (case r of
       Inr d \<Rightarrow> add_handles (case cache a of None \<Rightarrow> cache(a \<mapsto> Some d) | Some _ \<Rightarrow> cache) rest
     | Inl Runtime_error \<Rightarrow> add_handles (case cache a of None \<Rightarrow> cache(a \<mapsto> None) | Some _ \<Rightarrow> cache) rest
     | Inl e \<Rightarrow> Inl e)"

definition prepareApps :: "(uint64 \<Rightarrow> dispatcher result) \<Rightarrow> app_index \<Rightarrow> uint64 list \<Rightarrow> app_index result" where
  "prepareApps load_app cache appList =
    add_handles cache (map (\<lambda>a. (a, load_app a)) (filter (\<lambda>a. cache a = None) appList))"


section \<open>The index contains the chunks of the pages\<close>

text \<open>The chunks of pages with the identifiers they are indexed by.\<close>

fun migrant_entries :: "(byte list \<times> nat option) list \<Rightarrow> (FullID \<times> nat) list result" where
  "migrant_entries [] = Inr []"
| "migrant_entries ((ident, ptr) # ms) =
    bind_result (VarLenFullID_FullID ident) (\<lambda>k.
    case ptr of
      None \<Rightarrow> Inl Undefined_behaviour
    | Some q \<Rightarrow> bind_result (migrant_entries ms) (\<lambda>es. Inr ((k, q) # es)))"

fun page_entries :: "(FullID \<times> page) list \<Rightarrow> (FullID \<times> nat) list result" where
  "page_entries [] = Inr []"
| "page_entries ((k, pg) # pgs) =
    (case getNative pg of
       None \<Rightarrow> Inl Undefined_behaviour
     | Some q \<Rightarrow>
         bind_result (migrant_entries (getMigrants pg)) (\<lambda>es.
         bind_result (page_entries pgs) (\<lambda>rest. Inr ((k, q) # es @ rest))))"

definition indexed :: "bool \<Rightarrow> (FullID \<times> nat) list \<Rightarrow> (FullID \<rightharpoonup> nat) \<times> heap \<Rightarrow> (FullID \<rightharpoonup> nat) \<times> heap" where
  "indexed writable es mh =
    (map_of es ++ fst mh, \<lambda>q. if q \<in> snd ` set es then setWritable (snd mh q) writable else snd mh q)"

lemma indexed_Nil: "indexed b [] mh = mh"
  by (simp add: indexed_def)

lemma indexed_append: "indexed b ys (indexed b xs mh) = indexed b (xs @ ys) mh"
  by (auto simp: indexed_def fun_eq_iff map_add_def setWritable_def split: option.splits)

lemma index_chunk_eq: "index_chunk b k (Some q) mh = Inr (indexed b [(k, q)] mh)"
  by (cases mh) (auto simp: index_chunk_def indexed_def fun_eq_iff map_add_def split: option.splits)

lemma index_migrants_eq:
  "index_migrants b ms mh = bind_result (migrant_entries ms) (\<lambda>es. Inr (indexed b es mh))"
proof (induction ms arbitrary: mh rule: migrant_entries.induct)
  case 1
  then show ?case by (simp add: indexed_Nil)
next
  case (2 ident ptr ms)
  show ?case
  proof (cases "VarLenFullID_FullID ident")
    case (Inr k)
    show ?thesis
    proof (cases ptr)
      case None
      then show ?thesis using Inr by (simp add: index_chunk_def)
    next
      case (Some q)
      then show ?thesis using Inr 2 [OF Inr Some] 
        by (cases "migrant_entries ms") (simp_all add: index_chunk_eq indexed_append)
    qed
  qed simp
qed

lemma index_pages_eq:
  "index_pages b pgs mh = bind_result (page_entries pgs) (\<lambda>es. Inr (indexed b es mh))"
proof (induction pgs arbitrary: mh rule: page_entries.induct)
  case 1
  then show ?case by (simp add: indexed_Nil)
next
  case (2 k pg pgs)
  show ?case
  proof (cases "getNative pg")
    case None
    then show ?thesis by (simp add: indexPage_def index_chunk_def)
  next
    case (Some q)
    show ?thesis
    proof (cases "migrant_entries (getMigrants pg)")
      case (Inr es)
      then show ?thesis using Some 2 [OF Some Inr]
        by (cases "page_entries pgs") (simp_all add: indexPage_def index_chunk_eq index_migrants_eq indexed_append)
    qed (use Some in \<open>simp add: indexPage_def index_chunk_eq index_migrants_eq\<close>)
  qed
qed

text \<open>Reserving space changes neither the bytes of a chunk nor whether it is writable.\<close>

definition reserved :: "chunk \<Rightarrow> chunk \<Rightarrow> bool" where
  "reserved c c' \<longleftrightarrow> wf_chunk c' \<and> zero_tail c' \<and> chunk_bytes c' = chunk_bytes c \<and> ch_size c' = ch_size c \<and>
    ch_writable c' = ch_writable c \<and> ch_capacity c \<le> ch_capacity c'"

lemma reserveSpace_reserved:
  assumes "wf_chunk c" "zero_tail c" "reserveSpace c n = Inr (c', b)"
  shows "reserved c c'" "n \<le> ch_capacity c'"
proof -
  have "unat n \<le> 65536 \<and> c' = (if unat n \<le> unat (ch_capacity c) then c
      else c\<lparr>ch_content := fit_bytes (unat n) (chunk_bytes c), ch_capacity := n\<rparr>)"
    using assms(3) unfolding reserveSpace_ok [OF assms(1,2)] by (auto split: if_splits)
  then show "reserved c c'" "n \<le> ch_capacity c'"
    using fitted_chunk [OF assms(1), of n] wf_chunkD(2) [OF assms(1)] assms(1,2)
    by (auto simp: reserved_def word_le_nat_alt)
qed

lemma reserved_trans: "reserved a b \<Longrightarrow> reserved b c \<Longrightarrow> reserved a c"
  by (auto simp: reserved_def)

lemma reserve_chunks_reserved:
  assumes "reserve_chunks ix bs h = Inr h'" "\<forall>q. wf_chunk (h q) \<and> zero_tail (h q)"
  shows "(\<forall>q. reserved (h q) (h' q)) \<and>
    (\<forall>(k, b) \<in> set bs. \<exists>q. getChunk ix k = Inr q \<and> word_of_int (cb_sizeUpperBound b) \<le> ch_capacity (h' q))"
  using assms
proof (induction ix bs h rule: reserve_chunks.induct)
  case (1 ix h)
  then show ?case by (auto simp: reserved_def)
next
  case (2 ix k b rest h)
  obtain q c x where q: "getChunk ix k = Inr q" and c: "reserveSpace (h q) (word_of_int (cb_sizeUpperBound b)) = Inr (c, x)"
    and rest: "reserve_chunks ix rest (h(q := c)) = Inr h'"
    using 2(2) by (auto simp: bind_result_Inr_iff)
  note r = reserveSpace_reserved [OF _ _ c]
  have rc: "reserved (h q) c" "word_of_int (cb_sizeUpperBound b) \<le> ch_capacity c" using r 2(3) by blast+
  have "\<forall>p. wf_chunk ((h(q := c)) p) \<and> zero_tail ((h(q := c)) p)" using rc 2(3) by (simp add: reserved_def)
  from 2(1) [OF q c refl rest this] have IH: "\<forall>p. reserved ((h(q := c)) p) (h' p)"
    "\<forall>(k, b) \<in> set rest. \<exists>q. getChunk ix k = Inr q \<and> word_of_int (cb_sizeUpperBound b) \<le> ch_capacity (h' q)" by blast+
  have "reserved (h p) (h' p)" for p
    using spec [OF IH(1), of p] rc(1) reserved_trans by (cases "p = q") auto
  moreover have "word_of_int (cb_sizeUpperBound b) \<le> ch_capacity (h' q)"
    using spec [OF IH(1), of q] rc(2) by (auto simp: reserved_def)
  ultimately show ?case using IH(2) q by auto
qed

text \<open>C23: The index of a block holds exactly the chunks of its pages under the identifiers of the pages and their
  migrants, the first chunk of an identifier; building it keeps the bytes of every chunk, makes exactly the chunks
  of the writable pages writable, and reserves the space that the block has declared.\<close>

theorem chunks_indexed:
  assumes "ChunkIndex ro wr bounds h = Inr (ix, h')" "\<forall>q. wf_chunk (h q) \<and> zero_tail (h q)"
  shows "\<exists>er ew. page_entries ro = Inr er \<and> page_entries wr = Inr ew \<and>
    (\<forall>k. getChunk ix k = (case map_of (er @ ew) k of None \<Rightarrow> Inl Block_error | Some q \<Rightarrow> Inr q)) \<and>
    (\<forall>q. wf_chunk (h' q) \<and> zero_tail (h' q) \<and> chunk_bytes (h' q) = chunk_bytes (h q) \<and>
      isWritable (h' q) = (q \<in> snd ` set ew \<or> q \<notin> snd ` set er \<and> isWritable (h q))) \<and>
    (\<forall>(k, b) \<in> set (zip (osm_keys bounds) (osm_values bounds)). \<exists>q. getChunk ix k = Inr q \<and>
      word_of_int (cb_sizeUpperBound b) \<le> ch_capacity (h' q))"
proof -
  obtain er ew where e: "page_entries ro = Inr er" "page_entries wr = Inr ew"
    and res: "(let mh = indexed True ew (indexed False er (Map.empty, h));
        ix = \<lparr>ix_writablePages = wr, ix_chunks = fst mh, ix_sizeBounds = bounds\<rparr>
      in bind_result (reserve_chunks ix (zip (osm_keys bounds) (osm_values bounds)) (snd mh)) (\<lambda>h2. Inr (ix, h2))) = Inr (ix, h')"
    using assms(1) by (auto simp: ChunkIndex_def index_pages_eq bind_result_Inr_iff Let_def split: prod.splits)
  let ?mh = "indexed True ew (indexed False er (Map.empty, h))"
  have ix: "ix = \<lparr>ix_writablePages = wr, ix_chunks = fst ?mh, ix_sizeBounds = bounds\<rparr>"
    and r: "reserve_chunks ix (zip (osm_keys bounds) (osm_values bounds)) (snd ?mh) = Inr h'"
    using res by (auto simp: Let_def bind_result_Inr_iff)
  have w: "wf_chunk (setWritable c b) = wf_chunk c" "zero_tail (setWritable c b) = zero_tail c"
    "chunk_bytes (setWritable c b) = chunk_bytes c" for c b
    by (simp_all add: setWritable_def wf_chunk_def zero_tail_def chunk_bytes_def)
  have mh: "wf_chunk (snd ?mh q) \<and> zero_tail (snd ?mh q) \<and> chunk_bytes (snd ?mh q) = chunk_bytes (h q) \<and>
      ch_writable (snd ?mh q) = (q \<in> snd ` set ew \<or> q \<notin> snd ` set er \<and> ch_writable (h q))" for q
    using assms(2) by (simp add: indexed_def w) (simp add: setWritable_def)
  have "fst ?mh = map_of (er @ ew)" by (simp add: indexed_def)
  then have "\<forall>k. getChunk ix k = (case map_of (er @ ew) k of None \<Rightarrow> Inl Block_error | Some q \<Rightarrow> Inr q)"
    using ix by (simp add: getChunk_def)
  moreover note reserve_chunks_reserved [OF r] mh
  ultimately show ?thesis using e
    by (intro exI conjI) (auto simp: reserved_def isWritable_def)
qed


section \<open>Migrations\<close>

definition migrants_at :: "page_cache \<Rightarrow> byte list \<Rightarrow> (byte list \<times> nat option) multiset" where
  "migrants_at cache k = (case cache k of None \<Rightarrow> {#} | Some pg \<Rightarrow> mset (pg_migrants pg))"

definition native_at :: "page_cache \<Rightarrow> byte list \<Rightarrow> nat option option" where
  "native_at cache k = map_option pg_native (cache k)"

lemma remove_nth_mset: "i < length xs \<Longrightarrow> add_mset (xs ! i) (mset (remove_nth i xs)) = mset xs"
  by (subst (3) id_take_nth_drop [of i xs]) (auto simp: remove_nth_def)

text \<open>A migration that does not name the native chunk takes one migrant out of a page and adds it to another one.\<close>

lemma migrate_step:
  assumes "migrate keys mg (al, cache) = Inr (al', cache')" "mg_chunkIndex mg \<noteq> - 1"
  obtains a b m where "a \<in> set keys" "b \<in> set keys" "al' = al" "m \<in># migrants_at cache a"
    "\<And>k. native_at cache' k = native_at cache k" "\<And>k. k \<noteq> a \<Longrightarrow> k \<noteq> b \<Longrightarrow> cache' k = cache k"
    "migrants_at cache' = (migrants_at cache)(a := migrants_at cache a - {#m#}, b := add_mset m (((migrants_at cache)(a := migrants_at cache a - {#m#})) b))"
proof -
  obtain a b from' m pg to' where r: "list_at keys (mg_fromIndex mg) = Inr a" "list_at keys (mg_toIndex mg) = Inr b"
    "cached cache a = Inr pg" "extractMigrant pg (mg_chunkIndex mg) = Inr (m, from')"
    "cached (cache(a \<mapsto> from')) b = Inr to'" "al' = al" "cache' = (cache(a \<mapsto> from'))(b \<mapsto> addMigrant to' m)"
    using assms by (auto simp: migrate_def bind_result_Inr_iff)
  have ab: "a \<in> set keys" "b \<in> set keys" using r(1,2) by (auto simp: list_at_def split: if_splits)
  have c: "cache a = Some pg" "(cache(a \<mapsto> from')) b = Some to'"
    using r(3,5) by (auto simp: cached_def split: option.splits if_splits)
  obtain i where i: "i < length (pg_migrants pg)" "m = pg_migrants pg ! i"
      "from' = pg\<lparr>pg_migrants := remove_nth i (pg_migrants pg)\<rparr>"
    using r(4) by (auto simp: extractMigrant_def split: if_splits)
  have ms: "mset (pg_migrants from') = migrants_at cache a - {#m#}"
    using remove_nth_mset [OF i(1)] i c(1) by (simp add: migrants_at_def) (metis add_mset_remove_trivial)
  show thesis
  proof (rule that [OF ab r(6)])
    show "m \<in># migrants_at cache a" using i c(1) by (simp add: migrants_at_def)
    show "native_at cache' k = native_at cache k" for k
      using r(7) c i(3) by (auto simp: native_at_def addMigrant_def)
    show "cache' k = cache k" if "k \<noteq> a" "k \<noteq> b" for k using r(7) that by simp
    show "migrants_at cache' = (migrants_at cache)(a := migrants_at cache a - {#m#},
        b := add_mset m (((migrants_at cache)(a := migrants_at cache a - {#m#})) b))"
    proof
      fix k
      show "migrants_at cache' k = ((migrants_at cache)(a := migrants_at cache a - {#m#},
        b := add_mset m (((migrants_at cache)(a := migrants_at cache a - {#m#})) b))) k"
        using r(7) ms c by (cases "k = b"; cases "k = a") (auto simp: migrants_at_def addMigrant_def split: if_splits)
    qed
  qed
qed

lemma sum_update: "finite S \<Longrightarrow> a \<in> S \<Longrightarrow> sum (f(a := v)) S = v + sum f (S - {a})"
  by (simp add: sum.remove [of S a])

lemma sum_moved:
  fixes f :: "'a \<Rightarrow> 'b multiset"
  assumes "finite S" "a \<in> S" "b \<in> S" "m \<in># f a"
  shows "sum ((f(a := f a - {#m#}))(b := add_mset m ((f(a := f a - {#m#})) b))) S = sum f S"
proof -
  let ?g = "f(a := f a - {#m#})"
  have "sum (?g(b := add_mset m (?g b))) S = add_mset m (?g b + sum ?g (S - {b}))"
    unfolding sum_update [OF assms(1,3)] by simp
  also have "?g b + sum ?g (S - {b}) = sum ?g S" by (rule sum.remove [OF assms(1,3), symmetric])
  also have "sum ?g S = (f a - {#m#}) + sum f (S - {a})" by (rule sum_update [OF assms(1,2)])
  also have "add_mset m \<dots> = f a + sum f (S - {a})" using assms(4) by simp
  also have "\<dots> = sum f S" by (rule sum.remove [OF assms(1,2), symmetric])
  finally show ?thesis .
qed

text \<open>C24: Migrations of migrants move them between the pages of the list: no chunk is lost, duplicated or renamed, the
  native chunks stay where they are and other pages are not touched.\<close>

theorem migrations_move_chunks:
  assumes "migrate_all keys mgs (al, cache) = Inr (al', cache')" "\<forall>mg \<in> set mgs. mg_chunkIndex mg \<noteq> - 1"
  shows "al' = al \<and> (\<Sum>k \<in> set keys. migrants_at cache' k) = (\<Sum>k \<in> set keys. migrants_at cache k) \<and>
    (\<forall>k. native_at cache' k = native_at cache k \<and> (k \<notin> set keys \<longrightarrow> cache' k = cache k))"
  using assms
proof (induction mgs arbitrary: al cache)
  case (Cons mg mgs)
  obtain al1 cache1 where r: "migrate keys mg (al, cache) = Inr (al1, cache1)" "migrate_all keys mgs (al1, cache1) = Inr (al', cache')"
    using Cons.prems(1) by (auto simp: bind_result_Inr_iff)
  obtain a b m where s: "a \<in> set keys" "b \<in> set keys" "al1 = al" "m \<in># migrants_at cache a"
    "\<And>k. native_at cache1 k = native_at cache k" "\<And>k. k \<noteq> a \<Longrightarrow> k \<noteq> b \<Longrightarrow> cache1 k = cache k"
    "migrants_at cache1 = (migrants_at cache)(a := migrants_at cache a - {#m#}, b := add_mset m (((migrants_at cache)(a := migrants_at cache a - {#m#})) b))"
    using migrate_step [OF r(1)] Cons.prems(2) by (metis list.set_intros(1))
  have "(\<Sum>k \<in> set keys. migrants_at cache1 k) = (\<Sum>k \<in> set keys. migrants_at cache k)"
    unfolding s(7) by (rule sum_moved) (use s in simp_all)
  moreover have "k \<notin> set keys \<longrightarrow> cache1 k = cache k" for k using s(1,2,6) by metis
  ultimately show ?case using Cons.IH [OF r(2)] Cons.prems(2) s(3,5) by simp
qed simp

text \<open>The migration of the native chunk of a page does not take the chunk out of the page: afterwards both pages
  own it, and destroying both frees it twice; that the page has migrants is not noticed either.\<close>

theorem native_migration_shares_chunk:
  assumes "list_at keys (mg_fromIndex mg) = Inr a" "list_at keys (mg_toIndex mg) = Inr b" "a \<noteq> b"
    and "cache a = Some pa" "cache b = Some pb" "mg_chunkIndex mg = - 1"
  shows "\<exists>al' cache'. migrate keys mg (al, cache) = Inr (al', cache') \<and>
    native_at cache' a = Some (pg_native pa) \<and>
    migrants_at cache' b = add_mset (al ! nat (mg_fromIndex mg), pg_native pa) (migrants_at cache b)"
  using assms by (simp add: migrate_def cached_def getNative_def native_at_def migrants_at_def addMigrant_def)

section \<open>Bounds of sizes\<close>

text \<open>A declaration that a request may change the size of a chunk is accepted exactly when the chunk's size is
  within the bounds of the block and the declared size is at most the upper bound; a request that only expands is so
  held within the upper bound. The minimal size of a request that shrinks the chunk is not compared with the lower bound
  unless it is zero.\<close>

theorem declared_bounds_checked:
  assumes "osm_at (ix_sizeBounds ix) k = Inr b" "0 \<le> cb_sizeLowerBound b" "cb_sizeLowerBound b < 2 ^ 31"
    "0 \<le> cb_sizeUpperBound b" "cb_sizeUpperBound b < 2 ^ 31" "- (2 ^ 31) < sz"
  shows "\<exists>t n. declared_resizing (- 1) sz = Inr (t, n) \<and> n = \<bar>sz\<bar> \<and> (t = expandable \<longleftrightarrow> sz > 0) \<and>
    (check_bounds ix h k ptr n = Inr () \<longleftrightarrow>
      cb_sizeLowerBound b \<le> int (unat (getsize (h ptr))) \<and> int (unat (getsize (h ptr))) \<le> cb_sizeUpperBound b \<and>
      (if sz = 0 then cb_sizeLowerBound b = 0 else \<bar>sz\<bar> \<le> cb_sizeUpperBound b))"
proof -
  have u: "to_uint32 i = nat i" if "0 \<le> i" "i < 2 ^ 31" for i using that by (simp add: to_uint32_def)
  show ?thesis
    using assms
    by (auto simp: declared_resizing_def check_bounds_def bounds_violated_def require_def u nat_less_iff zless_nat_eq_int_zless
        split: if_splits)
qed

section \<open>The table of applications\<close>

text \<open>A request that calls an application gets 404 when the application could not be loaded and 420 when the request
  has not declared it; every declared application that was loaded can be called. Building the table fails
  exactly when the block has not prepared a declared application.\<close>

theorem app_table_answers:
  assumes "sorted_wrt (<) apps"
  shows "(buildAppTable cache apps = Inl Block_error \<longleftrightarrow> (\<exists>a \<in> set apps. cache a = None)) \<and>
    (\<forall>t. buildAppTable cache apps = Inr t \<longrightarrow> (\<forall>a.
      map_option (\<lambda>e. case e of Ascee_exn code _ \<Rightarrow> code | _ \<Rightarrow> 0) (checkApp (env\<lparr>en_callTable := t\<rparr>) a) =
        (if a \<notin> set apps then Some 420 else if cache a = Some None then Some 404 else None)))"
proof -
  have c: "collect_dispatchers cache apps = (if \<exists>a \<in> set apps. cache a = None then Inl Block_error else Inr (map (the \<circ> cache) apps))"
    by (induction apps) (auto split: option.splits)
  have at: "osm_at \<lparr>osm_keys = apps, osm_values = map f apps\<rparr> a = (if a \<in> set apps then Inr (f a) else Inl Out_of_range)" for f a
  proof -
    have wf: "wf_keys \<lparr>osm_keys = apps, osm_values = map f apps\<rparr>" using assms by (simp add: wf_keys_def)
    have "map_of (zip apps (map f apps)) a = (if a \<in> set apps then Some (f a) else None)"
      by (simp add: map_of_zip_map)
    then show ?thesis using osm.at_lookup [OF wf, of a] by (simp add: osm_lookup_def entries_def)
  qed
  show ?thesis
    by (auto simp: buildAppTable_def OrderedStaticMap_def checkApp_def c at split: option.splits)
qed


section \<open>Samples\<close>

definition sample_page :: "nat \<Rightarrow> (byte list \<times> nat option) list \<Rightarrow> page" where
  "sample_page q ms = \<lparr>pg_version = 5, pg_native = Some q, pg_migrants = ms\<rparr>"

definition page_a :: "byte list" where "page_a = [1, 2, 3]"
definition page_b :: "byte list" where "page_b = [1, 2, 4]"

theorem chunks_indexed_witness:
  "\<exists>ix h'. ChunkIndex [(FullID 7 (LongLongID 0 9), sample_page 3 [])] [(FullID 7 (LongLongID 0 8), sample_page 4 [])]
      \<lparr>osm_keys = [FullID 7 (LongLongID 0 8)], osm_values = [\<lparr>cb_sizeUpperBound = 20, cb_sizeLowerBound = 0\<rparr>]\<rparr>
      (\<lambda>_. sample_chunk) = Inr (ix, h') \<and>
    getChunk ix (FullID 7 (LongLongID 0 8)) = Inr 4 \<and> isWritable (h' 4) \<and> \<not> isWritable (h' 3)"
proof -
  let ?ro = "[(FullID 7 (LongLongID 0 9), sample_page 3 [])]" and ?wr = "[(FullID 7 (LongLongID 0 8), sample_page 4 [])]"
  let ?b = "\<lparr>osm_keys = [FullID 7 (LongLongID 0 8)], osm_values = [\<lparr>cb_sizeUpperBound = 20, cb_sizeLowerBound = 0\<rparr>]\<rparr>"
  have "is_ok (ChunkIndex ?ro ?wr ?b (\<lambda>_. sample_chunk))" by code_simp
  then obtain ix h' where r: "ChunkIndex ?ro ?wr ?b (\<lambda>_. sample_chunk) = Inr (ix, h')"
    by (cases "ChunkIndex ?ro ?wr ?b (\<lambda>_. sample_chunk)") (auto simp: is_ok_def)
  from chunks_indexed [OF r] sample_chunk_wf have
    "getChunk ix (FullID 7 (LongLongID 0 8)) = Inr 4 \<and> isWritable (h' 4) \<and> \<not> isWritable (h' 3)"
    by (auto simp: sample_page_def getNative_def getMigrants_def)
  then show ?thesis using r by blast
qed

definition sample_cache :: page_cache where
  "sample_cache = [page_a \<mapsto> sample_page 0 [([9], Some 5)], page_b \<mapsto> sample_page 1 []]"

theorem migrations_move_chunks_witness:
  "\<exists>cache'. migrate_all [page_a, page_b] [\<lparr>mg_chunkIndex = 0, mg_fromIndex = 0, mg_toIndex = 1\<rparr>] ([page_a, page_b], sample_cache)
      = Inr ([page_a, page_b], cache') \<and>
    (\<Sum>k \<in> {page_a, page_b}. migrants_at cache' k) = {#([9], Some 5)#}"
proof -
  let ?mgs = "[\<lparr>mg_chunkIndex = 0, mg_fromIndex = 0, mg_toIndex = 1\<rparr>]"
  have ab: "page_a \<noteq> page_b" by (simp add: page_a_def page_b_def)
  obtain al' cache' where r: "migrate_all [page_a, page_b] ?mgs ([page_a, page_b], sample_cache) = Inr (al', cache')"
    using ab by (simp add: migrate_def list_at_def cached_def sample_cache_def extractMigrant_def sample_page_def)
  from migrations_move_chunks [OF r] have "al' = [page_a, page_b]"
    "(\<Sum>k \<in> {page_a, page_b}. migrants_at cache' k) = (\<Sum>k \<in> {page_a, page_b}. migrants_at sample_cache k)" by simp_all
  then show ?thesis using r ab by (simp add: migrants_at_def sample_cache_def sample_page_def)
qed

theorem native_migration_shares_chunk_witness:
  "\<exists>al' cache'. migrate [page_a, page_b] \<lparr>mg_chunkIndex = - 1, mg_fromIndex = 0, mg_toIndex = 1\<rparr> ([page_a, page_b], sample_cache)
      = Inr (al', cache') \<and>
    native_at cache' page_a = Some (Some 0) \<and> migrants_at cache' page_b = {#(page_a, Some 0)#}"
proof -
  let ?mg = "\<lparr>mg_chunkIndex = - 1, mg_fromIndex = 0, mg_toIndex = 1\<rparr>"
  have ab: "page_a \<noteq> page_b" by (simp add: page_a_def page_b_def)
  have "list_at [page_a, page_b] (mg_fromIndex ?mg) = Inr page_a" "list_at [page_a, page_b] (mg_toIndex ?mg) = Inr page_b"
    "sample_cache page_a = Some (sample_page 0 [([9], Some 5)])" "sample_cache page_b = Some (sample_page 1 [])"
    "mg_chunkIndex ?mg = - 1"
    using ab by (simp_all add: list_at_def sample_cache_def)
  note s = native_migration_shares_chunk [OF this(1,2) ab this(3-5), of "[page_a, page_b]"]
  have "migrants_at sample_cache page_b = {#}"
    using ab by (simp add: migrants_at_def sample_cache_def sample_page_def)
  then show ?thesis using s by (simp add: sample_page_def)
qed

theorem declared_bounds_checked_witness:
  "\<exists>t n. declared_resizing (- 1) (- 2) = Inr (t, n) \<and> t \<noteq> expandable \<and>
    check_bounds \<lparr>ix_writablePages = [], ix_chunks = Map.empty,
      ix_sizeBounds = \<lparr>osm_keys = [FullID 7 (LongLongID 0 9)], osm_values = [\<lparr>cb_sizeUpperBound = 20, cb_sizeLowerBound = 3\<rparr>]\<rparr>\<rparr>
      (\<lambda>_. sample_chunk) (FullID 7 (LongLongID 0 9)) 0 n = Inr ()"
proof -
  let ?ix = "\<lparr>ix_writablePages = [], ix_chunks = Map.empty,
      ix_sizeBounds = \<lparr>osm_keys = [FullID 7 (LongLongID 0 9)], osm_values = [\<lparr>cb_sizeUpperBound = 20, cb_sizeLowerBound = 3\<rparr>]\<rparr>\<rparr> :: chunk_index"
  have "osm_find [FullID 7 (LongLongID 0 9)] (FullID 7 (LongLongID 0 9)) = Inr 0" by code_simp
  then have at: "osm_at (ix_sizeBounds ?ix) (FullID 7 (LongLongID 0 9)) = Inr \<lparr>cb_sizeUpperBound = 20, cb_sizeLowerBound = 3\<rparr>"
    by (simp add: osm_at_def)
  from declared_bounds_checked [OF at, of "- 2" "\<lambda>_. sample_chunk" 0] show ?thesis
    by (auto simp: sample_chunk_def getsize_def)
qed

theorem app_table_answers_witness:
  "buildAppTable [7 \<mapsto> None, 8 \<mapsto> None] [7, 9] = Inl Block_error"
proof -
  have "sorted_wrt (<) [7, 9 :: uint64]" by simp
  from app_table_answers [OF this, of "[7 \<mapsto> None, 8 \<mapsto> None]"] show ?thesis by simp
qed

end
