(* ===== verification/Processor.thy ===== *)
theory Processor
  imports Collisions Storage
begin

text \<open>
  The processing of the requests of a block, \<^verbatim>\<open>src/validator/RequestProcessor.hpp\<close>: requests are loaded
  into the scheduler with what they need from the storage, the proposed execution graph is checked chunk by
  chunk, and the requests are executed, in parallel (theory \<open>Scheduler\<close>) or one after the other. \<open>runAll\<close>
  divides tasks among workers; the tasks of different workers do not depend on each other, so that only
  which tasks run and which exception wins is modelled.
\<close>

section \<open>Dividing tasks among workers\<close>

definition runAll_step :: "nat \<Rightarrow> nat \<Rightarrow> nat" where
  "runAll_step tasksCount workersCount = max (tasksCount div workersCount) 1"

text \<open>Worker \<open>i\<close>, for \<open>i = 0, \<dots>, workersCount\<close>.\<close>

definition worker_tasks :: "nat \<Rightarrow> nat \<Rightarrow> nat \<Rightarrow> nat list" where
  "worker_tasks tasksCount workersCount i =
    (let step = runAll_step tasksCount workersCount
     in [i * step ..< min (Suc i * step) tasksCount])"

definition runAll_tasks :: "nat \<Rightarrow> nat \<Rightarrow> nat list" where
  "runAll_tasks tasksCount workersCount =
    concat (map (worker_tasks tasksCount workersCount) [0..<Suc workersCount])"

text \<open>A worker stops at the first exception. When all have ended, the exception of the first worker that had one is
  thrown; \<open>None\<close>: a task does not return.\<close>

fun run_tasks :: "(nat \<Rightarrow> unit result option) \<Rightarrow> nat list \<Rightarrow> unit result option" where
  "run_tasks task [] = Some (Inr ())"
| "run_tasks task (t # rest) =
    (case task t of
       None \<Rightarrow> None
     | Some (Inl e) \<Rightarrow> Some (Inl e)
     | Some (Inr _) \<Rightarrow> run_tasks task rest)"

fun first_error :: "unit result list \<Rightarrow> unit result" where
  "first_error [] = Inr ()"
| "first_error (Inl e # rs) = Inl e"
| "first_error (Inr _ # rs) = first_error rs"

definition runAll :: "(nat \<Rightarrow> unit result option) \<Rightarrow> nat \<Rightarrow> nat \<Rightarrow> unit result option" where
  "runAll task tasksCount workersCount =
    (let rs = map (\<lambda>i. run_tasks task (worker_tasks tasksCount workersCount i)) [0..<Suc workersCount]
     in if None \<in> set rs then None
        else if Some (Inl Undefined_behaviour) \<in> set rs then Some (Inl Undefined_behaviour)
        else if Some (Inl Assert_failed) \<in> set rs then Some (Inl Assert_failed)
        else Some (first_error (map the rs)))"

section \<open>Loading requests\<close>

record signed_text =
  st_issuerAccount :: uint64
  st_message :: string
  st_signature :: "byte list"

record app_request_info =
  ri_id :: nat
  ri_calledAppID :: uint64
  ri_httpRequest :: string
  ri_maxClocks :: int
  ri_appAccessList :: "uint64 list"
  ri_useControlledExecution :: bool
  ri_stackSizeFailures :: "int list"
  ri_cpuTimeFailures :: "int list"
  ri_memoryAccessMap :: AccessMapType
  ri_adjList :: "nat list"
  ri_attachments :: "nat list"
  ri_signedMessagesList :: "signed_text list"

text \<open>What the scheduler refers to; the verification of signatures belongs to a library.\<close>

record request_context =
  rc_heap :: heap
  rc_chunkIndex :: chunk_index
  rc_appIndex :: app_index
  rc_verify :: "string \<Rightarrow> byte list \<Rightarrow> byte list \<Rightarrow> bool"

type_synonym dag_request = "app_request \<times> (uint64, dispatcher option) ordered_map"

definition getModifierFor :: "request_context \<Rightarrow> 'r scheduler \<Rightarrow> nat \<Rightarrow> modifier result" where
  "getModifierFor ctx s i =
    (if i < length (sc_accessMaps s) then buildModifier (rc_chunkIndex ctx) (rc_heap ctx) (sc_accessMaps s ! i)
     else Inl Undefined_behaviour)"

definition getAppTableFor :: "request_context \<Rightarrow> uint64 list \<Rightarrow> (uint64, dispatcher option) ordered_map result" where
  "getAppTableFor ctx sortedAppList = buildAppTable (rc_appIndex ctx) sortedAppList"

text \<open>Whether a message has a valid signature of the owner of its account; the nonce chunk of an account that is not owned by
  an application holds the key behind the first nonce.\<close>

definition verifies :: "request_context \<Rightarrow> signed_text \<Rightarrow> bool result" where
  "verifies ctx msg =
    bind_result (getChunk (rc_chunkIndex ctx)
        (FullID arg_app_id_g (LongLongID (st_issuerAccount msg) nonce_chunk_local_id_g))) (\<lambda>q.
      case getContentPointer (rc_heap ctx q) 0 (word_of_nat (decision_nonce_size_g + public_key_size_k)) of
        Inl _ \<Rightarrow> Inr False
      | Inr p \<Rightarrow>
          bind_result (load_bytes (ch_content (rc_heap ctx q)) p decision_nonce_size_g) (\<lambda>nonce.
          bind_result (load_bytes (ch_content (rc_heap ctx q)) (p + decision_nonce_size_g) public_key_size_k) (\<lambda>pk.
            Inr (le_value nonce \<noteq> 0 \<and> rc_verify ctx (st_message msg) (st_signature msg) pk))))"

fun signed_messages :: "request_context \<Rightarrow> signed_text list \<Rightarrow> signed_message list result" where
  "signed_messages ctx [] = Inr []"
| "signed_messages ctx (msg # msgs) =
    bind_result (verifies ctx msg) (\<lambda>v.
    bind_result (signed_messages ctx msgs) (\<lambda>rest.
      Inr (\<lparr>sm_issuer = st_issuerAccount msg, sm_message = if v then st_message msg else []\<rparr> # rest)))"

definition getSigManagerFor :: "request_context \<Rightarrow> signed_text list \<Rightarrow> sig_manager result" where
  "getSigManagerFor ctx messageList =
    (if messageList = [] then Inr (VirtualSignatureManager [])
     else bind_result (signed_messages ctx messageList) (\<lambda>msgs. Inr (VirtualSignatureManager msgs)))"

definition DagNode :: "request_context \<Rightarrow> app_request_info \<Rightarrow> dag_request scheduler \<Rightarrow> dag_request dag_node result" where
  "DagNode ctx data s =
    bind_result (getModifierFor ctx s (ri_id data)) (\<lambda>md.
    bind_result (getAppTableFor ctx (ri_appAccessList data)) (\<lambda>apps.
    bind_result (getSigManagerFor ctx (ri_signedMessagesList data)) (\<lambda>sm.
      Inr \<lparr>nd_request =
             (\<lparr>ar_calledAppID = ri_calledAppID data, ar_httpRequest = ri_httpRequest data, ar_maxClocks = ri_maxClocks data,
               ar_modifier = md, ar_useControlledExecution = ri_useControlledExecution data,
               ar_failureManager = FailureManager (ri_stackSizeFailures data) (ri_cpuTimeFailures data),
               ar_signatureManager = sm\<rparr>, apps),
           nd_attachments = ri_attachments data, nd_adjList = ri_adjList data, nd_inDegree = 0\<rparr>)))"

definition addRequest :: "request_context \<Rightarrow> app_request_info \<Rightarrow> dag_request scheduler \<Rightarrow> dag_request scheduler result" where
  "addRequest ctx data s =
    (if ri_id data < length (sc_accessMaps s) \<and> ri_id data < length (sc_nodeIndex s) then
       (let s1 = s\<lparr>sc_accessMaps := (sc_accessMaps s)[ri_id data := ri_memoryAccessMap data]\<rparr>
        in bind_result (DagNode ctx data s1) (\<lambda>nd. Inr (set_node s1 (ri_id data) (Some nd))))
     else Inl Undefined_behaviour)"

fun add_requests :: "request_context \<Rightarrow> app_request_info list \<Rightarrow> dag_request scheduler \<Rightarrow> dag_request scheduler result" where
  "add_requests ctx [] s = Inr s"
| "add_requests ctx (data # rest) s = bind_result (addRequest ctx data s) (\<lambda>s'. add_requests ctx rest s')"

text \<open>A stream is the list of its requests. The requests have different identifiers, so that the order of the streams
  does not matter.\<close>

definition loadRequests ::
  "request_context \<Rightarrow> app_request_info list list \<Rightarrow> nat \<Rightarrow> nat \<Rightarrow> dag_request scheduler \<Rightarrow> dag_request scheduler result" where
  "loadRequests ctx streams numOfRequests workersCount s =
    bind_result (add_requests ctx (concat (map (\<lambda>i. streams ! i) (runAll_tasks (length streams) workersCount))) s) (\<lambda>s1.
      finalizeRequests s1 (runAll_tasks numOfRequests workersCount))"

section \<open>Checking the execution graph\<close>

definition check_chunk ::
  "dag \<Rightarrow> chunk_index \<Rightarrow> uint64 \<Rightarrow> (LongLongID, (int, AccessBlockInfo) ordered_map) ordered_map \<Rightarrow> nat \<Rightarrow> unit result option" where
  "check_chunk dag ix app chunkList j =
    (let blocks = osm_values chunkList ! j
     in checkCollisions dag (getSizeLowerBound ix (FullID app (osm_keys chunkList ! j))) (osm_keys blocks) (osm_values blocks))"

fun check_apps ::
  "dag \<Rightarrow> chunk_index \<Rightarrow> nat \<Rightarrow> (uint64 \<times> (LongLongID, (int, AccessBlockInfo) ordered_map) ordered_map) list \<Rightarrow> unit result option" where
  "check_apps dag ix workersCount [] = Some (Inr ())"
| "check_apps dag ix workersCount ((app, chunkList) # rest) =
    (case runAll (check_chunk dag ix app chunkList) (osm_size chunkList) workersCount of
       Some (Inr _) \<Rightarrow> check_apps dag ix workersCount rest
     | r \<Rightarrow> r)"

definition checkDependencyGraph :: "'r scheduler \<Rightarrow> chunk_index \<Rightarrow> nat \<Rightarrow> unit result option" where
  "checkDependencyGraph s ix workersCount =
    (case sortAccessBlocks s workersCount of
       Inl e \<Rightarrow> Some (Inl e)
     | Inr m \<Rightarrow> check_apps (scheduler_dag s) ix workersCount (zip (osm_keys m) (osm_values m)))"

section \<open>Serial execution\<close>

text \<open>The requests run one after the other on the same heap.\<close>

definition execute_dag_request ::
  "nat \<Rightarrow> (exn \<Rightarrow> string) \<Rightarrow> heap \<Rightarrow> dag_request \<Rightarrow> (int \<times> string) outcome \<times> modifier \<times> heap" where
  "execute_dag_request fuel what h req =
    executeOne fuel \<lparr>en_heap = h, en_callTable = snd req, en_what = what\<rparr> (fst req)"

fun serial_execute ::
  "nat \<Rightarrow> (exn \<Rightarrow> string) \<Rightarrow> dag_request scheduler \<Rightarrow> nat list \<Rightarrow> heap \<Rightarrow> (int \<times> string) list outcome \<times> heap" where
  "serial_execute fuel what s [] h = (Returned [], h)"
| "serial_execute fuel what s (i # is) h =
    (case requestAt s i of
       Inl _ \<Rightarrow> (Stopped Undefined, h)
     | Inr req \<Rightarrow>
         (case execute_dag_request fuel what h req of
            (Returned r, _, h1) \<Rightarrow>
              (case serial_execute fuel what s is h1 of
                 (Returned rs, h2) \<Rightarrow> (Returned (r # rs), h2)
               | x \<Rightarrow> x)
          | (Thrown e, _, h1) \<Rightarrow> (Thrown e, h1)
          | (Signalled g, _, h1) \<Rightarrow> (Signalled g, h1)
          | (Stopped x, _, h1) \<Rightarrow> (Stopped x, h1)))"

definition serialExecuteRequests ::
  "nat \<Rightarrow> (exn \<Rightarrow> string) \<Rightarrow> dag_request scheduler \<Rightarrow> nat \<Rightarrow> heap \<Rightarrow> (int \<times> string) list outcome \<times> heap" where
  "serialExecuteRequests fuel what s numOfRequests h = serial_execute fuel what s [0..<numOfRequests] h"

section \<open>Which tasks run\<close>

lemma runAll_step_pos [simp]: "0 < runAll_step n w"
  by (simp add: runAll_step_def)

lemma set_worker_tasks: "t \<in> set (worker_tasks n w i) \<longleftrightarrow> t < n \<and> t div runAll_step n w = i"
proof -
  let ?s = "runAll_step n w"
  have "i * ?s \<le> t \<and> t < Suc i * ?s \<longleftrightarrow> t div ?s = i"
    using div_nat_eqI [of ?s i t] by (auto simp: mult.commute div_times_less_eq_dividend dividend_less_times_div
        less_eq_div_iff_mult_less_eq div_less_iff_less_mult)
  then show ?thesis by (auto simp: worker_tasks_def Let_def)
qed

lemma set_runAll_tasks: "t \<in> set (runAll_tasks n w) \<longleftrightarrow> t < n \<and> t < Suc w * runAll_step n w"
proof -
  have "t \<in> set (runAll_tasks n w) \<longleftrightarrow> t < n \<and> t div runAll_step n w < Suc w"
    by (auto simp: runAll_tasks_def set_worker_tasks)
  then show ?thesis by (simp add: div_less_iff_less_mult)
qed

lemma distinct_runAll_tasks: "distinct (runAll_tasks n w)"
proof -
  have "distinct (concat (map (worker_tasks n w) xs))" if "distinct xs" for xs
    using that
  proof (induction xs)
    case (Cons x xs)
    moreover have "distinct (worker_tasks n w x)" by (simp add: worker_tasks_def Let_def)
    ultimately show ?case using set_worker_tasks by fastforce
  qed simp
  then show ?thesis by (simp add: runAll_tasks_def del: upt_Suc)
qed

text \<open>C28: No task runs twice, and those that run are the first \<open>(workersCount + 1) * max (tasksCount / workersCount) 1\<close> ones: all
  tasks run exactly when there are fewer tasks than workers or the remainder of the division is at most the quotient.\<close>

theorem runAll_covers:
  assumes "0 < w"
  shows "distinct (runAll_tasks n w) \<and>
    set (runAll_tasks n w) = {..< min n (Suc w * max (n div w) 1)} \<and>
    (set (runAll_tasks n w) = {..<n} \<longleftrightarrow> n < w \<or> n mod w \<le> n div w)"
proof -
  have s: "set (runAll_tasks n w) = {..< min n (Suc w * max (n div w) 1)}"
    by (auto simp: set_runAll_tasks runAll_step_def)
  have "n \<le> Suc w * max (n div w) 1 \<longleftrightarrow> n < w \<or> n mod w \<le> n div w"
  proof (cases "n < w")
    case False
    then have "1 \<le> n div w" using assms by (simp add: div_greater_zero_iff Suc_le_eq)
    then have "Suc w * max (n div w) 1 = n div w + w * (n div w)" by simp
    moreover have "n = w * (n div w) + n mod w" by simp
    ultimately show ?thesis using False by linarith
  qed simp
  moreover have "({..< min n b} = {..<n}) \<longleftrightarrow> n \<le> b" for b :: nat by (auto simp: min_def)
  ultimately show ?thesis using s distinct_runAll_tasks by simp
qed


theorem runAll_covers_witness: "set (runAll_tasks 7 4) = {..<5} \<and> set (runAll_tasks 6 4) = {..<5} \<and> set (runAll_tasks 12 4) = {..<12}"
  using runAll_covers [of 4 7] runAll_covers [of 4 6] runAll_covers [of 4 12] by simp

section \<open>What an accepted graph guarantees\<close>

definition all_run :: "nat \<Rightarrow> nat \<Rightarrow> bool" where
  "all_run n w \<longleftrightarrow> set (runAll_tasks n w) = {..<n}"

lemma run_tasks_ok: "run_tasks task ts' = Some (Inr ()) \<longleftrightarrow> (\<forall>t \<in> set ts'. task t = Some (Inr ()))"
  by (induction ts') (auto split: option.splits sum.splits)

lemma first_error_ok: "first_error rs = Inr () \<longleftrightarrow> (\<forall>r \<in> set rs. r = Inr ())"
  by (induction rs rule: first_error.induct) auto

lemma results_ok:
  "(if None \<in> set rs then None
    else if Some (Inl Undefined_behaviour) \<in> set rs then Some (Inl Undefined_behaviour)
    else if Some (Inl Assert_failed) \<in> set rs then Some (Inl Assert_failed)
    else Some (first_error (map the rs))) = Some (Inr ()) \<longleftrightarrow> (\<forall>r \<in> set rs. r = Some (Inr ()))"
proof (cases "None \<in> set rs")
  case False
  then have "the r = Inr () \<longleftrightarrow> r = Some (Inr ())" if "r \<in> set rs" for r using that by (cases r) auto
  then show ?thesis using False by (auto simp: first_error_ok)
qed force

lemma runAll_ok: "runAll task n w = Some (Inr ()) \<longleftrightarrow> (\<forall>t \<in> set (runAll_tasks n w). task t = Some (Inr ()))"
  unfolding runAll_def Let_def results_ok by (auto simp: run_tasks_ok runAll_tasks_def simp del: upt_Suc)

lemma check_apps_ok:
  "check_apps dag ix w as = Some (Inr ()) \<longleftrightarrow>
    (\<forall>(app, chunkList) \<in> set as. \<forall>j \<in> set (runAll_tasks (osm_size chunkList) w). check_chunk dag ix app chunkList j = Some (Inr ()))"
proof (induction dag ix w as rule: check_apps.induct)
  case (2 dag ix w app chunkList rest)
  show ?case
  proof (cases "runAll (check_chunk dag ix app chunkList) (osm_size chunkList) w = Some (Inr ())")
    case True
    then have "\<forall>j \<in> set (runAll_tasks (osm_size chunkList) w). check_chunk dag ix app chunkList j = Some (Inr ())"
      by (simp add: runAll_ok)
    then show ?thesis using 2 [OF True] by (simp add: True)
  next
    case False
    then have "check_apps dag ix w ((app, chunkList) # rest) \<noteq> Some (Inr ())"
      by (auto split: option.splits sum.splits)
    then show ?thesis using False runAll_ok [of "check_chunk dag ix app chunkList"] by auto
  qed
qed simp

text \<open>When the execution graph of a block is accepted and every application has so few chunks that none is left
  out by the division among the workers, the collision check of every chunk with declared accesses has succeeded.\<close>

theorem accepted_graph_checked:
  assumes "checkDependencyGraph s ix w = Some (Inr ())" "sortAccessBlocks s w = Inr m"
    and "\<forall>chunkList \<in> set (osm_values m). all_run (osm_size chunkList) w"
    and "(app, chunkList) \<in> set (zip (osm_keys m) (osm_values m))" "j < osm_size chunkList"
  shows "checkCollisions (scheduler_dag s) (getSizeLowerBound ix (FullID app (osm_keys chunkList ! j)))
    (osm_keys (osm_values chunkList ! j)) (osm_values (osm_values chunkList ! j)) = Some (Inr ())"
proof -
  have "j \<in> set (runAll_tasks (osm_size chunkList) w)"
    using assms(3-5) by (auto simp: all_run_def dest: set_zip_rightD)
  then have "check_chunk (scheduler_dag s) ix app chunkList j = Some (Inr ())"
    using assms(1,2,4) check_apps_ok [of "scheduler_dag s" ix w] by (auto simp: checkDependencyGraph_def)
  then show ?thesis by (simp add: check_chunk_def Let_def)
qed

section \<open>What is lost when tasks are left out\<close>

text \<open>Two requests that both write to the fifth chunk of application 7 and have no edge between them.\<close>

definition demo_access :: "int \<Rightarrow> AccessType \<Rightarrow> (int, AccessBlockInfo) ordered_map" where
  "demo_access r t = \<lparr>osm_keys = [- 3, 0], osm_values =
     [\<lparr>abi_size = 0, abi_access = check_only, abi_request = r\<rparr>, \<lparr>abi_size = 4, abi_access = t, abi_request = r\<rparr>]\<rparr>"

definition demo_map :: "int \<Rightarrow> AccessMapType" where
  "demo_map r = \<lparr>osm_keys = [7], osm_values = [\<lparr>osm_keys = map (LongLongID 0) [1, 2, 3, 4, 5],
     osm_values = map (demo_access r) [read_only, read_only, read_only, read_only, writable_access]\<rparr>]\<rparr>"

definition demo_block :: "unit scheduler" where
  "demo_block = \<lparr>sc_remaining = 2, sc_zeroQueue = BlockingQueue,
     sc_nodeIndex = [sample_node [] [] 0, sample_node [] [] 0], sc_accessMaps = [demo_map 0, demo_map 1]\<rparr>"

definition demo_index :: chunk_index where
  "demo_index = \<lparr>ix_writablePages = [], ix_chunks = Map.empty, ix_sizeBounds = \<lparr>osm_keys = [], osm_values = []\<rparr>\<rparr>"

text \<open>C31: A graph is accepted exactly when the collision check succeeds for the first
  \<open>(workersCount + 1) * max (chunks / workersCount) 1\<close> chunks of every application. The chunks behind them are never checked:
  with three workers a graph is accepted that leaves two requests unordered that write to the same bytes of the fifth chunk.\<close>

theorem accepted_graph_iff:
  assumes "0 < w" "sortAccessBlocks s w = Inr m"
  shows "checkDependencyGraph s ix w = Some (Inr ()) \<longleftrightarrow>
    (\<forall>(app, chunkList) \<in> set (zip (osm_keys m) (osm_values m)).
      \<forall>j < min (osm_size chunkList) (Suc w * max (osm_size chunkList div w) 1).
        checkCollisions (scheduler_dag s) (getSizeLowerBound ix (FullID app (osm_keys chunkList ! j)))
          (osm_keys (osm_values chunkList ! j)) (osm_values (osm_values chunkList ! j)) = Some (Inr ()))"
proof -
  have "(\<forall>j \<in> set (runAll_tasks k w). P j) \<longleftrightarrow> (\<forall>j < min k (Suc w * max (k div w) 1). P j)" for k P
    by (auto simp: set_runAll_tasks runAll_step_def)
  then show ?thesis
    using assms(2) check_apps_ok [of "scheduler_dag s" ix w "zip (osm_keys m) (osm_values m)"]
    by (simp add: checkDependencyGraph_def check_chunk_def Let_def)
qed

theorem accepted_graph_iff_witness:
  "\<exists>blocks. checkDependencyGraph demo_block demo_index 3 = Some (Inr ()) \<and>
    sortAccessBlocks demo_block 3 = Inr \<lparr>osm_keys = [7], osm_values = [\<lparr>osm_keys = map (LongLongID 0) [1, 2, 3, 4, 5], osm_values = blocks\<rparr>]\<rparr> \<and>
    checkCollisions (scheduler_dag demo_block) (getSizeLowerBound demo_index (FullID 7 (LongLongID 0 5)))
      (osm_keys (blocks ! 4)) (osm_values (blocks ! 4)) = Some (Inl Invalid_argument)"
proof -
  let ?blocks = "\<lambda>t. \<lparr>osm_keys = [- 3, - 3, 0, 0], osm_values =
     [\<lparr>abi_size = 0, abi_access = check_only, abi_request = 0\<rparr>, \<lparr>abi_size = 0, abi_access = check_only, abi_request = 1\<rparr>,
      \<lparr>abi_size = 4, abi_access = t, abi_request = 0\<rparr>, \<lparr>abi_size = 4, abi_access = t, abi_request = 1\<rparr>]\<rparr> :: (int, AccessBlockInfo) ordered_map"
  let ?bs = "map ?blocks [read_only, read_only, read_only, read_only, writable_access]"
  let ?chunks = "\<lparr>osm_keys = map (LongLongID 0) [1, 2, 3, 4, 5], osm_values = ?bs\<rparr>"
  let ?check = "\<lambda>j. checkCollisions (scheduler_dag demo_block) (getSizeLowerBound demo_index (FullID 7 (osm_keys ?chunks ! j)))
      (osm_keys (?bs ! j)) (osm_values (?bs ! j))"
  have m: "sortAccessBlocks demo_block 3 = Inr \<lparr>osm_keys = [7], osm_values = [?chunks]\<rparr>" by code_simp
  have "\<forall>j \<in> set [0, 1, 2, 3]. ?check j = Some (Inr ())" by code_simp
  moreover have "j < 4 \<longleftrightarrow> j \<in> set [0, 1, 2, 3]" for j :: nat by (auto simp: eval_nat_numeral less_Suc_eq)
  ultimately have all: "\<forall>j < 4. ?check j = Some (Inr ())" by blast
  have "checkDependencyGraph demo_block demo_index 3 = Some (Inr ())"
    unfolding accepted_graph_iff [of 3, OF _ m, simplified] using all by (simp add: osm_size_def)
  moreover have "?check 4 = Some (Inl Invalid_argument)" by code_simp
  ultimately show ?thesis using m by (intro exI [of _ ?bs]) simp
qed

theorem accepted_graph_checked_witness:
  "checkCollisions (scheduler_dag (demo_block\<lparr>sc_nodeIndex := [sample_node [1] [] 0, sample_node [] [] 1]\<rparr>))
     (getSizeLowerBound demo_index (FullID 7 (LongLongID 0 5))) [- 3, - 3, 0, 0]
     [\<lparr>abi_size = 0, abi_access = check_only, abi_request = 0\<rparr>, \<lparr>abi_size = 0, abi_access = check_only, abi_request = 1\<rparr>,
      \<lparr>abi_size = 4, abi_access = writable_access, abi_request = 0\<rparr>, \<lparr>abi_size = 4, abi_access = writable_access, abi_request = 1\<rparr>]
   = Some (Inr ())"
proof -
  let ?s = "demo_block\<lparr>sc_nodeIndex := [sample_node [1] [] 0, sample_node [] [] 1]\<rparr>"
  let ?blocks = "\<lambda>t. \<lparr>osm_keys = [- 3, - 3, 0, 0], osm_values =
     [\<lparr>abi_size = 0, abi_access = check_only, abi_request = 0\<rparr>, \<lparr>abi_size = 0, abi_access = check_only, abi_request = 1\<rparr>,
      \<lparr>abi_size = 4, abi_access = t, abi_request = 0\<rparr>, \<lparr>abi_size = 4, abi_access = t, abi_request = 1\<rparr>]\<rparr> :: (int, AccessBlockInfo) ordered_map"
  let ?chunks = "\<lparr>osm_keys = map (LongLongID 0) [1, 2, 3, 4, 5],
     osm_values = map ?blocks [read_only, read_only, read_only, read_only, writable_access]\<rparr>"
  let ?m = "\<lparr>osm_keys = [7], osm_values = [?chunks]\<rparr>"
  have ok: "checkDependencyGraph ?s demo_index 2 = Some (Inr ())" by code_simp
  have m: "sortAccessBlocks ?s 2 = Inr ?m" by code_simp
  have "osm_size ?chunks = 5" by (simp add: osm_size_def)
  moreover have "set (runAll_tasks 5 2) = {..<5}" by (auto simp: set_runAll_tasks runAll_step_def)
  ultimately have all: "\<forall>c \<in> set (osm_values ?m). all_run (osm_size c) 2" by (simp add: all_run_def)
  from accepted_graph_checked [OF ok m all, of 7 ?chunks 4] show ?thesis
    by (simp add: osm_size_def)
qed

text \<open>Seven requests, of which the last but one comes before the last one.\<close>

definition late_block :: "unit scheduler" where
  "late_block = \<lparr>sc_remaining = 7, sc_zeroQueue = BlockingQueue,
     sc_nodeIndex = replicate 5 (sample_node [] [] 0) @ [sample_node [6] [] 0, sample_node [] [] 0], sc_accessMaps = []\<rparr>"

definition late_started :: "unit scheduler" where
  "late_started = late_block\<lparr>sc_zeroQueue := \<lparr>content = [0, 1, 2, 3, 4, 5, 6], producerCount = 0\<rparr>\<rparr>"

definition late_schedule :: "(nat \<times> int result) list" where
  "late_schedule = replicate 31 (0, Inr 200) @ replicate 6 (1, Inr 200)"

text \<open>With four workers the last two of seven requests are never finalised. The edge between them is not
  counted, the last request is executed before the one it depends on, and the worker of the other one then
  releases a node that has been deleted.\<close>

theorem unfinalized_request_runs_early:
  "finalizeRequests late_block (runAll_tasks 7 4) = Inr late_block \<and> buildExecDag late_block = Inr late_started \<and>
   (\<exists>p q. pool_reach sample_outcome (start_pool late_started 4) p \<and> isAdjacent late_block 5 6 = Inr True \<and>
     pl_responses p ! 6 = Some 200 \<and> pl_responses p ! 5 = None \<and>
     pool_reach sample_outcome p q \<and> pl_workers q ! 0 = Aborted Undefined_behaviour)"
proof -
  let ?p = "pool_run late_schedule (start_pool late_started 4)"
  let ?q = "pool_run [(0, Inr 200), (0, Inr 200)] ?p"
  have w: "length (pl_workers ?p) = 4" by code_simp
  have p: "pool_reach sample_outcome (start_pool late_started 4) ?p"
    by (rule pool_run_reach) (simp add: start_pool_def sample_outcome_def late_schedule_def)
  have q: "pool_reach sample_outcome ?p ?q"
    by (rule pool_run_reach) (simp add: w sample_outcome_def)
  have "pl_responses ?p ! 6 = Some 200 \<and> pl_responses ?p ! 5 = None" by code_simp
  moreover have "pl_workers ?q ! 0 = Aborted Undefined_behaviour" by code_simp
  moreover have "isAdjacent late_block 5 6 = Inr True" by code_simp
  moreover have "finalizeRequests late_block (runAll_tasks 7 4) = Inr late_block" by code_simp
  moreover have "buildExecDag late_block = Inr late_started" by code_simp
  ultimately show ?thesis using p q by blast
qed


section \<open>Loading the requests of a block\<close>

lemma upt_blocks: "concat (map (\<lambda>i. [i * b ..< min (Suc i * b) n]) [0..<k]) = [0..<min (k * b) n]" for b n k :: nat
proof (induction k)
  case (Suc k)
  show ?case
  proof (cases "k * b \<le> n")
    case True
    then have "[0..<min (Suc k * b) n] = [0..<k * b] @ [k * b..<min (Suc k * b) n]"
      by (metis le0 le_add2 min.bounded_iff mult_Suc upt_add_eq_append le_Suc_ex)
    then show ?thesis using Suc True by (simp add: min_absorb1)
  qed (use Suc in \<open>simp add: min_def\<close>)
qed simp

lemma runAll_tasks_upt: "runAll_tasks n w = [0..<min (Suc w * runAll_step n w) n]"
  unfolding runAll_tasks_def worker_tasks_def Let_def by (rule upt_blocks)

lemma all_run_upt: "all_run n w \<Longrightarrow> runAll_tasks n w = [0..<n]"
proof -
  assume "all_run n w"
  then have "{..<min (Suc w * runAll_step n w) n} = {..<n}" by (simp add: all_run_def runAll_tasks_upt atLeast0LessThan)
  then show ?thesis by (simp add: runAll_tasks_upt)
qed

definition loaded :: "app_request_info \<Rightarrow> dag_request dag_node option \<Rightarrow> bool" where
  "loaded d x \<longleftrightarrow> (\<exists>nd. x = Some nd \<and> nd_adjList nd = ri_adjList d \<and> nd_attachments nd = ri_attachments d \<and>
    nd_inDegree nd = 0 \<and> ar_calledAppID (fst (nd_request nd)) = ri_calledAppID d)"

lemma DagNode_loaded: "DagNode ctx d s = Inr nd \<Longrightarrow> loaded d (Some nd)"
  by (auto simp: DagNode_def bind_result_Inr_iff loaded_def)

lemma addRequest_loaded:
  assumes "addRequest ctx d s = Inr s'"
  shows "ri_id d < length (sc_nodeIndex s)" "ri_id d < length (sc_accessMaps s)"
    "\<exists>x. loaded d x \<and> s' = s\<lparr>sc_accessMaps := (sc_accessMaps s)[ri_id d := ri_memoryAccessMap d],
      sc_nodeIndex := (sc_nodeIndex s)[ri_id d := x]\<rparr>"
proof -
  let ?s = "s\<lparr>sc_accessMaps := (sc_accessMaps s)[ri_id d := ri_memoryAccessMap d]\<rparr>"
  show "ri_id d < length (sc_nodeIndex s)" "ri_id d < length (sc_accessMaps s)"
    using assms by (auto simp: addRequest_def split: if_splits)
  then obtain nd where "DagNode ctx d ?s = Inr nd" "s' = set_node ?s (ri_id d) (Some nd)"
    using assms by (auto simp: addRequest_def Let_def bind_result_Inr_iff)
  then show "\<exists>x. loaded d x \<and> s' = s\<lparr>sc_accessMaps := (sc_accessMaps s)[ri_id d := ri_memoryAccessMap d],
      sc_nodeIndex := (sc_nodeIndex s)[ri_id d := x]\<rparr>"
    by (intro exI [of _ "Some nd"]) (simp add: DagNode_loaded set_node_def)
qed

lemma add_requests_loaded:
  assumes "add_requests ctx ds s = Inr s'" "distinct (map ri_id ds)"
  shows "length (sc_nodeIndex s') = length (sc_nodeIndex s) \<and> sc_remaining s' = sc_remaining s \<and>
    sc_zeroQueue s' = sc_zeroQueue s \<and> (\<forall>d \<in> set ds. ri_id d < length (sc_nodeIndex s) \<and>
      loaded d (sc_nodeIndex s' ! ri_id d) \<and> sc_accessMaps s' ! ri_id d = ri_memoryAccessMap d) \<and>
    (\<forall>i. i \<notin> ri_id ` set ds \<longrightarrow> sc_nodeIndex s' ! i = sc_nodeIndex s ! i \<and> sc_accessMaps s' ! i = sc_accessMaps s ! i)"
  using assms
proof (induction ds arbitrary: s)
  case (Cons d ds)
  obtain s1 where r: "addRequest ctx d s = Inr s1" "add_requests ctx ds s1 = Inr s'"
    using Cons.prems(1) by (auto simp: bind_result_Inr_iff)
  obtain x where x: "loaded d x" "s1 = s\<lparr>sc_accessMaps := (sc_accessMaps s)[ri_id d := ri_memoryAccessMap d],
      sc_nodeIndex := (sc_nodeIndex s)[ri_id d := x]\<rparr>" using addRequest_loaded(3) [OF r(1)] by blast
  note len = addRequest_loaded(1,2) [OF r(1)]
  note IH = Cons.IH [OF r(2)]
  have "ri_id d \<notin> ri_id ` set ds" using Cons.prems(2) by auto
  then show ?case using IH Cons.prems(2) x len by (auto simp: nth_list_update)
qed simp

text \<open>C10: When the streams of a block hold each of its requests once, loading them gives the scheduler the state that
  parallel execution starts from: every request is a node with its declared successors and the number of its
  predecessors as in-degree, provided that no task is left out by the division among the workers.\<close>

theorem loaded_block_prepared:
  assumes "loadRequests ctx streams n w (RequestScheduler n) = Inr s"
    and "all_run n w" "all_run (length streams) w"
    and "distinct (map ri_id (concat streams))" "ri_id ` set (concat streams) = {..<n}"
    and "\<forall>d \<in> set (concat streams). set (ri_adjList d) \<subseteq> {..<n} \<and> set (ri_attachments d) \<subseteq> {..<n}"
    and "length A = n" "\<forall>d \<in> set (concat streams). A ! ri_id d = ri_adjList d"
  shows "prepared A s \<and> valid_graph A"
proof -
  have streams: "map (\<lambda>i. streams ! i) (runAll_tasks (length streams) w) = streams"
    unfolding all_run_upt [OF assms(3)] by (rule map_nth)
  obtain s1 where r: "add_requests ctx (concat streams) (RequestScheduler n) = Inr s1" "finalizeRequests s1 [0..<n] = Inr s"
    using assms(1) all_run_upt [OF assms(2)] by (auto simp: loadRequests_def streams bind_result_Inr_iff)
  note l = add_requests_loaded [OF r(1) assms(4)]
  have node: "\<exists>d \<in> set (concat streams). ri_id d = i \<and> loaded d (sc_nodeIndex s1 ! i) \<and> A ! i = ri_adjList d" if "i < n" for i
  proof -
    have "i \<in> ri_id ` set (concat streams)" using that assms(5) by blast
    then show ?thesis using l assms(8) by blast
  qed
  have g: "graph_nodes A (\<lambda>_. 0) s1"
    unfolding graph_nodes_def
  proof (intro conjI allI impI)
    show "length (sc_nodeIndex s1) = length A" using l assms(7) by (simp add: RequestScheduler_def)
    show "\<exists>nd. sc_nodeIndex s1 ! v = Some nd \<and> nd_adjList nd = A ! v \<and> nd_inDegree nd = 0" if "v < length A" for v
      using node [of v] that assms(7) by (auto simp: loaded_def)
  qed
  have v: "valid_graph A" unfolding valid_graph_def assms(7) using node assms(6) by fastforce
  have att: "\<forall>i < length A. \<forall>nd. sc_nodeIndex s1 ! i = Some nd \<longrightarrow> set (nd_attachments nd) \<subseteq> {..<length A}"
  proof (intro allI impI)
    fix i nd assume "i < length A" "sc_nodeIndex s1 ! i = Some nd"
    then show "set (nd_attachments nd) \<subseteq> {..<length A}"
      using node [of i] assms(6,7) by (fastforce simp: loaded_def)
  qed
  have tot: "total (\<lambda>i. occ (A ! i) v) [0..<n] = indegree A v" for v
  proof -
    have "total (\<lambda>i. occ (A ! i) v) [0..<n] = total (\<lambda>adj. occ adj v) (map ((!) A) [0..<length A])"
      by (simp add: total_map comp_def assms(7))
    then show ?thesis by (simp add: map_nth indegree_def)
  qed
  have "set [0..<n] \<subseteq> {..<length A}" using assms(7) by auto
  from finalizeRequests_graph [OF g v this att] r(2) tot have
    "graph_nodes A (indegree A) s" "sc_remaining s = sc_remaining s1" "sc_zeroQueue s = sc_zeroQueue s1" by simp_all
  then show ?thesis using l v assms(7) by (simp add: prepared_def RequestScheduler_def)
qed

definition demo_info :: "nat \<Rightarrow> nat list \<Rightarrow> app_request_info" where
  "demo_info i adj =
    \<lparr>ri_id = i, ri_calledAppID = 7, ri_httpRequest = [], ri_maxClocks = 100, ri_appAccessList = [7],
     ri_useControlledExecution = True, ri_stackSizeFailures = [], ri_cpuTimeFailures = [],
     ri_memoryAccessMap = \<lparr>osm_keys = [], osm_values = []\<rparr>, ri_adjList = adj, ri_attachments = [], ri_signedMessagesList = []\<rparr>"

definition demo_context :: request_context where
  "demo_context = \<lparr>rc_heap = (\<lambda>_. Chunk_default), rc_chunkIndex = demo_index, rc_appIndex = [7 \<mapsto> None], rc_verify = (\<lambda>_ _ _. False)\<rparr>"

theorem loaded_block_prepared_witness:
  "\<exists>s. loadRequests demo_context [[demo_info 0 [1]], [demo_info 1 []]] 2 2 (RequestScheduler 2) = Inr s \<and> prepared [[1], []] s"
proof -
  let ?st = "[[demo_info 0 [1]], [demo_info 1 []]]"
  have "is_ok (loadRequests demo_context ?st 2 2 (RequestScheduler 2))" by code_simp
  then obtain s where s: "loadRequests demo_context ?st 2 2 (RequestScheduler 2) = Inr s"
    by (cases "loadRequests demo_context ?st 2 2 (RequestScheduler 2)") (auto simp: is_ok_def)
  have "all_run 2 2" by (auto simp: all_run_def set_runAll_tasks runAll_step_def)
  from loaded_block_prepared [OF s this, of "[[1], []]"] this show ?thesis
    using s by (auto simp: demo_info_def numeral_2_eq_2 lessThan_Suc)
qed

end
