(* ===== verification/Isolation.thy ===== *)
theory Isolation
  imports Requests
begin

text \<open>
  What a request sees and changes of the heap. The modifier of a request fixes where the blocks of its chunks are and how
  they may be used (\<open>layout\<close>): no function of the runtime, no contract and no nested call changes that. From it
  follows that a request runs in the same way on two heaps that agree on the places it sees (\<open>executeOne_agree\<close>),
  changes no others (\<open>executeOne_outside\<close>), and that two requests of which neither may change what the other
  sees can be run in any order.
\<close>

section \<open>What an access block sees of a chunk\<close>

definition same_range :: "nat \<Rightarrow> nat \<Rightarrow> 'a list \<Rightarrow> 'a list \<Rightarrow> bool" where
  "same_range p n xs ys \<longleftrightarrow> length xs = length ys \<and> (\<forall>i < length xs. p \<le> i \<and> i < p + n \<longrightarrow> xs ! i = ys ! i)"

lemma same_range_refl [simp]: "same_range p n xs xs"
  by (simp add: same_range_def)

lemma slice_same:
  "same_range p n xs ys \<Longrightarrow> p \<le> q \<Longrightarrow> q + m \<le> p + n \<Longrightarrow> slice_of q m xs = slice_of q m ys"
  by (rule nth_equalityI) (auto simp: same_range_def slice_of_def)

lemma load_same:
  "same_range p n xs ys \<Longrightarrow> p \<le> q \<Longrightarrow> q + m \<le> p + n \<Longrightarrow> load_bytes xs q m = load_bytes ys q m"
  using slice_same [of p n xs ys q m] by (auto simp: load_bytes_def same_range_def)

lemma prefix_loop_same:
  assumes "same_range p n xs ys" "m \<le> n"
  shows "readPrefixCode_loop t xs p m i code = readPrefixCode_loop t ys p m i code"
  using assms
proof (induction t xs p m i code rule: readPrefixCode_loop.induct)
  case (1 t xs p m i code)
  have "xs ! (p + i) = ys ! (p + i)" if "i < m" "p + i < length xs"
    using 1(2,3) that by (simp add: same_range_def)
  moreover have "length xs = length ys" using 1(2) by (simp add: same_range_def)
  ultimately show ?case
    using 1(1) [OF _ _ refl] 1(2,3) by (subst (1 2) readPrefixCode_loop.simps) (auto simp: Let_def)
qed

lemma prefix_same:
  "same_range p n xs ys \<Longrightarrow> readPrefixCode_ptr t xs p (int n) = readPrefixCode_ptr t ys p (int n)"
  by (auto simp: readPrefixCode_ptr_def intro!: prefix_loop_same)

lemma decode_same:
  "same_range p n xs ys \<Longrightarrow> decodeVarUInt_ptr t xs p (int n) = decodeVarUInt_ptr t ys p (int n)"
  using prefix_same [of p n xs ys t] by (simp add: decodeVarUInt_ptr_def)

text \<open>What a block gives to the requests of an operation: nothing when it may neither be read nor written.\<close>

definition reads_block :: "AccessType \<Rightarrow> bool" where
  "reads_block a \<longleftrightarrow> a \<noteq> check_only"

definition block_same :: "access_block \<Rightarrow> byte list \<Rightarrow> byte list \<Rightarrow> bool" where
  "block_same b mem mem' \<longleftrightarrow> length mem = length mem' \<and>
    (reads_block (ab_access b) \<longrightarrow> same_range (ab_location b) (ab_size b) mem mem')"

lemma denies_check: "\<not> reads_block a \<Longrightarrow> oper \<noteq> op_check \<Longrightarrow> denies a oper"
  by (cases a) (auto simp: reads_block_def)

lemma block_read_same:
  assumes "block_same b mem mem'" shows "block_read b mem v i n = block_read b mem' v i n"
proof (cases "int i + int n > int (ab_size b) \<or> denies (ab_access b) op_read")
  case True
  then show ?thesis by (auto simp: block_read_def prepareToRead_def)
next
  case False
  then have "same_range (ab_location b) (ab_size b) mem mem'" "i + n \<le> ab_size b"
    using assms denies_check [of "ab_access b" op_read] by (auto simp: block_same_def)
  then have "load_bytes mem (ab_location b + i) n = load_bytes mem' (ab_location b + i) n"
    by (intro load_same [of "ab_location b" "ab_size b"]) simp_all
  then show ?thesis
    by (auto simp: block_read_def prepareToRead_def block_source_def Let_def split: list.splits)
qed

lemma readIdentifier_same:
  assumes "block_same b mem mem'" shows "readIdentifier t b mem v i = readIdentifier t b mem' v i"
proof (cases "int i + int (ab_size b) > int (ab_size b) \<or> denies (ab_access b) op_read")
  case True
  then show ?thesis by (auto simp: readIdentifier_def prepareToRead_def)
next
  case False
  then have "same_range (ab_location b) (ab_size b) mem mem'" "i = 0"
    using assms denies_check [of "ab_access b" op_read] by (auto simp: block_same_def)
  then show ?thesis using prefix_same [of "ab_location b" "ab_size b" mem mem' t]
    by (auto simp: readIdentifier_def prepareToRead_def block_source_def Let_def split: list.splits)
qed

lemma readVarUInt_same:
  assumes "block_same b mem mem'" shows "readVarUInt t b mem v i = readVarUInt t b mem' v i"
proof (cases "int i + int (ab_size b) > int (ab_size b) \<or> denies (ab_access b) op_read")
  case True
  then show ?thesis by (auto simp: readVarUInt_def prepareToRead_def)
next
  case False
  then have "same_range (ab_location b) (ab_size b) mem mem'" "i = 0"
    using assms denies_check [of "ab_access b" op_read] by (auto simp: block_same_def)
  then show ?thesis using decode_same [of "ab_location b" "ab_size b" mem mem' t]
    by (auto simp: readVarUInt_def prepareToRead_def block_source_def Let_def split: list.splits)
qed

lemma prepareToWrite_same:
  assumes "block_same b mem mem'" shows "prepareToWrite b mem v i n = prepareToWrite b mem' v i n"
proof (cases "int i + int n > int (ab_size b) \<or> denies (ab_access b) op_write")
  case True
  then show ?thesis by (auto simp: prepareToWrite_def)
next
  case False
  then have s: "same_range (ab_location b) (ab_size b) mem mem'" "i + n \<le> ab_size b"
    using assms denies_check [of "ab_access b" op_write] by (auto simp: block_same_def)
  have "load_bytes mem (ab_location b) i = load_bytes mem' (ab_location b) i"
    "load_bytes mem (ab_location b + i + n) (ab_size b - n - i) = load_bytes mem' (ab_location b + i + n) (ab_size b - n - i)"
    by (rule load_same [OF s(1)]; use s(2) in simp)+
  then show ?thesis
    by (auto simp: prepareToWrite_def block_source_def Let_def simp del: diff_diff_left cong: if_cong split: list.splits)
qed

lemma block_write_same:
  "block_same b mem mem' \<Longrightarrow> block_write b mem v i bytes = block_write b mem' v i bytes"
  using prepareToWrite_same [of b mem mem'] by (simp add: block_write_def)

lemma writeVarUInt_same:
  "block_same b mem mem' \<Longrightarrow> writeVarUInt t b mem v i x = writeVarUInt t b mem' v i x"
  using block_write_same [of b mem mem'] by (simp add: writeVarUInt_def)


section \<open>The layout of a modifier\<close>

text \<open>What no operation changes: where the blocks of the chunks are and how they may be used.\<close>

type_synonym block_layout = "nat \<times> nat \<times> AccessType"
type_synonym chunk_layout = "nat \<times> ResizingType \<times> block_layout list"

definition block_layout :: "access_block \<Rightarrow> block_layout" where
  "block_layout b = (ab_location b, ab_size b, ab_access b)"

definition chunk_layout :: "chunk_info \<Rightarrow> chunk_layout" where
  "chunk_layout ci = (ci_ptr ci, ci_resizing ci, map block_layout (osm_values (ci_table ci)))"

definition chunk_map_layout :: "chunk_map \<Rightarrow> chunk_layout list" where
  "chunk_map_layout cm = map chunk_layout (osm_values cm)"

definition layout :: "modifier \<Rightarrow> chunk_layout list list" where
  "layout md = map chunk_map_layout (osm_values (md_apps md))"

text \<open>Two heaps that look the same through a modifier of the given layout.\<close>

definition heap_same :: "chunk_layout list list \<Rightarrow> heap \<Rightarrow> heap \<Rightarrow> bool" where
  "heap_same ls h h' \<longleftrightarrow> (\<forall>(p, _, bs) \<in> set (concat ls).
     ch_size (h p) = ch_size (h' p) \<and> length (ch_content (h p)) = length (ch_content (h' p)) \<and>
     (\<forall>(loc, n, a) \<in> set bs. reads_block a \<longrightarrow> same_range loc n (ch_content (h p)) (ch_content (h' p))))"

lemma map_update_same: "i < length xs \<Longrightarrow> f y = f (xs ! i) \<Longrightarrow> map f (xs[i := y]) = map f xs"
  by (metis list_update_id map_update)

lemma osm_update_map:
  assumes "osm_update m k v = Inr m'" "osm_at m k = Inr w" "f v = f w"
  shows "map f (osm_values m') = map f (osm_values m)"
  using assms map_update_same [of _ "osm_values m" f v]
  by (auto simp: osm_update_def osm_at_def bind_result_Inr_iff split: if_splits)

lemma osm_at_value: "osm_at m k = Inr v \<Longrightarrow> v \<in> set (osm_values m)"
  by (auto simp: osm_at_def bind_result_Inr_iff split: if_splits)

lemma set_chunk_info_layout:
  assumes set: "set_chunk_info md p ci = Inr md'" and get: "get_chunk_info md p = Inr ci0"
    and same: "chunk_layout ci = chunk_layout ci0"
  shows "layout md' = layout md"
proof -
  obtain a c where p: "p = (a, c)" by (cases p)
  from set obtain cm cm' apps where at: "osm_at (md_apps md) a = Inr cm"
    and up1: "osm_update cm c ci = Inr cm'" and up2: "osm_update (md_apps md) a cm' = Inr apps"
    and md': "md' = md\<lparr>md_apps := apps\<rparr>"
    by (auto simp: set_chunk_info_def p bind_result_Inr_iff)
  have "osm_at cm c = Inr ci0" using get at by (simp add: get_chunk_info_def p)
  then have "chunk_map_layout cm' = chunk_map_layout cm"
    unfolding chunk_map_layout_def by (rule osm_update_map [OF up1 _ same])
  then show ?thesis using osm_update_map [OF up2 at] by (simp add: layout_def md')
qed

lemma get_chunk_info_layout:
  "get_chunk_info md p = Inr ci \<Longrightarrow> chunk_layout ci \<in> set (concat (layout md))"
  by (cases p) (auto simp: get_chunk_info_def bind_result_Inr_iff layout_def chunk_map_layout_def dest!: osm_at_value)

lemma chunk_layout_size [simp]:
  "chunk_layout (ci\<lparr>ci_size := b\<rparr>) = chunk_layout ci" "chunk_layout (ci\<lparr>ci_initialSize := n\<rparr>) = chunk_layout ci"
  "chunk_layout (init_size h ci) = chunk_layout ci"
  by (simp_all add: chunk_layout_def)

lemma heap_same_chunk:
  assumes "heap_same (layout md) h h'" "get_chunk_info md p = Inr ci"
  shows "ch_size (h (ci_ptr ci)) = ch_size (h' (ci_ptr ci))"
    "osm_at (ci_table ci) offset = Inr b \<Longrightarrow> block_same b (ch_content (h (ci_ptr ci))) (ch_content (h' (ci_ptr ci)))"
proof -
  have ci: "chunk_layout ci \<in> set (concat (layout md))" using assms(2) by (rule get_chunk_info_layout)
  show "ch_size (h (ci_ptr ci)) = ch_size (h' (ci_ptr ci))"
    using assms(1) ci by (force simp: heap_same_def chunk_layout_def)
  assume "osm_at (ci_table ci) offset = Inr b"
  then have "block_layout b \<in> set (map block_layout (osm_values (ci_table ci)))" using osm_at_value by fastforce
  then show "block_same b (ch_content (h (ci_ptr ci))) (ch_content (h' (ci_ptr ci)))"
    using assms(1) ci unfolding heap_same_def chunk_layout_def block_same_def block_layout_def by fastforce
qed

section \<open>Operations of a modifier\<close>

lemma with_block_same:
  assumes "heap_same (layout md) h h'"
    and "\<And>b mem mem'. block_same b mem mem' \<Longrightarrow> f b mem = f b mem'"
  shows "with_block md h offset f = with_block md h' offset f"
proof (cases "md_chunk md")
  case (Some p)
  have "f b (ch_content (h (ci_ptr ci))) = f b (ch_content (h' (ci_ptr ci)))"
    if "get_chunk_info md p = Inr ci" "osm_at (ci_table ci) offset = Inr b" for ci b
    using assms(2) heap_same_chunk(2) [OF assms(1) that] by blast
  then show ?thesis by (auto simp: with_block_def Some intro!: bind_result_cong)
qed (simp add: with_block_def)

lemma init_size_same:
  "heap_same (layout md) h h' \<Longrightarrow> get_chunk_info md p = Inr ci \<Longrightarrow> init_size h ci = init_size h' ci"
  using heap_same_chunk(1) by (simp add: init_size_def getsize_def)

lemma with_block_layout:
  assumes "with_block md h offset f = Inr (r, md')"
    and "\<And>b mem r b'. f b mem = Inr (r, b') \<Longrightarrow> block_layout b' = block_layout b"
  shows "layout md' = layout md"
proof -
  from assms(1) obtain p ci b b' table where ci: "get_chunk_info md p = Inr ci"
    and b: "osm_at (ci_table ci) offset = Inr b" and fb: "f b (ch_content (h (ci_ptr ci))) = Inr (r, b')"
    and up: "osm_update (ci_table ci) offset b' = Inr table"
    and set: "set_chunk_info md p (ci\<lparr>ci_table := table\<rparr>) = Inr md'"
    by (auto simp: with_block_def bind_result_Inr_iff split: option.splits)
  have "map block_layout (osm_values table) = map block_layout (osm_values (ci_table ci))"
    by (rule osm_update_map [OF up b assms(2) [OF fb]])
  then show ?thesis by (intro set_chunk_info_layout [OF set ci]) (simp add: chunk_layout_def)
qed

lemma sizeBlock_same:
  assumes "heap_same (layout md) h h'" "get_chunk_info md p = Inr ci"
  shows "sizeBlock_read h ci v = sizeBlock_read h' ci v" "sizeBlock_write h ci v n = sizeBlock_write h' ci v n"
  using init_size_same [OF assms] by (simp_all add: sizeBlock_read_def sizeBlock_write_def)

lemma current_size_same:
  "heap_same (layout md) h h' \<Longrightarrow> current_size md h = current_size md h'"
  using sizeBlock_same [of md h h'] by (auto simp: current_size_def intro!: bind_result_cong split: option.splits)

lemma isValid_same: "heap_same (layout md) h h' \<Longrightarrow> isValid md h off n = isValid md h' off n"
  unfolding isValid_def by (simp only: current_size_same)

lemma getChunkSize_same: "heap_same (layout md) h h' \<Longrightarrow> getChunkSize md h = getChunkSize md h'"
  unfolding getChunkSize_def by (simp only: current_size_same)

lemma sizeBlock_read_init: "sizeBlock_read h ci v = Inr (n, ci') \<Longrightarrow> chunk_layout ci' = chunk_layout ci"
  by (auto simp: sizeBlock_read_def bind_result_Inr_iff Let_def)

lemma updateChunkSize_same:
  assumes "heap_same (layout md) h h'" shows "updateChunkSize md h n = updateChunkSize md h' n"
proof (cases "md_chunk md")
  case (Some p)
  show ?thesis
  proof (cases "get_chunk_info md p")
    case (Inr ci)
    have "sizeBlock_write h ci' v n = sizeBlock_write h' ci' v n"
      if "sizeBlock_read h ci (md_version md) = Inr (m, ci')" for ci' m v
    proof -
      have "ci_ptr ci' = ci_ptr ci" using that by (auto simp: sizeBlock_read_def bind_result_Inr_iff Let_def)
      then show ?thesis using heap_same_chunk(1) [OF assms Inr]
        by (simp add: sizeBlock_write_def init_size_def getsize_def)
    qed
    then show ?thesis using Some Inr sizeBlock_same(1) [OF assms Inr]
      by (auto simp: updateChunkSize_def intro!: bind_result_cong)
  qed (simp add: updateChunkSize_def Some)
qed (simp add: updateChunkSize_def)


lemma modifier_load_same: "heap_same (layout md) h h' \<Longrightarrow> modifier_load md h off i n = modifier_load md h' off i n"
  unfolding modifier_load_def by (rule with_block_same) (auto intro: block_read_same)

lemma loadIdentifier_same:
  "heap_same (layout md) h h' \<Longrightarrow> loadIdentifier t md h off i = loadIdentifier t md h' off i"
  unfolding loadIdentifier_def by (rule with_block_same) (auto intro: readIdentifier_same)

lemma modifier_store_same:
  "heap_same (layout md) h h' \<Longrightarrow> modifier_store md h off i bytes = modifier_store md h' off i bytes"
  unfolding modifier_store_def by (subst with_block_same [where h' = h']) (auto intro!: bind_result_cong dest: block_write_same)

lemma modifier_addInt_same:
  "heap_same (layout md) h h' \<Longrightarrow> modifier_addInt md h off n v = modifier_addInt md h' off n v"
  unfolding modifier_addInt_def by (subst with_block_same [where h' = h']) auto

lemmas modifier_same = modifier_load_same loadIdentifier_same modifier_store_same modifier_addInt_same
  isValid_same getChunkSize_same updateChunkSize_same

lemma block_layout_simps [simp]:
  "block_layout (syncTo b v) = block_layout b" "block_layout (set_newest b c) = block_layout b"
  "block_layout (b\<lparr>ab_versions := vs\<rparr>) = block_layout b"
  by (simp_all add: block_layout_def)

lemma prepareToRead_layout: "prepareToRead b mem v i n = Inr (q, b') \<Longrightarrow> block_layout b' = block_layout b"
  by (auto simp: prepareToRead_def Let_def split: if_splits prod.splits)

lemma ensureExists_layout: "ensureExists b v = Inr (b', x) \<Longrightarrow> block_layout b' = block_layout b"
  by (auto simp: ensureExists_def bind_result_Inr_iff Let_def split: list.splits if_splits prod.splits)

lemma block_write_layout: "block_write b mem v i bytes = Inr b' \<Longrightarrow> block_layout b' = block_layout b"
proof -
  have "prepareToWrite b mem v i n = Inr b' \<Longrightarrow> block_layout b' = block_layout b" for n b'
    by (auto simp: prepareToWrite_def bind_result_Inr_iff Let_def dest!: ensureExists_layout split: if_splits prod.splits)
  then show "block_write b mem v i bytes = Inr b' \<Longrightarrow> block_layout b' = block_layout b"
    by (auto simp: block_write_def bind_result_Inr_iff)
qed

lemma block_addInt_layout: "block_addInt b v n x = Inr b' \<Longrightarrow> block_layout b' = block_layout b"
  by (auto simp: block_addInt_def bind_result_Inr_iff Let_def dest!: ensureExists_layout split: if_splits prod.splits)

lemma updateChunkSize_layout: "updateChunkSize md h n = Inr md' \<Longrightarrow> layout md' = layout md"
proof -
  assume run: "updateChunkSize md h n = Inr md'"
  then obtain p ci m ci1 where p: "md_chunk md = Some p" and ci: "get_chunk_info md p = Inr ci"
    and r: "sizeBlock_read h ci (md_version md) = Inr (m, ci1)"
    by (auto simp: updateChunkSize_def bind_result_Inr_iff split: option.splits)
  obtain ci2 where set: "set_chunk_info md p ci2 = Inr md'"
    and ci2: "ci2 = ci1 \<or> sizeBlock_write h ci1 (md_version md) n = Inr ci2"
    using run p ci r by (auto simp: updateChunkSize_def bind_result_Inr_iff split: if_splits)
  have "chunk_layout ci2 = chunk_layout ci"
    using ci2 sizeBlock_read_init [OF r] by (auto simp: sizeBlock_write_def bind_result_Inr_iff Let_def)
  then show ?thesis using set_chunk_info_layout [OF set ci] by simp
qed

lemma current_size_layout: "current_size md h = Inr (n, md') \<Longrightarrow> layout md' = layout md"
  using set_chunk_info_layout sizeBlock_read_init
  by (fastforce simp: current_size_def bind_result_Inr_iff split: option.splits)

lemma layout_position [simp]:
  "layout (md\<lparr>md_chunk := x\<rparr>) = layout md" "layout (md\<lparr>md_context := y\<rparr>) = layout md"
  "layout (md\<lparr>md_version := v\<rparr>) = layout md"
  by (simp_all add: layout_def)

lemma mod_step_layout: "mod_step h oper md = Inr md' \<Longrightarrow> layout md' = layout md"
proof (cases oper)
  case (OpContext x)
  then show "mod_step h oper md = Inr md' \<Longrightarrow> layout md' = layout md" using loadContext_only [of md x] by auto
next
  case (OpChunk x y)
  then show "mod_step h oper md = Inr md' \<Longrightarrow> layout md' = layout md" using loadChunk_only [of md x y] by auto
next
  case (OpLoad off i n)
  then show "mod_step h oper md = Inr md' \<Longrightarrow> layout md' = layout md"
    by (auto simp: bind_result_Inr_iff modifier_load_def block_read_def dest!: prepareToRead_layout elim!: with_block_layout)
next
  case (OpLoadVarUInt t off i)
  then show "mod_step h oper md = Inr md' \<Longrightarrow> layout md' = layout md"
    by (auto simp: bind_result_Inr_iff loadVarUInt_def readVarUInt_def dest!: prepareToRead_layout elim!: with_block_layout)
next
  case (OpLoadIdentifier t off i)
  then show "mod_step h oper md = Inr md' \<Longrightarrow> layout md' = layout md"
    by (auto simp: bind_result_Inr_iff loadIdentifier_def readIdentifier_def dest!: prepareToRead_layout elim!: with_block_layout)
next
  case (OpStore off i bytes)
  then show "mod_step h oper md = Inr md' \<Longrightarrow> layout md' = layout md"
    by (auto simp: bind_result_Inr_iff modifier_store_def dest!: block_write_layout elim!: with_block_layout)
next
  case (OpStoreVarUInt t off x)
  then show "mod_step h oper md = Inr md' \<Longrightarrow> layout md' = layout md"
    by (auto simp: bind_result_Inr_iff storeVarUInt_def writeVarUInt_def dest!: block_write_layout elim!: with_block_layout)
next
  case (OpAddInt off n x)
  then show "mod_step h oper md = Inr md' \<Longrightarrow> layout md' = layout md"
    by (auto simp: bind_result_Inr_iff modifier_addInt_def dest!: block_addInt_layout elim!: with_block_layout)
next
  case (OpValid off n)
  then show "mod_step h oper md = Inr md' \<Longrightarrow> layout md' = layout md"
    by (auto simp: isValid_def bind_result_Inr_iff dest!: current_size_layout split: option.splits if_splits)
next
  case OpGetSize
  then show "mod_step h oper md = Inr md' \<Longrightarrow> layout md' = layout md"
    by (auto simp: getChunkSize_def bind_result_Inr_iff dest!: current_size_layout split: option.splits if_splits)
next
  case (OpResize n)
  then show "mod_step h oper md = Inr md' \<Longrightarrow> layout md' = layout md" by (auto dest: updateChunkSize_layout)
next
  case OpSave
  then show "mod_step h oper md = Inr md' \<Longrightarrow> layout md' = layout md"
    by (auto simp: saveVersion_def split: if_splits)
next
  case (OpRestore v)
  then show "mod_step h oper md = Inr md' \<Longrightarrow> layout md' = layout md"
    by (auto simp: restoreVersion_def bind_result_Inr_iff)
qed


text \<open>Blocks that may not be written have no versions.\<close>

definition chunk_clean :: "chunk_info \<Rightarrow> bool" where
  "chunk_clean ci \<longleftrightarrow> (\<forall>b \<in> set (osm_values (ci_table ci)). mayWrite (ab_access b) \<or> ab_versions b = [])"

definition blocks_clean :: "modifier \<Rightarrow> bool" where
  "blocks_clean md \<longleftrightarrow> (\<forall>cm \<in> set (osm_values (md_apps md)). \<forall>ci \<in> set (osm_values cm). chunk_clean ci)"

lemma osm_update_values: "osm_update m k v = Inr m' \<Longrightarrow> set (osm_values m') \<subseteq> insert v (set (osm_values m))"
  using set_update_subset_insert by (fastforce simp: osm_update_def bind_result_Inr_iff split: if_splits)

lemma get_chunk_info_clean:
  "get_chunk_info md p = Inr ci \<Longrightarrow> blocks_clean md \<Longrightarrow> chunk_clean ci"
  by (cases p) (fastforce simp: get_chunk_info_def bind_result_Inr_iff blocks_clean_def dest!: osm_at_value)

lemma set_chunk_info_clean:
  assumes set: "set_chunk_info md p ci = Inr md'" and clean: "blocks_clean md"
    and ci: "chunk_clean ci"
  shows "blocks_clean md'"
proof -
  obtain a c where p: "p = (a, c)" by (cases p)
  from set obtain cm cm' apps where at: "osm_at (md_apps md) a = Inr cm"
    and up1: "osm_update cm c ci = Inr cm'" and up2: "osm_update (md_apps md) a cm' = Inr apps"
    and md': "md' = md\<lparr>md_apps := apps\<rparr>"
    by (auto simp: set_chunk_info_def p bind_result_Inr_iff)
  have "cm \<in> set (osm_values (md_apps md))" by (rule osm_at_value [OF at])
  then have "\<forall>ci \<in> set (osm_values cm'). chunk_clean ci"
    using osm_update_values [OF up1] clean ci unfolding blocks_clean_def by blast
  moreover have "x = cm' \<or> x \<in> set (osm_values (md_apps md))" if "x \<in> set (osm_values apps)" for x
    using osm_update_values [OF up2] that by blast
  ultimately show ?thesis using clean by (fastforce simp: blocks_clean_def md')
qed

lemma with_block_clean:
  assumes "with_block md h offset f = Inr (r, md')" "blocks_clean md"
    and "\<And>b mem r b'. f b mem = Inr (r, b') \<Longrightarrow> mayWrite (ab_access b) \<or> ab_versions b = [] \<Longrightarrow>
      mayWrite (ab_access b') \<or> ab_versions b' = []"
  shows "blocks_clean md'"
proof -
  from assms(1) obtain p ci b b' table where ci: "get_chunk_info md p = Inr ci"
    and b: "osm_at (ci_table ci) offset = Inr b" and fb: "f b (ch_content (h (ci_ptr ci))) = Inr (r, b')"
    and up: "osm_update (ci_table ci) offset b' = Inr table"
    and set: "set_chunk_info md p (ci\<lparr>ci_table := table\<rparr>) = Inr md'"
    by (auto simp: with_block_def bind_result_Inr_iff split: option.splits)
  note c = get_chunk_info_clean [OF ci assms(2)]
  then have "mayWrite (ab_access b') \<or> ab_versions b' = []"
    using assms(3) [OF fb] osm_at_value [OF b] by (auto simp: chunk_clean_def)
  then have "chunk_clean (ci\<lparr>ci_table := table\<rparr>)" using osm_update_values [OF up] c by (auto simp: chunk_clean_def)
  then show ?thesis by (rule set_chunk_info_clean [OF set assms(2)])
qed

lemma clean_sync: "mayWrite (ab_access b) \<or> ab_versions b = [] \<Longrightarrow> mayWrite (ab_access (syncTo b v)) \<or> ab_versions (syncTo b v) = []"
  by (auto simp: syncTo_def)

lemma prepareToRead_clean:
  "prepareToRead b mem v i n = Inr (q, b') \<Longrightarrow> mayWrite (ab_access b) \<or> ab_versions b = [] \<Longrightarrow>
    mayWrite (ab_access b') \<or> ab_versions b' = []"
  using clean_sync [of b v] by (auto simp: prepareToRead_def Let_def split: if_splits prod.splits)

lemma may_write: "\<not> denies a op_write \<Longrightarrow> mayWrite a" "\<not> denies a op_int_add \<Longrightarrow> mayWrite a"
  by (cases a; simp add: mayWrite_def)+

lemma block_write_may: "block_write b mem v i bytes = Inr b' \<Longrightarrow> mayWrite (ab_access b')"
  using block_write_layout [of b mem v i bytes b'] may_write(1) [of "ab_access b"]
  by (auto simp: block_write_def prepareToWrite_def bind_result_Inr_iff block_layout_def split: if_splits)

lemma block_addInt_may: "block_addInt b v n x = Inr b' \<Longrightarrow> mayWrite (ab_access b')"
  using block_addInt_layout [of b v n x b'] may_write(2) [of "ab_access b"]
  by (auto simp: block_addInt_def block_layout_def split: if_splits)

lemma clean_position [simp]:
  "blocks_clean (md\<lparr>md_chunk := x\<rparr>) = blocks_clean md" "blocks_clean (md\<lparr>md_context := y\<rparr>) = blocks_clean md"
  "blocks_clean (md\<lparr>md_version := v\<rparr>) = blocks_clean md"
  by (simp_all add: blocks_clean_def)

lemma sizeBlock_table:
  "sizeBlock_read h ci v = Inr (n, ci') \<Longrightarrow> ci_table ci' = ci_table ci"
  "sizeBlock_write h ci v n = Inr ci' \<Longrightarrow> ci_table ci' = ci_table ci"
  by (clarsimp simp: sizeBlock_read_def sizeBlock_write_def bind_result_Inr_iff Let_def)+

lemma current_size_clean:
  assumes run: "current_size md h = Inr (n, md')" and clean: "blocks_clean md" shows "blocks_clean md'"
proof -
  from run obtain p ci ci' where ci: "get_chunk_info md p = Inr ci"
    and r: "sizeBlock_read h ci (md_version md) = Inr (n, ci')" and set: "set_chunk_info md p ci' = Inr md'"
    by (auto simp: current_size_def bind_result_Inr_iff split: option.splits)
  show ?thesis
    by (rule set_chunk_info_clean [OF set clean])
      (use get_chunk_info_clean [OF ci clean] sizeBlock_table(1) [OF r] in \<open>simp add: chunk_clean_def\<close>)
qed

lemma updateChunkSize_clean:
  assumes run: "updateChunkSize md h n = Inr md'" and clean: "blocks_clean md" shows "blocks_clean md'"
proof -
  from run obtain p ci m ci1 where p: "md_chunk md = Some p" and ci: "get_chunk_info md p = Inr ci"
    and r: "sizeBlock_read h ci (md_version md) = Inr (m, ci1)"
    by (auto simp: updateChunkSize_def bind_result_Inr_iff split: option.splits)
  obtain ci2 where set: "set_chunk_info md p ci2 = Inr md'"
    and ci2: "ci2 = ci1 \<or> sizeBlock_write h ci1 (md_version md) n = Inr ci2"
    using run p ci r by (auto simp: updateChunkSize_def bind_result_Inr_iff split: if_splits)
  have "ci_table ci2 = ci_table ci" using ci2 sizeBlock_table(1) [OF r] sizeBlock_table(2) by auto
  then show ?thesis using set_chunk_info_clean [OF set clean] get_chunk_info_clean [OF ci clean]
    by (simp add: chunk_clean_def)
qed

lemma mod_step_clean:
  assumes step: "mod_step h oper md = Inr md'" and clean: "blocks_clean md" shows "blocks_clean md'"
proof -
  note wb = with_block_clean [OF _ clean]
  show ?thesis
  proof (cases oper)
    case (OpContext x)
    then show ?thesis using step clean loadContext_only [of md x] by auto
  next
    case (OpChunk x y)
    then show ?thesis using step clean loadChunk_only [of md x y] by auto
  next
    case (OpLoad off i n)
    then show ?thesis using step
      by (auto simp: bind_result_Inr_iff modifier_load_def block_read_def elim!: wb dest: prepareToRead_clean)
  next
    case (OpLoadVarUInt t off i)
    then show ?thesis using step
      by (auto simp: bind_result_Inr_iff loadVarUInt_def readVarUInt_def elim!: wb dest: prepareToRead_clean)
  next
    case (OpLoadIdentifier t off i)
    then show ?thesis using step
      by (auto simp: bind_result_Inr_iff loadIdentifier_def readIdentifier_def elim!: wb dest: prepareToRead_clean)
  next
    case (OpStore off i bytes)
    then show ?thesis using step by (auto simp: bind_result_Inr_iff modifier_store_def elim!: wb dest: block_write_may)
  next
    case (OpStoreVarUInt t off x)
    then show ?thesis using step
      by (auto simp: bind_result_Inr_iff storeVarUInt_def writeVarUInt_def elim!: wb dest: block_write_may)
  next
    case (OpAddInt off n x)
    then show ?thesis using step by (auto simp: bind_result_Inr_iff modifier_addInt_def elim!: wb dest: block_addInt_may)
  next
    case (OpValid off n)
    then show ?thesis using step clean
      by (auto simp: isValid_def bind_result_Inr_iff dest!: current_size_clean split: option.splits if_splits)
  next
    case OpGetSize
    then show ?thesis using step clean
      by (auto simp: getChunkSize_def bind_result_Inr_iff dest!: current_size_clean split: option.splits if_splits)
  next
    case (OpResize n)
    then show ?thesis using step clean updateChunkSize_clean by auto
  next
    case OpSave
    then show ?thesis using step clean by (auto simp: saveVersion_def split: if_splits)
  next
    case (OpRestore v)
    then show ?thesis using step clean by (auto simp: restoreVersion_def bind_result_Inr_iff)
  qed
qed

section \<open>Computations of a session\<close>

definition modifier_of :: "chunk_layout list list \<Rightarrow> modifier \<Rightarrow> bool" where
  "modifier_of ls md \<longleftrightarrow> layout md = ls \<and> blocks_clean md"

definition of_layout :: "chunk_layout list list \<Rightarrow> session \<Rightarrow> bool" where
  "of_layout ls s \<longleftrightarrow> modifier_of ls (ss_modifier s)"

lemma mod_step_of: "mod_step h oper md = Inr md' \<Longrightarrow> modifier_of ls md \<Longrightarrow> modifier_of ls md'"
  using mod_step_layout mod_step_clean by (simp add: modifier_of_def)

definition around_layout :: "chunk_layout list list \<Rightarrow> session \<Rightarrow> session \<Rightarrow> bool" where
  "around_layout ls s s' \<longleftrightarrow> of_layout ls s' \<and> ss_calls s' = ss_calls s"

definition within_layout :: "chunk_layout list list \<Rightarrow> session \<Rightarrow> session \<Rightarrow> bool" where
  "within_layout ls s s' \<longleftrightarrow> of_layout ls s' \<and> same_frames s s'"

lemma around_layout_within: "around_layout ls s s' \<Longrightarrow> within_layout ls s s'"
  by (auto simp: around_layout_def within_layout_def same_frames_def split: list.splits)

lemma saveVersion_of: "saveVersion md = Inr (v, md') \<Longrightarrow> modifier_of ls md' = modifier_of ls md"
  by (auto simp: saveVersion_def modifier_of_def split: if_splits)

lemma restoreVersion_of: "restoreVersion md v = Inr md' \<Longrightarrow> modifier_of ls md' = modifier_of ls md"
  by (auto simp: restoreVersion_def bind_result_Inr_iff modifier_of_def)

lemma loadContext_of [simp]: "modifier_of ls (loadContext md a) = modifier_of ls md"
  using loadContext_only [of md a] by (auto simp: modifier_of_def)

interpretation ll: call_contract h "of_layout ls" "within_layout ls" "around_layout ls" for h ls
proof
  fix s s1 :: session and fg u
  assume s: "of_layout ls s" and o: "open_resources fg s = (Returned u, s1)"
  have "modifier_of ls (ss_modifier s1) = modifier_of ls (ss_modifier s) \<and> ss_calls s1 = ss_calls s"
    by (rule open_resources_cases [OF o]) (auto dest: saveVersion_of)
  then show "of_layout ls s1" using s by (simp add: of_layout_def)
  fix s2 s3 :: session and b u'
  assume "around_layout ls s1 s2" and c: "close_resources b s2 = (Returned u', s3)"
  moreover have "modifier_of ls (ss_modifier s3) = modifier_of ls (ss_modifier s2) \<and> ss_calls s3 = ss_calls s2"
    by (rule close_resources_Returned [OF c]) (auto dest: restoreVersion_of split: if_splits)
  ultimately show "around_layout ls s s3"
    using \<open>modifier_of ls (ss_modifier s1) = modifier_of ls (ss_modifier s) \<and> ss_calls s1 = ss_calls s\<close>
    by (simp add: around_layout_def of_layout_def)
next
  fix s s1 :: session and fg e
  assume s: "of_layout ls s" and o: "open_resources fg s = (Thrown e, s1)"
  show "around_layout ls s s1"
    by (rule open_resources_cases [OF o]) (use s in \<open>auto simp: around_layout_def of_layout_def\<close>)
qed (auto simp: around_layout_def within_layout_def of_layout_def same_frames_def new_context_def
    dest!: mod_step_of saveVersion_of restoreVersion_of split: list.splits)


text \<open>Two computations that do the same in every session whose modifier has the given layout.\<close>

definition same_act :: "chunk_layout list list \<Rightarrow> 'a act \<Rightarrow> 'a act \<Rightarrow> bool" where
  "same_act ls m m' \<longleftrightarrow> (\<forall>s. of_layout ls s \<longrightarrow> m s = m' s)"

abbreviation stays :: "chunk_layout list list \<Rightarrow> 'a act \<Rightarrow> bool" where
  "stays ls \<equiv> keeps (of_layout ls) (within_layout ls)"

lemma same_refl: "same_act ls m m"
  by (simp add: same_act_def)

lemma stays_Returned: "stays ls m \<Longrightarrow> of_layout ls s \<Longrightarrow> m s = (Returned x, s') \<Longrightarrow> of_layout ls s'"
  by (drule keepsD) (auto simp: within_layout_def)

lemma stays_Thrown: "stays ls m \<Longrightarrow> of_layout ls s \<Longrightarrow> m s = (Thrown e, s') \<Longrightarrow> of_layout ls s'"
  by (drule keepsD) (auto simp: within_layout_def)

lemma stays_Signalled: "stays ls m \<Longrightarrow> of_layout ls s \<Longrightarrow> m s = (Signalled e, s') \<Longrightarrow> of_layout ls s'"
  by (drule keepsD) (auto simp: within_layout_def)

lemmas stays_layout = stays_Returned stays_Thrown stays_Signalled

lemma same_bind:
  assumes "same_act ls m m'" "stays ls m" "\<And>x. same_act ls (f x) (f' x)"
  shows "same_act ls (bind_act m f) (bind_act m' f')"
proof (unfold same_act_def, intro allI impI)
  fix s assume s: "of_layout ls s"
  obtain r s1 where m: "m s = (r, s1)" by (cases "m s")
  have m': "m' s = (r, s1)" using assms(1) s m by (simp add: same_act_def)
  show "bind_act m f s = bind_act m' f' s"
    using assms(3) stays_layout [OF assms(2) s, of _ s1] m m'
    by (cases r) (auto simp: same_act_def bind_act_def)
qed

lemma same_destructor:
  assumes "same_act ls m m'" "stays ls m" "\<And>x. same_act ls (d x) (d' x)"
  shows "same_act ls (with_destructor m d) (with_destructor m' d')"
proof (unfold same_act_def, intro allI impI)
  fix s assume s: "of_layout ls s"
  obtain r s1 where m: "m s = (r, s1)" by (cases "m s")
  have m': "m' s = (r, s1)" using assms(1) s m by (simp add: same_act_def)
  show "with_destructor m d s = with_destructor m' d' s"
    using assms(3) stays_layout [OF assms(2) s, of _ s1] m m'
    by (cases r) (auto simp: same_act_def with_destructor_def Let_def)
qed

lemma same_if: "same_act ls m m' \<Longrightarrow> same_act ls n n' \<Longrightarrow> same_act ls (if b then m else n) (if b then m' else n')"
  by simp

lemma same_on_modifier:
  "(\<And>md. modifier_of ls md \<Longrightarrow> f md = f' md) \<Longrightarrow> same_act ls (on_modifier f) (on_modifier f')"
  by (simp add: same_act_def of_layout_def on_modifier_def)

lemma same_on_modifier_only:
  "(\<And>md. modifier_of ls md \<Longrightarrow> f md = f' md) \<Longrightarrow> same_act ls (on_modifier_only f) (on_modifier_only f')"
  unfolding on_modifier_only_def by (rule same_on_modifier) simp

lemma same_guarded: "same_act ls m m' \<Longrightarrow> stays ls m \<Longrightarrow> same_act ls (guarded m) (guarded m')"
  unfolding guarded_def by (intro same_bind same_refl ll.keeps_basic) 

lemma same_in_context:
  "(\<And>c. same_act ls (body c) (body' c)) \<Longrightarrow> (\<And>c. stays ls (body c)) \<Longrightarrow>
    same_act ls (in_context body) (in_context body')"
  unfolding in_context_def by (intro same_bind same_destructor same_refl ll.keeps_basic)

text \<open>The functions of the runtime.\<close>

lemma stays_ops:
  "stays ls (on_modifier (\<lambda>md. modifier_load md h off i n))"
  "stays ls (on_modifier (\<lambda>md. loadIdentifier app_trie_g md h off i))"
  "stays ls (on_modifier (\<lambda>md. isValid md h off n))"
  "stays ls (on_modifier (\<lambda>md. getChunkSize md h))"
  "stays ls (on_modifier_only (\<lambda>md. modifier_store md h off i bs))"
  "stays ls (on_modifier_only (\<lambda>md. modifier_addInt md h off n v))"
  "stays ls (on_modifier_only (\<lambda>md. updateChunkSize md h n))"
  "stays ls (on_modifier_only (\<lambda>md. loadChunk md acc loc))"
proof -
  have step: "stays ls (on_modifier f)"
    if "\<And>md x md'. f md = Inr (x, md') \<Longrightarrow> \<exists>oper. mod_step h oper md = Inr md'" for f :: "modifier \<Rightarrow> ('a \<times> modifier) result"
  proof (rule keepsI)
    fix s r s' assume s: "of_layout ls s" and run: "on_modifier f s = (r, s')"
    show "within_layout ls s s'"
    proof (cases "f (ss_modifier s)")
      case (Inl e)
      then show ?thesis using run s
        by (auto simp: on_modifier_def bind_act_def lift_result_def stop_def throw_def within_layout_def same_frames_def
            split: exn.splits list.splits)
    next
      case (Inr y)
      then obtain x md where y: "f (ss_modifier s) = Inr (x, md)" by (cases y) auto
      then have "modifier_of ls md" using that [OF y] mod_step_of s by (auto simp: of_layout_def)
      then show ?thesis using run y s
        by (auto simp: on_modifier_def bind_act_def lift_result_def ret_def within_layout_def same_frames_def of_layout_def
            split: list.splits)
    qed
  qed
  show "stays ls (on_modifier (\<lambda>md. modifier_load md h off i n))"
    by (rule step, rule exI [of _ "OpLoad off i n"]) simp
  show "stays ls (on_modifier (\<lambda>md. loadIdentifier app_trie_g md h off i))" by (rule ll.keeps_identifier)
  show "stays ls (on_modifier (\<lambda>md. isValid md h off n))" by (rule ll.keeps_valid)
  show "stays ls (on_modifier (\<lambda>md. getChunkSize md h))"
    by (rule step, rule exI [of _ OpGetSize]) simp
  have step': "stays ls (on_modifier_only f)"
    if "\<And>md md'. f md = Inr md' \<Longrightarrow> \<exists>oper. mod_step h oper md = Inr md'" for f
    unfolding on_modifier_only_def by (rule step) (use that in \<open>auto simp: bind_result_Inr_iff\<close>)
  show "stays ls (on_modifier_only (\<lambda>md. modifier_store md h off i bs))"
    by (rule step', rule exI [of _ "OpStore off i bs"]) simp
  show "stays ls (on_modifier_only (\<lambda>md. modifier_addInt md h off n v))"
    by (rule step', rule exI [of _ "OpAddInt off n v"]) simp
  show "stays ls (on_modifier_only (\<lambda>md. updateChunkSize md h n))"
    by (rule step', rule exI [of _ "OpResize n"]) simp
  show "stays ls (on_modifier_only (\<lambda>md. loadChunk md acc loc))" by (rule ll.keeps_chunk)
qed

lemma same_ops:
  assumes "heap_same ls h h'"
  shows "same_act ls (on_modifier (\<lambda>md. modifier_load md h off i n)) (on_modifier (\<lambda>md. modifier_load md h' off i n))"
    "same_act ls (on_modifier (\<lambda>md. loadIdentifier t md h off i)) (on_modifier (\<lambda>md. loadIdentifier t md h' off i))"
    "same_act ls (on_modifier (\<lambda>md. isValid md h off n)) (on_modifier (\<lambda>md. isValid md h' off n))"
    "same_act ls (on_modifier (\<lambda>md. getChunkSize md h)) (on_modifier (\<lambda>md. getChunkSize md h'))"
    "same_act ls (on_modifier_only (\<lambda>md. modifier_store md h off i bs)) (on_modifier_only (\<lambda>md. modifier_store md h' off i bs))"
    "same_act ls (on_modifier_only (\<lambda>md. modifier_addInt md h off n v)) (on_modifier_only (\<lambda>md. modifier_addInt md h' off n v))"
    "same_act ls (on_modifier_only (\<lambda>md. updateChunkSize md h n)) (on_modifier_only (\<lambda>md. updateChunkSize md h' n))"
  by (intro same_on_modifier same_on_modifier_only modifier_same; use assms in \<open>simp add: modifier_of_def\<close>)+

lemma same_heap:
  assumes s: "heap_same ls h h'"
  shows "same_act ls (load_int64 h off) (load_int64 h' off)" "same_act ls (invalid h off sz) (invalid h' off sz)"
    "same_act ls (store_int64 h off v) (store_int64 h' off v)" "same_act ls (store_int16 h off v) (store_int16 h' off v)"
    "same_act ls (store_pk h off j w) (store_pk h' off j w)" "same_act ls (add_int64_to h off v) (add_int64_to h' off v)"
    "same_act ls (resize_chunk h n) (resize_chunk h' n)" "same_act ls (get_chunk_size h) (get_chunk_size h')"
    "same_act ls (load_uint16 h o') (load_uint16 h' o')" "same_act ls (store_uint16 h o' n') (store_uint16 h' o' n')"
  unfolding load_int64_def invalid_def store_int64_def store_int16_def store_pk_def add_int64_to_def resize_chunk_def
    get_chunk_size_def load_uint16_def store_uint16_def
  by (intro same_guarded same_bind same_refl same_ops s ll.keeps_basic stays_ops)+

lemma same_multiway:
  assumes s: "heap_same ls h h'"
  shows "same_act ls (verifyWithMultiwayNonce h n issuer spender msg i inval)
    (verifyWithMultiwayNonce h' n issuer spender msg i inval)"
  unfolding verifyWithMultiwayNonce_def Let_def
  by (intro same_bind same_if same_refl same_heap s ll.keeps_basic ll.keeps_heap ll.keeps_signatures ll.keeps_if)

lemma same_byAccount:
  assumes s: "heap_same ls h h'"
  shows "same_act ls (verifyByAccount h issuer msg i b inval) (verifyByAccount h' issuer msg i b inval)"
proof -
  have m: "same_act ls (bind_act (verifyWithMultiwayNonce h n issuer spender msg i inval) (\<lambda>(b, msg'). ret (b, msg', int balance_place)))
    (bind_act (verifyWithMultiwayNonce h' n issuer spender msg i inval) (\<lambda>(b, msg'). ret (b, msg', int balance_place)))" 
   "stays ls (bind_act (verifyWithMultiwayNonce h n issuer spender msg i inval) (\<lambda>(b, msg'). ret (b, msg', int balance_place)))" for n spender
    by (auto intro!: same_bind same_refl same_multiway s ll.keeps_multiway ll.keeps_basic split: prod.splits)
  show ?thesis
    unfolding verifyByAccount_def Let_def
    by (intro same_in_context same_bind same_if same_refl same_ops same_heap s ll.keeps_heap m stays_ops)
      (auto intro!: ll.keeps_bind ll.keeps_if m stays_ops ll.keeps_basic ll.keeps_heap ll.keeps_byApp split: prod.splits)
qed

lemma same_virtual_sign:
  assumes s: "heap_same ls h h'"
  shows "same_act ls (virtual_sign h issuer msg) (virtual_sign h' issuer msg)"
  unfolding virtual_sign_def
  by (intro same_bind same_in_context same_refl same_ops same_heap s ll.keeps_guard ll.keeps_heap stays_ops)
   (auto simp: virtual_sign_error_def intro!: same_bind same_refl ll.keeps_basic stays_ops ll.keeps_heap ll.keeps_signatures split: prod.splits)

lemma same_run_argc:
  assumes s: "heap_same ls h h'"
  shows "same_act ls (run_argc h c) (run_argc h' c)"
  by (cases c) (auto simp: map_act_def verify_by_acc_once_def verify_by_acc_def
      intro!: same_bind same_guarded same_refl same_heap same_byAccount same_virtual_sign s
        ll.keeps_basic ll.keeps_heap ll.keeps_byAccount ll.keeps_virtual_sign split: prod.splits)


text \<open>Contracts and calls.\<close>

lemma same_run_app:
  assumes s: "heap_same ls h h'"
    and inv: "\<And>gas app resp req. same_act ls (invoke gas app resp req) (invoke' gas app resp req)"
      "\<And>gas app resp req. stays ls (invoke gas app resp req)"
  shows "same_act ls (run_app h invoke p) (run_app h' invoke' p)"
proof (induction p)
  case (Call c k)
  then show ?case by (simp add: same_bind same_run_argc s ll.keeps_run_argc)
next
  case (Invoke gas app resp req k)
  then show ?case by (auto intro!: same_bind inv split: prod.splits)
qed (simp_all add: same_refl)

lemma same_enter_app:
  assumes s: "heap_same ls (en_heap env) h'"
    and inv: "\<And>gas app resp req. same_act ls (invoke gas app resp req) (invoke' gas app resp req)"
      "\<And>gas app resp req. stays ls (invoke gas app resp req)"
  shows "same_act ls (enter_app env invoke app resp req) (enter_app (env\<lparr>en_heap := h'\<rparr>) invoke' app resp req)"
proof -
  have "same_act ls (callApp env invoke app resp req) (callApp (env\<lparr>en_heap := h'\<rparr>) invoke' app resp req)"
    by (auto simp: callApp_def intro!: same_refl same_run_app s inv split: sum.splits option.splits)
  then have "same_act ls (bind_act unGuard (\<lambda>_. callApp env invoke app resp req))
      (bind_act unGuard (\<lambda>_. callApp (env\<lparr>en_heap := h'\<rparr>) invoke' app resp req))"
    by (intro same_bind same_refl ll.keeps_guard)
  then have a: "bind_act unGuard (\<lambda>_. callApp env invoke app resp req) s =
      bind_act unGuard (\<lambda>_. callApp (env\<lparr>en_heap := h'\<rparr>) invoke' app resp req) s" if "of_layout ls s" for s
    using that by (simp add: same_act_def)
  have w: "en_what (env\<lparr>en_heap := h'\<rparr>) = en_what env" by simp
  show ?thesis unfolding same_act_def enter_app_def w
  proof (intro allI impI, goal_cases)
    case (1 s)
    show ?case unfolding a [OF 1] ..
  qed
qed

lemma same_deferred:
  assumes "\<And>app resp req. same_act ls (dep app resp req) (dep' app resp req)" "\<And>app resp req. stays ls (dep app resp req)"
  shows "same_act ls (run_deferred dep ds) (run_deferred dep' ds)"
  by (induction ds) (auto intro!: same_bind same_refl assms)

lemma same_opened:
  assumes "same_act ls m m'"
  shows "same_act ls (bind_act (open_context app) (\<lambda>_. m)) (bind_act (open_context app) (\<lambda>_. m'))"
proof (unfold same_act_def, intro allI impI)
  fix s assume s: "of_layout ls s"
  obtain r s1 where o: "open_context app s = (r, s1)" by (cases "open_context app s")
  have "of_layout ls s1" if "r = Returned u" for u
    using o s that by (auto simp: open_context_def bind_act_def current_call_def throw_def ret_def load_context_def modify_def
        of_layout_def split: list.splits if_splits)
  then show "bind_act (open_context app) (\<lambda>_. m) s = bind_act (open_context app) (\<lambda>_. m') s"
    using assms o by (cases r) (auto simp: same_act_def bind_act_def)
qed

lemma same_body:
  assumes s: "heap_same ls (en_heap env) h'"
    and inv: "\<And>gas app resp req. same_act ls (invoke gas app resp req) (invoke' gas app resp req)"
      "\<And>gas app resp req. stays ls (invoke gas app resp req)"
    and dep: "\<And>app resp req. same_act ls (dep app resp req) (dep' app resp req)" "\<And>app resp req. stays ls (dep app resp req)"
  shows "same_act ls (dependant_call_body env invoke dep app resp req)
    (dependant_call_body (env\<lparr>en_heap := h'\<rparr>) invoke' dep' app resp req)"
proof -
  have c: "check_app (env\<lparr>en_heap := h'\<rparr>) = check_app env"
    by (simp add: check_app_def checkApp_def fun_eq_iff)
  show ?thesis unfolding dependant_call_body_def c
    by (intro same_bind same_opened same_destructor same_refl ll.keeps_guard ll.keeps_check same_enter_app s inv)
      (auto intro!: same_bind same_refl same_deferred ll.keeps_basic ll.keeps_enter_app ll.keeps_check
        ll.keeps_exit_area ll.keeps_deferred inv dep split: prod.splits)
qed

lemma stays_dependant_call: "stays ls (dependant_call n env app resp req)"
  by (rule ll.keeps_weaken) (rule ll.keeps_dependant_call [OF refl])


lemma same_noexcept:
  "same_act ls (dep app resp req) (dep' app resp req) \<Longrightarrow>
    same_act ls (invoke_noexcept dep app resp req) (invoke_noexcept dep' app resp req)"
  by (simp add: same_act_def invoke_noexcept_def)

text \<open>Opening the resources of a call leaves the layout as it is.\<close>

lemma same_resources:
  assumes "same_act ls m m'"
  shows "same_act ls (bind_act (open_resources fg) (\<lambda>_. m)) (bind_act (open_resources fg) (\<lambda>_. m'))"
proof (unfold same_act_def, intro allI impI)
  fix s assume s: "of_layout ls s"
  obtain r s1 where o: "open_resources fg s = (r, s1)" by (cases "open_resources fg s")
  show "bind_act (open_resources fg) (\<lambda>_. m) s = bind_act (open_resources fg) (\<lambda>_. m') s"
    using assms o ll.resources_open [OF s] by (cases r) (auto simp: same_act_def bind_act_def)
qed

lemma same_catch_ascee:
  "same_act ls m m' \<Longrightarrow> same_act ls (catch_ascee m f) (catch_ascee m' f)"
  by (simp add: same_act_def catch_ascee_def catch_def)

lemma stays_optimistic_open: "stays ls open_optimistic"
  by (rule keepsI) (auto simp: open_optimistic_def bind_act_def current_call_def within_layout_def of_layout_def same_frames_def
      dest: saveVersion_of split: list.splits sum.splits)

lemma same_executeApp:
  assumes dep: "\<And>app resp req. same_act ls (dep app resp req) (dep' app resp req)"
    and k: "\<And>app resp req. keeps (of_layout ls) (around_layout ls) (dep app resp req)" "\<And>app resp req. no_signal (dep app resp req)"
  shows "same_act ls (executeApp dep fg app resp req) (executeApp dep' fg app resp req)"
proof -
  have st: "stays ls (dep app resp req)" for app resp req by (rule ll.keeps_weaken) (rule k)
  have thread: "same_act ls (bind_act thread_limits (\<lambda>_. invoke_noexcept dep app resp req))
      (bind_act thread_limits (\<lambda>_. invoke_noexcept dep' app resp req))"
    "stays ls (bind_act thread_limits (\<lambda>_. invoke_noexcept dep app resp req))"
    by (intro same_bind same_refl same_noexcept dep ll.keeps_thread_limits ll.keeps_bind ll.keeps_noexcept st)+
  have stays_catch: "keeps (of_layout ls) (around_layout ls) (catch_ascee (bind_act (open_resources fg) (\<lambda>_. with_destructor
      (bind_act thread_limits (\<lambda>_. invoke_noexcept dep app resp req)) (\<lambda>r. close_resources (succeeded r)))) error_response)"
    unfolding error_response_eq
    by (intro ll.outer.keeps_bind ll.outer.keeps_catch_ascee ll.keeps_with_resources ll.outer.keeps_thread_limits
      ll.outer.keeps_noexcept no_signal_thread ll.outer.keeps_current_call ll.outer.keeps_lift_result ll.outer.keeps_ret k)
  have c: "same_act ls (controlled_executeApp dep fg app resp req) (controlled_executeApp dep' fg app resp req)"
    unfolding controlled_executeApp_def
    by (intro same_bind same_refl same_catch_ascee same_resources same_destructor thread ll.keeps_guard
        ll.keeps_weaken stays_catch)
  have o: "same_act ls (optimistic_executeApp dep fg app resp req) (optimistic_executeApp dep' fg app resp req)"
    unfolding optimistic_executeApp_def
    by (intro same_catch_ascee) (auto intro!: same_bind same_refl same_destructor dep st stays_optimistic_open split: prod.splits)
  show ?thesis using c o by (simp add: same_act_def executeApp_def)
qed

lemma same_dependant_call:
  assumes "heap_same ls (en_heap env) h'"
  shows "same_act ls (dependant_call n env app resp req) (dependant_call n (env\<lparr>en_heap := h'\<rparr>) app resp req)"
proof (induction n arbitrary: app resp req)
  case 0
  then show ?case by (simp add: same_refl)
next
  case (Suc n)
  have d: "keeps (of_layout ls) (around_layout ls) (dependant_call n env app resp req)" for app resp req
    by (rule ll.keeps_dependant_call [OF refl])
  show ?case unfolding dependant_call.simps
    by (intro same_body assms same_executeApp Suc.IH stays_dependant_call d no_signal_dependant_call
        ll.keeps_weaken ll.keeps_executeApp)
qed

section \<open>A request\<close>

lemma destructor_same: "m s = m' s \<Longrightarrow> with_destructor m d s = with_destructor m' d s"
  by (simp add: with_destructor_def)

lemma destructor_end:
  assumes "with_destructor m d s = (r, s')" "\<And>x. r \<noteq> Stopped x"
  shows "\<exists>r1 s1. m s = (r1, s1) \<and> (\<forall>x. r1 \<noteq> Stopped x) \<and> (s' = s1 \<or> (\<exists>x u. d x s1 = (Returned u, s')))"
proof -
  obtain r1 s1 where m: "m s = (r1, s1)" by (cases "m s")
  have "(\<forall>x. r1 \<noteq> Stopped x) \<and> (s' = s1 \<or> (\<exists>x u. d x s1 = (Returned u, s')))"
    using assms m by (cases r1) (auto simp: with_destructor_def Let_def split: prod.splits outcome.splits)
  then show ?thesis using m by blast
qed

lemma close_context_layout: "close_context s = (Returned u, s') \<Longrightarrow> modifier_of ls (ss_modifier s') = modifier_of ls (ss_modifier s)"
  by (auto simp: close_context_def exit_area_def guarded_def bind_act_def guardArea_def unGuard_def controlled_guardArea_def
      controlled_unGuard_def current_call_def modify_def set_current_call_def ret_def load_context_def
      split: if_splits list.splits)

lemma close_resources_layout: "close_resources b s = (Returned u, s') \<Longrightarrow> modifier_of ls (ss_modifier s') = modifier_of ls (ss_modifier s)"
  by (erule close_resources_Returned) (auto dest: restoreVersion_of split: if_splits)

text \<open>The first call of a request and the objects around it, in both ways of executing it.\<close>

definition plain_root :: "app_request \<Rightarrow> session" where
  "plain_root req = (start_session req)\<lparr>ss_calls := [new_context 0]\<rparr>"

lemma execute_request_plain:
  "\<not> ar_useControlledExecution req \<Longrightarrow> execute_request n env req (start_session req) =
    with_destructor (executeApp (dependant_call n env) 255 (ar_calledAppID req) [] (ar_httpRequest req)) (\<lambda>_. close_context)
      (plain_root req)"
  by (simp add: execute_request_def bind_act_def root_context_def modify_def new_context_def plain_root_def)

lemma execute_request_same:
  assumes h: "heap_same (layout (ar_modifier req)) (en_heap env) h'" and clean: "blocks_clean (ar_modifier req)"
  shows "execute_request n (env\<lparr>en_heap := h'\<rparr>) req (start_session req) = execute_request n env req (start_session req)"
proof -
  let ?ls = "layout (ar_modifier req)"
  let ?call = "\<lambda>env. executeApp (dependant_call n env) 255 (ar_calledAppID req) [] (ar_httpRequest req)"
  have "same_act ?ls (?call env) (?call (env\<lparr>en_heap := h'\<rparr>))"
    by (intro same_executeApp same_dependant_call h ll.keeps_dependant_call [OF refl] no_signal_dependant_call)
  then have c: "?call (env\<lparr>en_heap := h'\<rparr>) s = ?call env s" if "of_layout ?ls s" for s
    using that by (simp add: same_act_def)
  have root: "of_layout ?ls (root_session req)" "of_layout ?ls (plain_root req)"
    using clean by (simp_all add: of_layout_def modifier_of_def root_session_def start_session_def plain_root_def)
  show ?thesis
  proof (cases "ar_useControlledExecution req")
    case True
    show ?thesis unfolding execute_request_root [OF True]
      by (rule destructor_same, rule destructor_same, rule c, rule root)
  next
    case False
    show ?thesis unfolding execute_request_plain [OF False] by (rule destructor_same, rule c, rule root)
  qed
qed

lemma execute_request_layout:
  assumes run: "execute_request n env req (start_session req) = (r, s')" and r: "\<And>x. r \<noteq> Stopped x"
    and clean: "blocks_clean (ar_modifier req)"
  shows "modifier_of (layout (ar_modifier req)) (ss_modifier s')"
proof -
  let ?ls = "layout (ar_modifier req)"
  let ?call = "executeApp (dependant_call n env) 255 (ar_calledAppID req) [] (ar_httpRequest req)"
  have k: "keeps (of_layout ?ls) (around_layout ?ls) ?call"
    by (intro ll.keeps_executeApp ll.keeps_dependant_call [OF refl] no_signal_dependant_call)
  have root: "of_layout ?ls (root_session req)" "of_layout ?ls (plain_root req)"
    using clean by (simp_all add: of_layout_def modifier_of_def root_session_def start_session_def plain_root_def)
  have call: "of_layout ?ls s1" if "?call s = (r1, s1)" "\<forall>x. r1 \<noteq> Stopped x" "of_layout ?ls s" for s r1 s1
    using keepsD [OF k that(3,1)] that(2) by (simp add: around_layout_def)
  have ctx: "of_layout ?ls s1"
    if w: "with_destructor ?call (\<lambda>_. close_context) s = (r1, s1)" "\<forall>x. r1 \<noteq> Stopped x" "of_layout ?ls s" for s r1 s1
  proof -
    obtain r2 s2 where e: "?call s = (r2, s2)" "\<forall>x. r2 \<noteq> Stopped x" "s1 = s2 \<or> (\<exists>u. close_context s2 = (Returned u, s1))"
      using destructor_end [OF w(1)] w(2) by blast
    then show ?thesis using call [OF e(1,2) w(3)] close_context_layout by (auto simp: of_layout_def)
  qed
  show ?thesis
  proof (cases "ar_useControlledExecution req")
    case True
    obtain r2 s2 where e: "with_destructor ?call (\<lambda>_. close_context) (root_session req) = (r2, s2)" "\<forall>x. r2 \<noteq> Stopped x"
      "s' = s2 \<or> (\<exists>b u. close_resources b s2 = (Returned u, s'))"
      using destructor_end [OF run [unfolded execute_request_root [OF True]] r] by blast
    then show ?thesis using ctx [OF e(1,2) root(1)] close_resources_layout by (auto simp: of_layout_def)
  next
    case False
    then show ?thesis using run ctx [OF _ _ root(2)] r by (simp add: execute_request_plain of_layout_def)
  qed
qed
section \<open>Writing to the heap\<close>

text \<open>Two memories that agree at the given indices.\<close>

definition agree :: "(nat \<Rightarrow> bool) \<Rightarrow> 'a list \<Rightarrow> 'a list \<Rightarrow> bool" where
  "agree T xs ys \<longleftrightarrow> length xs = length ys \<and> (\<forall>i < length xs. T i \<longrightarrow> xs ! i = ys ! i)"

lemma agree_refl [simp]: "agree T xs xs"
  by (simp add: agree_def)

lemma agree_sym: "agree T xs ys \<Longrightarrow> agree T ys xs"
  by (simp add: agree_def)

lemma agree_trans: "agree T xs ys \<Longrightarrow> agree T ys zs \<Longrightarrow> agree T xs zs"
  by (simp add: agree_def)

lemma agree_mono: "agree T xs ys \<Longrightarrow> (\<And>i. T' i \<Longrightarrow> T i) \<Longrightarrow> agree T' xs ys"
  by (simp add: agree_def)

lemma agree_range: "agree T xs ys \<Longrightarrow> (\<And>i. p \<le> i \<Longrightarrow> i < p + n \<Longrightarrow> T i) \<Longrightarrow> same_range p n xs ys"
  by (simp add: agree_def same_range_def)

text \<open>Two computations that fail alike or end in related results.\<close>

definition results :: "('a \<Rightarrow> 'a \<Rightarrow> bool) \<Rightarrow> 'a result \<Rightarrow> 'a result \<Rightarrow> bool" where
  "results R r r' \<longleftrightarrow> (case r of Inl e \<Rightarrow> r' = Inl e | Inr x \<Rightarrow> \<exists>y. r' = Inr y \<and> R x y)"

lemma results_Inr [simp]: "results R (Inr x) r' \<longleftrightarrow> (\<exists>y. r' = Inr y \<and> R x y)"
  by (simp add: results_def)

lemma results_Inl [simp]: "results R (Inl e) r' \<longleftrightarrow> r' = Inl e"
  by (simp add: results_def)

lemma results_bind:
  "results Q r r' \<Longrightarrow> (\<And>x y. r = Inr x \<Longrightarrow> r' = Inr y \<Longrightarrow> Q x y \<Longrightarrow> results R (f x) (g y)) \<Longrightarrow>
    results R (bind_result r f) (bind_result r' g)"
  by (cases r) auto

lemma results_bind_same: "(\<And>x. r = Inr x \<Longrightarrow> results R (f x) (g x)) \<Longrightarrow> results R (bind_result r f) (bind_result r g)"
  by (cases r) auto

lemma store_agree: "agree T xs ys \<Longrightarrow> results (agree T) (store_bytes xs p bs) (store_bytes ys p bs)"
  by (auto simp: store_bytes_def agree_def nth_overwrite)

lemma store_outside: "store_bytes xs p bs = Inr xs' \<Longrightarrow> (\<And>i. p \<le> i \<Longrightarrow> i < p + length bs \<Longrightarrow> \<not> T i) \<Longrightarrow> agree T xs xs'"
  by (auto simp: store_bytes_def agree_def nth_overwrite split: if_splits)

definition in_block :: "block_layout \<Rightarrow> nat \<Rightarrow> bool" where
  "in_block = (\<lambda>(loc, n, a) i. loc \<le> i \<and> i < loc + n)"

text \<open>Writing a block does the same to memories that agree on the block, and changes nothing outside of it.\<close>

definition touches :: "(nat \<Rightarrow> bool) \<Rightarrow> access_block \<Rightarrow> bool" where
  "touches T b \<longleftrightarrow> (mayWrite (ab_access b) \<or> ab_versions b = []) \<and>
     (mayWrite (ab_access b) \<longrightarrow> (\<forall>i. ab_location b \<le> i \<and> i < ab_location b + ab_size b \<longrightarrow> T i))"

lemma wrToHeap_none: "ab_versions b = [] \<Longrightarrow> wrToHeap b mem v m = Inr (syncTo b v, mem)"
  by (simp add: wrToHeap_def syncTo_def)

abbreviation same_writes :: "(nat \<Rightarrow> bool) \<Rightarrow> 'a \<times> byte list \<Rightarrow> 'a \<times> byte list \<Rightarrow> bool" where
  "same_writes T x y \<equiv> fst y = fst x \<and> agree T (snd x) (snd y)"

lemma wrToHeap_agree:
  assumes T: "agree T mem mem'" "touches T b"
  shows "results (same_writes T) (wrToHeap b mem v m) (wrToHeap b mem' v m)"
proof (cases "ab_versions (syncTo b v) = []")
  case True
  then show ?thesis using T by (simp add: wrToHeap_def)
next
  case False
  then have "mayWrite (ab_access b)" using T(2) by (auto simp: touches_def syncTo_def)
  then have r: "same_range (ab_location b) (ab_size b) mem mem'" using T by (intro agree_range [OF T(1)]) (auto simp: touches_def)
  have l: "load_bytes mem (ab_location b) (ab_size b) = load_bytes mem' (ab_location b) (ab_size b)"
    by (rule load_same [OF r]) simp_all
  have st: "results (same_writes T) (bind_result (store_bytes mem q bs) (\<lambda>mem'. Inr (b', mem')))
      (bind_result (store_bytes mem' q bs) (\<lambda>mem'. Inr (b', mem')))" for q bs and b' :: access_block
    by (rule results_bind [OF store_agree [OF T(1)]]) simp
  show ?thesis unfolding wrToHeap_def Let_def l using False
    by (auto intro!: results_bind_same st)
qed

lemma wrToHeap_outside:
  assumes "wrToHeap b mem v m = Inr (b', mem')" "mayWrite (ab_access b) \<or> ab_versions b = []"
    and "\<And>i. mayWrite (ab_access b) \<Longrightarrow> ab_location b \<le> i \<Longrightarrow> i < ab_location b + ab_size b \<Longrightarrow> \<not> T i"
  shows "agree T mem mem' \<and> b' = syncTo b v"
proof (cases "ab_versions (syncTo b v) = []")
  case True
  then show ?thesis using assms(1) by (simp add: wrToHeap_def)
next
  case False
  then have w: "mayWrite (ab_access b)" using assms(2) by (auto simp: syncTo_def)
  from assms(1) False obtain bs where st: "store_bytes mem (ab_location b) bs = Inr mem'" "length bs \<le> ab_size b"
    and b': "b' = syncTo b v"
    by (auto simp: wrToHeap_def Let_def bind_result_Inr_iff load_bytes_def le_int_bytes_def split: if_splits)
  then show ?thesis using store_outside [OF st(1), of T] assms(3) [OF w] by auto
qed

lemma write_blocks_agree:
  assumes "agree T mem mem'" "\<forall>(off, b) \<in> set es. touches T b"
  shows "results (same_writes T) (write_blocks v sz es mem) (write_blocks v sz es mem')"
  using assms
proof (induction v sz es mem arbitrary: mem' rule: write_blocks.induct)
  case (2 v sz off b rest mem)
  then have t: "touches T b" by simp
  show ?case
  proof (cases "off \<ge> sz")
    case False
    have "results (same_writes T) (bind_result (write_blocks v sz rest m) (\<lambda>(bs, mem''). Inr (b1 # bs, mem'')))
        (bind_result (write_blocks v sz rest m') (\<lambda>(bs, mem''). Inr (b1 # bs, mem'')))"
      if "wrToHeap b mem v (sz - off) = Inr (b1, m)" "agree T m m'" for b1 m m'
      using 2(1) [OF False that(1) refl that(2)] 2(3) by (auto intro: results_bind)
    then show ?thesis using False by (auto intro!: results_bind [OF wrToHeap_agree [OF 2(2) t]])
  qed (use 2 in simp)
qed simp

lemma write_blocks_outside:
  assumes "write_blocks v sz es mem = Inr (bs, mem')"
    and "\<forall>(off, b) \<in> set es. (mayWrite (ab_access b) \<or> ab_versions b = []) \<and>
      (mayWrite (ab_access b) \<longrightarrow> (\<forall>i. ab_location b \<le> i \<and> i < ab_location b + ab_size b \<longrightarrow> \<not> T i))"
  shows "agree T mem mem'"
  using assms
proof (induction v sz es mem arbitrary: bs mem' rule: write_blocks.induct)
  case (2 v sz off b rest mem)
  show ?case
  proof (cases "off \<ge> sz")
    case False
    then obtain b1 mem1 bs1 where w: "wrToHeap b mem v (sz - off) = Inr (b1, mem1)"
      and r: "write_blocks v sz rest mem1 = Inr (bs1, mem')" using 2(2) by (auto simp: bind_result_Inr_iff)
    have "agree T mem mem1" using wrToHeap_outside [OF w] 2(3) by auto
    moreover have "agree T mem1 mem'" by (rule 2(1) [OF False w refl r]) (use 2(3) in auto)
    ultimately show ?thesis by (rule agree_trans)
  qed (use 2 in auto)
qed auto
text \<open>The places of a heap: the bytes and the size of a chunk.\<close>

datatype place = Byte nat nat | Size nat

definition heaps_agree :: "(place \<Rightarrow> bool) \<Rightarrow> heap \<Rightarrow> heap \<Rightarrow> bool" where
  "heaps_agree T h h' \<longleftrightarrow> (\<forall>p. agree (\<lambda>i. T (Byte p i)) (ch_content (h p)) (ch_content (h' p)) \<and>
     (T (Size p) \<longrightarrow> ch_size (h p) = ch_size (h' p)) \<and> ch_capacity (h p) = ch_capacity (h' p) \<and>
     ch_writable (h p) = ch_writable (h' p))"

lemma heaps_agreeD:
  assumes "heaps_agree T h h'"
  shows "agree (\<lambda>i. T (Byte p i)) (ch_content (h p)) (ch_content (h' p))" "T (Size p) \<Longrightarrow> ch_size (h p) = ch_size (h' p)"
    "ch_capacity (h p) = ch_capacity (h' p)" "ch_writable (h p) = ch_writable (h' p)"
  using assms by (simp_all add: heaps_agree_def)

lemma heaps_agree_refl [simp]: "heaps_agree T h h"
  by (simp add: heaps_agree_def)

lemma heaps_agree_sym: "heaps_agree T h h' \<Longrightarrow> heaps_agree T h' h"
  by (simp add: heaps_agree_def agree_sym)

lemma heaps_agree_trans: "heaps_agree T h h1 \<Longrightarrow> heaps_agree T h1 h2 \<Longrightarrow> heaps_agree T h h2"
  by (auto simp: heaps_agree_def intro: agree_trans)

lemma heaps_agree_mono: "heaps_agree T h h' \<Longrightarrow> (\<And>l. T' l \<Longrightarrow> T l) \<Longrightarrow> heaps_agree T' h h'"
  by (auto simp: heaps_agree_def agree_def)

lemma heaps_agree_join:
  "heaps_agree T h h' \<Longrightarrow> heaps_agree T' h h' \<Longrightarrow> (\<And>l. T l \<or> T' l) \<Longrightarrow> h = h'"
proof (rule ext)
  fix p assume a: "heaps_agree T h h'" "heaps_agree T' h h'" "\<And>l. T l \<or> T' l"
  note g = heaps_agreeD(1) [OF a(1), of p] heaps_agreeD(1) [OF a(2), of p]
  have "ch_content (h p) ! i = ch_content (h' p) ! i" if "i < length (ch_content (h p))" for i
    using g a(3) [of "Byte p i"] that by (auto simp: agree_def)
  then have "ch_content (h p) = ch_content (h' p)" using g by (intro nth_equalityI) (auto simp: agree_def)
  moreover have "ch_size (h p) = ch_size (h' p)" using heaps_agreeD(2) [OF a(1)] heaps_agreeD(2) [OF a(2)] a(3) by blast
  ultimately show "h p = h' p" using heaps_agreeD(3,4) [OF a(1), of p] by (intro chunk.equality) simp_all
qed

definition resizes :: "ResizingType \<Rightarrow> bool" where
  "resizes r \<longleftrightarrow> r = expandable \<or> r = shrinkable"

text \<open>The places that a chunk's declarations allow to be seen and to be changed.\<close>

fun sees :: "chunk_layout \<Rightarrow> place \<Rightarrow> bool" where
  "sees (p, r, bs) (Byte q i) \<longleftrightarrow> p = q \<and> (\<exists>b \<in> set bs. reads_block (snd (snd b)) \<and> in_block b i)"
| "sees (p, r, bs) (Size q) \<longleftrightarrow> p = q"

fun changes :: "chunk_layout \<Rightarrow> place \<Rightarrow> bool" where
  "changes (p, r, bs) (Byte q i) \<longleftrightarrow> p = q \<and> (resizes r \<or> (\<exists>b \<in> set bs. mayWrite (snd (snd b)) \<and> in_block b i))"
| "changes (p, r, bs) (Size q) \<longleftrightarrow> p = q \<and> resizes r"

lemma may_read: "mayWrite a \<Longrightarrow> reads_block a"
  by (cases a) (auto simp: mayWrite_def reads_block_def)

lemma sees_blocks:
  assumes "chunk_clean ci" "\<And>l. sees (chunk_layout ci) l \<Longrightarrow> T l"
  shows "T (Size (ci_ptr ci))" "\<forall>b \<in> set (osm_values (ci_table ci)). touches (\<lambda>i. T (Byte (ci_ptr ci) i)) b"
proof -
  show "T (Size (ci_ptr ci))" using assms(2) by (simp add: chunk_layout_def)
  show "\<forall>b \<in> set (osm_values (ci_table ci)). touches (\<lambda>i. T (Byte (ci_ptr ci) i)) b"
  proof
    fix b assume b: "b \<in> set (osm_values (ci_table ci))"
    have "T (Byte (ci_ptr ci) i)" if "mayWrite (ab_access b)" "ab_location b \<le> i" "i < ab_location b + ab_size b" for i
      by (rule assms(2)) (use b that may_read in \<open>auto simp: chunk_layout_def in_block_def block_layout_def intro!: bexI [of _ b]\<close>)
    then show "touches (\<lambda>i. T (Byte (ci_ptr ci) i)) b" using assms(1) b by (simp add: touches_def chunk_clean_def)
  qed
qed

lemma entries_value: "(off, b) \<in> set (entries m) \<Longrightarrow> b \<in> set (osm_values m)"
  by (auto simp: entries_def dest: set_zip_rightD)

lemma setSize_agree:
  assumes "agree T (ch_content c) (ch_content c')" "ch_size c = ch_size c'" "ch_capacity c = ch_capacity c'" "ch_writable c = ch_writable c'"
  shows "results (\<lambda>d d'. agree T (ch_content d) (ch_content d') \<and> ch_size d = ch_size d' \<and> ch_capacity d = ch_capacity d' \<and>
     ch_writable d = ch_writable d') (setSize c n) (setSize c' n)"
  unfolding setSize_def assms(2,3)
  by (auto intro!: results_bind_same results_bind [where Q = "agree T"] store_agree assms simp: assms)

lemma write_chunk_agree:
  assumes a: "heaps_agree T h h'" and clean: "chunk_clean ci" and T: "\<And>l. sees (chunk_layout ci) l \<Longrightarrow> T l"
  shows "results (\<lambda>x y. fst y = fst x \<and> heaps_agree T (snd x) (snd y)) (write_chunk v h ci) (write_chunk v h' ci)"
proof -
  let ?R = "\<lambda>x y. fst y = fst x \<and> heaps_agree T (snd x) (snd y)"
  let ?p = "ci_ptr ci"
  have t: "T (Size ?p)" "\<forall>b \<in> set (osm_values (ci_table ci)). touches (\<lambda>i. T (Byte ?p i)) b"
    using sees_blocks [OF clean, of T] T by blast+
  have i: "init_size h ci = init_size h' ci" using heaps_agreeD(2) [OF a t(1)] by (simp add: init_size_def getsize_def)
  have s: "sizeBlock_read h ci v = sizeBlock_read h' ci v" by (simp add: sizeBlock_read_def i)
  have size: "results (heaps_agree T)
      (if ci_resizing ci1 = expandable \<or> ci_resizing ci1 = shrinkable
       then bind_result (setSize (h ?p) (word_of_nat n)) (\<lambda>c. Inr (h(?p := c))) else Inr h)
      (if ci_resizing ci1 = expandable \<or> ci_resizing ci1 = shrinkable
       then bind_result (setSize (h' ?p) (word_of_nat n)) (\<lambda>c. Inr (h'(?p := c))) else Inr h')" for n and ci1 :: chunk_info
  proof -
    have "results (heaps_agree T) (bind_result (setSize (h ?p) (word_of_nat n)) (\<lambda>c. Inr (h(?p := c))))
        (bind_result (setSize (h' ?p) (word_of_nat n)) (\<lambda>c. Inr (h'(?p := c))))"
      by (rule results_bind [OF setSize_agree]) (use a t(1) in \<open>auto simp: heaps_agree_def\<close>)
    then show ?thesis using a by simp
  qed
  have blocks: "results ?R
     (if 0 < n \<and> isWritable (h1 ?p) then
        bind_result (write_blocks v n (entries (ci_table ci)) (ch_content (h1 ?p)))
          (\<lambda>(bs, mem). Inr (f bs, h1(?p := (h1 ?p)\<lparr>ch_content := mem\<rparr>)))
      else Inr (ci1, h1))
     (if 0 < n \<and> isWritable (h1' ?p) then
        bind_result (write_blocks v n (entries (ci_table ci)) (ch_content (h1' ?p)))
          (\<lambda>(bs, mem). Inr (f bs, h1'(?p := (h1' ?p)\<lparr>ch_content := mem\<rparr>)))
      else Inr (ci1, h1'))"
    if h1: "heaps_agree T h1 h1'" for h1 h1' n ci1 and f :: "access_block list \<Rightarrow> chunk_info"
  proof -
    have "\<forall>(off, b) \<in> set (entries (ci_table ci)). touches (\<lambda>i. T (Byte ?p i)) b" using t(2) entries_value by fastforce
    note w = write_blocks_agree [OF heaps_agreeD(1) [OF h1] this]
    have "results ?R
        (bind_result (write_blocks v n (entries (ci_table ci)) (ch_content (h1 ?p)))
          (\<lambda>(bs, mem). Inr (f bs, h1(?p := (h1 ?p)\<lparr>ch_content := mem\<rparr>))))
        (bind_result (write_blocks v n (entries (ci_table ci)) (ch_content (h1' ?p)))
          (\<lambda>(bs, mem). Inr (f bs, h1'(?p := (h1' ?p)\<lparr>ch_content := mem\<rparr>))))"
      by (rule results_bind [OF w]) (use h1 in \<open>auto simp: heaps_agree_def\<close>)
    then show ?thesis using h1 heaps_agreeD(4) [OF h1, of ?p] by (simp add: isWritable_def)
  qed
  have ptr: "ci_ptr ci1 = ?p \<and> ci_table ci1 = ci_table ci" if "sizeBlock_read h' ci v = Inr (n, ci1)" for n ci1
    using that by (auto simp: sizeBlock_read_def bind_result_Inr_iff Let_def)
  show ?thesis unfolding write_chunk_def s
  proof (rule results_bind_same, clarify)
    fix n ci1 assume "sizeBlock_read h' ci v = Inr (n, ci1)"
    note p = ptr [OF this]
    show "results ?R
      (bind_result (if ci_resizing ci1 = expandable \<or> ci_resizing ci1 = shrinkable
         then bind_result (setSize (h (ci_ptr ci1)) (word_of_nat n)) (\<lambda>c. Inr (h(ci_ptr ci1 := c))) else Inr h) (\<lambda>h1.
       if 0 < n \<and> isWritable (h1 (ci_ptr ci1)) then
         bind_result (write_blocks v n (entries (ci_table ci1)) (ch_content (h1 (ci_ptr ci1))))
          (\<lambda>(bs, mem). Inr (ci1\<lparr>ci_table := (ci_table ci1)\<lparr>osm_values := bs\<rparr>\<rparr>, h1(ci_ptr ci1 := (h1 (ci_ptr ci1))\<lparr>ch_content := mem\<rparr>)))
       else Inr (ci1, h1)))
      (bind_result (if ci_resizing ci1 = expandable \<or> ci_resizing ci1 = shrinkable
         then bind_result (setSize (h' (ci_ptr ci1)) (word_of_nat n)) (\<lambda>c. Inr (h'(ci_ptr ci1 := c))) else Inr h') (\<lambda>h1.
       if 0 < n \<and> isWritable (h1 (ci_ptr ci1)) then
         bind_result (write_blocks v n (entries (ci_table ci1)) (ch_content (h1 (ci_ptr ci1))))
          (\<lambda>(bs, mem). Inr (ci1\<lparr>ci_table := (ci_table ci1)\<lparr>osm_values := bs\<rparr>\<rparr>, h1(ci_ptr ci1 := (h1 (ci_ptr ci1))\<lparr>ch_content := mem\<rparr>)))
       else Inr (ci1, h1)))"
      unfolding p [THEN conjunct1] p [THEN conjunct2] by (rule results_bind [OF size]) (rule blocks)
  qed
qed

lemma write_chunk_outside:
  assumes run: "write_chunk v h ci = Inr (ci', h')" and clean: "chunk_clean ci"
    and T: "\<And>l. changes (chunk_layout ci) l \<Longrightarrow> \<not> T l"
  shows "heaps_agree T h h'"
proof -
  let ?p = "ci_ptr ci"
  obtain n ci1 where s: "sizeBlock_read h ci v = Inr (n, ci1)"
    and r1: "bind_result (if ci_resizing ci1 = expandable \<or> ci_resizing ci1 = shrinkable
       then bind_result (setSize (h (ci_ptr ci1)) (word_of_nat n)) (\<lambda>c. Inr (h(ci_ptr ci1 := c))) else Inr h) (\<lambda>h1.
      if n > 0 \<and> isWritable (h1 (ci_ptr ci1)) then
        bind_result (write_blocks v n (entries (ci_table ci1)) (ch_content (h1 (ci_ptr ci1))))
          (\<lambda>(bs, mem). Inr (ci1\<lparr>ci_table := (ci_table ci1)\<lparr>osm_values := bs\<rparr>\<rparr>, h1(ci_ptr ci1 := (h1 (ci_ptr ci1))\<lparr>ch_content := mem\<rparr>)))
      else Inr (ci1, h1)) = Inr (ci', h')"
    using run by (cases "sizeBlock_read h ci v") (auto simp: write_chunk_def)
  then obtain h1 where r: "(if ci_resizing ci1 = expandable \<or> ci_resizing ci1 = shrinkable
       then bind_result (setSize (h (ci_ptr ci1)) (word_of_nat n)) (\<lambda>c. Inr (h(ci_ptr ci1 := c))) else Inr h) = Inr h1"
    and w: "(if n > 0 \<and> isWritable (h1 (ci_ptr ci1)) then
      bind_result (write_blocks v n (entries (ci_table ci1)) (ch_content (h1 (ci_ptr ci1))))
        (\<lambda>(bs, mem). Inr (ci1\<lparr>ci_table := (ci_table ci1)\<lparr>osm_values := bs\<rparr>\<rparr>, h1(ci_ptr ci1 := (h1 (ci_ptr ci1))\<lparr>ch_content := mem\<rparr>)))
      else Inr (ci1, h1)) = Inr (ci', h')"
    by (auto simp only: bind_result_Inr_iff [where r = "if _ then _ else _"])
  have p: "ci_ptr ci1 = ?p" "ci_table ci1 = ci_table ci" "ci_resizing ci1 = ci_resizing ci"
    using s by (auto simp: sizeBlock_read_def bind_result_Inr_iff Let_def)
  have a1: "heaps_agree T h h1"
  proof (cases "resizes (ci_resizing ci)")
    case True
    then obtain c where c: "setSize (h ?p) (word_of_nat n) = Inr c" "h1 = h(?p := c)"
      using r p by (auto simp: resizes_def bind_result_Inr_iff)
    moreover have "length (ch_content c) = length (ch_content (h ?p)) \<and> ch_capacity c = ch_capacity (h ?p) \<and> ch_writable c = ch_writable (h ?p)"
      using c(1) by (auto simp: setSize_def bind_result_Inr_iff store_bytes_def split: if_splits)
    moreover have "\<not> T (Size ?p)" "\<And>i. \<not> T (Byte ?p i)" using T True by (auto simp: chunk_layout_def)
    ultimately show ?thesis by (simp add: heaps_agree_def agree_def)
  next
    case False
    then show ?thesis using r p by (auto simp: resizes_def)
  qed
  have blocks: "\<forall>(off, b) \<in> set (entries (ci_table ci)). (mayWrite (ab_access b) \<or> ab_versions b = []) \<and>
      (mayWrite (ab_access b) \<longrightarrow> (\<forall>i. ab_location b \<le> i \<and> i < ab_location b + ab_size b \<longrightarrow> \<not> T (Byte ?p i)))"
  proof clarify
    fix off b assume "(off, b) \<in> set (entries (ci_table ci))"
    then have b: "b \<in> set (osm_values (ci_table ci))" by (rule entries_value)
    have "changes (chunk_layout ci) (Byte ?p i)" if "mayWrite (ab_access b)" "ab_location b \<le> i" "i < ab_location b + ab_size b" for i
      using b that by (auto simp: chunk_layout_def block_layout_def in_block_def)
    then show "(mayWrite (ab_access b) \<or> ab_versions b = []) \<and>
      (mayWrite (ab_access b) \<longrightarrow> (\<forall>i. ab_location b \<le> i \<and> i < ab_location b + ab_size b \<longrightarrow> \<not> T (Byte ?p i)))"
      using clean b T by (auto simp: chunk_clean_def)
  qed
  have "heaps_agree T h1 h'"
  proof (cases "n > 0 \<and> isWritable (h1 ?p)")
    case True
    then obtain bs mem where "write_blocks v n (entries (ci_table ci)) (ch_content (h1 ?p)) = Inr (bs, mem)"
      "h' = h1(?p := (h1 ?p)\<lparr>ch_content := mem\<rparr>)" using w p by (auto simp: bind_result_Inr_iff)
    then show ?thesis using write_blocks_outside [OF _ blocks] by (auto simp: heaps_agree_def)
  next
    case False
    then have "h' = h1" using w p by (auto split: if_splits)
    then show ?thesis by simp
  qed
  with a1 show ?thesis by (rule heaps_agree_trans)
qed
abbreviation same_heaps :: "(place \<Rightarrow> bool) \<Rightarrow> 'a \<times> heap \<Rightarrow> 'a \<times> heap \<Rightarrow> bool" where
  "same_heaps T x y \<equiv> fst y = fst x \<and> heaps_agree T (snd x) (snd y)"

lemma write_chunks_agree:
  assumes "heaps_agree T h h'" "\<forall>ci \<in> set cis. chunk_clean ci \<and> (\<forall>l. sees (chunk_layout ci) l \<longrightarrow> T l)"
  shows "results (same_heaps T) (write_chunks v h cis) (write_chunks v h' cis)"
  using assms
proof (induction cis arbitrary: h h')
  case (Cons ci cis)
  have c: "results (same_heaps T) (write_chunk v h ci) (write_chunk v h' ci)"
    using Cons.prems by (intro write_chunk_agree) auto
  have "results (same_heaps T) (bind_result (write_chunks v h1 cis) (\<lambda>(cis', h''). Inr (x # cis', h'')))
      (bind_result (write_chunks v h1' cis) (\<lambda>(cis', h''). Inr (x # cis', h'')))" if "heaps_agree T h1 h1'" for h1 h1' x
    using Cons.IH [OF that] Cons.prems by (auto intro: results_bind)
  then show ?case by (auto intro!: results_bind [OF c])
qed simp

lemma write_apps_agree:
  assumes "heaps_agree T h h'"
    "\<forall>cm \<in> set cms. \<forall>ci \<in> set (osm_values cm). chunk_clean ci \<and> (\<forall>l. sees (chunk_layout ci) l \<longrightarrow> T l)"
  shows "results (same_heaps T) (write_apps v h cms) (write_apps v h' cms)"
  using assms
proof (induction cms arbitrary: h h')
  case (Cons cm cms)
  have c: "results (same_heaps T) (write_chunks v h (osm_values cm)) (write_chunks v h' (osm_values cm))"
    using Cons.prems by (intro write_chunks_agree) auto
  have "results (same_heaps T) (bind_result (write_apps v h1 cms) (\<lambda>(cms', h''). Inr (cm\<lparr>osm_values := x\<rparr> # cms', h'')))
      (bind_result (write_apps v h1' cms) (\<lambda>(cms', h''). Inr (cm\<lparr>osm_values := x\<rparr> # cms', h'')))"
    if "heaps_agree T h1 h1'" for h1 h1' x
    using Cons.IH [OF that] Cons.prems by (auto intro: results_bind)
  then show ?case by (auto intro!: results_bind [OF c])
qed simp

lemma write_chunks_outside:
  assumes "write_chunks v h cis = Inr (cis', h')"
    "\<forall>ci \<in> set cis. chunk_clean ci \<and> (\<forall>l. changes (chunk_layout ci) l \<longrightarrow> \<not> T l)"
  shows "heaps_agree T h h'"
  using assms
proof (induction cis arbitrary: h cis')
  case (Cons ci cis)
  from Cons.prems(1) obtain x h1 y where "write_chunk v h ci = Inr (x, h1)" "write_chunks v h1 cis = Inr (y, h')"
    by (auto simp: bind_result_Inr_iff)
  then have "heaps_agree T h h1" "heaps_agree T h1 h'" using Cons.IH Cons.prems(2) write_chunk_outside by auto
  then show ?case by (rule heaps_agree_trans)
qed simp

lemma write_apps_outside:
  assumes "write_apps v h cms = Inr (cms', h')"
    "\<forall>cm \<in> set cms. \<forall>ci \<in> set (osm_values cm). chunk_clean ci \<and> (\<forall>l. changes (chunk_layout ci) l \<longrightarrow> \<not> T l)"
  shows "heaps_agree T h h'"
  using assms
proof (induction cms arbitrary: h cms')
  case (Cons cm cms)
  from Cons.prems(1) obtain x h1 y where "write_chunks v h (osm_values cm) = Inr (x, h1)" "write_apps v h1 cms = Inr (y, h')"
    by (auto simp: bind_result_Inr_iff)
  then have "heaps_agree T h h1" "heaps_agree T h1 h'" using Cons.IH Cons.prems(2) write_chunks_outside by auto
  then show ?case by (rule heaps_agree_trans)
qed simp

text \<open>What a modifier sees and changes.\<close>

definition sees_place :: "chunk_layout list list \<Rightarrow> place \<Rightarrow> bool" where
  "sees_place ls l \<longleftrightarrow> (\<exists>c \<in> set (concat ls). sees c l)"

definition changes_place :: "chunk_layout list list \<Rightarrow> place \<Rightarrow> bool" where
  "changes_place ls l \<longleftrightarrow> (\<exists>c \<in> set (concat ls). changes c l)"

lemma writeToHeap_agree:
  assumes "heaps_agree T h h'" "modifier_of ls md" "\<And>l. sees_place ls l \<Longrightarrow> T l"
  shows "results (same_heaps T) (writeToHeap md h) (writeToHeap md h')"
proof -
  have "\<forall>cm \<in> set (osm_values (md_apps md)). \<forall>ci \<in> set (osm_values cm). chunk_clean ci \<and> (\<forall>l. sees (chunk_layout ci) l \<longrightarrow> T l)"
    using assms(2,3) by (fastforce simp: modifier_of_def blocks_clean_def sees_place_def layout_def chunk_map_layout_def)
  then have "results (same_heaps T) (write_apps (md_version md) h (osm_values (md_apps md)))
      (write_apps (md_version md) h' (osm_values (md_apps md)))"
    by (rule write_apps_agree [OF assms(1)])
  then have "results (same_heaps T)
      (bind_result (write_apps (md_version md) h (osm_values (md_apps md))) (\<lambda>(cms, h'). Inr (md\<lparr>md_apps := (md_apps md)\<lparr>osm_values := cms\<rparr>\<rparr>, h')))
      (bind_result (write_apps (md_version md) h' (osm_values (md_apps md))) (\<lambda>(cms, h'). Inr (md\<lparr>md_apps := (md_apps md)\<lparr>osm_values := cms\<rparr>\<rparr>, h')))"
    by (rule results_bind) auto
  then show ?thesis using assms(1) by (simp add: writeToHeap_def)
qed

lemma writeToHeap_outside:
  assumes "writeToHeap md h = Inr (md', h')" "modifier_of ls md" "\<And>l. changes_place ls l \<Longrightarrow> \<not> T l"
  shows "heaps_agree T h h'"
proof -
  have c: "\<forall>cm \<in> set (osm_values (md_apps md)). \<forall>ci \<in> set (osm_values cm). chunk_clean ci \<and> (\<forall>l. changes (chunk_layout ci) l \<longrightarrow> \<not> T l)"
    using assms(2,3) by (fastforce simp: modifier_of_def blocks_clean_def changes_place_def layout_def chunk_map_layout_def)
  show ?thesis using assms(1) write_apps_outside [OF _ c]
    by (auto simp: writeToHeap_def bind_result_Inr_iff split: if_splits)
qed

lemma agree_heap_same:
  assumes "heaps_agree T h h'" "\<And>l. sees_place ls l \<Longrightarrow> T l"
  shows "heap_same ls h h'"
  unfolding heap_same_def
proof
  fix c assume c: "c \<in> set (concat ls)"
  obtain p r bs where pr: "c = (p, r, bs)" by (cases c)
  have T: "T l" if "sees (p, r, bs) l" for l using assms(2) c that unfolding sees_place_def pr by blast
  have "same_range loc n (ch_content (h p)) (ch_content (h' p))" if b: "(loc, n, a) \<in> set bs" "reads_block a" for loc n a
  proof -
    have "T (Byte p i)" if "loc \<le> i" "i < loc + n" for i
      by (rule T) (use b that in \<open>auto simp: in_block_def intro!: bexI [of _ "(loc, n, a)"]\<close>)
    then show ?thesis using heaps_agreeD(1) [OF assms(1), of p] by (auto intro: agree_range)
  qed
  moreover have "ch_size (h p) = ch_size (h' p)" using heaps_agreeD(2) [OF assms(1)] T by simp
  moreover have "length (ch_content (h p)) = length (ch_content (h' p))"
    using heaps_agreeD(1) [OF assms(1), of p] by (simp add: agree_def)
  ultimately show "case c of (p, _, bs) \<Rightarrow>
     ch_size (h p) = ch_size (h' p) \<and> length (ch_content (h p)) = length (ch_content (h' p)) \<and>
     (\<forall>(loc, n, a) \<in> set bs. reads_block a \<longrightarrow> same_range loc n (ch_content (h p)) (ch_content (h' p)))"
    unfolding pr by auto
qed

section \<open>Requests that do not depend on each other\<close>

text \<open>What one request may change the other does not see, and the other way round.\<close>

definition changes_apart :: "chunk_layout list list \<Rightarrow> chunk_layout list list \<Rightarrow> bool" where
  "changes_apart ls ls' \<longleftrightarrow> (\<forall>(p, r, bs) \<in> set (concat ls). \<forall>(q, r', bs') \<in> set (concat ls').
     p = q \<longrightarrow> \<not> resizes r \<and> (\<forall>(loc, n, a) \<in> set bs. \<forall>(loc', n', a') \<in> set bs'.
       mayWrite a \<and> reads_block a' \<longrightarrow> loc + n \<le> loc' \<or> loc' + n' \<le> loc))"

definition independent :: "app_request \<Rightarrow> app_request \<Rightarrow> bool" where
  "independent r1 r2 \<longleftrightarrow>
    changes_apart (layout (ar_modifier r1)) (layout (ar_modifier r2)) \<and>
    changes_apart (layout (ar_modifier r2)) (layout (ar_modifier r1))"

lemma changes_sees: "changes c l \<Longrightarrow> sees c l \<or> (\<exists>p i r bs. l = Byte p i \<and> c = (p, r, bs) \<and> resizes r)"
proof (cases c; cases l)
  fix p r bs q i assume ch: "changes c l" and c: "c = (p, r, bs)" and l: "l = Byte q i"
  then show ?thesis using may_read by (cases "resizes r") (simp, simp, blast)
qed simp

lemma changes_apart_chunks:
  assumes "changes_apart ls ls'" "c \<in> set (concat ls)" "c' \<in> set (concat ls')" "changes c l"
  shows "\<not> sees c' l" "fst c = fst c' \<Longrightarrow> \<not> resizes (fst (snd c))"
proof -
  obtain p r bs where c: "c = (p, r, bs)" by (cases c)
  obtain q r' bs' where c': "c' = (q, r', bs')" by (cases c')
  have a: "\<not> resizes r \<and> (\<forall>(loc, n, a) \<in> set bs. \<forall>(loc', n', a') \<in> set bs'.
       mayWrite a \<and> reads_block a' \<longrightarrow> loc + n \<le> loc' \<or> loc' + n' \<le> loc)" if "p = q"
  proof -
    have "case c of (p, r, bs) \<Rightarrow> \<forall>(q, r', bs') \<in> set (concat ls'). p = q \<longrightarrow> \<not> resizes r \<and>
        (\<forall>(loc, n, a) \<in> set bs. \<forall>(loc', n', a') \<in> set bs'. mayWrite a \<and> reads_block a' \<longrightarrow> loc + n \<le> loc' \<or> loc' + n' \<le> loc)"
      using assms(1,2) unfolding changes_apart_def by (rule bspec)
    then have "case c' of (q, r', bs') \<Rightarrow> p = q \<longrightarrow> \<not> resizes r \<and>
        (\<forall>(loc, n, a) \<in> set bs. \<forall>(loc', n', a') \<in> set bs'. mayWrite a \<and> reads_block a' \<longrightarrow> loc + n \<le> loc' \<or> loc' + n' \<le> loc)"
      unfolding c split_conv using assms(3) by (rule bspec)
    then show "\<not> resizes r \<and> (\<forall>(loc, n, a) \<in> set bs. \<forall>(loc', n', a') \<in> set bs'.
       mayWrite a \<and> reads_block a' \<longrightarrow> loc + n \<le> loc' \<or> loc' + n' \<le> loc)" using that by (simp add: c')
  qed
  show "fst c = fst c' \<Longrightarrow> \<not> resizes (fst (snd c))" using a by (simp add: c c')
  show "\<not> sees c' l"
  proof (cases l)
    case (Byte x i)
    show ?thesis
    proof
      assume s: "sees c' l"
      then have pq: "p = q" using assms(4) Byte by (simp add: c c')
      obtain b where b: "b \<in> set bs" "mayWrite (snd (snd b))" "in_block b i"
        using assms(4) a [OF pq] Byte by (auto simp: c)
      obtain b' where b': "b' \<in> set bs'" "reads_block (snd (snd b'))" "in_block b' i" using s Byte by (auto simp: c')
      obtain loc n a' loc' n' a'' where "b = (loc, n, a')" "b' = (loc', n', a'')" by (cases b; cases b')
      then show False using a [OF pq] b b' by (fastforce simp: in_block_def)
    qed
  next
    case (Size x)
    then show ?thesis using assms(4) a by (auto simp: c c')
  qed
qed

lemma changes_apart_places:
  assumes "changes_apart ls ls'" "changes_place ls l" shows "\<not> sees_place ls' l"
  using assms(2) changes_apart_chunks(1) [OF assms(1)] by (auto simp only: changes_place_def sees_place_def)

lemma changes_apart_changes:
  assumes "changes_apart ls ls'" "changes_apart ls' ls" "changes_place ls l" shows "\<not> changes_place ls' l"
proof
  assume "changes_place ls' l"
  then obtain c' where c': "c' \<in> set (concat ls')" "changes c' l" by (auto simp only: changes_place_def)
  obtain c where c: "c \<in> set (concat ls)" "changes c l" using assms(3) by (auto simp only: changes_place_def)
  have "fst c = fst c'" using c(2) c'(2) by (cases c; cases c'; cases l) simp_all
  then have "\<not> resizes (fst (snd c'))" using changes_apart_chunks(2) [OF assms(2) c'(1) c(1) c'(2)] by simp
  then have "sees c' l" using changes_sees [OF c'(2)] by (metis fst_conv snd_conv)
  then show False using changes_apart_chunks(1) [OF assms(1) c(1) c'(1) c(2)] by simp
qed

text \<open>A request run on a heap that looks the same to it ends in the same way and changes the same places.\<close>

lemma executeOne_agree:
  assumes run: "executeOne n (env\<lparr>en_heap := h\<rparr>) req = (out, md, h1)"
    and clean: "blocks_clean (ar_modifier req)" and a: "heaps_agree T h h'"
    and T: "\<And>l. sees_place (layout (ar_modifier req)) l \<Longrightarrow> T l"
  shows "\<exists>h1'. executeOne n (env\<lparr>en_heap := h'\<rparr>) req = (out, md, h1') \<and> heaps_agree T h1 h1'"
proof -
  let ?env = "env\<lparr>en_heap := h\<rparr>" and ?s0 = "start_session req"
  let ?ls = "layout (ar_modifier req)"
  have hs: "heap_same ?ls (en_heap ?env) h'" using agree_heap_same [OF a T] by simp
  have ex: "execute_request n (env\<lparr>en_heap := h'\<rparr>) req ?s0 = execute_request n ?env req ?s0"
    using execute_request_same [OF hs clean, of n] by simp
  obtain r s where r: "execute_request n ?env req ?s0 = (r, s)" by (cases "execute_request n ?env req ?s0")
  show ?thesis
  proof (cases r)
    case (Returned x)
    have m: "modifier_of ?ls (ss_modifier s)" by (rule execute_request_layout [OF r _ clean]) (simp add: Returned)
    have w: "results (same_heaps T) (writeToHeap (ss_modifier s) h) (writeToHeap (ss_modifier s) h')"
      using T by (intro writeToHeap_agree [OF a m]) auto
    show ?thesis
    proof (cases "writeToHeap (ss_modifier s) h")
      case (Inl e)
      then show ?thesis using w run a r ex Returned by (auto simp: executeOne_def Let_def split: exn.splits)
    next
      case (Inr y)
      then show ?thesis using w run a r ex Returned by (cases y) (auto simp: executeOne_def Let_def)
    qed
  qed (use run a r ex in \<open>auto simp: executeOne_def Let_def\<close>)
qed

lemma executeOne_outside:
  assumes run: "executeOne n (env\<lparr>en_heap := h\<rparr>) req = (out, md, h1)" and clean: "blocks_clean (ar_modifier req)"
    and T: "\<And>l. changes_place (layout (ar_modifier req)) l \<Longrightarrow> \<not> T l"
  shows "heaps_agree T h h1"
proof -
  let ?env = "env\<lparr>en_heap := h\<rparr>" and ?s0 = "start_session req"
  obtain r s where r: "execute_request n ?env req ?s0 = (r, s)" by (cases "execute_request n ?env req ?s0")
  show ?thesis
  proof (cases r)
    case (Returned x)
    have m: "modifier_of (layout (ar_modifier req)) (ss_modifier s)"
      by (rule execute_request_layout [OF r _ clean]) (simp add: Returned)
    show ?thesis
    proof (cases "writeToHeap (ss_modifier s) h")
      case (Inl e)
      then show ?thesis using run r Returned by (auto simp: executeOne_def Let_def split: exn.splits)
    next
      case (Inr y)
      then have "h1 = snd y" using run r Returned by (cases y) (simp add: executeOne_def Let_def)
      then show ?thesis using writeToHeap_outside [of "ss_modifier s" h "fst y" h1, OF _ m, of T] T Inr by simp
    qed
  qed (use run r in \<open>auto simp: executeOne_def Let_def\<close>)
qed

lemma independent_commute:
  assumes ind: "independent r1 r2" and clean: "blocks_clean (ar_modifier r1)" "blocks_clean (ar_modifier r2)"
    and run1: "executeOne n (env1\<lparr>en_heap := h\<rparr>) r1 = (o1, md1, h1)"
    and run2: "executeOne n (env2\<lparr>en_heap := h1\<rparr>) r2 = (o2, md2, h2)"
  shows "\<exists>h1'. executeOne n (env2\<lparr>en_heap := h\<rparr>) r2 = (o2, md2, h1') \<and>
    executeOne n (env1\<lparr>en_heap := h1'\<rparr>) r1 = (o1, md1, h2)"
proof -
  let ?S = "\<lambda>r. sees_place (layout (ar_modifier r))" and ?C = "\<lambda>r. changes_place (layout (ar_modifier r))"
  have apart: "?C r1 l \<Longrightarrow> \<not> ?S r2 l" "?C r2 l \<Longrightarrow> \<not> ?S r1 l" "?C r1 l \<Longrightarrow> \<not> ?C r2 l" for l
    using ind changes_apart_places changes_apart_changes by (auto simp: independent_def)
  have a1: "heaps_agree (\<lambda>l. \<not> ?C r1 l) h h1" by (rule executeOne_outside [OF run1 clean(1)]) simp
  obtain h1' where r2: "executeOne n (env2\<lparr>en_heap := h\<rparr>) r2 = (o2, md2, h1')"
    and a2: "heaps_agree (\<lambda>l. \<not> ?C r1 l) h2 h1'"
    using executeOne_agree [OF run2 clean(2) heaps_agree_sym [OF a1]] apart(1) by blast
  have b1: "heaps_agree (\<lambda>l. \<not> ?C r2 l) h h1'" by (rule executeOne_outside [OF r2 clean(2)]) simp
  obtain h2' where r1: "executeOne n (env1\<lparr>en_heap := h1'\<rparr>) r1 = (o1, md1, h2')"
    and b2: "heaps_agree (\<lambda>l. \<not> ?C r2 l) h1 h2'"
    using executeOne_agree [OF run1 clean(1) b1] apart(2) by blast
  have "heaps_agree (\<lambda>l. \<not> ?C r2 l) h1 h2" by (rule executeOne_outside [OF run2 clean(2)]) simp
  then have x: "heaps_agree (\<lambda>l. \<not> ?C r2 l) h2 h2'" using b2 heaps_agree_sym heaps_agree_trans by blast
  have "heaps_agree (\<lambda>l. \<not> ?C r1 l) h1' h2'" by (rule executeOne_outside [OF r1 clean(1)]) simp
  then have y: "heaps_agree (\<lambda>l. \<not> ?C r1 l) h2 h2'" using a2 heaps_agree_trans by blast
  have "h2 = h2'" by (rule heaps_agree_join [OF x y]) (use apart(3) in blast)
  then show ?thesis using r1 r2 by blast
qed
end
