(* ===== verification/Serializability.thy ===== *)
theory Serializability
  imports Processor Isolation
begin

text \<open>
  The requests of a block can be run in any order the execution graph allows.  The first section shows that a
  serial run can be reordered wherever two requests are \<^term>\<open>independent\<close>; the next ones that the modifier built from a
  request's access map holds nothing the map does not declare, and that a graph accepted by the scheduler connects any
  two requests whose declared blocks collide.  Together: what a block's execution returns and leaves in the pages does not
  depend on the order in which the workers take the requests.
\<close>

section \<open>Runs in different orders\<close>

text \<open>The requests of the scheduler and which of them may be run in any order.\<close>

definition apart_at :: "dag_request scheduler \<Rightarrow> nat \<Rightarrow> nat \<Rightarrow> bool" where
  "apart_at s i j \<longleftrightarrow>
    (case (requestAt s i, requestAt s j) of (Inr r, Inr r') \<Rightarrow> independent (fst r) (fst r') | _ \<Rightarrow> True)"

definition clean_at :: "dag_request scheduler \<Rightarrow> nat \<Rightarrow> bool" where
  "clean_at s i \<longleftrightarrow> (case requestAt s i of Inr r \<Rightarrow> blocks_clean (ar_modifier (fst r)) | Inl _ \<Rightarrow> True)"

lemma independent_sym: "independent r r' = independent r' r"
  by (auto simp: independent_def)

lemma apart_sym: "apart_at s i j = apart_at s j i"
  by (auto simp: apart_at_def independent_sym split: sum.splits)

text \<open>One more request of a serial run.\<close>

lemma serial_Cons:
  "serial_execute n what s (i # is) h = (Returned rs, h') \<longleftrightarrow>
    (\<exists>req r md h1 rs'. requestAt s i = Inr req \<and> execute_dag_request n what h req = (Returned r, md, h1) \<and>
       serial_execute n what s is h1 = (Returned rs', h') \<and> rs = r # rs')"
  by (auto split: sum.splits outcome.splits prod.splits)

declare serial_execute.simps(2) [simp del]

lemma execute_dag_commute:
  assumes "independent (fst r1) (fst r2)" "blocks_clean (ar_modifier (fst r1))" "blocks_clean (ar_modifier (fst r2))"
    and "execute_dag_request n what h r1 = (o1, md1, h1)" "execute_dag_request n what h1 r2 = (o2, md2, h2)"
  shows "\<exists>h1'. execute_dag_request n what h r2 = (o2, md2, h1') \<and> execute_dag_request n what h1' r1 = (o1, md1, h2)"
proof -
  let ?env = "\<lambda>r. \<lparr>en_heap = h, en_callTable = snd r, en_what = what\<rparr> :: environment"
  have e: "execute_dag_request n what h r = executeOne n (?env r\<lparr>en_heap := h\<rparr>) (fst r)" for h r
    by (simp add: execute_dag_request_def)
  show ?thesis using independent_commute [OF assms(1-3), where n = n and ?env1.0 = "?env r1" and h = h and ?o1.0 = o1 and ?md1.0 = md1 and ?h1.0 = h1 and ?env2.0 = "?env r2" and ?o2.0 = o2 and ?md2.0 = md2 and ?h2.0 = h2] assms(4,5)
    unfolding e by simp
qed

lemma serial_swap:
  assumes "apart_at s i j" "clean_at s i" "clean_at s j"
    and "serial_execute n what s (i # j # is) h = (Returned (a # b # rs), h')"
  shows "serial_execute n what s (j # i # is) h = (Returned (b # a # rs), h')"
proof -
  from assms(4) obtain r1 md1 h1 r2 md2 h2 where r1: "requestAt s i = Inr r1" "execute_dag_request n what h r1 = (Returned a, md1, h1)"
    and r2: "requestAt s j = Inr r2" "execute_dag_request n what h1 r2 = (Returned b, md2, h2)"
    and rest: "serial_execute n what s is h2 = (Returned rs, h')"
    by (auto simp: serial_Cons)
  have "independent (fst r1) (fst r2)" "blocks_clean (ar_modifier (fst r1))" "blocks_clean (ar_modifier (fst r2))"
    using assms(1-3) r1(1) r2(1) by (simp_all add: apart_at_def clean_at_def)
  from execute_dag_commute [OF this r1(2) r2(2)] show ?thesis
    using r1(1) r2(1) rest by (auto simp: serial_Cons)
qed

text \<open>A request moves to a later place behind requests it is apart from.\<close>

lemma serial_delay:
  assumes "\<forall>u \<in> set us. apart_at s x u \<and> clean_at s u" "clean_at s x"
    and "serial_execute n what s (x # us @ vs) h = (Returned (map f (x # us @ vs)), h')"
  shows "serial_execute n what s (us @ x # vs) h = (Returned (map f (us @ x # vs)), h')"
  using assms(1,3)
proof (induction us arbitrary: h)
  case (Cons u us)
  have "serial_execute n what s (u # x # us @ vs) h = (Returned (map f (u # x # us @ vs)), h')"
    using serial_swap [of s x u n what "us @ vs" h "f x" "f u" "map f (us @ vs)" h'] Cons.prems assms(2) by simp
  then obtain req md h1 where h1: "requestAt s u = Inr req" "execute_dag_request n what h req = (Returned (f u), md, h1)"
    and rest: "serial_execute n what s (x # us @ vs) h1 = (Returned (map f (x # us @ vs)), h')"
    by (subst (asm) serial_Cons) auto
  have "serial_execute n what s (us @ x # vs) h1 = (Returned (map f (us @ x # vs)), h')"
    using Cons.IH [OF _ rest] Cons.prems(1) by simp
  then show ?case using h1 by (auto simp: serial_Cons)
qed simp

text \<open>\<open>before js i j\<close>: \<open>i\<close> stands in front of \<open>j\<close>.\<close>

fun before :: "'a list \<Rightarrow> 'a \<Rightarrow> 'a \<Rightarrow> bool" where
  "before [] i j = False"
| "before (x # xs) i j = (if x = i then j \<in> set xs else before xs i j)"

lemma before_set: "before xs i j \<Longrightarrow> i \<in> set xs \<and> j \<in> set xs"
  by (induction xs) (auto split: if_splits)

lemma before_append: "x \<notin> set us \<Longrightarrow> before (us @ x # vs) x j \<longleftrightarrow> j \<in> set vs"
  by (induction us) auto

lemma before_remove: "before (us @ x # vs) i j \<Longrightarrow> i \<noteq> x \<Longrightarrow> j \<noteq> x \<Longrightarrow> before (us @ vs) i j"
  by (induction us) (auto split: if_splits)

lemma serial_reorder:
  assumes "serial_execute n what s is h = (Returned (map f is), h')"
    and "distinct is" "distinct js" "set js = set is" "\<forall>i \<in> set is. clean_at s i"
    and "\<forall>i j. before is i j \<longrightarrow> \<not> apart_at s i j \<longrightarrow> before js i j"
  shows "serial_execute n what s js h = (Returned (map f js), h')"
  using assms
proof (induction "is" arbitrary: js h)
  case (Cons x "is")
  obtain us vs where js: "js = us @ x # vs" using Cons.prems(4) split_list by fastforce
  have d: "x \<notin> set us" "x \<notin> set vs" "distinct (us @ vs)" "set (us @ vs) = set is"
    using Cons.prems(2,3,4) by (auto simp: js)
  from Cons.prems(1) obtain req md h1 where h1: "requestAt s x = Inr req" "execute_dag_request n what h req = (Returned (f x), md, h1)"
    and rest: "serial_execute n what s is h1 = (Returned (map f is), h')"
    by (auto simp: serial_Cons)
  have "serial_execute n what s (us @ vs) h1 = (Returned (map f (us @ vs)), h')"
  proof (rule Cons.IH [OF rest _ d(3,4)])
    show "\<forall>i j. before is i j \<longrightarrow> \<not> apart_at s i j \<longrightarrow> before (us @ vs) i j"
    proof (intro allI impI)
      fix i j assume b: "before is i j" "\<not> apart_at s i j"
      then have "i \<noteq> x" "j \<noteq> x" using Cons.prems(2) before_set by fastforce+
      then have "before js i j" using Cons.prems(6) b by simp
      then show "before (us @ vs) i j" using before_remove \<open>i \<noteq> x\<close> \<open>j \<noteq> x\<close> unfolding js by metis
    qed
  qed (use Cons.prems in auto)
  then have front: "serial_execute n what s (x # us @ vs) h = (Returned (map f (x # us @ vs)), h')"
    using h1 by (auto simp: serial_Cons)
  have "apart_at s x u" if u: "u \<in> set us" for u
  proof (rule ccontr)
    assume na: "\<not> apart_at s x u"
    have "before (x # is) x u" using u d(4) by auto
    then have "before js x u" using Cons.prems(6) na by blast
    then have "u \<in> set vs" using before_append [OF d(1)] by (simp add: js)
    then show False using u d(3) by auto
  qed
  moreover have "clean_at s x \<and> (\<forall>u \<in> set us. clean_at s u)" using Cons.prems(4,5) js by auto
  ultimately show ?case unfolding js using front by (intro serial_delay) auto
qed simp

lemma before_upt: "before [0..<n] i j \<longleftrightarrow> i < j \<and> j < n"
proof (induction n)
  case (Suc n)
  have "before (xs @ [x]) i j \<longleftrightarrow> before xs i j \<or> (i \<in> set xs \<and> j = x)" if "x \<notin> set xs" for xs and x :: nat
    using that by (induction xs) (auto split: if_splits dest: before_set)
  then show ?case using Suc by auto
qed simp

lemma serial_length: "serial_execute n what s is h = (Returned rs, h') \<Longrightarrow> length rs = length is"
  by (induction "is" arbitrary: h rs) (auto simp: serial_Cons)

section \<open>Marker blocks\<close>

text \<open>Entries in front that the cluster-product algorithm skips do not change what it does with the others.\<close>

lemma scan_blocks_front:
  assumes "length xs = length ys"
  shows "scan_blocks dag c (xs @ offsets) (ys @ blocks) (length ys + i) e (length ys + j) =
    bind_result (scan_blocks dag c offsets blocks i e j) (\<lambda>r. Inr (map_option ((+) (length ys)) r))"
proof (induction dag c offsets blocks i e j rule: scan_blocks.induct)
  case (1 dag c offsets blocks i e j)
  note IH = 1 and s = scan_blocks.simps [of dag c]
  have n: "(ys @ blocks) ! (length ys + m) = blocks ! m" "(xs @ offsets) ! (length ys + m) = offsets ! m" for m
    using assms by (simp_all add: nth_append)
  show ?case
    by (subst (1 2) scan_blocks.simps)
      (use 1 in \<open>auto simp: n bind_result_assoc intro!: bind_result_cong split: if_splits\<close>)
qed

lemma shift_insert_front: "shift_insert (length ys + i) (length ys + k) x (ys @ xs) = ys @ shift_insert i k x xs"
  by (simp add: shift_insert_def)


lemma scan_blocks_ge: "scan_blocks dag c offsets blocks i e j = Inr (Some m) \<Longrightarrow> j \<le> m"
proof (induction dag c offsets blocks i e j rule: scan_blocks.induct)
  case (1 dag c offsets blocks i e j)
  from "1.prems" show ?case
    by (subst (asm) scan_blocks.simps) (use "1.IH" in \<open>fastforce simp: bind_result_Inr_iff split: if_splits\<close>)
qed

lemma split_block_front:
  assumes "length xs = length ys" "length zs = length ys" "1 \<le> j"
  shows "split_block e (length ys + i) (length ys + j) (length ys + k) (xs @ offsets, ys @ blocks, zs @ clusters) =
    (case split_block e i j k (offsets, blocks, clusters) of (o', b', c') \<Rightarrow> (xs @ o', ys @ b', zs @ c'))"
proof -
  have j: "length ys + j - 1 = length ys + (j - 1)" using assms(3) by simp
  have o: "shift_insert (length ys + i) (length ys + k) e (xs @ offsets) = xs @ shift_insert i k e offsets"
    using shift_insert_front [of xs i k e offsets] assms(1) by simp
  have c: "shift_insert (length ys + i) (length ys + k) v (zs @ clusters) = zs @ shift_insert i k v clusters" for v
    using shift_insert_front [of zs i k v clusters] assms(2) by simp
  have n: "(xs @ vs) ! (length ys + m) = vs ! m" for vs m using assms(1) by (simp add: nth_append)
  show ?thesis unfolding split_block_def Let_def split_conv j o c shift_insert_front n
    by (simp add: nth_append list_update_append)
qed

lemma clique_step_front:
  assumes "length xs = length ys" "length zs = length ys"
  shows "clique_step dag (length ys + i) (xs @ offsets, ys @ blocks, zs @ clusters) =
    bind_result (clique_step dag i (offsets, blocks, clusters)) (\<lambda>(i', o', b', c'). Inr (length ys + i', xs @ o', ys @ b', zs @ c'))"
proof -
  have n: "(ys @ blocks) ! (length ys + m) = blocks ! m" "(xs @ offsets) ! (length ys + m) = offsets ! m"
    "(zs @ cs) ! (length ys + m) = cs ! m" "(zs @ cs)[length ys + m := v] = zs @ cs[m := v]" for m v and cs :: "cluster list"
    using assms by (simp_all add: nth_append list_update_append)
  have d: "drop (Suc (length ys + i)) (xs @ offsets) = drop (Suc i) offsets" using assms by simp
  have sc: "scan_blocks dag c (xs @ offsets) (ys @ blocks) (length ys + i) e (Suc (length ys + i)) =
      bind_result (scan_blocks dag c offsets blocks i e (Suc i)) (\<lambda>r. Inr (map_option ((+) (length ys)) r))" for c e
    using scan_blocks_front [OF assms(1), of dag c offsets blocks i e "Suc i"] by simp
  show ?thesis
  proof (cases "offsets ! i = - 3 \<or> abi_access (blocks ! i) = check_only")
    case True
    then show ?thesis by (auto simp: clique_step_def n Let_def)
  next
    case False
    let ?b = "blocks ! i" let ?c = "cluster_insert (clusters ! i) (abi_request ?b) (abi_access ?b)"
    let ?e = "block_end (offsets ! i) ?b"
    show ?thesis
    proof (cases "scan_blocks dag ?c offsets blocks i ?e (Suc i)")
      case (Inl x)
      then show ?thesis using False by (simp add: clique_step_def n Let_def sc)
    next
      case (Inr r)
      show ?thesis
      proof (cases r)
        case None
        then show ?thesis using False Inr by (simp add: clique_step_def n Let_def sc bind_result_assoc)
      next
        case (Some j)
        then have j: "1 \<le> j" using scan_blocks_ge [of dag ?c offsets blocks i ?e "Suc i" j] Inr by simp
        have m: "Suc (length ys + i + m) = length ys + Suc (i + m)" for m by simp
        have sp: "split_block ?e (length ys + i) (length ys + j) (Suc (length ys + i + m)) (xs @ offsets, ys @ blocks, zs @ cs) =
            (case split_block ?e i j (Suc (i + m)) (offsets, blocks, cs) of (o', b', c') \<Rightarrow> (xs @ o', ys @ b', zs @ c'))" for m cs
          unfolding m by (rule split_block_front [OF assms j])
        have k: "(xs @ offsets) ! (Suc (length ys + i + m)) = offsets ! (Suc (i + m))"
          "Suc (length ys + i + m) < length xs + length offsets \<longleftrightarrow> Suc (i + m) < length offsets" for m
          unfolding m by (rule n) (use assms in simp)
        show ?thesis using False Inr Some
          unfolding clique_step_def Let_def split_conv n sc d
          by (simp add: n sp k split: prod.split del: append_assoc)
      qed
    qed
  qed
qed

lemma clique_loop_front:
  assumes "clique_loop dag i st = Some r" "length xs = length ys" "length zs = length ys"
  shows "clique_loop dag (length ys + i) (xs @ fst st, ys @ fst (snd st), zs @ snd (snd st)) = Some r"
  using assms(1)
proof (rule clique_loop.raw_induct [where P = "\<lambda>dag i st r.
    clique_loop dag (length ys + i) (xs @ fst st, ys @ fst (snd st), zs @ snd (snd st)) = Some r", rotated], goal_cases step)
  case (step f dag i st r)
  obtain offsets blocks clusters where st: "st = (offsets, blocks, clusters)" by (cases st)
  show ?case
  proof (cases "i < length offsets")
    case False
    then show ?thesis using step(2) assms(2) by (subst clique_loop.simps) (simp add: st)
  next
    case True
    note s = clique_step_front [OF assms(2,3), of dag i offsets blocks clusters]
    show ?thesis
    proof (cases "clique_step dag i st")
      case (Inl e)
      then show ?thesis using step(2) True assms(2) s by (subst clique_loop.simps) (simp add: st)
    next
      case (Inr y)
      obtain i' st' where y: "y = (i', st')" by (cases y)
      have "f dag i' st' = Some r" using step(2) True Inr y by (simp add: st)
      from step(1) [OF this] show ?thesis using True assms(2) s Inr y
        by (subst clique_loop.simps) (cases st', simp add: st)
    qed
  qed
qed

lemma clique_loop_markers:
  assumes "\<forall>x \<in> set xs. x = - 3" "length xs = length ys" "length zs = length ys" "k \<le> length ys"
  shows "clique_loop dag k (xs @ offsets, ys @ blocks, zs @ clusters) =
    clique_loop dag (length ys) (xs @ offsets, ys @ blocks, zs @ clusters)"
  using assms(4)
proof (induction "length ys - k" arbitrary: k)
  case (Suc m)
  have "k < length xs" using Suc assms(2) by simp
  then have "(xs @ offsets) ! k = - 3" using assms(1) nth_mem [of k xs] by (simp add: nth_append)
  then have "clique_step dag k (xs @ offsets, ys @ blocks, zs @ clusters) = Inr (Suc k, xs @ offsets, ys @ blocks, zs @ clusters)"
    by (simp add: clique_step_def Let_def)
  moreover have "k < length (xs @ offsets)" using Suc assms(2) by simp
  ultimately have "clique_loop dag k (xs @ offsets, ys @ blocks, zs @ clusters) =
      clique_loop dag (Suc k) (xs @ offsets, ys @ blocks, zs @ clusters)"
    by (subst clique_loop.simps) simp
  then show ?case using Suc by simp
qed simp

lemma cliques_markers:
  assumes "findCollisionCliques dag offsets blocks = Some r" "\<forall>x \<in> set xs. x = - 3" "length xs = length ys"
  shows "findCollisionCliques dag (xs @ offsets) (ys @ blocks) = Some r"
proof -
  let ?zs = "replicate (length ys) VerifierCluster" and ?cs = "replicate (length offsets) VerifierCluster"
  have "clique_loop dag (length ys + 0) (xs @ offsets, ys @ blocks, ?zs @ ?cs) = Some r"
    using clique_loop_front [of dag 0 "(offsets, blocks, ?cs)" r xs ys ?zs] assms by (simp add: findCollisionCliques_def)
  then show ?thesis using clique_loop_markers [OF assms(2,3), of ?zs 0 dag offsets blocks ?cs] assms(3)
    by (simp add: findCollisionCliques_def replicate_add)
qed

section \<open>The modifier built from an access map\<close>

text \<open>What a request declares for the chunk of a layout, and that the layout says the same.\<close>

definition block_declared :: "(int \<times> AccessBlockInfo) list \<Rightarrow> block_layout \<Rightarrow> bool" where
  "block_declared es = (\<lambda>(loc, n, a). \<exists>(off, b) \<in> set es. 0 \<le> off \<and> loc = unat (word_of_int off :: uint32) \<and>
     n = unat (word_of_int (abi_size b) :: uint32) \<and> a = abi_access b)"

definition chunk_declared :: "chunk_index \<Rightarrow> AccessMapType \<Rightarrow> chunk_layout \<Rightarrow> bool" where
  "chunk_declared ix m = (\<lambda>(p, r, bs). \<exists>app k blocks. osm_lookup m app \<noteq> None \<and>
     (\<forall>cm. osm_lookup m app = Some cm \<longrightarrow> osm_lookup cm k = Some blocks) \<and>
     getChunk ix (FullID app k) = Inr p \<and> (resizes r \<longrightarrow> hd (osm_keys blocks) = - 1 \<and> osm_keys blocks \<noteq> []) \<and>
     (\<forall>b \<in> set bs. block_declared (entries blocks) b))"

lemma block_declared_Cons: "block_declared es b \<Longrightarrow> block_declared (e # es) b"
  by (auto simp: block_declared_def)

lemma toAccessBlocks_declared:
  assumes "toAccessBlocks_loop c es = Inr blocks" "b \<in> snd ` set blocks"
  shows "ab_versions b = [] \<and> block_declared es (block_layout b)"
  using assms
proof (induction es arbitrary: blocks)
  case (Cons e es)
  obtain off info where e: "e = (off, info)" by (cases e)
  show ?case
  proof (cases "off \<ge> 0")
    case True
    with Cons.prems(1) e obtain p b0 blocks' where r: "getContentPointer c (word_of_int off) (word_of_int (abi_size info)) = Inr p"
      "AccessBlock p (unat (word_of_int (abi_size info) :: uint32)) (abi_access info) = Inr b0"
      "toAccessBlocks_loop c es = Inr blocks'" "blocks = (unat (word_of_int off :: uint32), b0) # blocks'"
      by (auto simp: bind_result_Inr_iff split: if_splits)
    have "p = unat (word_of_int off :: uint32)" using r(1) by (auto simp: getContentPointer_def split: if_splits)
    then have "ab_versions b0 = [] \<and> block_declared (e # es) (block_layout b0)"
      using r(2) True e by (auto simp: AccessBlock_def bind_result_Inr_iff block_declared_def block_layout_def)
    then show ?thesis using Cons.IH [OF r(3)] Cons.prems(2) r(4) by (auto intro: block_declared_Cons)
  next
    case False
    then have "toAccessBlocks_loop c es = Inr blocks" using Cons.prems(1) e by (auto split: if_splits)
    then show ?thesis using Cons.IH Cons.prems(2) by (auto intro: block_declared_Cons)
  qed
qed simp

lemma build_chunk_info_declared:
  assumes "build_chunk_info ix h app k blocks = Inr ci"
  shows "getChunk ix (FullID app k) = Inr (ci_ptr ci) \<and> chunk_clean ci \<and>
    (resizes (ci_resizing ci) \<longrightarrow> hd (osm_keys blocks) = - 1 \<and> osm_keys blocks \<noteq> []) \<and>
    (\<forall>b \<in> set (osm_values (ci_table ci)). block_declared (entries blocks) (block_layout b))"
proof -
  obtain ptr where g: "getChunk ix (FullID app k) = Inr ptr"
    using assms by (cases "getChunk ix (FullID app k)") (auto simp: build_chunk_info_def)
  obtain off offs where k1: "osm_keys blocks = off # offs" using assms g by (cases "osm_keys blocks") (auto simp: build_chunk_info_def)
  obtain b bs where k2: "osm_values blocks = b # bs" using assms g k1 by (cases "osm_values blocks") (auto simp: build_chunk_info_def)
  note k = k1 k2
  obtain rt sz where d: "declared_resizing off (abi_size b) = Inr (rt, sz)"
    and c: "ChunkInfo h ptr rt (to_uint32 sz) (osm_keys blocks) (osm_values blocks) = Inr ci"
    using assms g k by (auto simp: build_chunk_info_def bind_result_Inr_iff)
  from c obtain table sb where t: "toAccessBlocks (h ptr) (osm_keys blocks) (osm_values blocks) = Inr table"
    and ci: "ci_table ci = table" "ci_ptr ci = ptr" "ci_resizing ci = rt"
    by (auto simp: ChunkInfo_def bind_result_Inr_iff)
  obtain es where es: "toAccessBlocks_loop (h ptr) (entries blocks) = Inr es" "osm_values table = map snd es"
    using t by (auto simp: toAccessBlocks_def bind_result_Inr_iff OrderedStaticMap_Inr entries_def)
  have "resizes rt \<longrightarrow> off = - 1" using d by (auto simp: declared_resizing_def resizes_def split: if_splits)
  then show ?thesis using g k ci es(2) toAccessBlocks_declared [OF es(1)]
    by (auto simp: chunk_clean_def)
qed

lemma build_chunk_infos_declared:
  "build_chunk_infos ix h app ks = Inr cis \<Longrightarrow> ci \<in> set cis \<Longrightarrow>
    \<exists>k blocks. (k, blocks) \<in> set ks \<and> build_chunk_info ix h app k blocks = Inr ci"
proof (induction ks arbitrary: cis)
  case (Cons e ks)
  obtain k blocks where e: "e = (k, blocks)" by (cases e)
  obtain c cis' where "build_chunk_info ix h app k blocks = Inr c" "build_chunk_infos ix h app ks = Inr cis'" "cis = c # cis'"
    using Cons.prems(1) e by (auto simp: bind_result_Inr_iff)
  then show ?case using Cons e by auto
qed simp

lemma build_chunk_maps_declared:
  "build_chunk_maps ix h as = Inr ms \<Longrightarrow> cm \<in> set ms \<Longrightarrow>
    \<exists>app chunks. (app, chunks) \<in> set as \<and> build_chunk_infos ix h app (entries chunks) = Inr (osm_values cm)"
proof (induction as arbitrary: ms)
  case (Cons e as)
  obtain app chunks where e: "e = (app, chunks)" by (cases e)
  obtain cis ms' where "build_chunk_infos ix h app (entries chunks) = Inr cis"
    "build_chunk_maps ix h as = Inr ms'" "ms = \<lparr>osm_keys = osm_keys chunks, osm_values = cis\<rparr> # ms'"
    using Cons.prems(1) e by (auto simp: bind_result_Inr_iff OrderedStaticMap_Inr entries_def)
  note r = this
  show ?case
  proof (cases "cm \<in> set ms'")
    case True
    then show ?thesis using Cons.IH [OF r(2)] by auto
  next
    case False
    then have "osm_values cm = cis" using Cons.prems(2) r(3) by simp
    then show ?thesis using r(1) e by auto
  qed
qed simp

lemma entries_lookup: "wf_keys m \<Longrightarrow> (k, v) \<in> set (entries m) \<longleftrightarrow> osm_lookup m k = Some v"
  by (simp add: osm_lookup_def wf_keys_distinct)

lemma buildModifier_declared:
  assumes "buildModifier ix h m = Inr md" "wf_access_map m"
  shows "blocks_clean md" "\<forall>c \<in> set (concat (layout md)). chunk_declared ix m c"
proof -
  from assms(1) obtain ms where ms: "build_chunk_maps ix h (entries m) = Inr ms"
    and md: "osm_values (md_apps md) = ms"
    by (auto simp: buildModifier_def bind_result_Inr_iff RestrictedModifier_def OrderedStaticMap_Inr entries_def)
  have ci: "chunk_clean ci \<and> chunk_declared ix m (chunk_layout ci)" if ci: "cm \<in> set ms" "ci \<in> set (osm_values cm)" for cm ci
  proof -
    obtain app chunks where a: "(app, chunks) \<in> set (entries m)" "build_chunk_infos ix h app (entries chunks) = Inr (osm_values cm)"
      using build_chunk_maps_declared [OF ms] ci(1) by blast
    obtain k blocks where b: "(k, blocks) \<in> set (entries chunks)" "build_chunk_info ix h app k blocks = Inr ci"
      using build_chunk_infos_declared [OF a(2)] ci(2) by blast
    have wf: "wf_keys m" "wf_keys chunks"
      using assms(2) a(1) by (auto simp: wf_access_map_def wf_chunks_def entries_def dest!: set_zip_rightD)
    note d = build_chunk_info_declared [OF b(2)]
    have "osm_lookup m app = Some chunks" "osm_lookup chunks k = Some blocks"
      using entries_lookup [OF wf(1)] entries_lookup [OF wf(2)] a(1) b(1) by simp_all
    then show ?thesis using d unfolding chunk_declared_def chunk_layout_def by (auto intro!: exI [of _ app] exI [of _ k])
  qed
  show "blocks_clean md" using ci md by (auto simp: blocks_clean_def)
  show "\<forall>c \<in> set (concat (layout md)). chunk_declared ix m c"
    using ci md by (auto simp: layout_def chunk_map_layout_def)
qed

section \<open>Accepted graphs connect what collides\<close>

lemma merged_blocks:
  fixes maps :: "AccessMapType list"
  assumes "\<forall>m \<in> set maps. wf_access_map m" "workers \<noteq> 0" "merge_access_maps maps workers = Inr r"
  shows "wf_access_map r \<and> set (chunk_blocks r a c) = (\<Union>m \<in> set maps. set (chunk_blocks m a c))"
proof -
  have m: "wf_access_map r \<and> mset (chunk_blocks r a c) = sum_list (map (\<lambda>m. mset (chunk_blocks m a c)) maps)"
    using am.all [OF assms(1), of workers a c] assms(2,3) by (simp add: merge_access_maps_def)
  have "set_mset (sum_list (map f ms)) = (\<Union>m \<in> set ms. set_mset (f m))" for f :: "AccessMapType \<Rightarrow> (int \<times> AccessBlockInfo) multiset" and ms
    by (induction ms) auto
  from this [of "\<lambda>m. mset (chunk_blocks m a c)" maps]
  have "set_mset (sum_list (map (\<lambda>m. mset (chunk_blocks m a c)) maps)) = (\<Union>m \<in> set maps. set (chunk_blocks m a c))"
    by (simp only: set_mset_mset)
  moreover have "set (chunk_blocks r a c) = set_mset (mset (chunk_blocks r a c))" by (rule set_mset_mset [symmetric])
  ultimately show ?thesis using m by (simp only: simp_thms)
qed

lemma checked_chunk:
  assumes ok: "checkDependencyGraph s ix w = Some (Inr ())" and m: "sortAccessBlocks s w = Inr r"
    and all: "\<forall>chunkList \<in> set (osm_values r). all_run (osm_size chunkList) w"
    and wf: "wf_access_map r" and look: "osm_lookup r app = Some chunks" "osm_lookup chunks k = Some blocks"
  shows "findCollisionCliques (scheduler_dag s) (osm_keys blocks) (osm_values blocks) = Some (Inr ())"
proof -
  have e: "(app, chunks) \<in> set (zip (osm_keys r) (osm_values r))" "(k, blocks) \<in> set (entries chunks)"
    using look by (auto simp: osm_lookup_def entries_def dest: map_of_SomeD)
  then obtain j where j: "j < osm_size chunks" "osm_values chunks ! j = blocks"
    by (auto simp: entries_def osm_size_def in_set_zip)
  have "all_run (osm_size chunks) w" using all e(1) by (auto dest: set_zip_rightD)
  then have "j \<in> set (runAll_tasks (osm_size chunks) w)" using j(1) by (simp add: all_run_def)
  then have "check_chunk (scheduler_dag s) ix app chunks j = Some (Inr ())"
    using ok m e(1) check_apps_ok [of "scheduler_dag s" ix w] by (auto simp: checkDependencyGraph_def)
  then show ?thesis by (auto simp: check_chunk_def Let_def j(2) checkCollisions_def split: sum.splits)
qed

text \<open>The declarations of request \<open>i\<close>: blocks of its own, none of them for the size of a chunk (the offset -3 stands for the
  declaration that a chunk is used).\<close>

definition declares :: "nat \<Rightarrow> AccessMapType \<Rightarrow> bool" where
  "declares i m \<longleftrightarrow> wf_access_map m \<and>
    (\<forall>cm \<in> set (osm_values m). \<forall>blocks \<in> set (osm_values cm). \<forall>(off, b) \<in> set (entries blocks).
       abi_request b = int i \<and> (off = - 3 \<or> 0 \<le> off \<and> off < 2 ^ 31 \<and> 0 < abi_size b \<and> abi_size b < 2 ^ 31))"

text \<open>The declarations of all requests for one chunk: blocks of equal or disjoint ranges, of which no two requests use
  the same one for addition.\<close>

definition byte_blocks :: "(int \<times> AccessBlockInfo) list \<Rightarrow> (int \<times> AccessBlockInfo) list" where
  "byte_blocks es = filter (\<lambda>e. fst e \<noteq> - 3) es"

definition regular :: "(int \<times> AccessBlockInfo) list \<Rightarrow> bool" where
  "regular es \<longleftrightarrow> aligned (map fst (byte_blocks es)) (map snd (byte_blocks es)) \<and>
    (\<forall>e \<in> set es. \<forall>e' \<in> set es. fst e = fst e' \<and> isAdditive (abi_access (snd e)) \<and> isAdditive (abi_access (snd e')) \<longrightarrow>
       abi_request (snd e) = abi_request (snd e'))"

lemma marker_split:
  "sorted (map fst es) \<Longrightarrow> \<forall>e \<in> set es. fst e = - 3 \<or> 0 \<le> (fst e :: int) \<Longrightarrow>
    es = filter (\<lambda>e. fst e = - 3) es @ byte_blocks es"
proof (induction es)
  case (Cons e es)
  show ?case
  proof (cases "fst e = - 3")
    case True
    then show ?thesis using Cons by (simp add: byte_blocks_def)
  next
    case False
    then have "\<forall>x \<in> set es. fst x \<noteq> - 3" using Cons.prems by fastforce
    then show ?thesis using False by (simp add: byte_blocks_def filter_empty_conv)
  qed
qed (simp add: byte_blocks_def)

lemma collision_connected:
  assumes es: "sorted (map fst es)" "\<forall>e \<in> set es. fst e = - 3 \<or> 0 \<le> (fst e :: int)" "regular es"
    and ok: "findCollisionCliques dag (map fst es) (map snd es) = Some (Inr ())"
    and e: "(o1, b1) \<in> set es" "(o2, b2) \<in> set es" "0 \<le> o1" "0 \<le> o2"
    and over: "o1 < o2 + abi_size b2" "o2 < o1 + abi_size b1"
    and col: "collides (abi_access b1) (abi_access b2)" "abi_request b1 \<noteq> abi_request b2"
  shows "dag_path dag (abi_request b1) (abi_request b2) \<or> dag_path dag (abi_request b2) (abi_request b1)"
proof -
  let ?fs = "byte_blocks es" let ?ms = "filter (\<lambda>e. fst e = - 3) es"
  let ?os = "map fst ?fs" let ?bs = "map snd ?fs"
  have al: "aligned ?os ?bs" using es(3) by (simp add: regular_def)
  obtain r where r: "findCollisionCliques dag ?os ?bs = Some r"
    and conn: "r = Inr () \<Longrightarrow> \<forall>q < length ?bs. \<forall>p < q. ?os ! p = ?os ! q \<and>
      collides (abi_access (?bs ! p)) (abi_access (?bs ! q)) \<and>
      \<not> (isAdditive (abi_access (?bs ! p)) \<and> isAdditive (abi_access (?bs ! q))) \<and>
      abi_request (?bs ! p) \<noteq> abi_request (?bs ! q) \<longrightarrow>
      dag_path dag (abi_request (?bs ! p)) (abi_request (?bs ! q)) \<or>
      dag_path dag (abi_request (?bs ! q)) (abi_request (?bs ! p))"
    using aligned_cliques [OF al, of dag] by blast
  have "findCollisionCliques dag (map fst ?ms @ ?os) (map snd ?ms @ ?bs) = Some r"
    by (rule cliques_markers [OF r]) auto
  moreover have "map fst ?ms @ ?os = map fst es"
    using arg_cong [OF marker_split [OF es(1,2)], of "map fst"] unfolding map_append by (rule sym)
  moreover have "map snd ?ms @ ?bs = map snd es"
    using arg_cong [OF marker_split [OF es(1,2)], of "map snd"] unfolding map_append by (rule sym)
  ultimately have "r = Inr ()" using ok by (simp only: option.inject)
  note conn = conn [OF this]
  have mem: "(o1, b1) \<in> set ?fs" "(o2, b2) \<in> set ?fs" using e by (auto simp: byte_blocks_def)
  then obtain p q where p: "p < length ?fs" "?fs ! p = (o1, b1)" and q: "q < length ?fs" "?fs ! q = (o2, b2)"
    by (auto simp: in_set_conv_nth)
  have "p \<noteq> q" using p q col(2) by auto
  have same: "o1 = o2"
  proof -
    have "?os ! x = ?os ! y \<and> abi_size (?bs ! x) = abi_size (?bs ! y) \<or> ?os ! x + abi_size (?bs ! x) \<le> ?os ! y"
      if "x < y" "y < length ?bs" for x y using al that unfolding aligned_def by blast
    from this [of p q] this [of q p] show ?thesis using p q over \<open>p \<noteq> q\<close> by (cases "p < q") auto
  qed
  have add: "\<not> (isAdditive (abi_access b1) \<and> isAdditive (abi_access b2))"
    using es(3) e(1,2) same col(2) by (fastforce simp: regular_def)
  have col': "collides (abi_access b2) (abi_access b1)" using col(1) by (cases "abi_access b1"; cases "abi_access b2") auto
  show ?thesis
  proof (cases "p < q")
    case True
    then show ?thesis using conn [rule_format, of q p] p q same add col by auto
  next
    case False
    then have "q < p" using \<open>p \<noteq> q\<close> by simp
    then show ?thesis using conn [rule_format, of p q] p q same add col(2) col' by auto
  qed
qed

text \<open>A block of requests whose modifiers have been built from their access maps by the index of the block.\<close>

definition built :: "chunk_index \<Rightarrow> heap \<Rightarrow> dag_request scheduler \<Rightarrow> nat \<Rightarrow> bool" where
  "built ix h s i \<longleftrightarrow> i < length (sc_accessMaps s) \<and> declares i (sc_accessMaps s ! i) \<and>
    (\<exists>req. requestAt s i = Inr req \<and> buildModifier ix h (sc_accessMaps s ! i) = Inr (ar_modifier (fst req)))"

lemma lookup_member: "osm_lookup m k = Some v \<Longrightarrow> v \<in> set (osm_values m)"
  by (auto simp: osm_lookup_def entries_def dest!: map_of_SomeD set_zip_rightD)

lemma declares_blocks:
  assumes "declares i m" "osm_lookup m app = Some cm" "osm_lookup cm k = Some blocks"
  shows "length (osm_keys blocks) = length (osm_values blocks)"
    "e \<in> set (entries blocks) \<Longrightarrow> abi_request (snd e) = int i \<and>
      (fst e = - 3 \<or> 0 \<le> fst e \<and> fst e < 2 ^ 31 \<and> 0 < abi_size (snd e) \<and> abi_size (snd e) < 2 ^ 31)"
proof -
  have v: "cm \<in> set (osm_values m)" "blocks \<in> set (osm_values cm)" by (rule lookup_member [OF assms(2)], rule lookup_member [OF assms(3)])
  have "wf_access_map m" using assms(1) by (simp add: declares_def)
  then have "wf_chunks cm" using v(1) by (simp add: wf_access_map_def)
  then show "length (osm_keys blocks) = length (osm_values blocks)" using v(2) by (simp add: wf_chunks_def wf_blocks_def)
  assume "e \<in> set (entries blocks)"
  moreover have "\<forall>(off, b) \<in> set (entries blocks).
       abi_request b = int i \<and> (off = - 3 \<or> 0 \<le> off \<and> off < 2 ^ 31 \<and> 0 < abi_size b \<and> abi_size b < 2 ^ 31)"
    using assms(1) v unfolding declares_def by simp
  ultimately show "abi_request (snd e) = int i \<and>
      (fst e = - 3 \<or> 0 \<le> fst e \<and> fst e < 2 ^ 31 \<and> 0 < abi_size (snd e) \<and> abi_size (snd e) < 2 ^ 31)"
    unfolding split_beta by (rule bspec [rotated])
qed

lemma chunk_blocks_lookup:
  assumes "e \<in> set (chunk_blocks m app k)"
  shows "\<exists>cm blocks. osm_lookup m app = Some cm \<and> osm_lookup cm k = Some blocks \<and> chunk_blocks m app k = entries blocks"
  using assms by (cases "osm_lookup m app"; cases "osm_lookup (the (osm_lookup m app)) k") (auto simp: chunk_blocks_def blocks_of_def)

lemma chunk_declared_blocks:
  assumes "chunk_declared ix m (p, r, bs)" "declares i m"
  shows "\<not> resizes r" "\<exists>app k. ix_chunks ix (FullID app k) = Some p \<and> (\<forall>b \<in> set bs. block_declared (chunk_blocks m app k) b)"
proof -
  from assms(1) obtain app k blocks where c: "osm_lookup m app \<noteq> None"
     "\<forall>cm. osm_lookup m app = Some cm \<longrightarrow> osm_lookup cm k = Some blocks"
     "getChunk ix (FullID app k) = Inr p" "resizes r \<longrightarrow> hd (osm_keys blocks) = - 1 \<and> osm_keys blocks \<noteq> []"
     "\<forall>b \<in> set bs. block_declared (entries blocks) b"
    unfolding chunk_declared_def by blast
  then obtain cm where cm: "osm_lookup m app = Some cm" "osm_lookup cm k = Some blocks" by auto
  then have e: "chunk_blocks m app k = entries blocks" by (simp add: chunk_blocks_def blocks_of_def)
  have "ix_chunks ix (FullID app k) = Some p" using c(3) by (simp add: getChunk_def split: option.splits)
  then show "\<exists>app k. ix_chunks ix (FullID app k) = Some p \<and> (\<forall>b \<in> set bs. block_declared (chunk_blocks m app k) b)"
    using c(5) by (intro exI [of _ app] exI [of _ k]) (simp add: e)
  show "\<not> resizes r"
  proof
    assume "resizes r"
    then obtain ks where ks: "osm_keys blocks = - 1 # ks" using c(4) by (cases "osm_keys blocks") auto
    then obtain b vs where "osm_values blocks = b # vs"
      using declares_blocks(1) [OF assms(2) cm] by (cases "osm_values blocks") auto
    then have "(- 1, b) \<in> set (entries blocks)" using ks by (simp add: entries_def)
    from declares_blocks(2) [OF assms(2) cm this] show False by simp
  qed
qed

lemma declared_offset:
  assumes "declares i m" "block_declared (chunk_blocks m app k) (loc, n, a)"
  obtains b where "(int loc, b) \<in> set (chunk_blocks m app k)" "abi_size b = int n" "abi_access b = a" "abi_request b = int i"
proof -
  from assms(2) obtain off b where b: "(off, b) \<in> set (chunk_blocks m app k)" "0 \<le> off"
    "loc = unat (word_of_int off :: uint32)" "n = unat (word_of_int (abi_size b) :: uint32)" "a = abi_access b"
    unfolding block_declared_def by auto
  from chunk_blocks_lookup [OF b(1)] obtain cm blocks where
    l: "osm_lookup m app = Some cm" "osm_lookup cm k = Some blocks" "chunk_blocks m app k = entries blocks" by blast
  from b(1) l(3) have "(off, b) \<in> set (entries blocks)" by simp
  from declares_blocks(2) [OF assms(1) l(1,2) this] b(2)
  have d: "abi_request b = int i" "off < 2 ^ 31" "0 < abi_size b" "abi_size b < 2 ^ 31" by auto
  have "int (unat (word_of_int x :: uint32)) = x" if "0 \<le> x" "x < 2 ^ 31" for x
    using that by (simp add: uint_word_of_int)
  then show ?thesis using b d that by (metis less_le)
qed
text \<open>Two requests of an accepted block that are not apart are connected by a path of its graph.\<close>

lemma meeting_blocks:
  assumes "\<not> changes_apart ls ls'" "\<forall>c \<in> set (concat ls). chunk_declared ix m c" "\<forall>c \<in> set (concat ls'). chunk_declared ix m' c"
    and d: "declares i m" "declares j m'" and inj: "inj_on (ix_chunks ix) (dom (ix_chunks ix))"
  obtains app k o1 b1 o2 b2 where
    "(o1, b1) \<in> set (chunk_blocks m app k)" "(o2, b2) \<in> set (chunk_blocks m' app k)" "0 \<le> o1" "0 \<le> o2"
    "o1 < o2 + abi_size b2" "o2 < o1 + abi_size b1" "collides (abi_access b1) (abi_access b2)"
    "abi_request b1 = int i" "abi_request b2 = int j"
proof -
  from assms(1) obtain p r bs r' bs' where c: "(p, r, bs) \<in> set (concat ls)" "(p, r', bs') \<in> set (concat ls')"
    and no: "\<not> (\<not> resizes r \<and> (\<forall>(loc, n, a) \<in> set bs. \<forall>(loc', n', a') \<in> set bs'.
       mayWrite a \<and> reads_block a' \<longrightarrow> loc + n \<le> loc' \<or> loc' + n' \<le> loc))"
    unfolding changes_apart_def by blast
  have cd: "chunk_declared ix m (p, r, bs)" "chunk_declared ix m' (p, r', bs')" using assms(2,3) c by blast+
  obtain app k where a: "ix_chunks ix (FullID app k) = Some p" "\<forall>b \<in> set bs. block_declared (chunk_blocks m app k) b"
    using chunk_declared_blocks(2) [OF cd(1) d(1)] by blast
  obtain app' k' where a': "ix_chunks ix (FullID app' k') = Some p" "\<forall>b \<in> set bs'. block_declared (chunk_blocks m' app' k') b"
    using chunk_declared_blocks(2) [OF cd(2) d(2)] by blast
  have "FullID app k = FullID app' k'" by (rule inj_onD [OF inj]) (use a(1) a'(1) in auto)
  then have eq: "app' = app" "k' = k" by simp_all
  from no chunk_declared_blocks(1) [OF cd(1) d(1)] obtain loc n t loc' n' t' where
    b: "(loc, n, t) \<in> set bs" "(loc', n', t') \<in> set bs'" "mayWrite t" "reads_block t'" "\<not> (loc + n \<le> loc' \<or> loc' + n' \<le> loc)"
    by blast
  have "block_declared (chunk_blocks m app k) (loc, n, t)" using a(2) b(1) by blast
  then obtain b1 where b1: "(int loc, b1) \<in> set (chunk_blocks m app k)" "abi_size b1 = int n" "abi_access b1 = t" "abi_request b1 = int i"
    by (rule declared_offset [OF d(1)])
  have "block_declared (chunk_blocks m' app k) (loc', n', t')" using a'(2) b(2) eq by blast
  then obtain b2 where b2: "(int loc', b2) \<in> set (chunk_blocks m' app k)" "abi_size b2 = int n'" "abi_access b2 = t'" "abi_request b2 = int j"
    by (rule declared_offset [OF d(2)])
  have "collides t t'" using b(3,4) by (cases t; cases t') (auto simp: mayWrite_def reads_block_def)
  then show ?thesis using b1 b2 b(5) by (intro that [of "int loc" b1 app k "int loc'" b2]) auto
qed

lemma accepted_connects:
  assumes built: "\<forall>i < n. built ix h s i" and len: "length (sc_accessMaps s) = n" and ij: "i < n" "j < n" "i \<noteq> j"
    and inj: "inj_on (ix_chunks ix) (dom (ix_chunks ix))" and w: "w \<noteq> 0"
    and ok: "checkDependencyGraph s ix w = Some (Inr ())" and r: "sortAccessBlocks s w = Inr r"
    and all: "\<forall>chunkList \<in> set (osm_values r). all_run (osm_size chunkList) w"
    and reg: "\<forall>app k. regular (chunk_blocks r app k)"
    and no: "\<not> apart_at s i j"
  shows "dag_path (scheduler_dag s) (int i) (int j) \<or> dag_path (scheduler_dag s) (int j) (int i)"
proof -
  let ?m = "\<lambda>i. sc_accessMaps s ! i"
  have d: "declares l (?m l)" if "l < n" for l using built that by (simp add: built_def)
  have wfm: "\<forall>m \<in> set (sc_accessMaps s). wf_access_map m"
    proof
    fix m assume "m \<in> set (sc_accessMaps s)"
    then obtain l where "l < n" "m = ?m l" using len by (auto simp: in_set_conv_nth)
    then show "wf_access_map m" using d [of l] by (simp add: declares_def)
  qed
  note mb = merged_blocks [OF wfm w r [unfolded sortAccessBlocks_def]]
  have meets: "dag_path (scheduler_dag s) (int i) (int j) \<or> dag_path (scheduler_dag s) (int j) (int i)"
    if lt: "i < n" "j < n" "i \<noteq> j" and q: "requestAt s i = Inr q" "requestAt s j = Inr q'"
      and na: "\<not> changes_apart (layout (ar_modifier (fst q))) (layout (ar_modifier (fst q')))" for i j q q'
  proof -
    have bm: "buildModifier ix h (?m i) = Inr (ar_modifier (fst q))" "buildModifier ix h (?m j) = Inr (ar_modifier (fst q'))"
      using built [rule_format, OF lt(1)] built [rule_format, OF lt(2)] q by (simp_all add: built_def)
    have wf: "wf_access_map (?m i)" "wf_access_map (?m j)" using d lt by (auto simp: declares_def)
    obtain app k o1 b1 o2 b2 where
      e: "(o1, b1) \<in> set (chunk_blocks (?m i) app k)" "(o2, b2) \<in> set (chunk_blocks (?m j) app k)" "0 \<le> o1" "0 \<le> o2"
        "o1 < o2 + abi_size b2" "o2 < o1 + abi_size b1" "collides (abi_access b1) (abi_access b2)"
        "abi_request b1 = int i" "abi_request b2 = int j"
      by (rule meeting_blocks [OF na buildModifier_declared(2) [OF bm(1) wf(1)] buildModifier_declared(2) [OF bm(2) wf(2)]
            d [OF lt(1)] d [OF lt(2)] inj])
    let ?es = "chunk_blocks r app k"
    have mem: "e \<in> set ?es \<longleftrightarrow> (\<exists>l < n. e \<in> set (chunk_blocks (?m l) app k))" for e
      using conjunct2 [OF mb [of app k]] len unfolding set_conv_nth [of "sc_accessMaps s"] by blast
    have in1: "(o1, b1) \<in> set ?es" "(o2, b2) \<in> set ?es"
      unfolding mem by (rule exI [of _ i], simp add: e(1) lt(1)) (rule exI [of _ j], simp add: e(2) lt(2))
    from chunk_blocks_lookup [OF in1(1)] obtain chunks blocks where
      l: "osm_lookup r app = Some chunks" "osm_lookup chunks k = Some blocks" "?es = entries blocks" by blast
    have wfr: "wf_access_map r" using mb by blast
    have "wf_chunks chunks" using wfr lookup_member [OF l(1)] by (simp add: wf_access_map_def)
    then have wfb: "wf_blocks blocks" using lookup_member [OF l(2)] by (simp add: wf_chunks_def)
    then have keys: "map fst ?es = osm_keys blocks" "map snd ?es = osm_values blocks"
      unfolding l(3) wf_blocks_def entries_def by simp_all
    have sorted: "sorted (map fst ?es)"
    proof -
      have "sorted_wrt entry_le ?es" using wfb by (simp add: l(3) wf_blocks_def)
      then have "sorted_wrt (\<lambda>x y. fst x \<le> fst y) ?es" by (rule sorted_wrt_mono_rel [rotated]) (auto simp: entry_le_def)
      then show ?thesis by (simp add: sorted_map)
    qed
    have offs: "\<forall>e \<in> set ?es. fst e = - 3 \<or> 0 \<le> fst e"
    proof
      fix e assume "e \<in> set ?es"
      then obtain l where lm: "l < n" "e \<in> set (chunk_blocks (?m l) app k)" using mem by blast
      from chunk_blocks_lookup [OF lm(2)] obtain cm bl where
        c: "osm_lookup (?m l) app = Some cm" "osm_lookup cm k = Some bl" "chunk_blocks (?m l) app k = entries bl" by blast
      have "e \<in> set (entries bl)" using lm(2) c(3) by simp
      from declares_blocks(2) [OF d [OF lm(1)] c(1,2) this] show "fst e = - 3 \<or> 0 \<le> fst e" by blast
    qed
    have "findCollisionCliques (scheduler_dag s) (map fst ?es) (map snd ?es) = Some (Inr ())"
      unfolding keys by (rule checked_chunk [OF ok r all wfr l(1,2)])
    from collision_connected [OF sorted offs reg [rule_format] this in1 e(3-7)] e(8,9) lt(3) show ?thesis by simp
  qed
  obtain q q' where q12: "requestAt s i = Inr q" "requestAt s j = Inr q'"
    using built [rule_format, OF ij(1)] built [rule_format, OF ij(2)] unfolding built_def by blast
  have "\<not> independent (fst q) (fst q')" using no by (simp add: apart_at_def q12)
  note q = q12 this
  from q(3) consider "\<not> changes_apart (layout (ar_modifier (fst q))) (layout (ar_modifier (fst q')))"
    | "\<not> changes_apart (layout (ar_modifier (fst q'))) (layout (ar_modifier (fst q)))" unfolding independent_def by blast
  then show ?thesis
  proof cases
    case 1
    from meets [OF ij q(1,2) 1] show ?thesis .
  next
    case 2
    from meets [OF ij(2,1) ij(3) [symmetric] q(2,1) 2] show ?thesis by blast
  qed
qed

lemma before_trans:
  "distinct xs \<Longrightarrow> before xs i j \<Longrightarrow> before xs j k \<Longrightarrow> before xs i k"
proof (induction xs)
  case (Cons x xs)
  show ?case
  proof (cases "x = i")
    case True
    have "k \<in> set xs" if "before xs j k" using before_set [OF that] by blast
    then show ?thesis using True Cons.prems by (auto split: if_splits)
  next
    case False
    then have "j \<in> set xs" using Cons.prems(2) before_set by fastforce
    then have "x \<noteq> j" using Cons.prems(1) by auto
    then show ?thesis using Cons False by simp
  qed
qed simp

lemma path_before:
  assumes g: "graph_nodes A d s" "topological A" and js: "distinct js" "\<forall>i < length A. \<forall>j \<in> set (A ! i). before js i j"
    and p: "dag_path (scheduler_dag s) u v" "u = int i" "i < length A"
  shows "\<exists>j. v = int j \<and> j < length A \<and> i < j \<and> before js i j"
  using p
proof (induction rule: dag_path.induct)
  case (single u v)
  from scheduler_dag_edge [OF g(1) single(1)] single(2,3) obtain y where y: "v = int y" "y \<in> set (A ! i)" by auto
  then show ?case using js(2) topologicalD [OF g(2) single(3) y(2)] single(3) by blast
next
  case (longer u v w)
  then obtain j where j: "v = int j" "j < length A" "i < j" "before js i j" by blast
  from scheduler_dag_edge [OF g(1) longer.hyps(2)] j(1,2) obtain y where y: "w = int y" "y \<in> set (A ! j)" by auto
  have "j < y" "y < length A" using topologicalD [OF g(2) j(2) y(2)] by simp_all
  moreover have "before js j y" using js(2) j(2) y(2) by blast
  ultimately show ?case using before_trans [OF js(1) j(4)] y(1) j(3) by (intro exI [of _ y]) auto
qed

section \<open>What a request can see and change\<close>

text \<open>C5: A request with a modifier built from its declarations changes nothing in the pages but the places that it has
  declared for writing, and what it returns depends on nothing but the places that it has declared.\<close>

theorem request_isolated:
  assumes "executeOne n (env\<lparr>en_heap := h\<rparr>) req = (out, md, h1)"
    and "buildModifier ix h0 m = Inr (ar_modifier req)" "wf_access_map m"
  shows "heaps_agree (\<lambda>l. \<not> changes_place (layout (ar_modifier req)) l) h h1 \<and>
    (\<forall>h'. heaps_agree (sees_place (layout (ar_modifier req))) h h' \<longrightarrow>
      (\<exists>h1'. executeOne n (env\<lparr>en_heap := h'\<rparr>) req = (out, md, h1') \<and> heaps_agree (sees_place (layout (ar_modifier req))) h1 h1')) \<and>
    (\<forall>c \<in> set (concat (layout (ar_modifier req))). chunk_declared ix m c)"
proof -
  note b = buildModifier_declared [OF assms(2,3)]
  have "heaps_agree (\<lambda>l. \<not> changes_place (layout (ar_modifier req)) l) h h1"
    by (rule executeOne_outside [OF assms(1) b(1)]) simp
  moreover have "\<exists>h1'. executeOne n (env\<lparr>en_heap := h'\<rparr>) req = (out, md, h1') \<and> heaps_agree (sees_place (layout (ar_modifier req))) h1 h1'"
    if "heaps_agree (sees_place (layout (ar_modifier req))) h h'" for h'
    by (rule executeOne_agree [OF assms(1) b(1) that])
  ultimately show ?thesis using b(2) by simp
qed

text \<open>C16: Whatever the contracts do, a request ends with the same access tables: each chunk has the same blocks, at the same
  places and with the same access rights, and no block that may only be read has been given a new version.\<close>

theorem access_rights_fixed:
  assumes "execute_request n env req (start_session req) = (r, s')" "\<forall>x. r \<noteq> Stopped x"
    and "buildModifier ix h0 m = Inr (ar_modifier req)" "wf_access_map m"
  shows "layout (ss_modifier s') = layout (ar_modifier req) \<and>
    (\<forall>cm \<in> set (osm_values (md_apps (ss_modifier s'))). \<forall>ci \<in> set (osm_values cm). \<forall>b \<in> set (osm_values (ci_table ci)).
      \<not> mayWrite (ab_access b) \<longrightarrow> ab_versions b = [])"
proof -
  have "modifier_of (layout (ar_modifier req)) (ss_modifier s')"
    by (rule execute_request_layout [OF assms(1)]) (use assms(2) buildModifier_declared(1) [OF assms(3,4)] in auto)
  then show ?thesis unfolding modifier_of_def blocks_clean_def chunk_clean_def by blast
qed

section \<open>Any order of an accepted block\<close>

text \<open>Running the requests of an accepted block in one order that the graph allows gives what they give in every other such
  order. (The chunks of a block are different memory areas, no request resizes a chunk, declared blocks are equal or
  disjoint, at most one request adds to a block, and no collision check is left out by the division among the workers.)\<close>

definition ordered :: "nat list list \<Rightarrow> nat list \<Rightarrow> bool" where
  "ordered A js \<longleftrightarrow> distinct js \<and> set js = {..<length A} \<and> (\<forall>i < length A. \<forall>j \<in> set (A ! i). before js i j)"

definition accepted :: "nat list list \<Rightarrow> dag_request scheduler \<Rightarrow> chunk_index \<Rightarrow> heap \<Rightarrow> nat \<Rightarrow> AccessMapType \<Rightarrow> bool" where
  "accepted A s ix h0 w r \<longleftrightarrow>
    topological A \<and> length (sc_accessMaps s) = length A \<and> (\<forall>i < length A. built ix h0 s i) \<and>
    inj_on (ix_chunks ix) (dom (ix_chunks ix)) \<and>
    checkDependencyGraph s ix w = Some (Inr ()) \<and> sortAccessBlocks s w = Inr r \<and> w \<noteq> 0 \<and>
    (\<forall>chunkList \<in> set (osm_values r). all_run (osm_size chunkList) w) \<and> (\<forall>app k. regular (chunk_blocks r app k))"

lemma before_asym: "distinct xs \<Longrightarrow> before xs i j \<Longrightarrow> \<not> before xs j i"
  by (induction xs) (auto split: if_splits dest: before_set)

lemma accepted_reorder:
  assumes run: "serial_execute fuel what s is h = (Returned (map f is), h')" and "ordered A is" "ordered A js"
    and graph: "graph_nodes A d s" and acc: "accepted A s ix h0 w r"
  shows "serial_execute fuel what s js h = (Returned (map f js), h')"
proof (rule serial_reorder [OF run])
  note o = assms(2,3) [unfolded ordered_def]
  note a = acc [unfolded accepted_def]
  show "distinct is" "distinct js" "set js = set is" using o by simp_all
  show "\<forall>i \<in> set is. clean_at s i"
  proof
    fix i assume "i \<in> set is"
    then have "i < length A" using o by auto
    then obtain q where q: "declares i (sc_accessMaps s ! i)" "requestAt s i = Inr q"
        "buildModifier ix h0 (sc_accessMaps s ! i) = Inr (ar_modifier (fst q))"
      using a unfolding built_def by blast
    then show "clean_at s i" using buildModifier_declared(1) [OF q(3)] by (simp add: clean_at_def declares_def)
  qed
  show "\<forall>i j. before is i j \<longrightarrow> \<not> apart_at s i j \<longrightarrow> before js i j"
  proof (intro allI impI)
    fix i j assume b: "before is i j" and no: "\<not> apart_at s i j"
    have ij: "i < length A" "j < length A" using before_set [OF b] o by auto
    have "i \<noteq> j" using before_asym [of "is" i j] b o by auto
    have top: "topological A" and js: "distinct js" "\<forall>i < length A. \<forall>j \<in> set (A ! i). before js i j"
      and is': "distinct is" "\<forall>i < length A. \<forall>j \<in> set (A ! i). before is i j" using a o by simp_all
    have "dag_path (scheduler_dag s) (int i) (int j) \<or> dag_path (scheduler_dag s) (int j) (int i)"
      by (rule accepted_connects [where n = "length A" and ix = ix and h = h0 and w = w and r = r])
        (use a ij \<open>i \<noteq> j\<close> no in simp_all)
    then show "before js i j"
    proof
      assume "dag_path (scheduler_dag s) (int i) (int j)"
      from path_before [OF graph top js this refl ij(1)] show ?thesis by auto
    next
      assume "dag_path (scheduler_dag s) (int j) (int i)"
      from path_before [OF graph top is' this refl ij(2)] have "before is j i" by auto
      then show ?thesis using before_asym [OF is'(1)] b by blast
    qed
  qed
qed

section \<open>Samples\<close>

text \<open>Contract 7 writes the number 5 into the chunk that its request names. Of three requests the first and the last one
  write to the same chunk, so that there is an edge between them.\<close>

definition stock_app :: dispatcher where
  "stock_app = (\<lambda>_ request. Call (Load_local_chunk (if request = ''a'' then 1 else 2))
     (\<lambda>_. Call (Store_int16 0 5) (\<lambda>_. App_return 200 request)))"

definition stock_index :: chunk_index where
  "stock_index = \<lparr>ix_writablePages = [], ix_chunks = [FullID 7 (LongLongID 0 1) \<mapsto> 1, FullID 7 (LongLongID 0 2) \<mapsto> 2],
     ix_sizeBounds = \<lparr>osm_keys = [], osm_values = []\<rparr>\<rparr>"

definition stock_map :: "nat \<Rightarrow> uint64 \<Rightarrow> AccessMapType" where
  "stock_map i k = \<lparr>osm_keys = [7], osm_values = [\<lparr>osm_keys = [LongLongID 0 k], osm_values =
     [\<lparr>osm_keys = [- 3, 0], osm_values =
        [\<lparr>abi_size = 0, abi_access = check_only, abi_request = int i\<rparr>,
         \<lparr>abi_size = 2, abi_access = writable_access, abi_request = int i\<rparr>]\<rparr>]\<rparr>]\<rparr>"

definition stock_heap :: heap where
  "stock_heap = (\<lambda>_. sample_chunk)"

definition stock_modifier :: "uint64 \<Rightarrow> nat \<Rightarrow> modifier" where
  "stock_modifier k q = \<lparr>md_version = 0, md_chunk = None, md_context = None, md_apps = \<lparr>osm_keys = [7], osm_values =
     [\<lparr>osm_keys = [LongLongID 0 k], osm_values =
        [\<lparr>ci_table = \<lparr>osm_keys = [0], osm_values = [\<lparr>ab_location = 0, ab_size = 2, ab_access = writable_access, ab_versions = []\<rparr>]\<rparr>,
          ci_ptr = q, ci_resizing = non_accessible, ci_sizeBound = 0,
          ci_size = \<lparr>ab_location = 0, ab_size = 4, ab_access = read_only, ab_versions = []\<rparr>, ci_initialSize = - 1\<rparr>]\<rparr>]\<rparr>\<rparr>"

definition written_chunk :: chunk where
  "written_chunk = sample_chunk\<lparr>ch_content := [5, 0, 9, 0, 0]\<rparr>"

definition runs_to :: "heap \<Rightarrow> dag_request \<Rightarrow> int \<times> string \<Rightarrow> nat \<Rightarrow> chunk \<Rightarrow> bool" where
  "runs_to h req x p c \<longleftrightarrow>
    (case execute_dag_request 2 (\<lambda>_. []) h req of (Returned r, _, h1) \<Rightarrow> r = x \<and> h1 p = c | _ \<Rightarrow> False)"

definition stock_dag_request :: "string \<Rightarrow> uint64 \<Rightarrow> nat \<Rightarrow> dag_request" where
  "stock_dag_request text k q =
    (demo_request 7 text\<lparr>ar_modifier := stock_modifier k q\<rparr>, \<lparr>osm_keys = [7], osm_values = [Some stock_app]\<rparr>)"

lemma stock_changes: "changes_place (layout (stock_modifier k q)) l \<Longrightarrow> \<exists>i. l = Byte q i"
  by (cases l) (auto simp: changes_place_def stock_modifier_def layout_def chunk_map_layout_def chunk_layout_def block_layout_def resizes_def)

lemma runs_to_heap:
  assumes "runs_to h (stock_dag_request text k q) x q c"
  shows "\<exists>md. execute_dag_request 2 (\<lambda>_. []) h (stock_dag_request text k q) = (Returned x, md, h(q := c))"
proof -
  let ?r = "stock_dag_request text k q"
  obtain md h1 where r: "execute_dag_request 2 (\<lambda>_. []) h ?r = (Returned x, md, h1)" "h1 q = c"
    using assms by (auto simp: runs_to_def split: prod.splits outcome.splits)
  let ?T = "\<lambda>l. \<forall>i. l \<noteq> Byte q i"
  let ?env = "\<lparr>en_heap = h, en_callTable = snd ?r, en_what = (\<lambda>_. [])\<rparr> :: environment"
  have "executeOne 2 (?env\<lparr>en_heap := h\<rparr>) (fst ?r) = (Returned x, md, h1)" using r(1) by (simp add: execute_dag_request_def)
  moreover have "blocks_clean (ar_modifier (fst ?r))"
    by (simp add: stock_dag_request_def stock_modifier_def blocks_clean_def chunk_clean_def)
  moreover have "\<not> ?T l" if "changes_place (layout (ar_modifier (fst ?r))) l" for l
    using stock_changes [of k q l] that by (simp add: stock_dag_request_def)
  ultimately have a: "heaps_agree ?T h h1" by (rule executeOne_outside)
  have "heaps_agree (\<lambda>_. True) (h(q := c)) h1"
    unfolding heaps_agree_def
  proof
    fix p
    show "agree (\<lambda>i. True) (ch_content ((h(q := c)) p)) (ch_content (h1 p)) \<and>
     (True \<longrightarrow> ch_size ((h(q := c)) p) = ch_size (h1 p)) \<and> ch_capacity ((h(q := c)) p) = ch_capacity (h1 p) \<and>
     ch_writable ((h(q := c)) p) = ch_writable (h1 p)"
      using heaps_agreeD [OF a, of p] r(2) by (cases "p = q") (auto simp: agree_def)
  qed
  then have "h(q := c) = h1" using heaps_agree_join [of "\<lambda>_. True" _ _ "\<lambda>_. True"] by blast
  then show ?thesis using r(1) by auto
qed

definition stock_block :: "dag_request scheduler" where
  "stock_block = \<lparr>sc_remaining = 3, sc_zeroQueue = BlockingQueue,
     sc_nodeIndex = [Some \<lparr>nd_request = stock_dag_request ''a'' 1 1, nd_attachments = [], nd_adjList = [2], nd_inDegree = 0\<rparr>,
       Some \<lparr>nd_request = stock_dag_request ''b'' 2 2, nd_attachments = [], nd_adjList = [], nd_inDegree = 0\<rparr>,
       Some \<lparr>nd_request = stock_dag_request ''a'' 1 1, nd_attachments = [], nd_adjList = [], nd_inDegree = 1\<rparr>],
     sc_accessMaps = [stock_map 0 1, stock_map 1 2, stock_map 2 1]\<rparr>"

lemma stock_request_at:
  "requestAt stock_block 0 = Inr (stock_dag_request ''a'' 1 1)" "requestAt stock_block (Suc 0) = Inr (stock_dag_request ''b'' 2 2)"
  "requestAt stock_block 2 = Inr (stock_dag_request ''a'' 1 1)"
  by (simp_all add: stock_block_def requestAt_def node_at_def)

lemma stock_runs:
  "runs_to stock_heap (stock_dag_request ''a'' 1 1) (200, ''a'') 1 written_chunk"
  "runs_to (stock_heap(1 := written_chunk)) (stock_dag_request ''b'' 2 2) (200, ''b'') 2 written_chunk"
  "runs_to (stock_heap(1 := written_chunk, 2 := written_chunk)) (stock_dag_request ''a'' 1 1) (200, ''a'') 1 written_chunk"
  by code_simp+

lemma stock_serial:
  "serialExecuteRequests 2 (\<lambda>_. []) stock_block 3 stock_heap =
    (Returned [(200, ''a''), (200, ''b''), (200, ''a'')], stock_heap(1 := written_chunk, 2 := written_chunk))"
proof -
  have h: "stock_heap(2 := written_chunk, Suc 0 := written_chunk) = stock_heap(Suc 0 := written_chunk, 2 := written_chunk)"
    by (rule fun_upd_twist) simp
  have "[0..<3] = [0, Suc 0, 2]" by (simp add: upt_rec)
  then show ?thesis
    using runs_to_heap [OF stock_runs(1)] runs_to_heap [OF stock_runs(2)] runs_to_heap [OF stock_runs(3)]
    unfolding serialExecuteRequests_def by (auto simp: serial_Cons stock_request_at h)
qed

lemma stock_built:
  "buildModifier stock_index stock_heap (stock_map i 1) = Inr (stock_modifier 1 1)"
  "buildModifier stock_index stock_heap (stock_map i 2) = Inr (stock_modifier 2 2)"
  by (simp_all add: buildModifier_def stock_map_def stock_index_def getChunk_def build_chunk_info_def declared_resizing_def ChunkInfo_def
      toAccessBlocks_def getContentPointer_def AccessBlock_def to_uint32_def stock_heap_def sample_chunk_def stock_modifier_def
      RestrictedModifier_def OrderedStaticMap_def mayWrite_def isWritable_def require_def max_chunk_size_def)

definition stock_merged :: AccessMapType where
  "stock_merged = \<lparr>osm_keys = [7], osm_values = [\<lparr>osm_keys = [LongLongID 0 1, LongLongID 0 2], osm_values =
     [\<lparr>osm_keys = [- 3, - 3, 0, 0], osm_values =
        [\<lparr>abi_size = 0, abi_access = check_only, abi_request = 0\<rparr>, \<lparr>abi_size = 0, abi_access = check_only, abi_request = 2\<rparr>,
         \<lparr>abi_size = 2, abi_access = writable_access, abi_request = 0\<rparr>, \<lparr>abi_size = 2, abi_access = writable_access, abi_request = 2\<rparr>]\<rparr>,
      \<lparr>osm_keys = [- 3, 0], osm_values =
        [\<lparr>abi_size = 0, abi_access = check_only, abi_request = 1\<rparr>, \<lparr>abi_size = 2, abi_access = writable_access, abi_request = 1\<rparr>]\<rparr>]\<rparr>]\<rparr>"

lemma stock_merge: "sortAccessBlocks stock_block 2 = Inr stock_merged" by code_simp

lemma stock_accepted: "checkDependencyGraph stock_block stock_index 2 = Some (Inr ())" by code_simp

lemma stock_declares: "declares i (stock_map i k)"
  by (auto simp: declares_def stock_map_def wf_access_map_def wf_keys_def wf_chunks_def wf_blocks_def entries_def entry_le_def)

lemma stock_regular: "regular (chunk_blocks stock_merged app k)"
proof -
  let ?a = "\<lambda>r. \<lparr>abi_size = 0, abi_access = check_only, abi_request = r\<rparr> :: AccessBlockInfo"
  let ?b = "\<lambda>r. \<lparr>abi_size = 2, abi_access = writable_access, abi_request = r\<rparr> :: AccessBlockInfo"
  have "chunk_blocks stock_merged app k \<in> {[], [(- 3, ?a 0), (- 3, ?a 2), (0, ?b 0), (0, ?b 2)], [(- 3, ?a 1), (0, ?b 1)]}"
    by (simp add: chunk_blocks_def blocks_of_def stock_merged_def osm_lookup_def entries_def)
  then show ?thesis
    by (auto simp: regular_def byte_blocks_def aligned_def isAdditive_def less_Suc_eq)
qed

theorem access_rights_fixed_witness:
  "\<exists>r s'. execute_request 2 \<lparr>en_heap = stock_heap, en_callTable = snd (stock_dag_request ''a'' 1 1), en_what = (\<lambda>_. [])\<rparr>
      (fst (stock_dag_request ''a'' 1 1)) (start_session (fst (stock_dag_request ''a'' 1 1))) = (Returned r, s') \<and>
    layout (ss_modifier s') = layout (stock_modifier 1 1)"
proof -
  let ?r = "stock_dag_request ''a'' 1 1"
  let ?env = "\<lparr>en_heap = stock_heap, en_callTable = snd ?r, en_what = (\<lambda>_. [])\<rparr> :: environment"
  have m: "ar_modifier (fst ?r) = stock_modifier 1 1" by (simp add: stock_dag_request_def)
  have "status_is 200 (fst (execute_request 2 ?env (fst ?r) (start_session (fst ?r))))" by code_simp
  then obtain reply s' where r: "execute_request 2 ?env (fst ?r) (start_session (fst ?r)) = (Returned (200, reply), s')"
    using status_isD by blast
  have b: "buildModifier stock_index stock_heap (stock_map 0 1) = Inr (ar_modifier (fst ?r))" using stock_built(1) m by simp
  have w: "wf_access_map (stock_map 0 1)" using stock_declares [of 0 1] by (simp add: declares_def)
  from access_rights_fixed [OF r _ b w] have "layout (ss_modifier s') = layout (ar_modifier (fst ?r))" by simp
  then show ?thesis using r m by auto
qed

theorem request_isolated_witness:
  "\<exists>md h1. executeOne 2 \<lparr>en_heap = stock_heap, en_callTable = snd (stock_dag_request ''a'' 1 1), en_what = (\<lambda>_. [])\<rparr>
      (fst (stock_dag_request ''a'' 1 1)) = (Returned (200, ''a''), md, h1) \<and>
    heaps_agree (\<lambda>l. \<not> changes_place (layout (stock_modifier 1 1)) l) stock_heap h1"
proof -
  let ?r = "stock_dag_request ''a'' 1 1"
  let ?env = "\<lparr>en_heap = stock_heap, en_callTable = snd ?r, en_what = (\<lambda>_. [])\<rparr> :: environment"
  have m: "ar_modifier (fst ?r) = stock_modifier 1 1" by (simp add: stock_dag_request_def)
  obtain md where r: "executeOne 2 (?env\<lparr>en_heap := stock_heap\<rparr>) (fst ?r) = (Returned (200, ''a''), md, stock_heap(1 := written_chunk))"
    using runs_to_heap [OF stock_runs(1)] by (auto simp: execute_dag_request_def)
  have b: "buildModifier stock_index stock_heap (stock_map 0 1) = Inr (ar_modifier (fst ?r))" using stock_built(1) m by simp
  have "wf_access_map (stock_map 0 1)" using stock_declares [of 0 1] by (simp add: declares_def)
  note i = request_isolated [OF r b this]
  have "executeOne 2 ?env (fst ?r) = (Returned (200, ''a''), md, stock_heap(1 := written_chunk))" using r by (simp only: environment.update_convs)
  then show ?thesis using conjunct1 [OF i] unfolding m by blast
qed

end
