(* ===== verification/Parallel.thy ===== *)
theory Parallel
  imports Serializability
begin

text \<open>
  The parallel execution of a block on its heap: \<^verbatim>\<open>parallelExecuteRequests\<close> of \<^verbatim>\<open>src/validator/RequestProcessor.hpp\<close>, with the
  workers of \<open>Scheduler\<close> executing requests of \<open>Executor\<close> on the pages of \<open>Storage\<close>. Whichever worker moves when, the block
  ends with the responses and the heap of the serial execution.
\<close>

section \<open>Workers on a heap\<close>

text \<open>What a worker gets from \<^verbatim>\<open>executeOne\<close>: the status of the response, or the exception that ends its loop. The requests belong to the
  nodes of the loaded scheduler \<open>s\<close>; the log is the order in which \<^verbatim>\<open>responseList\<close> is filled.\<close>

definition exn_of :: "call_exn \<Rightarrow> exn" where
  "exn_of e = (case e of Std_exn x \<Rightarrow> x | Ascee_exn n _ \<Rightarrow> Ascee_error n | Executor_error n _ _ \<Rightarrow> Ascee_error n)"

inductive parallel_steps ::
  "nat \<Rightarrow> (exn \<Rightarrow> string) \<Rightarrow> dag_request scheduler \<Rightarrow> dag_request pool \<Rightarrow> heap \<Rightarrow>
   dag_request pool \<Rightarrow> heap \<Rightarrow> (nat \<times> int \<times> string) list \<Rightarrow> bool"
  for fuel :: nat and what :: "exn \<Rightarrow> string" and s :: "dag_request scheduler" and p0 :: "dag_request pool" and h0 :: heap
  where
    start: "parallel_steps fuel what s p0 h0 p0 h0 []"
  | other: "parallel_steps fuel what s p0 h0 p h log \<Longrightarrow> i < length (pl_workers p) \<Longrightarrow> (\<And>v. pl_workers p ! i \<noteq> Executing v) \<Longrightarrow>
      worker_step res i p = Some p' \<Longrightarrow> parallel_steps fuel what s p0 h0 p' h log"
  | execute: "parallel_steps fuel what s p0 h0 p h log \<Longrightarrow> i < length (pl_workers p) \<Longrightarrow> pl_workers p ! i = Executing v \<Longrightarrow>
      requestAt s v = Inr req \<Longrightarrow> execute_dag_request fuel what h req = (Returned (st, response), md, h') \<Longrightarrow>
      worker_step (Inr st) i p = Some p' \<Longrightarrow> parallel_steps fuel what s p0 h0 p' h' (log @ [(v, st, response)])"
  | fail: "parallel_steps fuel what s p0 h0 p h log \<Longrightarrow> i < length (pl_workers p) \<Longrightarrow> pl_workers p ! i = Executing v \<Longrightarrow>
      requestAt s v = Inr req \<Longrightarrow> execute_dag_request fuel what h req = (Thrown e, md, h') \<Longrightarrow>
      worker_step (Inl (exn_of e)) i p = Some p' \<Longrightarrow> parallel_steps fuel what s p0 h0 p' h' log"

lemma failed_heap: "execute_dag_request fuel what h req = (Thrown e, md, h') \<Longrightarrow> h' = h"
  by (auto simp: execute_dag_request_def executeOne_def Let_def split: outcome.splits prod.splits sum.splits exn.splits if_splits)

lemma pool_stepI:
  "i < length (pl_workers p) \<Longrightarrow> worker_step res i p = Some p' \<Longrightarrow> pool_step (\<lambda>_ _. True) p p'"
  by (rule pool_step.step) auto

lemma parallel_reach:
  "parallel_steps fuel what s p0 h0 p h log \<Longrightarrow> pool_reach (\<lambda>_ _. True) p0 p"
  by (induction rule: parallel_steps.induct) (auto intro: pool_reach.intros pool_stepI)

lemma step_responses:
  assumes "worker_step res i p = Some p'"
  shows "pl_responses p' = (case pl_workers p ! i of
      Executing v \<Rightarrow> (case res of Inr st \<Rightarrow> (pl_responses p)[v := Some st] | Inl _ \<Rightarrow> pl_responses p)
    | _ \<Rightarrow> pl_responses p)"
  using assms by (auto simp: worker_step_def Let_def split: worker.splits sum.splits option.splits prod.splits list.splits)

text \<open>The log holds each answered request once, behind the requests it depends on, and is a serial run.\<close>

definition faithful_log ::
  "nat \<Rightarrow> (exn \<Rightarrow> string) \<Rightarrow> dag_request scheduler \<Rightarrow> nat list list \<Rightarrow> heap \<Rightarrow> dag_request pool \<Rightarrow> heap \<Rightarrow>
   (nat \<times> int \<times> string) list \<Rightarrow> bool" where
  "faithful_log fuel what s A h0 p h log \<longleftrightarrow>
    serial_execute fuel what s (map fst log) h0 = (Returned (map snd log), h) \<and> distinct (map fst log) \<and>
    length (pl_responses p) = length A \<and>
    (\<forall>v < length A. pl_responses p ! v = map_option fst (map_of log v)) \<and> (\<forall>v \<in> set (map fst log). v < length A) \<and>
    (\<forall>v \<in> set (map fst log). \<forall>u < length A. v \<in> set (A ! u) \<longrightarrow> before (map fst log) u v)"

lemma serial_snoc:
  assumes "serial_execute fuel what s is h0 = (Returned rs, h)" "requestAt s v = Inr req"
    and "execute_dag_request fuel what h req = (Returned r, md, h')"
  shows "serial_execute fuel what s (is @ [v]) h0 = (Returned (rs @ [r]), h')"
  using assms(1)
proof (induction "is" arbitrary: h0 rs)
  case Nil
  then show ?case using assms(2,3) by (simp add: serial_Cons)
next
  case (Cons i "is")
  then obtain req' r' md' h1 rs' where r: "requestAt s i = Inr req'" "execute_dag_request fuel what h0 req' = (Returned r', md', h1)"
    "serial_execute fuel what s is h1 = (Returned rs', h)" "rs = r' # rs'" by (auto simp: serial_Cons)
  from Cons.IH [OF r(3)] r show ?case by (simp add: serial_Cons)
qed

lemma zip_map_self: "zip xs (map f xs) = map (\<lambda>x. (x, f x)) xs"
  by (induction xs) auto

lemma before_snoc: "before xs i j \<Longrightarrow> before (xs @ [x]) i j" "i \<in> set xs \<Longrightarrow> x \<notin> set xs \<Longrightarrow> before (xs @ [x]) i x"
  by (induction xs) auto


lemma parallel_faithful:
  assumes prep: "prepared A s" "valid_graph A" "buildExecDag s = Inr s'"
    and run: "parallel_steps fuel what s (start_pool s' k) h0 p h log"
  shows "faithful_log fuel what s A h0 p h log"
proof -
  have reach: "pool_reach (\<lambda>_ _. True) (start_pool s' k) p" if "parallel_steps fuel what s (start_pool s' k) h0 p h log" for p h log
    using parallel_reach [OF that] .
  have wf: "wf_pool A p" if "pool_reach (\<lambda>_ _. True) (start_pool s' k) p" for p
    using reach_safe [OF that start_pool_ok(1) [OF prep]] by (simp add: safe_pool_def)
  show ?thesis
    using run
  proof (induction rule: parallel_steps.induct)
    case start
    have "length (pl_responses (start_pool s' k)) = length A" using wf_poolD(2) [OF wf [OF pool_reach.start]] .
    then show ?case by (simp add: faithful_log_def start_pool_def)
  next
    case (other p h log i res p')
    have "pl_responses p' = pl_responses p"
      using step_responses [OF other(4)] other(3) by (simp split: worker.splits)
    then show ?case using other(5) by (simp add: faithful_log_def)
  next
    case (execute p h log i v req st response md h' p')
    note f = execute(7) [unfolded faithful_log_def]
    have v: "v < length A" using wf_poolD(7) [OF wf [OF reach [OF execute(1)]] execute(2)] execute(3) by simp
    note ready = executing_ready [OF prep reach [OF execute(1)] execute(2,3)]
    have resp: "pl_responses p' = (pl_responses p)[v := Some st]" using step_responses [OF execute(6)] execute(3) by simp
    have "map_of log v = None" using f ready v by (metis map_option_is_None)
    then have new: "v \<notin> set (map fst log)" by (simp add: map_of_eq_None_iff)
    have preds: "u \<in> set (map fst log)" if "u < length A" "v \<in> set (A ! u)" for u
    proof -
      have "map_option fst (map_of log u) \<noteq> None" using f ready that by metis
      then show ?thesis by (metis map_of_eq_None_iff map_option_is_None set_map)
    qed
    have "serial_execute fuel what s (map fst log @ [v]) h0 = (Returned (map snd log @ [(st, response)]), h')"
      by (rule serial_snoc [OF _ execute(4,5)]) (use f in blast)
    moreover have "map_of (log @ [(v, st, response)]) x = (if x = v then Some (st, response) else map_of log x)" for x
      using \<open>map_of log v = None\<close> by (cases "map_of log x") (auto simp: map_add_def)
    moreover have "before (map fst log @ [v]) u x" if "x \<in> set (map fst log @ [v])" "u < length A" "x \<in> set (A ! u)" for u x
    proof (cases "x = v")
      case True
      then show ?thesis using before_snoc(2) [OF preds new] that by simp
    next
      case False
      then have "x \<in> set (map fst log)" using that(1) by simp
      then have "before (map fst log) u x" using f that(2,3) by blast
      then show ?thesis by (rule before_snoc(1))
    qed
    ultimately show ?case using f v new resp by (auto simp: faithful_log_def nth_list_update)
  next
    case (fail p h log i v req e md h' p')
    have "pl_responses p' = pl_responses p" using step_responses [OF fail(6)] fail(3) by simp
    then show ?case using fail(7) failed_heap [OF fail(5)] by (simp add: faithful_log_def)
  qed
qed

section \<open>The parallel execution is the serial one\<close>

text \<open>C1: When the workers have answered all requests of an accepted block, in whichever interleaving, every response and
  the heap are those of executing the requests one after the other. (The chunks of a block are different memory areas, no request
  resizes a chunk or declares its size as read only (offset \<open>- 2\<close>), declared blocks are equal or disjoint, at most one request
  adds to a block, and no collision check is left out by the division among the workers.)\<close>

theorem parallel_is_serial:
  assumes "prepared A s" "buildExecDag s = Inr s'" "accepted A s ix h0 w r"
    and "parallel_steps fuel what s (start_pool s' k) h p h' log" "\<forall>v < length A. pl_responses p ! v \<noteq> None"
  shows "\<exists>rs. serialExecuteRequests fuel what s (length A) h = (Returned rs, h') \<and>
    mset log = mset (zip [0..<length A] rs) \<and> pl_responses p = map (\<lambda>x. Some (fst x)) rs"
proof -
  have top: "topological A" using assms(3) by (simp add: accepted_def)
  have valid: "valid_graph A" by (rule topological_valid [OF top])
  have f: "serial_execute fuel what s (map fst log) h = (Returned (map snd log), h')" "distinct (map fst log)"
    "length (pl_responses p) = length A"
    and resp: "\<And>v. v < length A \<Longrightarrow> pl_responses p ! v = map_option fst (map_of log v)"
    and bound: "\<And>v. v \<in> set (map fst log) \<Longrightarrow> v < length A"
    and preds: "\<And>u v. v \<in> set (map fst log) \<Longrightarrow> u < length A \<Longrightarrow> v \<in> set (A ! u) \<Longrightarrow> before (map fst log) u v"
    using parallel_faithful [OF assms(1) valid assms(2,4)] unfolding faithful_log_def by blast+
  let ?js = "map fst log" let ?f = "\<lambda>v. the (map_of log v)" let ?rs = "map ?f [0..<length A]"
  have some: "map_of log v = Some (?f v)" if "v < length A" for v
    using resp [OF that] assms(5) that by (cases "map_of log v") auto
  have set: "set ?js = {..<length A}"
  proof
    show "set ?js \<subseteq> {..<length A}" using bound by blast
    show "{..<length A} \<subseteq> set ?js"
    proof
      fix v assume "v \<in> {..<length A}"
      then have "(v, ?f v) \<in> set log" by (intro map_of_SomeD some) simp
      then show "v \<in> set ?js" by force
    qed
  qed
  have at: "?f (fst x) = snd x" if "x \<in> set log" for x
    using map_of_is_SomeI [OF f(2), of "fst x" "snd x"] that by simp
  have "map snd log = map ?f ?js" unfolding map_map by (rule map_cong [OF refl]) (simp add: at)
  then have run: "serial_execute fuel what s ?js h = (Returned (map ?f ?js), h')" using f(1) by (simp only:)
  have edges: "j < length A" "i < j" if "i < length A" "j \<in> set (A ! i)" for i j using topologicalD [OF top that] by simp_all
  have "before ?js i j" if "i < length A" "j \<in> set (A ! i)" for i j
    by (rule preds [OF _ that]) (simp only: set lessThan_iff edges(1) [OF that])
  then have "ordered A ?js" unfolding ordered_def using f(2) set by (simp only: simp_thms) blast
  moreover have "ordered A [0..<length A]"
    unfolding ordered_def before_upt
  proof (intro conjI allI impI ballI)
    show "i < j" "j < length A" if "i < length A" "j \<in> set (A ! i)" for i j using edges [OF that] by blast+
  qed (auto simp: atLeast0LessThan)
  moreover have "graph_nodes A (indegree A) s" using assms(1) by (simp add: prepared_def)
  ultimately have serial: "serialExecuteRequests fuel what s (length A) h = (Returned ?rs, h')"
    unfolding serialExecuteRequests_def using accepted_reorder [OF run _ _ _ assms(3)] by blast
  have "mset log = mset (zip [0..<length A] ?rs)"
  proof -
    have "mset log = image_mset (\<lambda>v. (v, ?f v)) (mset ?js)"
      unfolding mset_map [symmetric] map_map by (rule arg_cong [where f = mset], rule map_idI [symmetric]) (auto simp: at)
    moreover have "mset ?js = mset [0..<length A]"
      by (rule set_eq_iff_mset_eq_distinct [THEN iffD1]) (use f(2) set in auto)
    moreover have "zip [0..<length A] ?rs = map (\<lambda>v. (v, ?f v)) [0..<length A]" by (rule zip_map_self)
    ultimately show ?thesis by (simp only: mset_map)
  qed
  moreover have "pl_responses p = map (\<lambda>x. Some (fst x)) ?rs"
  proof (rule nth_equalityI)
    show "length (pl_responses p) = length (map (\<lambda>x. Some (fst x)) ?rs)" using f(3) by simp
    fix v assume "v < length (pl_responses p)"
    then have v: "v < length A" using f(3) by simp
    obtain x where x: "map_of log v = Some x" using some [OF v] by blast
    then show "pl_responses p ! v = map (\<lambda>x. Some (fst x)) ?rs ! v" using resp [OF v] v by simp
  qed
  ultimately show ?thesis by (intro exI [of _ ?rs] conjI serial)
qed


section \<open>A concrete block\<close>

text \<open>Two workers on the block of three requests: the second request is executed first, the third one when the first one
  has released it.\<close>

fun quiet_run :: "nat list \<Rightarrow> dag_request pool \<Rightarrow> dag_request pool option" where
  "quiet_run [] p = Some p"
| "quiet_run (i # is) p =
    (if i < length (pl_workers p) \<and> (case pl_workers p ! i of Executing _ \<Rightarrow> False | _ \<Rightarrow> True)
     then (case worker_step (Inr 0) i p of None \<Rightarrow> None | Some p' \<Rightarrow> quiet_run is p') else None)"

lemma quiet_steps:
  "parallel_steps fuel what s p0 h0 p h log \<Longrightarrow> quiet_run is p = Some p' \<Longrightarrow> parallel_steps fuel what s p0 h0 p' h log"
proof (induction "is" arbitrary: p)
  case (Cons i "is")
  then obtain q where "i < length (pl_workers p)" "\<And>v. pl_workers p ! i \<noteq> Executing v" "worker_step (Inr 0) i p = Some q"
    "quiet_run is q = Some p'" by (auto split: if_splits option.splits worker.splits)
  then show ?case using Cons.IH parallel_steps.other Cons.prems(1) by blast
qed simp

definition stock_started :: "dag_request scheduler" where
  "stock_started = (case buildExecDag stock_block of Inr s \<Rightarrow> s | Inl _ \<Rightarrow> stock_block)"

definition quietly :: "nat list \<Rightarrow> dag_request pool \<Rightarrow> dag_request pool" where
  "quietly is p = (case quiet_run is p of Some p' \<Rightarrow> p' | None \<Rightarrow> p)"

definition answered :: "nat \<Rightarrow> dag_request pool \<Rightarrow> dag_request pool" where
  "answered i p = (case worker_step (Inr 200) i p of Some p' \<Rightarrow> p' | None \<Rightarrow> p)"

definition pool_1 :: "dag_request pool" where "pool_1 = quietly [0, 1] (start_pool stock_started 2)"
definition pool_2 :: "dag_request pool" where "pool_2 = answered 0 (answered 1 pool_1)"
definition pool_3 :: "dag_request pool" where "pool_3 = quietly [0, 0, 0, 0, 0, 0, 0] pool_2"
definition pool_4 :: "dag_request pool" where "pool_4 = answered 0 pool_3"

definition defined :: "'a option \<Rightarrow> bool" where
  "defined x \<longleftrightarrow> (case x of Some _ \<Rightarrow> True | None \<Rightarrow> False)"

lemma pool_facts:
  "defined (quiet_run [0, 1] (start_pool stock_started 2))" "pl_workers pool_1 = [Executing 0, Executing 1]"
  "pl_workers (answered 1 pool_1) = [Executing 0, Releasing 1 []]"
  "defined (worker_step (Inr 200) 1 pool_1)" "defined (worker_step (Inr 200) 0 (answered 1 pool_1))"
  "defined (quiet_run [0, 0, 0, 0, 0, 0, 0] pool_2)" "pl_workers pool_3 = [Executing 2, Releasing 1 []]"
  "defined (worker_step (Inr 200) 0 pool_3)" "pl_responses pool_4 = [Some 200, Some 200, Some 200]"
  by code_simp+

lemma quiet_pool:
  "parallel_steps fuel what s p0 h0 p h log \<Longrightarrow> defined (quiet_run is p) \<Longrightarrow> parallel_steps fuel what s p0 h0 (quietly is p) h log"
  by (auto simp: quietly_def defined_def split: option.splits intro: quiet_steps)

lemma answering:
  assumes "parallel_steps 2 (\<lambda>_. []) stock_block p0 h0 p h log" "i < length (pl_workers p)" "pl_workers p ! i = Executing v"
    and "requestAt stock_block v = Inr (stock_dag_request text k q)" "defined (worker_step (Inr 200) i p)"
    and "runs_to h (stock_dag_request text k q) (200, response) q c"
  shows "parallel_steps 2 (\<lambda>_. []) stock_block p0 h0 (answered i p) (h(q := c)) (log @ [(v, 200, response)])"
proof -
  obtain md where "execute_dag_request 2 (\<lambda>_. []) h (stock_dag_request text k q) = (Returned (200, response), md, h(q := c))"
    using runs_to_heap [OF assms(6)] by blast
  moreover have "worker_step (Inr 200) i p = Some (answered i p)"
    using assms(5) by (auto simp: answered_def defined_def split: option.splits)
  ultimately show ?thesis by (rule parallel_steps.execute [OF assms(1-4)])
qed

lemma stock_runs_2:
  "runs_to stock_heap (stock_dag_request ''b'' 2 2) (200, ''b'') 2 written_chunk"
  "runs_to (stock_heap(2 := written_chunk)) (stock_dag_request ''a'' 1 1) (200, ''a'') 1 written_chunk"
  "runs_to (stock_heap(2 := written_chunk, 1 := written_chunk)) (stock_dag_request ''a'' 1 1) (200, ''a'') 1 written_chunk"
  by code_simp+

lemma stock_parallel:
  "parallel_steps 2 (\<lambda>_. []) stock_block (start_pool stock_started 2) stock_heap pool_4
    (stock_heap(2 := written_chunk, 1 := written_chunk)) [(1, 200, ''b''), (0, 200, ''a''), (2, 200, ''a'')]"
proof -
  let ?run = "parallel_steps 2 (\<lambda>_. []) stock_block (start_pool stock_started 2) stock_heap"
  have "?run pool_1 stock_heap []"
    unfolding pool_1_def by (rule quiet_pool [OF parallel_steps.start pool_facts(1)])
  then have "?run (answered 1 pool_1) (stock_heap(2 := written_chunk)) ([] @ [(1, 200, ''b'')])"
    by (rule answering) (use pool_facts stock_request_at stock_runs_2 in simp_all)
  then have "?run pool_2 (stock_heap(2 := written_chunk, 1 := written_chunk)) (([] @ [(1, 200, ''b'')]) @ [(0, 200, ''a'')])"
    unfolding pool_2_def by (rule answering) (use pool_facts stock_request_at stock_runs_2 in simp_all)
  then have "?run pool_3 (stock_heap(2 := written_chunk, 1 := written_chunk)) (([] @ [(1, 200, ''b'')]) @ [(0, 200, ''a'')])"
    unfolding pool_3_def by (rule quiet_pool) (rule pool_facts)
  then have "?run pool_4 (stock_heap(2 := written_chunk, 1 := written_chunk, 1 := written_chunk))
      ((([] @ [(1, 200, ''b'')]) @ [(0, 200, ''a'')]) @ [(2, 200, ''a'')])"
    unfolding pool_4_def by (rule answering) (use pool_facts stock_request_at stock_runs_2 in simp_all)
  then show ?thesis by simp
qed

lemma stock_accepted_block: "accepted [[2], [], []] stock_block stock_index stock_heap 2 stock_merged"
  unfolding accepted_def
proof (intro conjI)
  show "topological [[2], [], []]" by (auto simp: topological_def less_Suc_eq)
  show "length (sc_accessMaps stock_block) = length [[2], [], [] :: nat list]" by (simp add: stock_block_def)
  show "\<forall>i < length [[2], [], [] :: nat list]. built stock_index stock_heap stock_block i"
    using stock_built stock_request_at stock_declares
    by (auto simp: built_def less_Suc_eq stock_block_def stock_dag_request_def numeral_2_eq_2)
  show "inj_on (ix_chunks stock_index) (dom (ix_chunks stock_index))"
    by (auto simp: inj_on_def stock_index_def split: if_splits)
  show "\<forall>c \<in> set (osm_values stock_merged). all_run (osm_size c) 2"
    by (auto simp: stock_merged_def osm_size_def all_run_def set_runAll_tasks runAll_step_def)
qed (simp_all add: stock_accepted stock_merge stock_regular)

theorem parallel_is_serial_witness:
  "serialExecuteRequests 2 (\<lambda>_. []) stock_block 3 stock_heap =
    (Returned [(200, ''a''), (200, ''b''), (200, ''a'')], stock_heap(2 := written_chunk, 1 := written_chunk))"
proof -
  let ?A = "[[2], [], []] :: nat list list"
  have prep: "prepared ?A stock_block"
    by (auto simp: prepared_def graph_nodes_def stock_block_def indegree_def less_Suc_eq BlockingQueue_def)
  have started: "buildExecDag stock_block = Inr stock_started"
  proof -
    have "is_ok (buildExecDag stock_block)" by code_simp
    then show ?thesis by (auto simp: stock_started_def is_ok_def split: sum.splits)
  qed
  have all: "\<forall>v < length ?A. pl_responses pool_4 ! v \<noteq> None" by (auto simp: pool_facts(9) less_Suc_eq)
  obtain rs where rs: "serialExecuteRequests 2 (\<lambda>_. []) stock_block (length ?A) stock_heap = (Returned rs, stock_heap(2 := written_chunk, 1 := written_chunk))"
    "mset [(1, 200, ''b''), (0, 200, ''a''), (2, 200, ''a'')] = mset (zip [0..<length ?A] rs)"
    "pl_responses pool_4 = map (\<lambda>x. Some (fst x)) rs"
    using parallel_is_serial [OF prep started stock_accepted_block stock_parallel all] by blast
  have "length rs = 3" using arg_cong [OF rs(3), of length] by (simp add: pool_facts(9))
  then obtain a b c where abc: "rs = [a, b, c]" by (auto simp: length_Suc_conv numeral_3_eq_3)
  have upt: "[0..<length ?A] = [0, 1, 2]" by (simp add: upt_rec)
  have z: "set (zip [0..<length ?A] rs) = {(1, 200, ''b''), (0, 200, ''a''), (2, 200, ''a'')}"
    using arg_cong [OF rs(2), of set_mset] unfolding set_mset_mset by simp
  have "(0, a) \<in> set (zip [0..<length ?A] rs)" "(1, b) \<in> set (zip [0..<length ?A] rs)" "(2, c) \<in> set (zip [0..<length ?A] rs)"
    unfolding upt abc by simp_all
  note this [unfolded z]
  then have "rs = [(200, ''a''), (200, ''b''), (200, ''a'')]" unfolding abc by simp
  then show ?thesis using rs(1) by (simp add: numeral_3_eq_3)
qed

end
