(* ===== verification/Float64.thy ===== *)
theory Float64
  imports Prelude Complex_Main
begin

text \<open>
  The arithmetic of floating point numbers for contracts, \<^verbatim>\<open>src/ascee/argc/functions/float.cpp\<close>. A double is its 64
  bits in the format of IEEE 754, of which \<open>float_value\<close> is the value; the addition of the processor is an argument.
\<close>

section \<open>The functions\<close>

type_synonym float64 = uint64

definition MAX_ADDITION_LOSS :: uint64 where
  "MAX_ADDITION_LOSS = 0x100000"

definition extractExp :: "float64 \<Rightarrow> int" where
  "extractExp f = uint (drop_bit 52 f AND 0x7ff)"

definition low_bits :: "nat \<Rightarrow> float64 \<Rightarrow> uint64" where
  "low_bits n f = NOT (push_bit n (- 1)) AND f"

definition safeAdd64 :: "(float64 \<Rightarrow> float64 \<Rightarrow> float64) \<Rightarrow> float64 \<Rightarrow> float64 \<Rightarrow> uint64 \<Rightarrow> float64 result" where
  "safeAdd64 add a b maxLoss =
    (let expDiff = extractExp a - extractExp b
     in if expDiff > 0 then
          (if expDiff > 51 \<or> low_bits (nat expDiff) b > maxLoss then Inl Underflow_error else Inr (add a b))
        else if expDiff < 0 then
          (if expDiff < - 51 \<or> low_bits (nat (- expDiff)) a > maxLoss then Inl Underflow_error else Inr (add a b))
        else Inr (add a b))"

definition safe_addf64 :: "(float64 \<Rightarrow> float64 \<Rightarrow> float64) \<Rightarrow> float64 \<Rightarrow> float64 \<Rightarrow> float64 result" where
  "safe_addf64 add a b = safeAdd64 add a b MAX_ADDITION_LOSS"

definition exact_addf64 :: "(float64 \<Rightarrow> float64 \<Rightarrow> float64) \<Rightarrow> float64 \<Rightarrow> float64 \<Rightarrow> float64 result" where
  "exact_addf64 add a b = safeAdd64 add a b 0"

text \<open>Integers stay within 32 bits unless \<open>n\<close> is close to the bounds.\<close>

definition truncate_float64 :: "float64 \<Rightarrow> int \<Rightarrow> float64 result" where
  "truncate_float64 f n =
    (let shift = (52 - n) - (extractExp f - 1023)
     in if 52 - n \<ge> 2 ^ 31 \<or> shift \<ge> 2 ^ 31 \<or> shift < - (2 ^ 31) then Inl Undefined_behaviour
        else if shift \<le> 0 then Inr f
        else if shift > 52 then Inr 0
        else Inr (f AND push_bit (nat shift) (- 1)))"

section \<open>Values\<close>

definition fraction_bits :: "float64 \<Rightarrow> nat" where
  "fraction_bits f = take_bit 52 (unat f)"

definition sign_of :: "float64 \<Rightarrow> real" where
  "sign_of f = (if bit f 63 then - 1 else 1)"

text \<open>The least exponent belongs to zero and the subnormal numbers, the greatest one to infinities and no numbers at all.\<close>

definition is_normal :: "float64 \<Rightarrow> bool" where
  "is_normal f \<longleftrightarrow> 0 < extractExp f \<and> extractExp f < 2047"

definition significand :: "float64 \<Rightarrow> nat" where
  "significand f = (if extractExp f = 0 then fraction_bits f else 2 ^ 52 + fraction_bits f)"

definition float_value :: "float64 \<Rightarrow> real" where
  "float_value f = sign_of f * real (significand f) * 2 powr (max (extractExp f) 1 - 1075)"

definition multiple_of :: "real \<Rightarrow> real \<Rightarrow> bool" where
  "multiple_of x u \<longleftrightarrow> (\<exists>k :: int. x = of_int k * u)"

lemma extractExp_unat: "extractExp f = int (take_bit 11 (drop_bit 52 (unat f)))"
proof -
  have m: "(0x7ff :: uint64) = mask 11" by (simp add: mask_eq_exp_minus_1)
  show ?thesis unfolding extractExp_def m take_bit_eq_mask [symmetric] uint_nat
    by (simp only: unsigned_take_bit_eq unat_drop_bit_eq)
qed

lemma extractExp_bounds: "0 \<le> extractExp f" "extractExp f \<le> 2047"
proof -
  have "take_bit 11 (drop_bit 52 (unat f)) < (2 :: nat) ^ 11" by (rule take_bit_nat_less_exp)
  then show "0 \<le> extractExp f" "extractExp f \<le> 2047" unfolding extractExp_unat by simp_all
qed

lemma fraction_less: "fraction_bits f < 2 ^ 52"
  unfolding fraction_bits_def by (rule take_bit_nat_less_exp)

lemma significand_less: "significand f < 2 ^ 53"
  using fraction_less [of f] by (simp add: significand_def)

lemma significand_take:
  assumes "n \<le> 52"
  shows "take_bit n (significand f) = take_bit n (unat f)"
proof -
  have "take_bit n (2 ^ 52 + x) = take_bit n x" for x :: nat
  proof -
    have "(2 ^ 52 + x) mod 2 ^ n = x mod 2 ^ n"
      using assms le_imp_power_dvd [of n 52 "2 :: nat"] by (metis add.left_neutral dvd_imp_mod_0 mod_add_left_eq)
    then show ?thesis unfolding take_bit_eq_mod .
  qed
  then have "take_bit n (significand f) = take_bit n (fraction_bits f)" unfolding significand_def by (simp only: split: if_split) simp
  also have "\<dots> = take_bit n (unat f)" unfolding fraction_bits_def take_bit_take_bit using assms by (simp only: min_absorb1)
  finally show ?thesis .
qed

lemma low_bits_take: "low_bits n f = take_bit n f"
  by (rule bit_eqI) (auto simp: low_bits_def bit_simps)

lemma unat_low_bits: "unat (low_bits n f) = take_bit n (unat f)"
  by (simp only: low_bits_take unsigned_take_bit_eq)

text \<open>Clearing low bits of a double clears them in its significand and keeps sign and exponent.\<close>

lemma masked_bits:
  assumes "n \<le> 52"
  shows "extractExp (f AND push_bit n (- 1)) = extractExp f" "bit (f AND push_bit n (- 1)) 63 = bit f 63"
proof -
  have "drop_bit 52 (f AND push_bit n (- 1)) = drop_bit 52 (f :: uint64)"
    using assms by (intro bit_eqI) (auto simp: bit_simps dest: bit_imp_le_length)
  then show "extractExp (f AND push_bit n (- 1)) = extractExp f" by (simp add: extractExp_def)
  show "bit (f AND push_bit n (- 1)) 63 = bit f 63" using assms by (auto simp: bit_simps)
qed

lemma fraction_masked: "n \<le> 52 \<Longrightarrow> fraction_bits (f AND push_bit n (- 1)) = fraction_bits f - take_bit n (unat f)"
proof -
  assume n: "n \<le> 52"
  let ?m = "f AND push_bit n (- 1)"
  have b: "fraction_bits ?m = push_bit n (drop_bit n (fraction_bits f))"
    unfolding fraction_bits_def
    by (rule bit_eqI) (use n in \<open>auto simp: bit_simps bit_unsigned_iff\<close>)
  have "push_bit n (drop_bit n (fraction_bits f)) + take_bit n (fraction_bits f) = fraction_bits f" by (rule bits_ident)
  moreover have "take_bit n (fraction_bits f) = take_bit n (unat f)"
    unfolding fraction_bits_def take_bit_take_bit using n by (simp only: min_absorb1)
  ultimately show ?thesis using b by simp
qed

lemma take_bit_le: "take_bit n (x :: nat) \<le> x"
  by (simp add: take_bit_eq_mod)

lemma significand_masked:
  assumes "n \<le> 52"
  shows "significand (f AND push_bit n (- 1)) = significand f - take_bit n (significand f)"
proof -
  have "take_bit n (unat f) \<le> fraction_bits f"
    using take_bit_le [of n "fraction_bits f"] assms by (simp add: fraction_bits_def)
  then show ?thesis
    unfolding significand_take [OF assms] unfolding significand_def masked_bits(1) [OF assms] fraction_masked [OF assms] by simp
qed


section \<open>Truncation\<close>

lemma float_value_masked:
  assumes "n \<le> 52"
  shows "float_value (f AND push_bit n (- 1)) =
    sign_of f * real (significand f - take_bit n (significand f)) * 2 powr (max (extractExp f) 1 - 1075)"
  unfolding float_value_def significand_masked [OF assms] sign_of_def masked_bits [OF assms] ..

lemma two_power: "2 powr real m = (2 :: real) ^ m"
  by (simp add: powr_realpow)

lemma abs_sign [simp]: "\<bar>sign_of f\<bar> = 1" "sign_of f * x = sign_of f * y \<longleftrightarrow> x = y"
  by (simp_all add: sign_of_def)

text \<open>C26: Truncating a normal number to \<open>n\<close> binary digits behind the point is less than \<open>2 ^ (- n)\<close> off, never away from zero, and
  gives a multiple of \<open>2 ^ (- n)\<close>.\<close>

theorem truncate_float64_spec:
  assumes f: "is_normal f" and n: "\<bar>n\<bar> < 2 ^ 31 - 2100"
  shows "\<exists>t. truncate_float64 f n = Inr t \<and> \<bar>float_value t - float_value f\<bar> < 2 powr of_int (- n) \<and>
    \<bar>float_value t\<bar> \<le> \<bar>float_value f\<bar> \<and> multiple_of (float_value t) (2 powr of_int (- n))"
proof -
  let ?e = "extractExp f" let ?shift = "(52 - n) - (?e - 1023)" let ?u = "2 powr (?e - 1075) :: real"
  have e: "0 < ?e" "?e < 2047" using f by (simp_all add: is_normal_def)
  have v: "float_value f = sign_of f * real (significand f) * ?u" using e(1) by (simp add: float_value_def max_absorb1)
  have no: "\<not> (52 - n \<ge> 2 ^ 31 \<or> ?shift \<ge> 2 ^ 31 \<or> ?shift < - (2 ^ 31))" using n e by auto
  have absv: "\<bar>float_value f\<bar> = real (significand f) * ?u" unfolding v abs_mult by simp
  consider "?shift \<le> 0" | "52 < ?shift" | "0 < ?shift" "?shift \<le> 52" by linarith
  then show ?thesis
  proof cases
    case 1
    have "real_of_int (?e - 1075) = real (nat (- ?shift)) + (- n)" using 1 by simp
    then have "?u = 2 ^ nat (- ?shift) * 2 powr of_int (- n)" by (simp only: powr_add two_power)
    then have "float_value f = of_int ((if bit f 63 then - 1 else 1) * int (significand f) * 2 ^ nat (- ?shift)) * 2 powr of_int (- n)"
      unfolding v by (simp add: sign_of_def)
    then have "multiple_of (float_value f) (2 powr of_int (- n))" unfolding multiple_of_def by blast
    then show ?thesis using 1 no by (auto simp: truncate_float64_def Let_def)
  next
    case 2
    have "real (significand f) < 2 powr 53" using significand_less [of f] by (simp add: powr_numeral)
    then have "\<bar>float_value f\<bar> < 2 powr 53 * ?u" unfolding absv by simp
    also have "\<dots> = 2 powr (?e - 1022)" unfolding powr_add [symmetric] by simp
    also have "\<dots> \<le> 2 powr of_int (- n)" using 2 by (intro powr_mono) simp_all
    finally have "\<bar>float_value f\<bar> < 2 powr of_int (- n)" .
    moreover have "float_value 0 = 0" by (simp add: float_value_def significand_def fraction_bits_def extractExp_def)
    moreover have "truncate_float64 f n = Inr 0" using 2 no by (simp add: truncate_float64_def Let_def)
    moreover have "multiple_of 0 (2 powr of_int (- n))" unfolding multiple_of_def by (intro exI [of _ 0]) simp
    ultimately show ?thesis by simp
  next
    case 3
    let ?k = "nat ?shift" let ?t = "f AND push_bit ?k (- 1)" let ?low = "take_bit ?k (significand f)"
    have k: "?k \<le> 52" using 3 by simp
    have "real_of_int (- n) = real ?k + (?e - 1075)" using 3 by simp
    then have u: "2 powr of_int (- n) = 2 ^ ?k * ?u" by (simp only: powr_add two_power)
    have t: "float_value ?t = sign_of f * real (significand f - ?low) * ?u"
      using float_value_masked [OF k, of f] e(1) by (simp add: max_absorb1)
    have low: "?low < 2 ^ ?k" "?low \<le> significand f" by (rule take_bit_nat_less_exp, rule take_bit_le)
    have "float_value ?t - float_value f = sign_of f * (real (significand f - ?low) - real (significand f)) * ?u"
      unfolding t v by (simp add: algebra_simps)
    also have "\<dots> = - (sign_of f * real ?low * ?u)" using low(2) by (simp add: of_nat_diff)
    finally have "\<bar>float_value ?t - float_value f\<bar> = real ?low * ?u" by (simp add: abs_mult)
    also have "\<dots> < 2 ^ ?k * ?u" proof -
      have "real ?low < real (2 ^ ?k)" using low(1) by (simp only: of_nat_less_iff)
      then have "real ?low < 2 ^ ?k" by (simp only: of_nat_power of_nat_numeral)
      then show ?thesis by (rule mult_strict_right_mono) simp
    qed
    finally have d: "\<bar>float_value ?t - float_value f\<bar> < 2 powr of_int (- n)" unfolding u .
    have "\<bar>float_value ?t\<bar> = real (significand f - ?low) * ?u" unfolding t by (simp add: abs_mult)
    also have "\<dots> \<le> real (significand f) * ?u" by (intro mult_right_mono) simp_all
    finally have le: "\<bar>float_value ?t\<bar> \<le> \<bar>float_value f\<bar>" unfolding absv .
    have "significand f - ?low = 2 ^ ?k * (significand f div 2 ^ ?k)"
      unfolding take_bit_eq_mod by (simp add: minus_mod_eq_mult_div)
    then have "float_value ?t = of_int ((if bit f 63 then - 1 else 1) * int (significand f div 2 ^ ?k)) * 2 powr of_int (- n)"
      unfolding t u by (simp add: sign_of_def)
    then have m: "multiple_of (float_value ?t) (2 powr of_int (- n))" unfolding multiple_of_def by blast
    have "truncate_float64 f n = Inr ?t" using 3 no by (simp add: truncate_float64_def Let_def)
    then show ?thesis using d le m by (intro exI [of _ ?t] conjI)
  qed
qed


theorem truncate_float64_spec_witness:
  "\<bar>float_value 0x400C000000000000 - float_value 0x400FFFFFFFFFFFFF\<bar> < 2 powr of_int (- 1) \<and>
    truncate_float64 0x400FFFFFFFFFFFFF 1 = Inr 0x400C000000000000"
proof -
  have f: "is_normal 0x400FFFFFFFFFFFFF" by code_simp
  have t: "truncate_float64 0x400FFFFFFFFFFFFF 1 = Inr 0x400C000000000000" by code_simp
  have "\<bar>1 :: int\<bar> < 2 ^ 31 - 2100" by simp
  from truncate_float64_spec [OF f this] t show ?thesis by auto
qed

section \<open>Addition\<close>

lemma safeAdd64_Inr:
  "safeAdd64 add a b l = Inr c \<longleftrightarrow> c = add a b \<and>
    (extractExp a > extractExp b \<longrightarrow> extractExp a - extractExp b \<le> 51 \<and> low_bits (nat (extractExp a - extractExp b)) b \<le> l) \<and>
    (extractExp b > extractExp a \<longrightarrow> extractExp b - extractExp a \<le> 51 \<and> low_bits (nat (extractExp b - extractExp a)) a \<le> l)"
  by (auto simp: safeAdd64_def Let_def not_less)

lemma split_at_ulp:
  assumes b: "is_normal b" and d: "extractExp b < e" "e - extractExp b \<le> 51" "low_bits (nat (e - extractExp b)) b \<le> l"
  obtains c where "multiple_of c (2 powr of_int (e - 1075))" "\<bar>float_value b - c\<bar> \<le> real (unat l) * 2 powr of_int (extractExp b - 1075)"
proof -
  let ?k = "nat (e - extractExp b)" let ?u = "2 powr of_int (extractExp b - 1075) :: real"
  let ?low = "take_bit ?k (significand b)"
  have k: "?k \<le> 52" using d by simp
  have v: "float_value b = sign_of b * real (significand b) * ?u"
    using b by (simp add: float_value_def is_normal_def max_absorb1)
  have "real_of_int (e - 1075) = real ?k + (extractExp b - 1075)" using d by simp
  then have u: "2 powr of_int (e - 1075) = 2 ^ ?k * ?u" by (simp only: powr_add two_power)
  have "significand b = ?low + 2 ^ ?k * (significand b div 2 ^ ?k)"
    unfolding take_bit_eq_mod by simp
  then have s: "real (significand b) = real ?low + 2 ^ ?k * real (significand b div 2 ^ ?k)"
    by (metis of_nat_add of_nat_mult of_nat_numeral of_nat_power)
  let ?c = "of_int ((if bit b 63 then - 1 else 1) * int (significand b div 2 ^ ?k)) * 2 powr of_int (e - 1075)"
  have "float_value b = sign_of b * (real ?low * ?u) + ?c" unfolding v u s by (simp add: sign_of_def algebra_simps)
  then have "\<bar>float_value b - ?c\<bar> = real ?low * ?u" by (simp add: abs_mult)
  moreover have "?low \<le> unat l"
    using d(3) unfolding word_le_nat_alt unat_low_bits significand_take [OF k] .
  then have "real ?low * ?u \<le> real (unat l) * ?u" by (intro mult_right_mono) (simp_all only: of_nat_le_iff powr_ge_zero)
  ultimately have "\<bar>float_value b - ?c\<bar> \<le> real (unat l) * ?u" by (simp only:)
  moreover have "multiple_of ?c (2 powr of_int (e - 1075))" unfolding multiple_of_def by blast
  ultimately show ?thesis using that by blast
qed

lemma own_ulp:
  assumes "is_normal a"
  shows "multiple_of (float_value a) (2 powr of_int (extractExp a - 1075))"
proof -
  have "float_value a = of_int ((if bit a 63 then - 1 else 1) * int (significand a)) * 2 powr of_int (extractExp a - 1075)"
    using assms by (simp add: float_value_def is_normal_def max_absorb1 sign_of_def)
  then show ?thesis unfolding multiple_of_def by blast
qed

text \<open>C27: When the addition of two normal numbers is not refused, each of them lies within \<open>maxLoss * 2 ^ (- 52)\<close> of its own power
  of two of a number whose last digit the greater one of them can hold, and the greater one is such a number itself: for
  \<open>maxLoss = 0\<close> no digit is lost when the smaller number is shifted to the exponent of the greater one.\<close>

theorem safeAdd64_loss:
  assumes "safeAdd64 add a b maxLoss = Inr c" "is_normal a" "is_normal b"
  shows "c = add a b \<and> (\<exists>a' b'.
    multiple_of a' (2 powr of_int (max (extractExp a) (extractExp b) - 1075)) \<and>
    multiple_of b' (2 powr of_int (max (extractExp a) (extractExp b) - 1075)) \<and>
    \<bar>float_value a - a'\<bar> \<le> real (unat maxLoss) * 2 powr of_int (extractExp a - 1075) \<and>
    \<bar>float_value b - b'\<bar> \<le> real (unat maxLoss) * 2 powr of_int (extractExp b - 1075) \<and>
    (extractExp a \<ge> extractExp b \<longrightarrow> a' = float_value a) \<and> (extractExp b \<ge> extractExp a \<longrightarrow> b' = float_value b))"
proof -
  note r = assms(1) [unfolded safeAdd64_Inr]
  note ulps = own_ulp [OF assms(2)] own_ulp [OF assms(3)]
  have nonneg: "0 \<le> real (unat maxLoss) * 2 powr x" for x by (rule mult_nonneg_nonneg [OF of_nat_0_le_iff powr_ge_zero])
  consider "extractExp b < extractExp a" | "extractExp a < extractExp b" | "extractExp a = extractExp b" by linarith
  then show ?thesis
  proof cases
    case 1
    then have m: "max (extractExp a) (extractExp b) = extractExp a" by simp
    have d: "extractExp a - extractExp b \<le> 51" "low_bits (nat (extractExp a - extractExp b)) b \<le> maxLoss" using r 1 by simp_all
    obtain b' where b': "multiple_of b' (2 powr of_int (extractExp a - 1075))"
      "\<bar>float_value b - b'\<bar> \<le> real (unat maxLoss) * 2 powr of_int (extractExp b - 1075)"
      by (rule split_at_ulp [OF assms(3) 1 d])
    show ?thesis unfolding m
      by (rule conjI, use r in simp, rule exI [of _ "float_value a"], rule exI [of _ b']) (use r ulps b' 1 nonneg in simp)
  next
    case 2
    then have m: "max (extractExp a) (extractExp b) = extractExp b" by simp
    have d: "extractExp b - extractExp a \<le> 51" "low_bits (nat (extractExp b - extractExp a)) a \<le> maxLoss" using r 2 by simp_all
    obtain a' where a': "multiple_of a' (2 powr of_int (extractExp b - 1075))"
      "\<bar>float_value a - a'\<bar> \<le> real (unat maxLoss) * 2 powr of_int (extractExp a - 1075)"
      by (rule split_at_ulp [OF assms(2) 2 d])
    show ?thesis unfolding m
      by (rule conjI, use r in simp, rule exI [of _ a'], rule exI [of _ "float_value b"]) (use r ulps a' 2 nonneg in simp)
  next
    case 3
    then have m: "max (extractExp a) (extractExp b) = extractExp a" by simp
    show ?thesis unfolding m
      by (rule conjI, use r in simp, rule exI [of _ "float_value a"], rule exI [of _ "float_value b"]) (use r ulps 3 nonneg in simp)
  qed
qed

theorem safeAdd64_loss_witness:
  "\<exists>b'. multiple_of b' (2 powr of_int (max (extractExp 0x4010000000000000) (extractExp 0x3FF0000000000003) - 1075)) \<and>
    \<bar>float_value 0x3FF0000000000003 - b'\<bar> \<le> real (unat (4 :: uint64)) * 2 powr of_int (extractExp 0x3FF0000000000003 - 1075)"
proof -
  have "safeAdd64 (\<lambda>a b. a) 0x4010000000000000 0x3FF0000000000003 4 = Inr 0x4010000000000000"
    "is_normal 0x4010000000000000" "is_normal 0x3FF0000000000003"
    by code_simp+
  from safeAdd64_loss [OF this] show ?thesis by blast
qed

text \<open>The significand of a double has 53 bits.\<close>

lemma odd_significand:
  assumes "odd x" "2 ^ 53 < x"
  shows "\<bar>float_value f\<bar> \<noteq> real x * 2 powr of_int k"
proof
  let ?d = "max (extractExp f) 1 - 1075"
  assume "\<bar>float_value f\<bar> = real x * 2 powr of_int k"
  then have v: "real (significand f) * 2 powr of_int ?d = real x * 2 powr of_int k" by (simp add: float_value_def abs_mult)
  have s: "significand f < x" using significand_less [of f] assms(2) by linarith
  show False
  proof (cases "?d \<le> k")
    case True
    then have "(2 :: real) powr of_int ?d \<le> 2 powr of_int k" by (intro powr_mono) (simp_all only: of_int_le_iff)
    then have "real (significand f) * 2 powr of_int ?d \<le> real (significand f) * 2 powr of_int k" by (intro mult_left_mono) simp_all
    also have "\<dots> < real x * 2 powr of_int k" using s by (intro mult_strict_right_mono) simp_all
    finally show False using v by simp
  next
    case False
    let ?m = "nat (?d - k)"
    have "real_of_int ?d = real ?m + of_int k" using False by simp
    then have "(2 :: real) powr of_int ?d = 2 ^ ?m * 2 powr of_int k" by (simp only: powr_add two_power)
    then have "real (significand f) * 2 ^ ?m * 2 powr of_int k = real x * 2 powr of_int k" using v by (simp only: mult.assoc)
    then have "real (significand f * 2 ^ ?m) = real x" by simp
    then have "significand f * 2 ^ ?m = x" by (simp only: of_nat_eq_iff)
    moreover have "0 < ?m" using False by simp
    ultimately show False using assms(1) by auto
  qed
qed

text \<open>C30: An addition is accepted as exact although no double has the value of the sum: the check looks only at the digits
  that are lost when the smaller number is shifted, not at those lost by the carry. Adding zero is refused.\<close>

theorem inexact_sum_accepted:
  "exact_addf64 add 0x3FF0000000000000 0x3FF0000000000001 = Inr (add 0x3FF0000000000000 0x3FF0000000000001) \<and>
   (\<forall>f. float_value f \<noteq> float_value 0x3FF0000000000000 + float_value 0x3FF0000000000001) \<and>
   exact_addf64 add 0x3FF0000000000000 0 = Inl Underflow_error"
proof -
  have e: "extractExp 0x3FF0000000000000 = 1023" "extractExp 0x3FF0000000000001 = 1023" "extractExp 0 = 0" by code_simp+
  have s: "significand 0x3FF0000000000000 = 2 ^ 52" "significand 0x3FF0000000000001 = 2 ^ 52 + 1"
    "sign_of 0x3FF0000000000000 = 1" "sign_of 0x3FF0000000000001 = 1"
    by (simp_all add: significand_def e fraction_bits_def sign_of_def)
  have sum: "float_value 0x3FF0000000000000 + float_value 0x3FF0000000000001 = real (2 ^ 53 + 1) * 2 powr of_int (- 52)"
    unfolding float_value_def s e by simp
  have "float_value f \<noteq> float_value 0x3FF0000000000000 + float_value 0x3FF0000000000001" for f
    using odd_significand [of "2 ^ 53 + 1" f "- 52"] unfolding sum by fastforce
  then show ?thesis by (simp add: exact_addf64_def safeAdd64_def e)
qed

text \<open>For subnormal numbers the bound of truncation is off by a factor of two.\<close>

theorem subnormal_truncation_off:
  "truncate_float64 2 1073 = Inr 0 \<and> \<bar>float_value 0 - float_value 2\<bar> = 2 powr (- 1073)"
proof -
  have "truncate_float64 2 1073 = Inr 0" by code_simp
  moreover have "float_value 2 = 2 * 2 powr (- 1074)" 
    by (simp add: float_value_def significand_def fraction_bits_def extractExp_def sign_of_def)
  moreover have "2 * 2 powr (- 1074) = (2 powr (- 1073) :: real)"
    using powr_add [of 2 1 "- 1074 :: real"] by simp
  ultimately show ?thesis by (simp add: float_value_def significand_def fraction_bits_def extractExp_def)
qed

end
