(* ===== verification/Crypto_System.thy ===== *)
theory Crypto_System
  imports Processor
begin

text \<open>
  Signatures, \<^verbatim>\<open>src/util/crypto/CryptoSystem.cpp\<close>: BLS signatures over a pairing. The PBC library and the hash function of
  OpenSSL are not part of the source: a \<open>pairing\<close> holds the functions of the library that the class calls, and
  \<open>pairing_laws\<close> what it relies on.
\<close>

section \<open>The library\<close>

record ('z, 'a, 'b, 't) pairing =
  zr_length :: nat
  g1_compressed_length :: nat
  g2_compressed_length :: nat
  g2_length :: nat
  zr_to_bytes :: "'z \<Rightarrow> byte list"
  zr_from_bytes :: "byte list \<Rightarrow> 'z"
  g1_to_compressed :: "'a \<Rightarrow> byte list"
  g1_from_compressed :: "byte list \<Rightarrow> 'a"
  g2_to_compressed :: "'b \<Rightarrow> byte list"
  g2_from_compressed :: "byte list \<Rightarrow> 'b"
  g2_to_bytes :: "'b \<Rightarrow> byte list"
  g2_from_bytes :: "byte list \<Rightarrow> 'b \<times> nat"
  g1_from_hash :: "byte list \<Rightarrow> 'a"
  g1_pow :: "'a \<Rightarrow> 'z \<Rightarrow> 'a"
  g2_pow :: "'b \<Rightarrow> 'z \<Rightarrow> 'b"
  apply_pairing :: "'a \<Rightarrow> 'b \<Rightarrow> 't"
  sha3_256 :: "string \<Rightarrow> byte list"

text \<open>What the documentation of the library promises: elements have encodings of a fixed length, from the first bytes of which they are
  read back, and the pairing is bilinear.\<close>

definition pairing_laws :: "('z, 'a, 'b, 't) pairing \<Rightarrow> bool" where
  "pairing_laws P \<longleftrightarrow>
    (\<forall>z. length (zr_to_bytes P z) = zr_length P) \<and> (\<forall>z rest. zr_from_bytes P (zr_to_bytes P z @ rest) = z) \<and>
    (\<forall>x. length (g1_to_compressed P x) = g1_compressed_length P) \<and>
    (\<forall>x rest. g1_from_compressed P (g1_to_compressed P x @ rest) = x) \<and>
    (\<forall>y. length (g2_to_compressed P y) = g2_compressed_length P) \<and>
    (\<forall>y rest. g2_from_compressed P (g2_to_compressed P y @ rest) = y) \<and>
    (\<forall>x y z. apply_pairing P (g1_pow P x z) y = apply_pairing P x (g2_pow P y z))"

section \<open>The class\<close>

record ('z, 'a, 'b, 't) crypto_system =
  cs_pairing :: "('z, 'a, 'b, 't) pairing"
  cs_g :: 'b

definition secret_key_size_k :: nat where "secret_key_size_k = 20"

text \<open>The generator: read from its file, or a random one that is written to the file. \<open>writable\<close>: the file can be created.\<close>

definition read_generator ::
  "('z, 'a, 'b, 't) pairing \<Rightarrow> 'b \<Rightarrow> bool \<Rightarrow> byte list option \<Rightarrow> ('b \<times> byte list) result" where
  "read_generator P random writable gFile =
    (case gFile of
       None \<Rightarrow> if writable then Inr (random, take (g2_length P) (g2_to_bytes P random)) else Inl Undefined_behaviour
     | Some bytes \<Rightarrow>
         (let buf = take (g2_length P) bytes
          in if length buf \<noteq> g2_length P \<or> snd (g2_from_bytes P buf) \<noteq> g2_length P then Inl Runtime_error
             else Inr (fst (g2_from_bytes P buf), bytes)))"

text \<open>The constructor, on the contents of the two files; \<open>init\<close> makes a pairing of the parameters.\<close>

definition CryptoSystem ::
  "(byte list \<Rightarrow> ('z, 'a, 'b, 't) pairing) \<Rightarrow> 'b \<Rightarrow> bool \<Rightarrow> byte list option \<Rightarrow> byte list option
   \<Rightarrow> (('z, 'a, 'b, 't) crypto_system \<times> byte list) result" where
  "CryptoSystem init random writable paramsFile gFile =
    (case paramsFile of
       None \<Rightarrow> Inl Runtime_error
     | Some params \<Rightarrow>
         (let param = take 1024 params; P = init param
          in if param = [] then Inl Runtime_error
             else
               bind_result (read_generator P random writable gFile) (\<lambda>(g, gFile').
               bind_result (require (g2_compressed_length P \<le> public_key_size_k) Length_error) (\<lambda>_.
               bind_result (require (zr_length P \<le> secret_key_size_k) Length_error) (\<lambda>_.
               bind_result (require (g1_compressed_length P \<le> signature_size_k) Length_error) (\<lambda>_.
                 Inr (\<lparr>cs_pairing = P, cs_g = g\<rparr>, gFile')))))))"

text \<open>The keys are written into the arrays \<open>sk\<close> and \<open>pk\<close>; \<open>random\<close> is the secret.\<close>

definition generateKeyPair ::
  "('z, 'a, 'b, 't) crypto_system \<Rightarrow> 'z \<Rightarrow> byte list \<Rightarrow> byte list \<Rightarrow> byte list \<times> byte list" where
  "generateKeyPair cs random sk pk =
    (overwrite 0 (zr_to_bytes (cs_pairing cs) random) sk,
     overwrite 0 (g2_to_compressed (cs_pairing cs) (g2_pow (cs_pairing cs) (cs_g cs) random)) pk)"

definition getDigest :: "('z, 'a, 'b, 't) crypto_system \<Rightarrow> string \<Rightarrow> byte list" where
  "getDigest cs msg = sha3_256 (cs_pairing cs) msg"

text \<open>\<open>result\<close> is the array that the signature is written to, which is not initialised.\<close>

definition CryptoSystem_sign :: "('z, 'a, 'b, 't) crypto_system \<Rightarrow> byte list \<Rightarrow> string \<Rightarrow> byte list \<Rightarrow> byte list" where
  "CryptoSystem_sign cs result msg sk =
    (let P = cs_pairing cs; secretKey = zr_from_bytes P sk; hash = g1_from_hash P (getDigest cs msg)
     in overwrite 0 (g1_to_compressed P (g1_pow P hash secretKey)) result)"

definition CryptoSystem_verify :: "('z, 'a, 'b, 't) crypto_system \<Rightarrow> string \<Rightarrow> byte list \<Rightarrow> byte list \<Rightarrow> bool" where
  "CryptoSystem_verify cs msg sig pk =
    (let P = cs_pairing cs; sigElem = g1_from_compressed P sig; publicKey = g2_from_compressed P pk;
         hash = g1_from_hash P (getDigest cs msg)
     in apply_pairing P sigElem (cs_g cs) = apply_pairing P hash publicKey)"


section \<open>Signatures of the owner of a key are accepted\<close>

lemma overwrite_front: "overwrite 0 xs buf = xs @ drop (length xs) buf"
  by (simp add: overwrite_def)

lemma constructed:
  assumes "CryptoSystem init random writable paramsFile gFile = Inr (cs, gFile')"
  shows "\<exists>params. paramsFile = Some params \<and> cs_pairing cs = init (take 1024 params)"
    "g2_compressed_length (cs_pairing cs) \<le> public_key_size_k" "zr_length (cs_pairing cs) \<le> secret_key_size_k"
    "g1_compressed_length (cs_pairing cs) \<le> signature_size_k"
  using assms by (auto simp: CryptoSystem_def Let_def bind_result_Inr_iff require_Inr_iff split: option.splits if_splits)

lemma verify_signed:
  assumes "pairing_laws (cs_pairing cs)" "generateKeyPair cs secret sk0 pk0 = (sk, pk)"
  shows "CryptoSystem_verify cs msg sig pk \<longleftrightarrow>
    apply_pairing (cs_pairing cs) (g1_from_compressed (cs_pairing cs) sig) (cs_g cs) =
    apply_pairing (cs_pairing cs) (g1_from_compressed (cs_pairing cs) (CryptoSystem_sign cs buf msg sk)) (cs_g cs)"
proof -
  let ?P = "cs_pairing cs"
  have sk: "zr_from_bytes ?P sk = secret" and pk: "g2_from_compressed ?P pk = g2_pow ?P (cs_g cs) secret"
    using assms by (auto simp: generateKeyPair_def overwrite_front pairing_laws_def)
  have "g1_from_compressed ?P (CryptoSystem_sign cs buf msg sk) = g1_pow ?P (g1_from_hash ?P (getDigest cs msg)) secret"
    using assms(1) by (simp add: CryptoSystem_sign_def Let_def sk overwrite_front pairing_laws_def)
  then show ?thesis using assms(1) by (simp add: CryptoSystem_verify_def Let_def pk pairing_laws_def)
qed

text \<open>C17: The constructed system produces keys and signatures that fit into their arrays, a signature made with a secret key is
  accepted for its message with the corresponding public key, and when the pairing with the generator tells the elements
  of the group apart, no encoding of another element is.\<close>

theorem signatures_verify:
  assumes "CryptoSystem init random writable paramsFile gFile = Inr (cs, gFile')" "pairing_laws (cs_pairing cs)"
    and "generateKeyPair cs secret sk0 pk0 = (sk, pk)" "length sk0 = secret_key_size_k" "length pk0 = public_key_size_k"
    and "length buf = signature_size_k"
  shows "length sk = secret_key_size_k \<and> length pk = public_key_size_k \<and> length (CryptoSystem_sign cs buf msg sk) = signature_size_k \<and>
    CryptoSystem_verify cs msg (CryptoSystem_sign cs buf msg sk) pk \<and>
    (inj (\<lambda>x. apply_pairing (cs_pairing cs) x (cs_g cs)) \<longrightarrow> CryptoSystem_verify cs msg sig pk \<longrightarrow>
      g1_from_compressed (cs_pairing cs) sig = g1_from_compressed (cs_pairing cs) (CryptoSystem_sign cs buf msg sk))"
proof -
  have len: "length sk = secret_key_size_k" "length pk = public_key_size_k" "length (CryptoSystem_sign cs buf msg sk) = signature_size_k"
    using assms(2-6) constructed(2-4) [OF assms(1)]
    by (auto simp: generateKeyPair_def CryptoSystem_sign_def Let_def overwrite_front pairing_laws_def)
  show ?thesis using len verify_signed [OF assms(2,3), of msg _ buf] by (auto dest: injD)
qed

section \<open>Signatures in a block\<close>

text \<open>C18: A message of a request is taken as signed by the owner of its account exactly when the account's nonce is not zero and the
  signature verifies with the key in the account's chunk: what the owner of the key has signed is accepted, and no message of
  an account that is owned by an application.\<close>

theorem owner_signature_accepted:
  assumes chunk: "getChunk (rc_chunkIndex ctx) (FullID arg_app_id_g (LongLongID (st_issuerAccount msg) nonce_chunk_local_id_g)) = Inr q"
    and fits: "wf_chunk (rc_heap ctx q)" "decision_nonce_size_g + public_key_size_k \<le> length (ch_content (rc_heap ctx q))"
    and key: "slice_of decision_nonce_size_g public_key_size_k (ch_content (rc_heap ctx q)) = pk"
    and crypto: "rc_verify ctx = CryptoSystem_verify cs" "pairing_laws (cs_pairing cs)" "generateKeyPair cs secret sk0 pk0 = (sk, pk)"
  shows "verifies ctx msg =
      Inr (le_value (slice_of 0 decision_nonce_size_g (ch_content (rc_heap ctx q))) \<noteq> 0 \<and> CryptoSystem_verify cs (st_message msg) (st_signature msg) pk) \<and>
    (st_signature msg = CryptoSystem_sign cs buf (st_message msg) sk \<longrightarrow>
      verifies ctx msg = Inr (le_value (slice_of 0 decision_nonce_size_g (ch_content (rc_heap ctx q))) \<noteq> 0))"
proof -
  have len: "length (ch_content (rc_heap ctx q)) = unat (ch_capacity (rc_heap ctx q))" using fits(1) by (simp add: wf_chunk_def)
  have "getContentPointer (rc_heap ctx q) 0 (word_of_nat (decision_nonce_size_g + public_key_size_k)) = Inr 0"
  proof -
    have "67 \<le> unat (ch_capacity (rc_heap ctx q))"
      using fits(2) len by (simp add: decision_nonce_size_g_def public_key_size_k_def)
    then have "67 \<le> uint (ch_capacity (rc_heap ctx q))" using uint_nat [of "ch_capacity (rc_heap ctx q)"] by linarith
    then show ?thesis by (simp add: getContentPointer_def decision_nonce_size_g_def public_key_size_k_def)
  qed
  moreover have "load_bytes (ch_content (rc_heap ctx q)) 0 decision_nonce_size_g = Inr (slice_of 0 decision_nonce_size_g (ch_content (rc_heap ctx q)))"
    using fits(2) by (simp add: load_bytes_def)
  moreover have "load_bytes (ch_content (rc_heap ctx q)) (0 + decision_nonce_size_g) public_key_size_k = Inr pk"
    using fits(2) key by (simp add: load_bytes_def)
  ultimately have v: "verifies ctx msg =
      Inr (le_value (slice_of 0 decision_nonce_size_g (ch_content (rc_heap ctx q))) \<noteq> 0 \<and> CryptoSystem_verify cs (st_message msg) (st_signature msg) pk)"
    by (simp add: verifies_def chunk crypto(1) del: add_0)
  have "CryptoSystem_verify cs (st_message msg) (CryptoSystem_sign cs buf (st_message msg) sk) pk"
    using verify_signed [OF crypto(2,3)] by blast
  then show ?thesis using v by simp
qed

section \<open>Samples\<close>

text \<open>A pairing on the bytes: multiplication modulo 256.\<close>

definition byte_pairing :: "(byte, byte, byte, byte) pairing" where
  "byte_pairing = \<lparr>zr_length = 1, g1_compressed_length = 1, g2_compressed_length = 1, g2_length = 1,
     zr_to_bytes = (\<lambda>z. [z]), zr_from_bytes = hd, g1_to_compressed = (\<lambda>x. [x]), g1_from_compressed = hd,
     g2_to_compressed = (\<lambda>y. [y]), g2_from_compressed = hd, g2_to_bytes = (\<lambda>y. [y]), g2_from_bytes = (\<lambda>b. (hd b, 1)),
     g1_from_hash = sum_list, g1_pow = (*), g2_pow = (*), apply_pairing = (*), sha3_256 = map of_char\<rparr>"

lemma byte_pairing_laws: "pairing_laws byte_pairing"
  by (simp add: pairing_laws_def byte_pairing_def mult_ac)

definition sample_system :: "(byte, byte, byte, byte) crypto_system" where
  "sample_system = \<lparr>cs_pairing = byte_pairing, cs_g = 1\<rparr>"

lemma sample_constructed: "CryptoSystem (\<lambda>_. byte_pairing) 1 True (Some [0]) None = Inr (sample_system, [1])"
  by (simp add: CryptoSystem_def read_generator_def byte_pairing_def sample_system_def public_key_size_k_def
      secret_key_size_k_def signature_size_k_def)

definition no_bytes :: "nat \<Rightarrow> byte list" where
  "no_bytes n = replicate n 0"

theorem signatures_verify_witness:
  "CryptoSystem_verify sample_system ''pay'' (CryptoSystem_sign sample_system (no_bytes 65) ''pay'' (overwrite 0 [7] (no_bytes 20))) (overwrite 0 [7] (no_bytes 65))"
proof -
  have p: "pairing_laws (cs_pairing sample_system)" using byte_pairing_laws by (simp add: sample_system_def)
  have k: "generateKeyPair sample_system 7 (no_bytes 20) (no_bytes 65) = (overwrite 0 [7] (no_bytes 20), overwrite 0 [7] (no_bytes 65))"
    by (simp add: generateKeyPair_def sample_system_def byte_pairing_def)
  have l: "length (no_bytes 20) = secret_key_size_k" "length (no_bytes 65) = public_key_size_k" "length (no_bytes 65) = signature_size_k"
    by (simp_all add: no_bytes_def secret_key_size_k_def public_key_size_k_def signature_size_k_def)
  from signatures_verify [OF sample_constructed p k l] show ?thesis by blast
qed

definition owned_chunk :: chunk where
  "owned_chunk = \<lparr>ch_content = [1, 0] @ overwrite 0 [7] (no_bytes 65), ch_size = 67, ch_capacity = 67, ch_writable = False\<rparr>"

definition owned_context :: request_context where
  "owned_context = \<lparr>rc_heap = (\<lambda>_. owned_chunk),
     rc_chunkIndex = \<lparr>ix_writablePages = [], ix_chunks = [FullID arg_app_id_g (LongLongID 9 nonce_chunk_local_id_g) \<mapsto> 3],
       ix_sizeBounds = \<lparr>osm_keys = [], osm_values = []\<rparr>\<rparr>,
     rc_appIndex = Map.empty, rc_verify = CryptoSystem_verify sample_system\<rparr>"

theorem owner_signature_accepted_witness:
  "verifies owned_context \<lparr>st_issuerAccount = 9, st_message = ''pay'',
     st_signature = CryptoSystem_sign sample_system (no_bytes 65) ''pay'' (overwrite 0 [7] (no_bytes 20))\<rparr> = Inr True"
proof -
  let ?m = "\<lparr>st_issuerAccount = 9, st_message = ''pay'',
     st_signature = CryptoSystem_sign sample_system (no_bytes 65) ''pay'' (overwrite 0 [7] (no_bytes 20))\<rparr>"
  have c: "getChunk (rc_chunkIndex owned_context) (FullID arg_app_id_g (LongLongID (st_issuerAccount ?m) nonce_chunk_local_id_g)) = Inr 3"
    by (simp add: owned_context_def getChunk_def)
  have f: "wf_chunk (rc_heap owned_context 3)" "decision_nonce_size_g + public_key_size_k \<le> length (ch_content (rc_heap owned_context 3))"
    "slice_of decision_nonce_size_g public_key_size_k (ch_content (rc_heap owned_context 3)) = overwrite 0 [7] (no_bytes 65)"
    "le_value (slice_of 0 decision_nonce_size_g (ch_content (rc_heap owned_context 3))) \<noteq> 0"
    by code_simp+
  have p: "pairing_laws (cs_pairing sample_system)" using byte_pairing_laws by (simp add: sample_system_def)
  have k: "generateKeyPair sample_system 7 (no_bytes 20) (no_bytes 65) = (overwrite 0 [7] (no_bytes 20), overwrite 0 [7] (no_bytes 65))"
    by (simp add: generateKeyPair_def sample_system_def byte_pairing_def)
  have "rc_verify owned_context = CryptoSystem_verify sample_system" by (simp add: owned_context_def)
  from conjunct2 [OF owner_signature_accepted [OF c f(1-3) this p k, of "no_bytes 65"]] f(4) show ?thesis by simp
qed

end
