(* ===== verification/Validator.thy ===== *)
theory Validator
  imports Processor
begin

text \<open>
  The validation of a block, \<^verbatim>\<open>src/validator/BlockValidator.cpp\<close>, on top of the storage and the processing of
  requests, with what it gets from \<^verbatim>\<open>src/validator/BlockLoader.h\<close> and \<^verbatim>\<open>src/storage/PageLoader.h\<close>, and the loading of
  applications, \<^verbatim>\<open>src/storage/AppLoader.cpp\<close>.
\<close>

section \<open>Loading applications\<close>

text \<open>The system calls of \<^verbatim>\<open>AppLoader::load\<close>: the first and the second \<^verbatim>\<open>dlopen\<close> of the library of an application, whether
  the compiler could be started, and what \<^verbatim>\<open>dlsym\<close> gives for a handle (\<open>None\<close>: \<^verbatim>\<open>dlerror\<close> reports an
  error; a null symbol without an error is left out).\<close>

record 'h linker =
  lk_dlopen :: "uint64 \<Rightarrow> 'h option"
  lk_popen :: "uint64 \<Rightarrow> bool"
  lk_dlopen_again :: "uint64 \<Rightarrow> 'h option"
  lk_dlsym :: "'h \<Rightarrow> dispatcher option"

definition AppLoader_load :: "'h linker \<Rightarrow> uint64 \<Rightarrow> dispatcher result" where
  "AppLoader_load L appID =
    (let handle = (case lk_dlopen L appID of
                     Some h \<Rightarrow> Some h
                   | None \<Rightarrow> if lk_popen L appID then lk_dlopen_again L appID else None)
     in case handle of
          None \<Rightarrow> Inl Runtime_error
        | Some h \<Rightarrow>
            (case lk_dlsym L h of
               None \<Rightarrow> Inl Runtime_error
             | Some d \<Rightarrow> Inr d))"

section \<open>The loaders\<close>

text \<open>A delta without bytes, which is what \<^verbatim>\<open>getDelta\<close> returns, is accepted by every page, so that the loop of
  \<^verbatim>\<open>updatePage\<close> ends in its first round.\<close>

definition getDelta :: "byte list \<times> int" where
  "getDelta = ([], 0)"

definition updatePage :: "int \<Rightarrow> byte list \<Rightarrow> page \<times> store \<Rightarrow> (page \<times> store) result" where
  "updatePage blockNumber pageID ps = Page_applyDelta pageID (fst getDelta) (snd getDelta) blockNumber ps"

text \<open>What a block loader gives for the current block; a stream is the list of its requests.\<close>

record block_loader =
  bl_requestStreams :: "nat \<Rightarrow> app_request_info list list"
  bl_numOfRequests :: nat
  bl_readonlyPageList :: "byte list list"
  bl_writablePageList :: "byte list list"
  bl_proposedSizeBounds :: "(FullID, ChunkBoundsInfo) ordered_map"
  bl_migrationList :: "migration_info list"
  bl_responseListDigest :: int

text \<open>The loader in the source returns empty values.\<close>

definition BlockLoader :: block_loader where
  "BlockLoader = \<lparr>bl_requestStreams = (\<lambda>_. []), bl_numOfRequests = 0, bl_readonlyPageList = [], bl_writablePageList = [],
     bl_proposedSizeBounds = \<lparr>osm_keys = [], osm_values = []\<rparr>, bl_migrationList = [], bl_responseListDigest = 0\<rparr>"

section \<open>Validation\<close>

definition calculateDigest :: "(int \<times> string) list \<Rightarrow> int" where
  "calculateDigest responses = 0"

text \<open>\<^verbatim>\<open>hardware_concurrency\<close> is an argument.\<close>

definition validator_workers :: "nat \<Rightarrow> int \<Rightarrow> nat" where
  "validator_workers hardware_concurrency workersCount =
    (if workersCount < 1 then hardware_concurrency * 2 else nat workersCount)"

text \<open>The pages that the keys of a list stand for.\<close>

fun pages_at :: "page_cache \<Rightarrow> (FullID \<times> byte list) list \<Rightarrow> (FullID \<times> page) list result" where
  "pages_at cache [] = Inr []"
| "pages_at cache ((i, k) # ks) =
    bind_result (cached cache k) (\<lambda>pg. bind_result (pages_at cache ks) (\<lambda>r. Inr ((i, pg) # r)))"

text \<open>The two calls of \<^verbatim>\<open>preparePages\<close> are arguments of one constructor call: the compiler chooses which comes first.\<close>

definition prepare_index ::
  "bool \<Rightarrow> block_loader \<Rightarrow> int \<Rightarrow> page_cache \<times> store \<Rightarrow> (chunk_index \<times> heap) result" where
  "prepare_index readonlyFirst loader previous cs =
    (let prepare = (\<lambda>pages. preparePages (updatePage previous) previous pages (bl_migrationList loader));
         fst_list = (if readonlyFirst then bl_readonlyPageList loader else bl_writablePageList loader);
         snd_list = (if readonlyFirst then bl_writablePageList loader else bl_readonlyPageList loader)
     in bind_result (prepare fst_list cs) (\<lambda>(ks1, cs1).
        bind_result (prepare snd_list cs1) (\<lambda>(ks2, cache, st).
        bind_result (pages_at cache (if readonlyFirst then ks1 else ks2)) (\<lambda>readonly.
        bind_result (pages_at cache (if readonlyFirst then ks2 else ks1)) (\<lambda>writable.
          ChunkIndex readonly writable (bl_proposedSizeBounds loader) (st_heap st))))))"

text \<open>A block is invalid when a \<^verbatim>\<open>BlockError\<close> is caught; every other exception means that its validity could not be
  checked. Without workers \<^verbatim>\<open>runAll\<close> divides by zero. The index of applications is the one the constructor makes, without any application. \<open>execute\<close> stands for
  one outcome of the parallel execution (theory \<open>Scheduler\<close>), \<open>None\<close> for a run that does not end.\<close>

definition block_verdict :: "bool result option \<Rightarrow> bool result option" where
  "block_verdict r = (case r of Some (Inl Block_error) \<Rightarrow> Some (Inr False) | _ \<Rightarrow> r)"

definition conditionalValidate ::
  "(string \<Rightarrow> byte list \<Rightarrow> byte list \<Rightarrow> bool) \<Rightarrow> (dag_request scheduler \<Rightarrow> heap \<Rightarrow> (int \<times> string) list result option) \<Rightarrow>
   bool \<Rightarrow> nat \<Rightarrow> block_loader \<Rightarrow> int \<Rightarrow> page_cache \<times> store \<Rightarrow> bool result option" where
  "conditionalValidate crypto_verify execute readonlyFirst workersCount loader previous cs =
    block_verdict
     (case prepare_index readonlyFirst loader previous cs of
        Inl e \<Rightarrow> Some (Inl e)
      | Inr (ix, h) \<Rightarrow>
          if workersCount = 0 then Some (Inl Undefined_behaviour) else
          (let ctx = \<lparr>rc_heap = h, rc_chunkIndex = ix, rc_appIndex = Map.empty, rc_verify = crypto_verify\<rparr>
           in case loadRequests ctx (bl_requestStreams loader workersCount) (bl_numOfRequests loader) workersCount
                     (RequestScheduler (bl_numOfRequests loader)) of
                Inl e \<Rightarrow> Some (Inl e)
              | Inr s \<Rightarrow>
                  (case checkDependencyGraph s ix workersCount of
                     None \<Rightarrow> None
                   | Some (Inl e) \<Rightarrow> Some (Inl e)
                   | Some (Inr _) \<Rightarrow>
                       (case execute s h of
                          None \<Rightarrow> None
                        | Some (Inl e) \<Rightarrow> Some (Inl e)
                        | Some (Inr responses) \<Rightarrow>
                            Some (Inr (calculateDigest responses = bl_responseListDigest loader))))))"

section \<open>Which blocks are accepted\<close>

lemma updatePage_id [simp]: "updatePage blockNumber pageID ps = Inr ps"
  by (simp add: updatePage_def getDelta_def Page_applyDelta_def)

lemma verdict_true: "block_verdict r = Some (Inr True) \<longleftrightarrow> r = Some (Inr True)"
  by (auto simp: block_verdict_def split: option.splits sum.splits exn.splits)

lemma add_requests_needs:
  "add_requests ctx ds s = Inr s' \<Longrightarrow> d \<in> set ds \<Longrightarrow> \<exists>t t'. addRequest ctx d t = Inr t'"
  by (induction ds arbitrary: s) (auto simp: bind_result_Inr_iff)

lemma no_application:
  assumes "addRequest ctx d t = Inr t'" "rc_appIndex ctx = Map.empty"
  shows "ri_appAccessList d = []"
proof -
  obtain apps where "getAppTableFor ctx (ri_appAccessList d) = Inr apps"
    using assms(1) by (auto simp: addRequest_def DagNode_def Let_def bind_result_Inr_iff split: if_splits)
  then show ?thesis using assms(2)
    by (cases "ri_appAccessList d") (auto simp: getAppTableFor_def buildAppTable_def bind_result_Inr_iff)
qed

text \<open>C8: A block is accepted only when its requests have been loaded, its execution graph has been accepted and its proposed
  digest is the zero digest, whatever the requests return; and none of its requests that are loaded may call an
  application: the validator never prepares an application, so that every block with a useful request is rejected.\<close>

theorem accepted_block_calls_nothing:
  assumes "conditionalValidate crypto_verify execute readonlyFirst w loader previous cs = Some (Inr True)"
  shows "\<exists>ix h s. prepare_index readonlyFirst loader previous cs = Inr (ix, h) \<and>
    loadRequests \<lparr>rc_heap = h, rc_chunkIndex = ix, rc_appIndex = Map.empty, rc_verify = crypto_verify\<rparr>
      (bl_requestStreams loader w) (bl_numOfRequests loader) w (RequestScheduler (bl_numOfRequests loader)) = Inr s \<and>
    checkDependencyGraph s ix w = Some (Inr ()) \<and> bl_responseListDigest loader = 0 \<and>
    (all_run (length (bl_requestStreams loader w)) w \<longrightarrow>
      (\<forall>d \<in> set (concat (bl_requestStreams loader w)). ri_appAccessList d = []))"
proof -
  obtain ix h where ix: "prepare_index readonlyFirst loader previous cs = Inr (ix, h)"
    using assms by (auto simp: conditionalValidate_def verdict_true split: sum.splits)
  let ?ctx = "\<lparr>rc_heap = h, rc_chunkIndex = ix, rc_appIndex = Map.empty, rc_verify = crypto_verify\<rparr>"
  let ?streams = "bl_requestStreams loader w"
  obtain s where s: "loadRequests ?ctx ?streams (bl_numOfRequests loader) w (RequestScheduler (bl_numOfRequests loader)) = Inr s"
    using assms by (auto simp: conditionalValidate_def verdict_true ix Let_def split: sum.splits if_splits)
  have rest: "checkDependencyGraph s ix w = Some (Inr ())" "bl_responseListDigest loader = 0"
    using assms by (auto simp: conditionalValidate_def verdict_true ix s Let_def calculateDigest_def
        split: option.splits sum.splits if_splits)
  have "ri_appAccessList d = []" if run: "all_run (length ?streams) w" and d: "d \<in> set (concat ?streams)" for d
  proof -
    have "map (\<lambda>i. ?streams ! i) (runAll_tasks (length ?streams) w) = ?streams"
      unfolding all_run_upt [OF run] by (rule map_nth)
    then obtain s1 where "add_requests ?ctx (concat ?streams) (RequestScheduler (bl_numOfRequests loader)) = Inr s1"
      using s by (auto simp: loadRequests_def bind_result_Inr_iff)
    from add_requests_needs [OF this d] obtain t t' where "addRequest ?ctx d t = Inr t'" by blast
    then show ?thesis by (rule no_application) simp
  qed
  then show ?thesis using ix s rest by blast
qed

text \<open>With the loader of the source every block is accepted, in whichever state the cache is.\<close>

lemma every_block_accepted:
  assumes "\<And>s h. \<exists>rs. execute s h = Some (Inr rs)" "0 < w"
  shows "conditionalValidate crypto_verify execute readonlyFirst w BlockLoader previous cs = Some (Inr True)"
proof -
  have p: "prepare_index readonlyFirst BlockLoader previous cs =
      Inr (\<lparr>ix_writablePages = [], ix_chunks = Map.empty, ix_sizeBounds = \<lparr>osm_keys = [], osm_values = []\<rparr>\<rparr>, st_heap (snd cs))"
    by (cases cs) (simp add: prepare_index_def BlockLoader_def preparePages_def ChunkIndex_def Let_def)
  obtain m where m: "sortAccessBlocks (RequestScheduler 0 :: dag_request scheduler) w = Inr m" "osm_keys m = []"
    using assms(2) by (auto simp: sortAccessBlocks_def RequestScheduler_def merge_access_maps_def mergeAllParallel_def mergeIntervalParallel.simps
        of_entries_def)
  obtain rs where rs: "execute (RequestScheduler 0) (st_heap (snd cs)) = Some (Inr rs)" using assms(1) by blast
  have t: "runAll_tasks 0 w = []" by (simp add: runAll_tasks_upt)
  show ?thesis using m assms(2) rs
    by (simp add: conditionalValidate_def p Let_def) (simp add: loadRequests_def BlockLoader_def t checkDependencyGraph_def block_verdict_def
      calculateDigest_def)
qed


definition calling_request :: "nat \<Rightarrow> uint64 list \<Rightarrow> app_request_info" where
  "calling_request i apps = demo_info i []\<lparr>ri_appAccessList := apps\<rparr>"

definition calling_loader :: "uint64 list \<Rightarrow> block_loader" where
  "calling_loader apps = BlockLoader\<lparr>bl_requestStreams := (\<lambda>_. [[calling_request 0 apps]]), bl_numOfRequests := 1\<rparr>"

definition no_pages :: "page_cache \<times> store" where
  "no_pages = (Map.empty, \<lparr>st_heap = (\<lambda>_. Chunk_default), st_next = 0\<rparr>)"

theorem accepted_block_calls_nothing_witness:
  "conditionalValidate (\<lambda>_ _ _. False) (\<lambda>_ _. Some (Inr [])) True 1 (calling_loader []) 0 no_pages = Some (Inr True) \<and>
    ri_appAccessList (calling_request 0 []) = [] \<and>
    conditionalValidate (\<lambda>_ _ _. False) (\<lambda>_ _. Some (Inr [])) True 1 (calling_loader [7]) 0 no_pages = Some (Inr False)"
proof -
  have ok: "conditionalValidate (\<lambda>_ _ _. False) (\<lambda>_ _. Some (Inr [])) True 1 (calling_loader []) 0 no_pages = Some (Inr True)"
    by code_simp
  have no: "conditionalValidate (\<lambda>_ _ _. False) (\<lambda>_ _. Some (Inr [])) True 1 (calling_loader [7]) 0 no_pages = Some (Inr False)"
    by code_simp
  have "all_run (length (bl_requestStreams (calling_loader []) 1)) 1"
    by (auto simp: calling_loader_def all_run_def set_runAll_tasks runAll_step_def)
  with accepted_block_calls_nothing [OF ok] have "\<forall>d \<in> set (concat (bl_requestStreams (calling_loader []) 1)). ri_appAccessList d = []"
    by blast
  then have "ri_appAccessList (calling_request 0 []) = []" by (simp add: calling_loader_def)
  then show ?thesis using ok no by blast
qed

section \<open>Preparing applications\<close>

lemma load_total: "AppLoader_load L a = Inl e \<Longrightarrow> e = Runtime_error"
  by (auto simp: AppLoader_load_def Let_def split: option.splits if_splits)

lemma add_handles_loaded:
  assumes "\<forall>(a, r) \<in> set es. r = AppLoader_load L a"
  shows "\<exists>cache'. add_handles cache es = Inr cache' \<and>
    (\<forall>a. cache' a = (if cache a = None \<and> a \<in> fst ` set es
                     then Some (case AppLoader_load L a of Inr d \<Rightarrow> Some d | Inl _ \<Rightarrow> None) else cache a))"
  using assms
proof (induction es arbitrary: cache)
  case (Cons e es)
  obtain a r where e: "e = (a, r)" by (cases e)
  have r: "r = AppLoader_load L a" using Cons.prems e by simp
  let ?c = "case cache a of None \<Rightarrow> cache(a \<mapsto> (case r of Inr d \<Rightarrow> Some d | Inl _ \<Rightarrow> None)) | Some _ \<Rightarrow> cache"
  have step: "add_handles cache (e # es) = add_handles ?c es"
    using load_total [of L a] by (cases r) (auto simp: e r split: option.splits)
  obtain cache' where c: "add_handles ?c es = Inr cache'"
    "\<forall>x. cache' x = (if ?c x = None \<and> x \<in> fst ` set es
                     then Some (case AppLoader_load L x of Inr d \<Rightarrow> Some d | Inl _ \<Rightarrow> None) else ?c x)"
    using Cons.IH [of ?c] Cons.prems by auto
  then show ?case unfolding step using c by (auto simp: e r split: option.splits)
qed simp

text \<open>C25: Preparing the applications of a block never fails, keeps those that are already loaded, and adds every other one
  on the list with its dispatcher, or without one when neither its library nor its compilation can be loaded; the table of a
  request on these applications can then be built.\<close>

theorem prepared_apps_available:
  "\<exists>cache'. prepareApps (AppLoader_load L) cache apps = Inr cache' \<and>
    (\<forall>a. cache' a = (case cache a of Some h \<Rightarrow> Some h
                     | None \<Rightarrow> if a \<in> set apps then Some (case AppLoader_load L a of Inr d \<Rightarrow> Some d | Inl _ \<Rightarrow> None) else None)) \<and>
    (set declared \<subseteq> set apps \<longrightarrow> (\<exists>t. buildAppTable cache' declared = Inr t))"
proof -
  let ?es = "map (\<lambda>a. (a, AppLoader_load L a)) (filter (\<lambda>a. cache a = None) apps)"
  have "\<forall>(a, r) \<in> set ?es. r = AppLoader_load L a" by auto
  then obtain cache' where c: "add_handles cache ?es = Inr cache'"
    "\<forall>a. cache' a = (if cache a = None \<and> a \<in> fst ` set ?es
                     then Some (case AppLoader_load L a of Inr d \<Rightarrow> Some d | Inl _ \<Rightarrow> None) else cache a)"
    using add_handles_loaded by blast
  have at: "cache' a = (case cache a of Some h \<Rightarrow> Some h
                     | None \<Rightarrow> if a \<in> set apps then Some (case AppLoader_load L a of Inr d \<Rightarrow> Some d | Inl _ \<Rightarrow> None) else None)" for a
    using c(2) [rule_format, of a] by (auto simp: image_iff split: option.splits)
  have "\<exists>t. buildAppTable cache' declared = Inr t" if s: "set declared \<subseteq> set apps"
  proof -
    have "\<exists>ds. collect_dispatchers cache' ds' = Inr ds \<and> length ds = length ds'" if "set ds' \<subseteq> set apps" for ds'
      using that by (induction ds') (auto simp: at split: option.splits)
    then obtain ds where "collect_dispatchers cache' declared = Inr ds" "length ds = length declared" using s by blast
    then show ?thesis by (simp add: buildAppTable_def OrderedStaticMap_def)
  qed
  then show ?thesis using c(1) at by (auto simp: prepareApps_def)
qed


text \<open>The library of application 7 exists, that of application 8 is compiled, and nothing else can be loaded.\<close>

definition sample_linker :: "uint64 linker" where
  "sample_linker = \<lparr>lk_dlopen = [7 \<mapsto> 7], lk_popen = (\<lambda>_. True), lk_dlopen_again = [8 \<mapsto> 8],
     lk_dlsym = (\<lambda>_. Some (\<lambda>_ request. App_return 200 request))\<rparr>"

theorem prepared_apps_available_witness:
  "\<exists>cache'. prepareApps (AppLoader_load sample_linker) Map.empty [9, 7, 8] = Inr cache' \<and>
    cache' 9 = Some None \<and> cache' 8 \<noteq> Some None \<and> (\<exists>t. buildAppTable cache' [7, 9] = Inr t)"
proof -
  have "set [7, 9] \<subseteq> set [9, 7, 8 :: uint64]" by simp
  with prepared_apps_available [of sample_linker Map.empty "[9, 7, 8]" "[7, 9]"] obtain cache' where
    c: "prepareApps (AppLoader_load sample_linker) Map.empty [9, 7, 8] = Inr cache'" "\<exists>t. buildAppTable cache' [7, 9] = Inr t"
    and at: "\<And>a. cache' a = (case Map.empty a of Some h \<Rightarrow> Some h
       | None \<Rightarrow> if a \<in> set [9, 7, 8] then Some (case AppLoader_load sample_linker a of Inr d \<Rightarrow> Some d | Inl _ \<Rightarrow> None) else None)"
    by blast
  have "cache' 9 = Some None" "cache' 8 \<noteq> Some None" unfolding at by (simp_all add: AppLoader_load_def sample_linker_def)
  then show ?thesis using c by blast
qed

end
