(* ===== verification/Spec2Isabelle.thy ===== *)
theory Spec2Isabelle
  imports Prelude Prefix_Trie Std_Text Identifiers Static_Map Access_Info Heap_Chunk Modifier Scheduler Collisions Base64 Text_Buffer Session Executor Call_Contract Calls Requests Storage Processor Isolation Serializability Parallel Float64 Crypto_System Validator
begin

text \<open>
  A model of the C++ implementation of the Argennon smart contract execution environment (AscEE), and what makes it
  correct.

  \<^bold>\<open>The program.\<close> A block is a list of requests, each of which calls a smart contract. Pages of memory chunks are brought up
  to date by deltas and kept in a cache (\<^verbatim>\<open>src/storage\<close>); the chunks of a block are collected in an index. Every request
  declares the bytes of chunks that it accesses, and the block proposes an execution graph with an edge between two
  requests that must not be exchanged. The validator (\<^verbatim>\<open>src/validator\<close>) merges the declarations of all requests, checks
  chunk by chunk that the graph connects all requests whose accesses collide, and lets workers execute the requests in
  parallel in an order the graph allows. A request runs contracts in an executor (\<^verbatim>\<open>src/ascee/executor\<close>), which
  limits gas and call depth, keeps the contexts of nested calls and their entrance locks, and rolls the heap back when a call
  fails. Contracts see the heap only through the functions of \<^verbatim>\<open>src/ascee/argc\<close> and a modifier
  (\<^verbatim>\<open>src/ascee/heap\<close>) that holds the declared blocks of the request, with one version of the bytes for each nested call; it
  writes them to the chunks when the request has ended.

  \<^bold>\<open>Theories and sources.\<close>
  \<^item> \<open>Prelude\<close>: machine types of \<^verbatim>\<open>include/core/primitives.h\<close> as words, failures as values, shared lemmas on lists and
    bytes. \<open>Std_Text\<close>: printing and parsing of numbers by the C++ library.
  \<^item> \<open>Prefix_Trie\<close>: \<^verbatim>\<open>src/util/PrefixTrie.hpp\<close>; \<open>Identifiers\<close>: the identifiers of applications, accounts and chunks and their
    forms as bytes and text, \<^verbatim>\<open>include/core/primitives.h\<close> and \<^verbatim>\<open>tries.hpp\<close>.
  \<^item> \<open>Static_Map\<close>: \<^verbatim>\<open>src/util/OrderedStaticMap.hpp\<close> and the merging of maps; \<open>Access_Info\<close>: access declarations,
    \<^verbatim>\<open>include/core/info.h\<close>.
  \<^item> \<open>Heap_Chunk\<close>: \<^verbatim>\<open>Chunk.cpp\<close>, chunks and their deltas; \<open>Modifier\<close>: \<^verbatim>\<open>RestrictedModifier.cpp\<close>, versioned access to blocks.
  \<^item> \<open>Storage\<close>: \<^verbatim>\<open>Page.cpp\<close>, \<^verbatim>\<open>PageCache.cpp\<close>, \<^verbatim>\<open>ChunkIndex.cpp\<close>, \<^verbatim>\<open>AppIndex.cpp\<close>.
  \<^item> \<open>Scheduler\<close>: \<^verbatim>\<open>BlockingQueue.hpp\<close>, the nodes of the graph and the parallel loop of \<^verbatim>\<open>RequestScheduler.cpp\<close> and
    \<^verbatim>\<open>RequestProcessor.hpp\<close>, as a transition system of workers; \<open>Collisions\<close>: the check of the graph,
    \<^verbatim>\<open>RequestScheduler.h\<close>; \<open>Processor\<close>: the loading of requests, the division of work and the serial execution;
    \<open>Parallel\<close>: the workers of \<open>Scheduler\<close> on the heap of the block.
  \<^item> \<open>Session\<close>, \<open>Executor\<close>: failure manager, virtual signatures, the functions that contracts call, calls between contracts and
    \<^verbatim>\<open>executeOne\<close> (\<^verbatim>\<open>Executor.cpp\<close>, \<^verbatim>\<open>argc/functions\<close>).
  \<^item> \<open>Text_Buffer\<close>, \<open>Float64\<close>: strings (\<^verbatim>\<open>StringBuffer.h\<close>, \<^verbatim>\<open>string.cpp\<close>) and floating point arithmetic (\<^verbatim>\<open>float.cpp\<close>) of contracts.
  \<^item> \<open>Base64\<close>, \<open>Crypto_System\<close>: \<^verbatim>\<open>base64url.cpp\<close>, \<^verbatim>\<open>StaticArray.hpp\<close> and the signatures of \<^verbatim>\<open>CryptoSystem.cpp\<close>.
  \<^item> \<open>Validator\<close>: \<^verbatim>\<open>BlockValidator.cpp\<close> with its loaders, \<^verbatim>\<open>AppLoader.cpp\<close>.

  In each of them the definitions come first, one for each class (a record of its members), enumeration and function of the
  source, under the source's name where it is free; a suffix tells overloads apart. A function that changes its
  object takes the object and returns the changed one.

  \<^bold>\<open>How code becomes definitions.\<close> Integers whose overflow matters are words, or numbers with the wrap-around written out. A
  function that may throw returns \<open>exn + 'a\<close>; failed assertions and undefined behaviour (null pointers, accesses outside
  an array, signed overflow, a deque's empty front) are values of \<open>exn\<close> as well, so that a theorem that a function returns
  \<open>Inr\<close> excludes them. In the executor a computation is a function from a session to an outcome and a session;
  destructors run on both exits (\<open>with_destructor\<close>), and an exception that leaves a \<^verbatim>\<open>noexcept\<close> function stops
  the process. Pointers to chunks are addresses of a heap, so that two references to a chunk are the same chunk. Contracts are trees
  of the functions they call (\<open>app\<close>): any behaviour of a contract is a value of this type.

  \<^bold>\<open>Interfaces.\<close> The locales state what a component promises to its clients, and are interpreted on the model:
  \<open>prefix_codec\<close> (a self-delimiting code) on the four tries of the protocol, \<open>keyed_table\<close> and \<open>mergeable\<close> on the sorted maps and
  the maps of declarations, \<open>versioned_store\<close> (operations at a version leave older snapshots) on the modifier,
  \<open>dependency_graph\<close> on the scheduler's graph, and \<open>session_relation\<close> with its extension \<open>call_contract\<close> (laws of the steps and
  brackets of a call, from which every function, contract and nested call keeps a relation), twice: on the
  accounting of locks, gas, depth and versions in \<open>Calls\<close>, and on the layout of the modifier in \<open>Isolation\<close>.

  \<^bold>\<open>What is shown.\<close>
  \<^item> The block: whatever order the workers take the requests in, no request runs before those it depends on, and
    without failing requests every worker returns. A request reads and changes only what it has declared. A graph is
    accepted exactly when the checks that are run succeed, and a check that succeeds shows that all requests are connected
    whose blocks collide, for declared blocks that are equal or disjoint. Together: whichever worker moves when, a block that
    satisfies these conditions, no check being left out, and whose requests are all answered ends with the responses and the heap of the serial execution (theories \<open>Isolation\<close>,
    \<open>Serializability\<close>, \<open>Parallel\<close>). There a request takes effect at once, when its worker leaves \<^verbatim>\<open>executeOne\<close>. In the code a
    running request touches the shared heap only at the places it has declared and writes them at its end; requests that
    run at the same time are not connected by the graph, so that their places are apart.
  \<^item> A request: after a failed call the caller reads the heap as before it (what the call has stored stays behind under a
    version number that the next call gets); with controlled execution and without deferred calls, nested calls are bounded
    by gas and depth and a request ends; entrance locks exclude each other; a signature of a message that is not empty
    counts once.
  \<^item> Data: round trips of codes, identifiers, base64 and numbers; chunks keep their invariants under every
    operation and every delta, right or wrong; the modifier writes back exactly what the request sees, and the sum for additive blocks.
  \<^item> Defects: where the code does not do what it promises, a theorem shows the behaviour on a concrete or
    arbitrary input: work that is left out when it is divided among workers, blocks that a split of a block loses, a failed
    request that blocks all workers, an error message that ends the process, an inexact sum taken as exact, and a
    validator that accepts no request that calls an application.

  \<^bold>\<open>Bounds.\<close> \<open>dependant_call\<close> recurses through contracts and carries fuel for the nesting of calls. The code refuses more than
  \<open>MAX_CALL_DEPTH\<close> = 16 nested calls, so that 16 is enough for contracts that defer no calls (theory \<open>Requests\<close>); deferred calls
  recurse without this check, and then no fuel is enough (\<open>deferred_calls_unbounded\<close>). \<open>Stopped Out_of_fuel\<close> tells running out of
  fuel apart from every behaviour of the code. All other recursions are structural or have a measure; the
  cluster-product algorithm, which may not end, returns an option.

  Some integers are unbounded in the model, which agrees with the code as long as the number of bytes behind a reader of a trie
  is below 2 GiB, clocks are below \<open>2 ^ 54\<close>, and offset plus size of a declared block fits into 32 bits. The tries are modelled for words of 32 and 64 bits, the only
  ones used: for shorter words the integer promotion of C++ changes a mask.

  \<^bold>\<open>Arguments of the model.\<close> What the source does not contain is an argument: the contracts, the text of an exception
  (\<^verbatim>\<open>what\<close>), the pairing library and the hash function (\<open>pairing\<close> with \<open>pairing_laws\<close>), the dynamic linker (\<open>linker\<close>), the number
  of processors, and the addition of the floating point unit.

  \<^bold>\<open>Not modelled.\<close> The measuring of processor time and the installation of signal handlers (\<^verbatim>\<open>ThreadCpuTimer.cpp\<close>, parts of
  \<^verbatim>\<open>Executor.cpp\<close>) are calls of the operating system; that a contract is interrupted is an event of its tree (\<open>App_signal\<close>). The
  interleaving of machine instructions below the atomic actions of the scheduler and the queue, which are guarded by a mutex or
  an atomic counter, is not modelled. The programs \<^verbatim>\<open>main.cpp\<close> and \<^verbatim>\<open>signer.cpp\<close> print results for fixed data. What a
  failed delta leaves in a page, and a failed block in the cache, is not modelled: the source has no code yet that would
  restore them. Template instances that no code uses, printing for debugging and file access (the contents of
  files are arguments) are left out.
\<close>

end
